(* ===== verification/Prelude.thy ===== *)
theory Prelude
  imports Main "HOL-Library.Word" "HOL-Library.Multiset"
begin

text \<open>
  Shared vocabulary of the development: the machine integers and byte strings of the
  Rust sources, the outcome of a Rust computation (a value, an error of a closed enum,
  or a panic), checked unsigned arithmetic (the release profile keeps
  overflow checks on, so an overflowing addition panics), slices, big-endian
  encodings, the first matching position of a vector, and the contracts
  (locales) that several components share.
\<close>

named_theorems panic_simps \<open>unfolding rules for operations that may panic\<close>
named_theorems inv_intros \<open>operations preserve the invariant of their component\<close>

section \<open>Machine integers and byte strings\<close>

type_synonym u8 = "8 word"
type_synonym u16 = "16 word"
type_synonym u32 = "32 word"
type_synonym u64 = "64 word"
type_synonym bytes = "u8 list"

section \<open>Outcomes of a computation\<close>

datatype ('a, 'e) outcome = Ok 'a | Err 'e | Panic

text \<open>The question mark operator: continue on a value, return the error, propagate a panic.\<close>

primrec and_then :: "('a, 'e) outcome \<Rightarrow> ('a \<Rightarrow> ('b, 'e) outcome) \<Rightarrow> ('b, 'e) outcome" where
  "and_then (Ok x) f = f x"
| "and_then (Err e) f = Err e"
| "and_then Panic f = Panic"

primrec map_err :: "('e \<Rightarrow> 'f) \<Rightarrow> ('a, 'e) outcome \<Rightarrow> ('a, 'f) outcome" where
  "map_err f (Ok x) = Ok x"
| "map_err f (Err e) = Err (f e)"
| "map_err f Panic = Panic"

primrec is_ok :: "('a, 'e) outcome \<Rightarrow> bool" where
  "is_ok (Ok x) = True"
| "is_ok (Err e) = False"
| "is_ok Panic = False"

definition ok_or :: "'e \<Rightarrow> 'a option \<Rightarrow> ('a, 'e) outcome" where
  "ok_or e x = (case x of None \<Rightarrow> Err e | Some y \<Rightarrow> Ok y)"

lemma and_then_eq_Ok [simp]:
  "and_then r f = Ok y \<longleftrightarrow> (\<exists>x. r = Ok x \<and> f x = Ok y)"
  by (cases r) auto

lemma and_then_eq_Panic [simp]:
  "and_then r f = Panic \<longleftrightarrow> r = Panic \<or> (\<exists>x. r = Ok x \<and> f x = Panic)"
  by (cases r) auto

lemma and_then_eq_Err:
  "and_then r f = Err e \<longleftrightarrow> r = Err e \<or> (\<exists>x. r = Ok x \<and> f x = Err e)"
  by (cases r) auto

lemma guard_Ok:
  "(if c then Err e else r) = Ok y \<longleftrightarrow> \<not> c \<and> r = Ok y"
  "(if c then Panic else r) = Ok y \<longleftrightarrow> \<not> c \<and> r = Ok y"
  "(if c then r else Err e) = Ok y \<longleftrightarrow> c \<and> r = Ok y"
  "(if c then r else Panic) = Ok y \<longleftrightarrow> c \<and> r = Ok y"
  by auto

lemma map_err_eq_Ok [simp]: "map_err f r = Ok y \<longleftrightarrow> r = Ok y"
  by (cases r) auto

lemma map_err_eq_Panic [simp]: "map_err f r = Panic \<longleftrightarrow> r = Panic"
  by (cases r) auto

lemma map_err_eq_Err: "map_err f r = Err e \<longleftrightarrow> (\<exists>e'. r = Err e' \<and> e = f e')"
  by (cases r) auto

lemma ok_or_simps [simp]:
  "ok_or e (Some x) = Ok x" "ok_or e None = Err e"
  "ok_or e v = Ok y \<longleftrightarrow> v = Some y" "ok_or e v \<noteq> Panic"
  by (auto simp: ok_or_def split: option.splits)

text \<open>The same for a computation that also returns the state it leaves.\<close>

fun then_state ::
  "('a, 'e) outcome \<times> 's \<Rightarrow> ('a \<Rightarrow> 's \<Rightarrow> ('b, 'e) outcome \<times> 's) \<Rightarrow> ('b, 'e) outcome \<times> 's" where
  "then_state (Ok x, s) f = f x s"
| "then_state (Err e, s) f = (Err e, s)"
| "then_state (Panic, s) f = (Panic, s)"

lemma then_state_eq_Ok:
  "then_state r f = (Ok y, s') \<longleftrightarrow> (\<exists>x s. r = (Ok x, s) \<and> f x s = (Ok y, s'))"
  by (cases "(r, f)" rule: then_state.cases) auto

lemma snd_then_state:
  "Q (snd r) \<Longrightarrow> (\<And>x s. r = (Ok x, s) \<Longrightarrow> Q (snd (f x s))) \<Longrightarrow> Q (snd (then_state r f))"
  by (cases "(r, f)" rule: then_state.cases) auto

section \<open>Checked arithmetic\<close>

definition checked_add :: "'w::len word \<Rightarrow> 'w word \<Rightarrow> ('w word, 'e) outcome" where
  "checked_add a b = (if unat a + unat b < 2 ^ LENGTH('w) then Ok (a + b) else Panic)"

definition checked_mul :: "'w::len word \<Rightarrow> 'w word \<Rightarrow> ('w word, 'e) outcome" where
  "checked_mul a b = (if unat a * unat b < 2 ^ LENGTH('w) then Ok (a * b) else Panic)"

definition saturating_sub :: "'w::len word \<Rightarrow> 'w word \<Rightarrow> 'w word" where
  "saturating_sub a b = (if a < b then 0 else a - b)"

lemma checked_add_Ok:
  "checked_add a b = Ok c \<longleftrightarrow> unat a + unat b < 2 ^ LENGTH('w) \<and> c = a + (b::'w::len word)"
  by (auto simp: checked_add_def)

lemma unat_checked_add:
  "checked_add a b = Ok c \<Longrightarrow> unat c = unat a + unat b"
  by (auto simp: checked_add_def unat_word_ariths split: if_splits)

lemma unat_checked_mul:
  "checked_mul a b = Ok c \<Longrightarrow> unat c = unat a * unat b"
  by (auto simp: checked_mul_def unat_word_ariths split: if_splits)

lemma checked_add_not_Err [simp]: "checked_add a b \<noteq> Err e"
  by (simp add: checked_add_def)

lemma unat_saturating_sub: "unat (saturating_sub a b) = unat a - unat b"
  by (simp add: saturating_sub_def unat_sub_if' word_less_nat_alt)

lemma unat_word_of_nat: "n < 2 ^ LENGTH('w::len) \<Longrightarrow> unat (word_of_nat n :: 'w word) = n"
  by (simp add: unat_of_nat)

lemma unat_bounds: "unat (b :: u8) < 256" "unat (h :: u16) < 65536" "unat (w :: u32) < 4294967296"
  using unsigned_less [of b] unsigned_less [of h] unsigned_less [of w] by simp_all

section \<open>Slices\<close>

text \<open>The range index of Rust panics unless its bounds are ordered and within the length.\<close>

definition subslice :: "'a list \<Rightarrow> nat \<Rightarrow> nat \<Rightarrow> ('a list, 'e) outcome" where
  "subslice xs a b = (if a \<le> b \<and> b \<le> length xs then Ok (take (b - a) (drop a xs)) else Panic)"

definition index_at :: "'a list \<Rightarrow> nat \<Rightarrow> ('a, 'e) outcome" where
  "index_at xs i = (if i < length xs then Ok (xs ! i) else Panic)"

lemma subslice_in [panic_simps]:
  "a \<le> b \<Longrightarrow> b \<le> length xs \<Longrightarrow> subslice xs a b = Ok (take (b - a) (drop a xs))"
  by (simp add: subslice_def)

lemma index_at_in [panic_simps]: "i < length xs \<Longrightarrow> index_at xs i = Ok (xs ! i)"
  by (simp add: index_at_def)

section \<open>Big-endian encodings\<close>

primrec be_nat :: "bytes \<Rightarrow> nat" where
  "be_nat [] = 0"
| "be_nat (b # bs) = unat b * 256 ^ length bs + be_nat bs"

primrec nat_be :: "nat \<Rightarrow> nat \<Rightarrow> bytes" where
  "nat_be 0 n = []"
| "nat_be (Suc k) n = word_of_nat (n div 256 ^ k) # nat_be k n"

definition from_be_bytes :: "bytes \<Rightarrow> 'w::len word" where
  "from_be_bytes bs = word_of_nat (be_nat bs)"

definition to_be_bytes :: "'w::len word \<Rightarrow> bytes" where
  "to_be_bytes w = nat_be (LENGTH('w) div 8) (unat w)"

lemma length_nat_be [simp]: "length (nat_be k n) = k"
  by (induction k) auto

lemma be_nat_less: "be_nat bs < 256 ^ length bs"
proof (induction bs)
  case (Cons b bs)
  have "unat b < 256" using unsigned_less [of b] by simp
  have "be_nat (b # bs) < Suc (unat b) * 256 ^ length bs"
    using Cons by simp
  also have "\<dots> \<le> 256 * 256 ^ length bs"
    by (rule mult_le_mono1) (use \<open>unat b < 256\<close> in simp)
  finally show ?case by simp
qed simp

lemma be_nat_nat_be: "be_nat (nat_be k n) = n mod 256 ^ k"
proof (induction k)
  case (Suc k)
  have "n mod 256 ^ Suc k = 256 ^ k * (n div 256 ^ k mod 256) + n mod 256 ^ k"
    by (simp add: mod_mult2_eq mult.commute [of 256])
  with Suc show ?case by (simp add: unat_of_nat mult.commute)
qed simp

lemma nat_be_add_high: "k \<le> m \<Longrightarrow> nat_be k (a * 256 ^ m + n) = nat_be k n"
proof (induction k)
  case (Suc k)
  then obtain d where d: "m = Suc k + d" using le_Suc_ex by blast
  have "(a * 256 ^ m + n) div 256 ^ k = a * 256 ^ d * 256 + n div 256 ^ k"
  proof -
    have "a * 256 ^ m + n = n + (a * 256 ^ d * 256) * 256 ^ k"
      by (simp add: d power_add)
    then show ?thesis by (simp only: div_mult_self1 power_not_zero) simp
  qed
  moreover have "word_of_nat (a * 256 ^ d * 256) = (0 :: u8)"
    by (subst word_of_nat_eq_0_iff) simp
  ultimately have "word_of_nat ((a * 256 ^ m + n) div 256 ^ k) = (word_of_nat (n div 256 ^ k) :: u8)"
    by (simp only: of_nat_add) simp
  with Suc show ?case by simp
qed simp

lemma nat_be_be_nat: "nat_be (length bs) (be_nat bs) = bs"
proof (induction bs)
  case (Cons b bs)
  have "(unat b * 256 ^ length bs + be_nat bs) div 256 ^ length bs = unat b"
    using be_nat_less [of bs] by simp
  with Cons show ?case by (simp add: nat_be_add_high)
qed simp

lemma length_to_be_bytes [simp]: "length (to_be_bytes (w :: 'w::len word)) = LENGTH('w) div 8"
  by (simp add: to_be_bytes_def)

lemma from_be_to_be:
  assumes "LENGTH('w::len) = 8 * k"
  shows "from_be_bytes (to_be_bytes (w :: 'w word)) = w"
proof -
  have "unat w < 256 ^ k"
    using unsigned_less [of w] assms by (simp add: power_mult)
  with assms show ?thesis
    by (simp add: from_be_bytes_def to_be_bytes_def be_nat_nat_be)
qed

lemma to_be_from_be:
  assumes "LENGTH('w::len) = 8 * length bs"
  shows "to_be_bytes (from_be_bytes bs :: 'w word) = bs"
proof -
  have "be_nat bs < 2 ^ LENGTH('w)"
    using be_nat_less [of bs] assms by (simp add: power_mult)
  with assms show ?thesis
    by (simp add: from_be_bytes_def to_be_bytes_def unat_of_nat nat_be_be_nat)
qed

lemma from_to_be_u16 [simp]: "from_be_bytes (to_be_bytes (w :: u16)) = w"
  by (rule from_be_to_be [where k = 2]) simp

lemma from_to_be_u32 [simp]: "from_be_bytes (to_be_bytes (w :: u32)) = w"
  by (rule from_be_to_be [where k = 4]) simp

lemma from_to_be_u64 [simp]: "from_be_bytes (to_be_bytes (w :: u64)) = w"
  by (rule from_be_to_be [where k = 8]) simp

lemma to_from_be_u16: "length bs = 2 \<Longrightarrow> to_be_bytes (from_be_bytes bs :: u16) = bs"
  by (rule to_be_from_be) simp

lemma to_from_be_u32: "length bs = 4 \<Longrightarrow> to_be_bytes (from_be_bytes bs :: u32) = bs"
  by (rule to_be_from_be) simp

lemma to_from_be_u64: "length bs = 8 \<Longrightarrow> to_be_bytes (from_be_bytes bs :: u64) = bs"
  by (rule to_be_from_be) simp

lemmas to_from_be = to_from_be_u16 to_from_be_u32 to_from_be_u64

section \<open>Positions in a vector\<close>

text \<open>The index of the first element a predicate accepts (the iterator method position).\<close>

primrec position :: "('a \<Rightarrow> bool) \<Rightarrow> 'a list \<Rightarrow> nat option" where
  "position P [] = None"
| "position P (x # xs) = (if P x then Some 0 else map_option Suc (position P xs))"

lemma position_None: "position P xs = None \<longleftrightarrow> (\<forall>x\<in>set xs. \<not> P x)"
  by (induction xs) auto

lemma position_SomeD:
  "position P xs = Some i \<Longrightarrow> i < length xs \<and> P (xs ! i) \<and> (\<forall>j<i. \<not> P (xs ! j))"
proof (induction xs arbitrary: i)
  case (Cons x xs)
  show ?case
  proof (cases "P x")
    case False
    with Cons.prems obtain k where k: "position P xs = Some k" and i: "i = Suc k" by auto
    from Cons.IH [OF k] False i show ?thesis by (auto simp: nth_Cons split: nat.splits)
  qed (use Cons.prems in auto)
qed simp

lemma position_SomeI:
  "i < length xs \<Longrightarrow> P (xs ! i) \<Longrightarrow> (\<And>j. j < i \<Longrightarrow> \<not> P (xs ! j)) \<Longrightarrow> position P xs = Some i"
proof (induction xs arbitrary: i)
  case (Cons x xs)
  show ?case
  proof (cases i)
    case (Suc k)
    have "\<not> P x" using Cons.prems(3) [of 0] Suc by simp
    moreover have "position P xs = Some k"
      using Cons.prems Suc by (intro Cons.IH) fastforce+
    ultimately show ?thesis using Suc by simp
  qed (use Cons.prems in auto)
qed simp

lemma position_less: "position P xs = Some i \<Longrightarrow> i < length xs"
  by (simp add: position_SomeD)

lemma option_eqI: "(\<And>v. a = Some v \<longleftrightarrow> b = Some v) \<Longrightarrow> a = b"
  by (cases a; cases b) auto

text \<open>Filtering a vector around one position, and after writing to it.\<close>

lemma filter_around:
  "i < length xs \<Longrightarrow>
     filter P xs = filter P (take i xs) @ (if P (xs ! i) then [xs ! i] else []) @ filter P (drop (Suc i) xs)"
  by (subst id_take_nth_drop [of i xs]) simp_all

lemma filter_list_update:
  "i < length xs \<Longrightarrow>
     filter P (xs[i := y]) = filter P (take i xs) @ (if P y then [y] else []) @ filter P (drop (Suc i) xs)"
  by (simp add: upd_conv_take_nth_drop)

lemma set_around: "i < length xs \<Longrightarrow> set xs = insert (xs ! i) (set (take i xs) \<union> set (drop (Suc i) xs))"
  by (subst id_take_nth_drop [of i xs]) auto

lemma map_list_update_same: "f y = f (xs ! i) \<Longrightarrow> map f (xs[i := y]) = map f xs"
  by (metis list_update_beyond list_update_id map_update not_less nth_map)

text \<open>Vec::swap_remove: the last element takes the place of the removed one.\<close>

definition swap_remove :: "nat \<Rightarrow> 'a list \<Rightarrow> 'a list" where
  "swap_remove i xs = butlast (xs[i := last xs])"

lemma length_swap_remove [simp]: "length (swap_remove i xs) = length xs - 1"
  by (simp add: swap_remove_def)

lemma swap_remove_cases:
  assumes "i < length xs"
  obtains (last) "i = length xs - 1" "swap_remove i xs = take i xs"
  | (mid) ys where "drop (Suc i) xs = ys @ [last xs]" "swap_remove i xs = take i xs @ last xs # ys"
proof (cases "i = length xs - 1")
  case True
  have "swap_remove i xs = take i xs"
    unfolding swap_remove_def butlast_conv_take by (simp add: True take_update_cancel)
  with True show ?thesis by (rule last)
next
  case False
  with assms have ne: "drop (Suc i) xs \<noteq> []" by simp
  then obtain ys where ys: "drop (Suc i) xs = ys @ [last (drop (Suc i) xs)]"
    by (metis append_butlast_last_id)
  have l: "last (drop (Suc i) xs) = last xs" using ne by (simp add: last_drop)
  have "xs[i := last xs] = take i xs @ last xs # drop (Suc i) xs"
    using assms by (simp add: upd_conv_take_nth_drop)
  with ys l have "xs[i := last xs] = (take i xs @ last xs # ys) @ [last xs]" by simp
  then have "swap_remove i xs = take i xs @ last xs # ys"
    unfolding swap_remove_def by (simp add: butlast_append)
  with ys l show ?thesis by (intro mid) simp_all
qed

lemma mset_swap_remove:
  assumes "i < length xs"
  shows "mset (swap_remove i xs) = mset xs - {#xs ! i#}"
proof -
  have xs: "mset xs = mset (take i xs) + {#xs ! i#} + mset (drop (Suc i) xs)"
    by (subst id_take_nth_drop [OF assms]) simp
  from assms show ?thesis
    by (rule swap_remove_cases) (simp_all add: xs)
qed

lemma set_swap_remove: "i < length xs \<Longrightarrow> set (swap_remove i xs) \<subseteq> set xs"
  using mset_swap_remove [of i xs] by (metis diff_subset_eq_self set_mset_mono set_mset_mset)

lemma distinct_map_swap_remove:
  assumes "i < length xs" "distinct (map f xs)"
  shows "distinct (map f (swap_remove i xs))"
proof -
  have "mset (map f (swap_remove i xs)) \<subseteq># mset (map f xs)"
    using mset_swap_remove [OF assms(1)] by (simp add: image_mset_subseteq_mono)
  then have "count (mset (map f (swap_remove i xs))) a \<le> count (mset (map f xs)) a" for a
    by (rule mset_subset_eq_count)
  then have "count (mset (map f (swap_remove i xs))) a \<le> 1" for a
    using assms(2) by (metis distinct_count_atmost_1 order_trans zero_le_one order_refl)
  then show ?thesis unfolding distinct_count_atmost_1
    by (metis count_eq_zero_iff le_SucE le_zero_eq One_nat_def set_mset_mset)
qed

section \<open>Contracts shared by the components\<close>

text \<open>
  A message format: the parser accepts exactly the encodings of well-formed messages.
  Everything the wire layer promises follows: re-encoding what was parsed gives back the
  input, a well-formed message survives the trip, and no message has two encodings.
\<close>

locale message_format =
  fixes parse :: "bytes \<Rightarrow> ('m, 'e) outcome"
    and encode :: "'m \<Rightarrow> bytes"
    and wf :: "'m \<Rightarrow> bool"
  assumes parse_Ok_iff: "parse b = Ok m \<longleftrightarrow> wf m \<and> b = encode m"
begin

lemma parse_encode: "wf m \<Longrightarrow> parse (encode m) = Ok m"
  by (simp add: parse_Ok_iff)

lemma encode_parse: "parse b = Ok m \<Longrightarrow> encode m = b"
  by (simp add: parse_Ok_iff)

lemma parse_wf: "parse b = Ok m \<Longrightarrow> wf m"
  by (simp add: parse_Ok_iff)

lemma encode_inj: "wf m \<Longrightarrow> wf m' \<Longrightarrow> encode m = encode m' \<Longrightarrow> m = m'"
  by (metis parse_encode outcome.inject(1))

lemma not_malleable: "parse b = Ok m \<Longrightarrow> parse b' = Ok m \<Longrightarrow> b = b'"
  by (simp add: parse_Ok_iff)

end

text \<open>
  A table in which the first value written under a key stays: writing the same value again
  succeeds, another value is refused as a divergence, and a new key is refused once the table
  is full. What a client may rely on: a binding never changes, and no two different
  values are ever both accepted under one key.
\<close>

locale first_write_table =
  fixes lookup :: "'s \<Rightarrow> 'k \<Rightarrow> 'v option"
    and put :: "'k \<Rightarrow> 'v \<Rightarrow> 's \<Rightarrow> (unit, 'e) outcome \<times> 's"
    and full :: "'s \<Rightarrow> bool"
    and diverges :: 'e
    and no_room :: 'e
  assumes put_known: "lookup s k = Some w \<Longrightarrow> put k v s = (if w = v then Ok () else Err diverges, s)"
    and put_full: "lookup s k = None \<Longrightarrow> full s \<Longrightarrow>
      fst (put k v s) = Err no_room \<and> lookup (snd (put k v s)) = lookup s"
    and put_new: "lookup s k = None \<Longrightarrow> \<not> full s \<Longrightarrow>
      fst (put k v s) = Ok () \<and> lookup (snd (put k v s)) = (lookup s)(k \<mapsto> v)"
begin

lemma put_lookup:
  "lookup (snd (put k v s)) = (if lookup s k = None \<and> \<not> full s then (lookup s)(k \<mapsto> v) else lookup s)"
  using put_known [of s k _ v] put_full [of s k v] put_new [of s k v] by (cases "lookup s k") auto

lemma put_result:
  "fst (put k v s) =
     (case lookup s k of
        Some w \<Rightarrow> if w = v then Ok () else Err diverges
      | None \<Rightarrow> if full s then Err no_room else Ok ())"
  using put_known [of s k _ v] put_full [of s k v] put_new [of s k v] by (cases "lookup s k") auto

lemma put_keeps: "lookup s k = Some v \<Longrightarrow> lookup (snd (put k' v' s)) k = Some v"
  by (auto simp: put_lookup)

lemma puts_keep:
  "lookup s k = Some v \<Longrightarrow> lookup (fold (\<lambda>(k, v) s. snd (put k v s)) kvs s) k = Some v"
  by (induction kvs arbitrary: s) (auto simp: put_keeps)

lemma put_Ok: "fst (put k v s) = Ok () \<longleftrightarrow> lookup (snd (put k v s)) k = Some v"
  by (auto simp: put_result put_lookup split: option.splits)

text \<open>Once a value was accepted under a key, exactly that value is accepted again.\<close>

lemma put_again:
  assumes "fst (put k v s) = Ok ()"
  shows "fst (put k w (fold (\<lambda>(k, v) s. snd (put k v s)) kvs (snd (put k v s))))
    = (if w = v then Ok () else Err diverges)"
proof -
  have "lookup (fold (\<lambda>(k, v) s. snd (put k v s)) kvs (snd (put k v s))) k = Some v"
    using assms by (intro puts_keep) (simp add: put_Ok)
  then show ?thesis by (auto simp: put_result)
qed

end

text \<open>
  A component with an invariant: it holds of the initial state and every operation keeps
  it, so it holds after any sequence of operations.
\<close>

locale guarded_machine =
  fixes init :: "'s"
    and step :: "'op \<Rightarrow> 's \<Rightarrow> 's"
    and inv :: "'s \<Rightarrow> bool"
  assumes inv_init: "inv init"
    and inv_step: "inv s \<Longrightarrow> inv (step op s)"
begin

lemma inv_run_from: "inv s \<Longrightarrow> inv (fold step ops s)"
  by (induction ops arbitrary: s) (simp_all add: inv_step)

lemma inv_run: "inv (fold step ops init)"
  by (rule inv_run_from [OF inv_init])

end

end
