(* ===== verification/Crypto.thy ===== *)
theory Crypto
  imports Prelude
begin

text \<open>
  The cryptographic primitives the crate takes from third-party packages (ed25519-dalek,
  x25519-dalek, blake2, chacha20poly1305) are parameters of the model, bundled in one
  record that the definitions take as an argument. Nothing about them is assumed here;
  a theorem that relies on documented behaviour of a primitive states it as a hypothesis.
\<close>

record crypto =
  ed_key_ok :: "bytes \<Rightarrow> bool"  \<comment> \<open>VerifyingKey::from_bytes succeeds\<close>
  ed_sig_ok :: "bytes \<Rightarrow> bool"  \<comment> \<open>Signature::from_slice succeeds\<close>
  ed_verify :: "bytes \<Rightarrow> bytes \<Rightarrow> bytes \<Rightarrow> bool"  \<comment> \<open>key, message, signature\<close>
  ed_public :: "bytes \<Rightarrow> bytes"  \<comment> \<open>verifying key of a signing key\<close>
  ed_sign :: "bytes \<Rightarrow> bytes \<Rightarrow> bytes"  \<comment> \<open>signing key, message\<close>
  blake2s :: "bytes \<Rightarrow> bytes"  \<comment> \<open>unkeyed BLAKE2s-256\<close>
  blake2s_mac :: "bytes \<Rightarrow> bytes \<Rightarrow> bytes"  \<comment> \<open>BLAKE2s-128 keyed with the first argument\<close>
  x25519 :: "bytes \<Rightarrow> bytes \<Rightarrow> bytes"  \<comment> \<open>scalar, point\<close>
  x25519_base :: bytes
  aead_seal :: "bytes \<Rightarrow> bytes \<Rightarrow> bytes \<Rightarrow> bytes \<Rightarrow> bytes"  \<comment> \<open>key, nonce, ad, plaintext\<close>
  aead_open :: "bytes \<Rightarrow> bytes \<Rightarrow> bytes \<Rightarrow> bytes \<Rightarrow> bytes option"  \<comment> \<open>key, nonce, ad, ciphertext\<close>

text \<open>
  A concrete instance, used only where a theorem about the code is applied to a concrete
  input: a signature is valid when it starts with the key, hashes and tags are padded
  prefixes, and the group operation is bytewise addition.
\<close>

definition pad_to :: "nat \<Rightarrow> bytes \<Rightarrow> bytes" where
  "pad_to n bs = take n (bs @ replicate n 0)"

definition toy_crypto :: crypto where
  "toy_crypto =
     \<lparr>ed_key_ok = (\<lambda>k. length k = 32), ed_sig_ok = (\<lambda>s. length s = 64),
      ed_verify = (\<lambda>k m s. take 32 s = k), ed_public = (\<lambda>k. k),
      ed_sign = (\<lambda>k m. pad_to 64 k),
      blake2s = pad_to 32, blake2s_mac = (\<lambda>k m. pad_to 16 k),
      x25519 = (\<lambda>a b. map2 (+) a b), x25519_base = replicate 32 9,
      aead_seal = (\<lambda>k n ad pt. pt @ pad_to 16 k),
      aead_open = (\<lambda>k n ad ct.
        if length ct < 16 then None
        else if drop (length ct - 16) ct = pad_to 16 k then Some (take (length ct - 16) ct)
        else None)\<rparr>"

lemma length_pad_to [simp]: "length (pad_to n bs) = n"
  by (simp add: pad_to_def)

end
