(* ===== verification/Codec.thy ===== *)
theory Codec
  imports Prelude Crypto "HOL-Library.List_Lexorder"
begin

text \<open>
  The wire codec (src/src/codec.rs): the cursor through which every read goes, the six
  channel structures, their parsers and canonical encoders, and the domain-separated
  signature check. The lemmas show that each parser accepts exactly the encodings of the
  well-formed structures (so parsing and encoding are inverse in both directions and no
  structure has a second encoding) and that no input makes a parser panic.
\<close>

section \<open>Limits and tags\<close>

definition MAX_MESSAGE :: nat where "MAX_MESSAGE = 1048576"
definition MAX_HEADER :: nat where "MAX_HEADER = 512"
definition MAX_BODY :: u32 where "MAX_BODY = word_of_nat (MAX_MESSAGE - MAX_HEADER)"
definition MAX_PARENTS :: u8 where "MAX_PARENTS = 4"
definition MAX_RESOURCE :: nat where "MAX_RESOURCE = 256"
definition MAX_ACTION :: u32 where "MAX_ACTION = 256 * 1024"
definition MAX_RATIONALE :: nat where "MAX_RATIONALE = 4 * 1024"
definition MAX_NOTE :: nat where "MAX_NOTE = 1024"
definition MAX_NAME :: nat where "MAX_NAME = 64"
definition MAX_SCOPE :: u8 where "MAX_SCOPE = 8"
definition MAX_CA_SIGS :: u8 where "MAX_CA_SIGS = 4"

definition LEN_PUBKEY :: nat where "LEN_PUBKEY = 32"
definition LEN_SIG :: nat where "LEN_SIG = 64"
definition LEN_CHANNEL_ID :: nat where "LEN_CHANNEL_ID = 32"
definition LEN_PARENT :: nat where "LEN_PARENT = 32"
definition LEN_INTENT_ID :: nat where "LEN_INTENT_ID = 16"
definition LEN_GRANT_ID :: nat where "LEN_GRANT_ID = 16"
definition LEN_ACTION_DIGEST :: nat where "LEN_ACTION_DIGEST = 32"
definition LEN_SCOPE_ID :: nat where "LEN_SCOPE_ID = 8"
definition LEN_SPAN_REF :: nat where "LEN_SPAN_REF = 16"
definition LEN_CA_KEY :: nat where "LEN_CA_KEY = 32"
definition LEN_SPAN_ID :: nat where "LEN_SPAN_ID = 16"
definition LEN_TRACE_ID :: nat where "LEN_TRACE_ID = 16"
definition LEN_ORIGIN :: nat where "LEN_ORIGIN = 32"
definition LEN_DIGEST :: nat where "LEN_DIGEST = 32"

definition DOMAIN_CERT :: u8 where "DOMAIN_CERT = 1"
definition DOMAIN_ENVELOPE :: u8 where "DOMAIN_ENVELOPE = 2"
definition DOMAIN_SPAN :: u8 where "DOMAIN_SPAN = 3"
definition DOMAIN_GRANT :: u8 where "DOMAIN_GRANT = 4"
definition DOMAIN_REFUSAL :: u8 where "DOMAIN_REFUSAL = 6"

definition BODY_UTTERANCE :: u8 where "BODY_UTTERANCE = 1"
definition BODY_INTENT :: u8 where "BODY_INTENT = 2"
definition BODY_GRANT :: u8 where "BODY_GRANT = 3"
definition BODY_EFFECT :: u8 where "BODY_EFFECT = 4"
definition BODY_CONTROL :: u8 where "BODY_CONTROL = 5"
definition BODY_REFUSAL :: u8 where "BODY_REFUSAL = 6"

definition ROLE_AGENT :: u8 where "ROLE_AGENT = push_bit 1 1"
definition ROLE_EXECUTOR :: u8 where "ROLE_EXECUTOR = push_bit 2 1"
definition ROLE_APPROVER :: u8 where "ROLE_APPROVER = push_bit 3 1"

lemmas codec_limits =
  MAX_MESSAGE_def MAX_HEADER_def MAX_BODY_def MAX_PARENTS_def MAX_RESOURCE_def MAX_ACTION_def
  MAX_RATIONALE_def MAX_NOTE_def MAX_NAME_def MAX_SCOPE_def MAX_CA_SIGS_def

lemmas codec_lens =
  LEN_PUBKEY_def LEN_SIG_def LEN_CHANNEL_ID_def LEN_PARENT_def LEN_INTENT_ID_def
  LEN_GRANT_ID_def LEN_ACTION_DIGEST_def LEN_SCOPE_ID_def LEN_SPAN_REF_def LEN_CA_KEY_def
  LEN_SPAN_ID_def LEN_TRACE_ID_def LEN_ORIGIN_def LEN_DIGEST_def

datatype parse_error = Truncated | Oversize | TrailingBytes | Malformed

section \<open>The cursor\<close>

record cursor =
  cur_buf :: bytes
  cur_pos :: nat

definition cursor_new :: "bytes \<Rightarrow> cursor" where
  "cursor_new buf = \<lparr>cur_buf = buf, cur_pos = 0\<rparr>"

definition cursor_need :: "cursor \<Rightarrow> nat \<Rightarrow> (unit, parse_error) outcome" where
  "cursor_need c n = (if cur_pos c + n \<le> length (cur_buf c) then Ok () else Err Truncated)"

definition cursor_u8r :: "cursor \<Rightarrow> (u8 \<times> cursor, parse_error) outcome" where
  "cursor_u8r c =
     and_then (cursor_need c 1) (\<lambda>_.
     and_then (index_at (cur_buf c) (cur_pos c)) (\<lambda>v.
     Ok (v, c\<lparr>cur_pos := cur_pos c + 1\<rparr>)))"

definition cursor_u16be :: "cursor \<Rightarrow> (u16 \<times> cursor, parse_error) outcome" where
  "cursor_u16be c =
     and_then (cursor_need c 2) (\<lambda>_.
     and_then (index_at (cur_buf c) (cur_pos c)) (\<lambda>b0.
     and_then (index_at (cur_buf c) (cur_pos c + 1)) (\<lambda>b1.
     Ok (from_be_bytes [b0, b1], c\<lparr>cur_pos := cur_pos c + 2\<rparr>))))"

definition cursor_u32be :: "cursor \<Rightarrow> (u32 \<times> cursor, parse_error) outcome" where
  "cursor_u32be c =
     and_then (cursor_need c 4) (\<lambda>_.
     and_then (index_at (cur_buf c) (cur_pos c)) (\<lambda>b0.
     and_then (index_at (cur_buf c) (cur_pos c + 1)) (\<lambda>b1.
     and_then (index_at (cur_buf c) (cur_pos c + 2)) (\<lambda>b2.
     and_then (index_at (cur_buf c) (cur_pos c + 3)) (\<lambda>b3.
     Ok (from_be_bytes [b0, b1, b2, b3], c\<lparr>cur_pos := cur_pos c + 4\<rparr>))))))"

definition cursor_u64be :: "cursor \<Rightarrow> (u64 \<times> cursor, parse_error) outcome" where
  "cursor_u64be c =
     and_then (cursor_need c 8) (\<lambda>_.
     and_then (subslice (cur_buf c) (cur_pos c) (cur_pos c + 8)) (\<lambda>b.
     Ok (from_be_bytes b, c\<lparr>cur_pos := cur_pos c + 8\<rparr>)))"

definition cursor_take :: "cursor \<Rightarrow> nat \<Rightarrow> (bytes \<times> cursor, parse_error) outcome" where
  "cursor_take c n =
     and_then (cursor_need c n) (\<lambda>_.
     and_then (subslice (cur_buf c) (cur_pos c) (cur_pos c + n)) (\<lambda>s.
     Ok (s, c\<lparr>cur_pos := cur_pos c + n\<rparr>)))"

definition cursor_field16 :: "cursor \<Rightarrow> nat \<Rightarrow> (bytes \<times> cursor, parse_error) outcome" where
  "cursor_field16 c lim =
     and_then (cursor_u16be c) (\<lambda>(w, c).
     if unat w > lim then Err Oversize else cursor_take c (unat w))"

definition cursor_field32 :: "cursor \<Rightarrow> u32 \<Rightarrow> (bytes \<times> cursor, parse_error) outcome" where
  "cursor_field32 c lim =
     and_then (cursor_u32be c) (\<lambda>(len, c).
     if len > lim then Err Oversize else cursor_take c (unat len))"

definition cursor_rest :: "cursor \<Rightarrow> (bytes, parse_error) outcome" where
  "cursor_rest c = subslice (cur_buf c) (cur_pos c) (length (cur_buf c))"

text \<open>
  The bytes a cursor has passed and the bytes it still has, and the effect of each read on
  them: a successful read moves exactly its own encoding from the one to the other.
\<close>

definition consumed :: "cursor \<Rightarrow> bytes" where
  "consumed c = take (cur_pos c) (cur_buf c)"

definition remaining :: "cursor \<Rightarrow> bytes" where
  "remaining c = drop (cur_pos c) (cur_buf c)"

definition reads :: "cursor \<Rightarrow> bytes \<Rightarrow> cursor \<Rightarrow> bool" where
  "reads c s c' \<longleftrightarrow> remaining c = s @ remaining c' \<and> consumed c' = consumed c @ s
     \<and> cur_buf c' = cur_buf c \<and> cur_pos c' = cur_pos c + length s
     \<and> cur_pos c' \<le> length (cur_buf c')"


definition adv :: "nat \<Rightarrow> cursor \<Rightarrow> cursor" where
  "adv n c = c\<lparr>cur_pos := cur_pos c + n\<rparr>"

definition cursor_ok :: "cursor \<Rightarrow> bool" where
  "cursor_ok c \<longleftrightarrow> cur_pos c \<le> length (cur_buf c)"

lemma cursor_new_facts [simp]:
  "remaining (cursor_new b) = b" "consumed (cursor_new b) = []" "cursor_ok (cursor_new b)"
  "cur_buf (cursor_new b) = b" "cur_pos (cursor_new b) = 0"
  by (simp_all add: cursor_new_def remaining_def consumed_def cursor_ok_def)

lemma adv_facts [simp]:
  "remaining (adv n c) = drop n (remaining c)" "cur_buf (adv n c) = cur_buf c"
  by (simp_all add: adv_def remaining_def add.commute)

lemma consumed_adv [simp]: "consumed (adv n c) = consumed c @ take n (remaining c)"
  by (simp add: adv_def remaining_def consumed_def take_add)

lemma cursor_ok_adv [simp]: "cursor_ok c \<Longrightarrow> cursor_ok (adv n c) \<longleftrightarrow> n \<le> length (remaining c)"
  by (auto simp: cursor_ok_def remaining_def adv_def)

lemma length_remaining: "length (remaining c) = length (cur_buf c) - cur_pos c"
  by (simp add: remaining_def)

lemma reads_remaining: "reads c s c' \<Longrightarrow> remaining c = s @ remaining c'"
  by (simp add: reads_def)

lemma reads_consumed: "reads c s c' \<Longrightarrow> consumed c' = consumed c @ s"
  by (simp add: reads_def)

lemma reads_buf: "reads c s c' \<Longrightarrow> cur_buf c' = cur_buf c"
  by (simp add: reads_def)

lemma reads_ok: "reads c s c' \<Longrightarrow> cursor_ok c'"
  by (auto simp: reads_def cursor_ok_def)

lemma cur_pos_adv: "cur_pos (adv n c) = cur_pos c + n"
  by (simp add: adv_def)

lemma reads_adv: "cursor_ok c \<Longrightarrow> n \<le> length (remaining c) \<Longrightarrow> reads c (take n (remaining c)) (adv n c)"
  by (auto simp: reads_def cursor_ok_def cur_pos_adv length_remaining)

lemma reads_iff:
  "reads c s c' \<longleftrightarrow> c' = c\<lparr>cur_pos := cur_pos c + length s\<rparr> \<and> cur_pos c + length s \<le> length (cur_buf c)
     \<and> s = take (length s) (drop (cur_pos c) (cur_buf c))"
proof -
  have "reads c s c'" if "c' = c\<lparr>cur_pos := cur_pos c + length s\<rparr>"
      "cur_pos c + length s \<le> length (cur_buf c)"
      "s = take (length s) (drop (cur_pos c) (cur_buf c))"
    using that reads_adv [of c "length s"]
    by (simp add: adv_def remaining_def cursor_ok_def)
  moreover have "s = take (length s) (drop (cur_pos c) (cur_buf c))" if "reads c s c'"
    using that by (simp add: reads_def remaining_def)
  ultimately show ?thesis by (auto simp: reads_def)
qed

subsection \<open>What each read returns\<close>

lemma cursor_take_Ok: "cursor_take c n = Ok (s, c') \<longleftrightarrow> reads c s c' \<and> length s = n"
  by (auto simp: cursor_take_def cursor_need_def subslice_def reads_iff split: if_splits)

lemma take_drop_Cons:
  "i < length xs \<Longrightarrow> take (Suc n) (drop i xs) = xs ! i # take n (drop (Suc i) xs)"
  by (simp add: Cons_nth_drop_Suc [symmetric])

lemma cursor_u8r_Ok: "cursor_u8r c = Ok (v, c') \<longleftrightarrow> reads c [v] c'"
  by (auto simp: cursor_u8r_def cursor_need_def index_at_def reads_iff take_drop_Cons
      split: if_splits)

lemma index_pair:
  "i + 2 \<le> length xs \<Longrightarrow> [xs ! i, xs ! (i + 1)] = take 2 (drop i xs)"
  by (simp add: numeral_2_eq_2 take_drop_Cons)

lemma index_quad:
  "i + 4 \<le> length xs \<Longrightarrow> [xs ! i, xs ! (i + 1), xs ! (i + 2), xs ! (i + 3)] = take 4 (drop i xs)"
  by (simp add: numeral_eq_Suc take_drop_Cons)

lemma cursor_u16be_eq:
  "cursor_u16be c = and_then (cursor_take c 2) (\<lambda>(s, c'). Ok (from_be_bytes s, c'))"
  using index_pair [of "cur_pos c" "cur_buf c"]
  by (auto simp: cursor_u16be_def cursor_take_def cursor_need_def index_at_def subslice_def)

lemma cursor_u32be_eq:
  "cursor_u32be c = and_then (cursor_take c 4) (\<lambda>(s, c'). Ok (from_be_bytes s, c'))"
  using index_quad [of "cur_pos c" "cur_buf c"]
  by (auto simp: cursor_u32be_def cursor_take_def cursor_need_def index_at_def subslice_def)

lemma cursor_u64be_eq:
  "cursor_u64be c = and_then (cursor_take c 8) (\<lambda>(s, c'). Ok (from_be_bytes s, c'))"
  by (auto simp: cursor_u64be_def cursor_take_def cursor_need_def subslice_def)

lemma cursor_u16be_Ok: "cursor_u16be c = Ok (w, c') \<longleftrightarrow> reads c (to_be_bytes w) c'"
  by (auto simp: cursor_u16be_eq cursor_take_Ok to_from_be)

lemma cursor_u32be_Ok: "cursor_u32be c = Ok (w, c') \<longleftrightarrow> reads c (to_be_bytes w) c'"
  by (auto simp: cursor_u32be_eq cursor_take_Ok to_from_be)

lemma cursor_u64be_Ok: "cursor_u64be c = Ok (w, c') \<longleftrightarrow> reads c (to_be_bytes w) c'"
  by (auto simp: cursor_u64be_eq cursor_take_Ok to_from_be)

lemma reads_append: "reads c (s @ t) c'' \<longleftrightarrow> (\<exists>c'. reads c s c' \<and> reads c' t c'')"
proof
  assume r: "reads c (s @ t) c''"
  then have "s @ t = take (length s + length t) (drop (cur_pos c) (cur_buf c))"
    unfolding reads_iff by simp
  from arg_cong [where f = "take (length s)", OF this] arg_cong [where f = "drop (length s)", OF this]
  have "s = take (length s) (drop (cur_pos c) (cur_buf c))"
    and "t = take (length t) (drop (cur_pos c + length s) (cur_buf c))"
    by (simp_all add: drop_take add.commute)
  moreover from r have "cur_pos c + length s + length t \<le> length (cur_buf c)"
    and "c'' = c\<lparr>cur_pos := cur_pos c + length s + length t\<rparr>"
    by (auto simp: reads_def)
  ultimately have "reads c s (adv (length s) c)" "reads (adv (length s) c) t c''"
    unfolding reads_iff adv_def by simp_all
  then show "\<exists>c'. reads c s c' \<and> reads c' t c''" by blast
qed (auto simp: reads_def)


lemma cursor_field16_Ok:
  assumes "lim < 65536"
  shows "cursor_field16 c lim = Ok (v, c') \<longleftrightarrow>
     length v \<le> lim \<and> reads c (to_be_bytes (word_of_nat (length v) :: u16) @ v) c'"
proof -
  have "unat (word_of_nat (length v) :: u16) = length v" if "length v \<le> lim"
    using that assms by (intro unat_word_of_nat) simp
  then show ?thesis
    by (force simp: cursor_field16_def cursor_u16be_Ok cursor_take_Ok reads_append split: if_splits)
qed

lemma cursor_field32_Ok:
  "cursor_field32 c lim = Ok (v, c') \<longleftrightarrow>
     length v \<le> unat lim \<and> reads c (to_be_bytes (word_of_nat (length v) :: u32) @ v) c'"
proof -
  have "unat (word_of_nat (length v) :: u32) = length v" if "length v \<le> unat lim"
    using that unat_bounds(3) [of lim] by (intro unat_word_of_nat) simp
  then show ?thesis
    by (auto simp: cursor_field32_def cursor_u32be_Ok cursor_take_Ok reads_append
        word_less_nat_alt split: if_splits intro!: exI [of _ "word_of_nat (length v)"])
qed

lemma readsD:
  "reads c s c' \<Longrightarrow> remaining c = s @ remaining c' \<and> consumed c' = consumed c @ s \<and>
     cur_buf c' = cur_buf c \<and> cursor_ok c'"
  by (auto simp: reads_def cursor_ok_def)

lemma subslice_consumed:
  "cur_buf c = b \<Longrightarrow> cursor_ok c \<Longrightarrow> subslice b 0 (cur_pos c) = Ok (consumed c)"
  by (auto simp: subslice_def consumed_def cursor_ok_def)

lemma cursor_rest_Ok: "cursor_rest c = Ok r \<Longrightarrow> r = remaining c"
  by (auto simp: cursor_rest_def subslice_def remaining_def split: if_splits)

lemma cursor_rest_run: "cursor_ok c \<Longrightarrow> cursor_rest c = Ok (remaining c)"
  by (auto simp: cursor_rest_def subslice_def remaining_def cursor_ok_def)

lemma cursor_take_run:
  "cursor_ok c \<Longrightarrow> n \<le> length (remaining c) \<Longrightarrow> cursor_take c n = Ok (take n (remaining c), adv n c)"
  by (simp add: cursor_take_Ok reads_adv)

lemma cursor_u8r_run:
  "cursor_ok c \<Longrightarrow> remaining c \<noteq> [] \<Longrightarrow> cursor_u8r c = Ok (hd (remaining c), adv 1 c)"
  using reads_adv [of c 1] by (cases "remaining c") (simp_all add: cursor_u8r_Ok)

lemma cursor_word_runs:
  "cursor_ok c \<Longrightarrow> 2 \<le> length (remaining c) \<Longrightarrow>
     cursor_u16be c = Ok (from_be_bytes (take 2 (remaining c)), adv 2 c)"
  "cursor_ok c \<Longrightarrow> 4 \<le> length (remaining c) \<Longrightarrow>
     cursor_u32be c = Ok (from_be_bytes (take 4 (remaining c)), adv 4 c)"
  "cursor_ok c \<Longrightarrow> 8 \<le> length (remaining c) \<Longrightarrow>
     cursor_u64be c = Ok (from_be_bytes (take 8 (remaining c)), adv 8 c)"
  by (simp_all add: cursor_u16be_eq cursor_u32be_eq cursor_u64be_eq cursor_take_run)

lemmas cursor_runs =
  cursor_take_run cursor_u8r_run cursor_word_runs cursor_rest_run cursor_field16_def
  cursor_field32_def

lemmas cursor_Oks =
  cursor_take_Ok cursor_u8r_Ok cursor_u16be_Ok cursor_u32be_Ok cursor_u64be_Ok
  cursor_field16_Ok cursor_field32_Ok

subsection \<open>No read panics\<close>

lemma cursor_no_panic [simp]:
  "cursor_take c n \<noteq> Panic" "cursor_u8r c \<noteq> Panic" "cursor_u16be c \<noteq> Panic"
  "cursor_u32be c \<noteq> Panic" "cursor_u64be c \<noteq> Panic"
  by (auto simp: cursor_take_def cursor_u8r_def cursor_u16be_def cursor_u32be_def
      cursor_u64be_def cursor_need_def subslice_def index_at_def split: if_splits)

lemma cursor_fields_no_panic [simp]:
  "cursor_field16 c lim \<noteq> Panic" "cursor_field32 c lim' \<noteq> Panic"
  by (auto simp: cursor_field16_def cursor_field32_def split: if_splits)

lemma tbs_no_panic: "reads c s c' \<Longrightarrow> subslice (cur_buf c) 0 (cur_pos c') \<noteq> Panic"
  by (auto simp: subslice_def reads_def)

lemma rest_no_panic: "reads c s c' \<Longrightarrow> cursor_rest c' \<noteq> Panic"
  by (auto simp: cursor_rest_run reads_ok)

section \<open>The structures\<close>

record envelope =
  env_version :: u8
  env_channel_id :: bytes
  env_sender :: bytes
  env_seq :: u64
  env_parent_count :: u8
  env_parents :: bytes
  env_ts :: u64
  env_body_type :: u8
  env_body :: bytes
  env_tbs :: bytes
  env_sig :: bytes

record intent =
  int_intent_id :: bytes
  int_resource_id :: bytes
  int_action :: bytes
  int_rationale :: bytes

record grant =
  gr_version :: u8
  gr_grant_id :: bytes
  gr_intent_id :: bytes
  gr_approver :: bytes
  gr_subject :: bytes
  gr_executor :: bytes
  gr_resource_id :: bytes
  gr_action_digest :: bytes
  gr_not_after :: u64
  gr_tbs :: bytes
  gr_sig :: bytes

record refusal =
  ref_intent_id :: bytes
  ref_note :: bytes
  ref_tbs :: bytes
  ref_sig :: bytes

record span =
  sp_version :: u8
  sp_span_id :: bytes
  sp_trace_id :: bytes
  sp_resource_id :: bytes
  sp_method_id :: u8
  sp_volatility :: u8
  sp_origin :: bytes
  sp_observed_at :: u64
  sp_digest :: bytes
  sp_executor :: bytes
  sp_tbs :: bytes
  sp_sig :: bytes

record cert =
  ce_version :: u8
  ce_role_bits :: u8
  ce_sig_pubkey :: bytes
  ce_kex_pubkey :: bytes
  ce_not_before :: u64
  ce_not_after :: u64
  ce_name :: bytes
  ce_scope_count :: u8
  ce_scope_ids :: bytes
  ce_ca_sig_count :: u8
  ce_ca_sigs :: bytes
  ce_tbs :: bytes

section \<open>The encoders\<close>

definition push_field16 :: "bytes \<Rightarrow> bytes" where
  "push_field16 v = to_be_bytes (word_of_nat (length v) :: u16) @ v"

definition push_field32 :: "bytes \<Rightarrow> bytes" where
  "push_field32 v = to_be_bytes (word_of_nat (length v) :: u32) @ v"

definition encode_envelope :: "envelope \<Rightarrow> bytes" where
  "encode_envelope e =
     [env_version e] @ env_channel_id e @ env_sender e @ to_be_bytes (env_seq e)
     @ [env_parent_count e] @ env_parents e @ to_be_bytes (env_ts e) @ [env_body_type e]
     @ to_be_bytes (word_of_nat (length (env_body e)) :: u32) @ env_body e @ env_sig e"

definition encode_intent :: "intent \<Rightarrow> bytes" where
  "encode_intent i =
     int_intent_id i @ push_field16 (int_resource_id i) @ push_field32 (int_action i)
     @ push_field16 (int_rationale i)"

definition encode_grant :: "grant \<Rightarrow> bytes" where
  "encode_grant g =
     [gr_version g] @ gr_grant_id g @ gr_intent_id g @ gr_approver g @ gr_subject g
     @ gr_executor g @ push_field16 (gr_resource_id g) @ gr_action_digest g
     @ to_be_bytes (gr_not_after g) @ gr_sig g"

definition encode_refusal :: "refusal \<Rightarrow> bytes" where
  "encode_refusal r = ref_intent_id r @ push_field16 (ref_note r) @ ref_sig r"

definition encode_span :: "span \<Rightarrow> bytes" where
  "encode_span s =
     [sp_version s] @ sp_span_id s @ sp_trace_id s @ push_field16 (sp_resource_id s)
     @ [sp_method_id s] @ [sp_volatility s] @ sp_origin s @ to_be_bytes (sp_observed_at s)
     @ sp_digest s @ sp_executor s @ sp_sig s"

definition encode_cert :: "cert \<Rightarrow> bytes" where
  "encode_cert c =
     [ce_version c] @ [ce_role_bits c] @ ce_sig_pubkey c @ ce_kex_pubkey c
     @ to_be_bytes (ce_not_before c) @ to_be_bytes (ce_not_after c) @ push_field16 (ce_name c)
     @ [ce_scope_count c] @ ce_scope_ids c @ [ce_ca_sig_count c] @ ce_ca_sigs c"

section \<open>The parsers\<close>

definition parse_envelope :: "bytes \<Rightarrow> (envelope, parse_error) outcome" where
  "parse_envelope buf =
     (let c = cursor_new buf in
      and_then (cursor_u8r c) (\<lambda>(version, c).
      and_then (cursor_take c LEN_CHANNEL_ID) (\<lambda>(channel_id, c).
      and_then (cursor_take c LEN_PUBKEY) (\<lambda>(sender, c).
      and_then (cursor_u64be c) (\<lambda>(seq, c).
      and_then (cursor_u8r c) (\<lambda>(parent_count, c).
      if parent_count > MAX_PARENTS then Err Oversize else
      and_then (cursor_take c (unat parent_count * LEN_PARENT)) (\<lambda>(parents, c).
      and_then (cursor_u64be c) (\<lambda>(ts, c).
      and_then (cursor_u8r c) (\<lambda>(body_type, c).
      and_then (cursor_u32be c) (\<lambda>(body_len, c).
      if body_len > MAX_BODY then Err Oversize else
      and_then (cursor_take c (unat body_len)) (\<lambda>(body, c).
      and_then (subslice buf 0 (cur_pos c)) (\<lambda>tbs.
      and_then (cursor_take c LEN_SIG) (\<lambda>(sig, c).
      and_then (cursor_rest c) (\<lambda>rest.
      if rest \<noteq> [] then Err TrailingBytes else
      Ok \<lparr>env_version = version, env_channel_id = channel_id, env_sender = sender,
          env_seq = seq, env_parent_count = parent_count, env_parents = parents, env_ts = ts,
          env_body_type = body_type, env_body = body, env_tbs = tbs, env_sig = sig\<rparr>))))))))))))))"

definition parse_intent :: "bytes \<Rightarrow> (intent, parse_error) outcome" where
  "parse_intent buf =
     (let c = cursor_new buf in
      and_then (cursor_take c LEN_INTENT_ID) (\<lambda>(intent_id, c).
      and_then (cursor_field16 c MAX_RESOURCE) (\<lambda>(resource_id, c).
      and_then (cursor_field32 c MAX_ACTION) (\<lambda>(action, c).
      and_then (cursor_field16 c MAX_RATIONALE) (\<lambda>(rationale, c).
      and_then (cursor_rest c) (\<lambda>rest.
      if rest \<noteq> [] then Err TrailingBytes else
      Ok \<lparr>int_intent_id = intent_id, int_resource_id = resource_id, int_action = action,
          int_rationale = rationale\<rparr>))))))"

definition parse_grant :: "bytes \<Rightarrow> (grant, parse_error) outcome" where
  "parse_grant buf =
     (let c = cursor_new buf in
      and_then (cursor_u8r c) (\<lambda>(version, c).
      and_then (cursor_take c LEN_GRANT_ID) (\<lambda>(grant_id, c).
      and_then (cursor_take c LEN_INTENT_ID) (\<lambda>(intent_id, c).
      and_then (cursor_take c LEN_PUBKEY) (\<lambda>(approver, c).
      and_then (cursor_take c LEN_PUBKEY) (\<lambda>(subject, c).
      and_then (cursor_take c LEN_PUBKEY) (\<lambda>(executor, c).
      and_then (cursor_field16 c MAX_RESOURCE) (\<lambda>(resource_id, c).
      and_then (cursor_take c LEN_ACTION_DIGEST) (\<lambda>(action_digest, c).
      and_then (cursor_u64be c) (\<lambda>(not_after, c).
      and_then (subslice buf 0 (cur_pos c)) (\<lambda>tbs.
      and_then (cursor_take c LEN_SIG) (\<lambda>(sig, c).
      and_then (cursor_rest c) (\<lambda>rest.
      if rest \<noteq> [] then Err TrailingBytes else
      Ok \<lparr>gr_version = version, gr_grant_id = grant_id, gr_intent_id = intent_id,
          gr_approver = approver, gr_subject = subject, gr_executor = executor,
          gr_resource_id = resource_id, gr_action_digest = action_digest,
          gr_not_after = not_after, gr_tbs = tbs, gr_sig = sig\<rparr>)))))))))))))"

definition parse_refusal :: "bytes \<Rightarrow> (refusal, parse_error) outcome" where
  "parse_refusal buf =
     (let c = cursor_new buf in
      and_then (cursor_take c LEN_INTENT_ID) (\<lambda>(intent_id, c).
      and_then (cursor_field16 c MAX_NOTE) (\<lambda>(note, c).
      and_then (subslice buf 0 (cur_pos c)) (\<lambda>tbs.
      and_then (cursor_take c LEN_SIG) (\<lambda>(sig, c).
      and_then (cursor_rest c) (\<lambda>rest.
      if rest \<noteq> [] then Err TrailingBytes else
      Ok \<lparr>ref_intent_id = intent_id, ref_note = note, ref_tbs = tbs, ref_sig = sig\<rparr>))))))"

definition parse_span :: "bytes \<Rightarrow> (span, parse_error) outcome" where
  "parse_span buf =
     (let c = cursor_new buf in
      and_then (cursor_u8r c) (\<lambda>(version, c).
      and_then (cursor_take c LEN_SPAN_ID) (\<lambda>(span_id, c).
      and_then (cursor_take c LEN_TRACE_ID) (\<lambda>(trace_id, c).
      and_then (cursor_field16 c MAX_RESOURCE) (\<lambda>(resource_id, c).
      and_then (cursor_u8r c) (\<lambda>(method_id, c).
      and_then (cursor_u8r c) (\<lambda>(volatility, c).
      and_then (cursor_take c LEN_ORIGIN) (\<lambda>(origin, c).
      and_then (cursor_u64be c) (\<lambda>(observed_at, c).
      and_then (cursor_take c LEN_DIGEST) (\<lambda>(digest, c).
      and_then (cursor_take c LEN_PUBKEY) (\<lambda>(executor, c).
      and_then (subslice buf 0 (cur_pos c)) (\<lambda>tbs.
      and_then (cursor_take c LEN_SIG) (\<lambda>(sig, c).
      and_then (cursor_rest c) (\<lambda>rest.
      if rest \<noteq> [] then Err TrailingBytes else
      Ok \<lparr>sp_version = version, sp_span_id = span_id, sp_trace_id = trace_id,
          sp_resource_id = resource_id, sp_method_id = method_id, sp_volatility = volatility,
          sp_origin = origin, sp_observed_at = observed_at, sp_digest = digest,
          sp_executor = executor, sp_tbs = tbs, sp_sig = sig\<rparr>))))))))))))))"

text \<open>The loop over the CA signatures: index, previous key, cursor.\<close>

primrec parse_ca_sigs ::
  "nat \<Rightarrow> nat \<Rightarrow> bytes \<Rightarrow> cursor \<Rightarrow> (cursor, parse_error) outcome" where
  "parse_ca_sigs 0 i prev_key c = Ok c"
| "parse_ca_sigs (Suc n) i prev_key c =
     and_then (cursor_take c LEN_CA_KEY) (\<lambda>(ca_key, c).
     if i > 0 \<and> ca_key \<le> prev_key then Err Malformed else
     and_then (cursor_take c LEN_SIG) (\<lambda>(_, c).
     parse_ca_sigs n (Suc i) ca_key c))"

definition parse_cert :: "bytes \<Rightarrow> (cert, parse_error) outcome" where
  "parse_cert buf =
     (let c = cursor_new buf in
      and_then (cursor_u8r c) (\<lambda>(version, c).
      and_then (cursor_u8r c) (\<lambda>(role_bits, c).
      and_then (cursor_take c LEN_PUBKEY) (\<lambda>(sig_pubkey, c).
      and_then (cursor_take c LEN_PUBKEY) (\<lambda>(kex_pubkey, c).
      and_then (cursor_u64be c) (\<lambda>(not_before, c).
      and_then (cursor_u64be c) (\<lambda>(not_after, c).
      and_then (cursor_field16 c MAX_NAME) (\<lambda>(name, c).
      and_then (cursor_u8r c) (\<lambda>(scope_count, c).
      if scope_count > MAX_SCOPE then Err Oversize else
      and_then (cursor_take c (unat scope_count * LEN_SCOPE_ID)) (\<lambda>(scope_ids, c).
      and_then (subslice buf 0 (cur_pos c)) (\<lambda>tbs.
      and_then (cursor_u8r c) (\<lambda>(ca_sig_count, c).
      if ca_sig_count = 0 then Err Malformed else
      if ca_sig_count > MAX_CA_SIGS then Err Oversize else
      let ca_start = cur_pos c in
      and_then (parse_ca_sigs (unat ca_sig_count) 0 [] c) (\<lambda>c.
      and_then (subslice buf ca_start (cur_pos c)) (\<lambda>ca_sigs.
      and_then (cursor_rest c) (\<lambda>rest.
      if rest \<noteq> [] then Err TrailingBytes else
      Ok \<lparr>ce_version = version, ce_role_bits = role_bits, ce_sig_pubkey = sig_pubkey,
          ce_kex_pubkey = kex_pubkey, ce_not_before = not_before, ce_not_after = not_after,
          ce_name = name, ce_scope_count = scope_count, ce_scope_ids = scope_ids,
          ce_ca_sig_count = ca_sig_count, ce_ca_sigs = ca_sigs, ce_tbs = tbs\<rparr>)))))))))))))))"

lemma reads_slice: "reads c s c' \<Longrightarrow> cur_buf c = b \<Longrightarrow> subslice b (cur_pos c) (cur_pos c') = Ok s"
  by (auto simp: reads_def subslice_def remaining_def)

lemma reads_Nil: "reads c [] c' \<longleftrightarrow> c' = c \<and> cursor_ok c"
  by (auto simp: reads_iff cursor_ok_def)


section \<open>The parsers accept exactly the well-formed encodings\<close>

definition wf_intent :: "intent \<Rightarrow> bool" where
  "wf_intent i \<longleftrightarrow> length (int_intent_id i) = LEN_INTENT_ID
     \<and> length (int_resource_id i) \<le> MAX_RESOURCE \<and> length (int_action i) \<le> unat MAX_ACTION
     \<and> length (int_rationale i) \<le> MAX_RATIONALE"

lemma parse_intent_iff: "parse_intent b = Ok i \<longleftrightarrow> wf_intent i \<and> b = encode_intent i"
proof
  assume "parse_intent b = Ok i"
  then show "wf_intent i \<and> b = encode_intent i"
    by (auto simp: parse_intent_def cursor_Oks codec_limits wf_intent_def encode_intent_def
        push_field16_def push_field32_def Let_def
        split: if_splits dest!: cursor_rest_Ok reads_remaining)
next
  assume "wf_intent i \<and> b = encode_intent i"
  then show "parse_intent b = Ok i"
    by (simp add: parse_intent_def cursor_runs codec_limits codec_lens wf_intent_def encode_intent_def
        push_field16_def push_field32_def unat_of_nat word_less_nat_alt)
qed

definition wf_envelope :: "envelope \<Rightarrow> bool" where
  "wf_envelope e \<longleftrightarrow> length (env_channel_id e) = LEN_CHANNEL_ID \<and> length (env_sender e) = LEN_PUBKEY
     \<and> env_parent_count e \<le> MAX_PARENTS
     \<and> length (env_parents e) = unat (env_parent_count e) * LEN_PARENT
     \<and> length (env_body e) \<le> unat MAX_BODY \<and> length (env_sig e) = LEN_SIG
     \<and> env_tbs e = encode_envelope (e\<lparr>env_sig := []\<rparr>)"

lemma parse_envelope_iff: "parse_envelope b = Ok e \<longleftrightarrow> wf_envelope e \<and> b = encode_envelope e"
proof
  assume "parse_envelope b = Ok e"
  then show "wf_envelope e \<and> b = encode_envelope e"
    by (auto simp: parse_envelope_def cursor_Oks wf_envelope_def encode_envelope_def
        codec_limits not_less word_le_nat_alt subslice_consumed Let_def unat_of_nat
        split: if_splits dest!: cursor_rest_Ok readsD)
next
  assume "wf_envelope e \<and> b = encode_envelope e"
  then show "parse_envelope b = Ok e"
    by (simp add: parse_envelope_def cursor_runs codec_limits codec_lens wf_envelope_def
        encode_envelope_def unat_of_nat word_le_nat_alt word_less_nat_alt subslice_consumed)
qed

definition wf_grant :: "grant \<Rightarrow> bool" where
  "wf_grant g \<longleftrightarrow> length (gr_grant_id g) = LEN_GRANT_ID \<and> length (gr_intent_id g) = LEN_INTENT_ID
     \<and> length (gr_approver g) = LEN_PUBKEY \<and> length (gr_subject g) = LEN_PUBKEY
     \<and> length (gr_executor g) = LEN_PUBKEY \<and> length (gr_resource_id g) \<le> MAX_RESOURCE
     \<and> length (gr_action_digest g) = LEN_ACTION_DIGEST \<and> length (gr_sig g) = LEN_SIG
     \<and> gr_tbs g = encode_grant (g\<lparr>gr_sig := []\<rparr>)"

lemma parse_grant_iff: "parse_grant b = Ok g \<longleftrightarrow> wf_grant g \<and> b = encode_grant g"
proof
  assume "parse_grant b = Ok g"
  then show "wf_grant g \<and> b = encode_grant g"
    by (auto simp: parse_grant_def cursor_Oks wf_grant_def encode_grant_def push_field16_def
        codec_limits subslice_consumed Let_def
        split: if_splits dest!: cursor_rest_Ok readsD)
next
  assume "wf_grant g \<and> b = encode_grant g"
  then show "parse_grant b = Ok g"
    by (simp add: parse_grant_def cursor_runs codec_limits codec_lens wf_grant_def
        encode_grant_def push_field16_def unat_of_nat word_less_nat_alt subslice_consumed)
qed

definition wf_refusal :: "refusal \<Rightarrow> bool" where
  "wf_refusal r \<longleftrightarrow> length (ref_intent_id r) = LEN_INTENT_ID \<and> length (ref_note r) \<le> MAX_NOTE
     \<and> length (ref_sig r) = LEN_SIG \<and> ref_tbs r = encode_refusal (r\<lparr>ref_sig := []\<rparr>)"

definition wf_span :: "span \<Rightarrow> bool" where
  "wf_span s \<longleftrightarrow> length (sp_span_id s) = LEN_SPAN_ID \<and> length (sp_trace_id s) = LEN_TRACE_ID
     \<and> length (sp_resource_id s) \<le> MAX_RESOURCE \<and> length (sp_origin s) = LEN_ORIGIN
     \<and> length (sp_digest s) = LEN_DIGEST \<and> length (sp_executor s) = LEN_PUBKEY
     \<and> length (sp_sig s) = LEN_SIG \<and> sp_tbs s = encode_span (s\<lparr>sp_sig := []\<rparr>)"

text \<open>The CA keys of a packed list of (key, signature) pairs.\<close>

primrec ca_keys :: "nat \<Rightarrow> bytes \<Rightarrow> bytes list" where
  "ca_keys 0 bs = []"
| "ca_keys (Suc n) bs = take LEN_CA_KEY bs # ca_keys n (drop (LEN_CA_KEY + LEN_SIG) bs)"

definition encode_cert_tbs :: "cert \<Rightarrow> bytes" where
  "encode_cert_tbs c =
     [ce_version c] @ [ce_role_bits c] @ ce_sig_pubkey c @ ce_kex_pubkey c
     @ to_be_bytes (ce_not_before c) @ to_be_bytes (ce_not_after c) @ push_field16 (ce_name c)
     @ [ce_scope_count c] @ ce_scope_ids c"

definition wf_cert :: "cert \<Rightarrow> bool" where
  "wf_cert c \<longleftrightarrow> length (ce_sig_pubkey c) = LEN_PUBKEY \<and> length (ce_kex_pubkey c) = LEN_PUBKEY
     \<and> length (ce_name c) \<le> MAX_NAME \<and> ce_scope_count c \<le> MAX_SCOPE
     \<and> length (ce_scope_ids c) = unat (ce_scope_count c) * LEN_SCOPE_ID
     \<and> ce_ca_sig_count c \<noteq> 0 \<and> ce_ca_sig_count c \<le> MAX_CA_SIGS
     \<and> length (ce_ca_sigs c) = unat (ce_ca_sig_count c) * (LEN_CA_KEY + LEN_SIG)
     \<and> sorted_wrt (<) (ca_keys (unat (ce_ca_sig_count c)) (ce_ca_sigs c))
     \<and> ce_tbs c = encode_cert_tbs c"

lemma length_ca_keys [simp]: "length (ca_keys n bs) = n"
  by (induction n arbitrary: bs) auto

lemma ca_keys_Nil: "ca_keys n bs = [] \<longleftrightarrow> n = 0"
  by (cases n) auto

lemma sorted_wrt_less_Cons:
  "sorted_wrt (<) ((k :: bytes) # ks) \<longleftrightarrow> (ks \<noteq> [] \<longrightarrow> k < hd ks) \<and> sorted_wrt (<) ks"
  by (cases ks) (auto intro: less_trans)

lemma parse_ca_sigs_Ok:
  "cursor_ok c \<Longrightarrow> parse_ca_sigs n i prev c = Ok c' \<longleftrightarrow>
     (\<exists>s. reads c s c' \<and> length s = n * (LEN_CA_KEY + LEN_SIG) \<and> sorted_wrt (<) (ca_keys n s)
       \<and> (0 < i \<and> 0 < n \<longrightarrow> prev < hd (ca_keys n s)))"
proof (induction n arbitrary: i prev c)
  case 0
  then show ?case by (auto simp: reads_Nil)
next
  case (Suc n)
  have tail: "parse_ca_sigs n (Suc i) k c2 = Ok c' \<longleftrightarrow>
      (\<exists>s. reads c2 s c' \<and> length s = n * (LEN_CA_KEY + LEN_SIG)
        \<and> sorted_wrt (<) (k # ca_keys n s))" if "cursor_ok c2" for k c2
    using Suc.IH [OF that, of "Suc i" k]
    by (simp add: sorted_wrt_less_Cons ca_keys_Nil conj_commute del: sorted_wrt.simps)
  show ?case (is "?parse \<longleftrightarrow> ?spec")
  proof
    assume ?parse
    then obtain k c1 sg c2 where k: "reads c k c1" "length k = LEN_CA_KEY"
      and sg: "reads c1 sg c2" "length sg = LEN_SIG"
      and ord: "\<not> (0 < i \<and> k \<le> prev)" and rest: "parse_ca_sigs n (Suc i) k c2 = Ok c'"
      by (auto simp: cursor_take_Ok split: if_splits)
    from rest tail [OF reads_ok [OF sg(1)]] obtain s where s: "reads c2 s c'"
      "length s = n * (LEN_CA_KEY + LEN_SIG)" "sorted_wrt (<) (k # ca_keys n s)" by blast
    have "reads c (k @ sg @ s) c'" using k sg s by (auto simp: reads_append)
    moreover have "ca_keys (Suc n) (k @ sg @ s) = k # ca_keys n s" using k sg by simp
    ultimately show ?spec using k sg s ord
      by (intro exI [of _ "k @ sg @ s"]) (auto simp: not_le)
  next
    assume ?spec
    then obtain s where s: "reads c s c'" "length s = Suc n * (LEN_CA_KEY + LEN_SIG)"
      "sorted_wrt (<) (ca_keys (Suc n) s)" "0 < i \<longrightarrow> prev < hd (ca_keys (Suc n) s)" by auto
    define k sg t where "k = take LEN_CA_KEY s" and "sg = take LEN_SIG (drop LEN_CA_KEY s)"
      and "t = drop (LEN_CA_KEY + LEN_SIG) s"
    have split: "s = k @ sg @ t"
      unfolding k_def sg_def t_def by (metis append_take_drop_id drop_drop add.commute)
    have lens: "length k = LEN_CA_KEY" "length sg = LEN_SIG" "length t = n * (LEN_CA_KEY + LEN_SIG)"
      using s(2) by (simp_all add: k_def sg_def t_def)
    from s(1) obtain c1 c2 where r: "reads c k c1" "reads c1 sg c2" "reads c2 t c'"
      unfolding split by (auto simp: reads_append)
    have "parse_ca_sigs n (Suc i) k c2 = Ok c'"
      using tail [OF reads_ok [OF r(2)], of k] r(3) lens s(3) by (auto simp: k_def t_def)
    moreover have "cursor_take c LEN_CA_KEY = Ok (k, c1)" "cursor_take c1 LEN_SIG = Ok (sg, c2)"
      using r lens by (simp_all add: cursor_take_Ok)
    ultimately show ?parse using s(4) by (auto simp: k_def not_le)
  qed
qed

lemma parse_ca_sigs_OkD:
  "parse_ca_sigs n 0 [] c = Ok c' \<Longrightarrow> subslice b (cur_pos c) (cur_pos c') = Ok x \<Longrightarrow>
     cursor_ok c \<Longrightarrow> cur_buf c = b \<Longrightarrow>
     reads c x c' \<and> length x = n * (LEN_CA_KEY + LEN_SIG) \<and> sorted_wrt (<) (ca_keys n x)"
  by (auto simp: parse_ca_sigs_Ok reads_slice)

lemma parse_refusal_iff: "parse_refusal b = Ok r \<longleftrightarrow> wf_refusal r \<and> b = encode_refusal r"
proof
  assume "parse_refusal b = Ok r"
  then show "wf_refusal r \<and> b = encode_refusal r"
    by (auto simp: parse_refusal_def cursor_Oks wf_refusal_def encode_refusal_def push_field16_def
        codec_limits subslice_consumed Let_def
        split: if_splits dest!: cursor_rest_Ok readsD)
next
  assume "wf_refusal r \<and> b = encode_refusal r"
  then show "parse_refusal b = Ok r"
    by (simp add: parse_refusal_def cursor_runs codec_limits codec_lens wf_refusal_def
        encode_refusal_def push_field16_def unat_of_nat word_less_nat_alt subslice_consumed)
qed

lemma parse_span_iff: "parse_span b = Ok s \<longleftrightarrow> wf_span s \<and> b = encode_span s"
proof
  assume "parse_span b = Ok s"
  then show "wf_span s \<and> b = encode_span s"
    by (auto simp: parse_span_def cursor_Oks wf_span_def encode_span_def push_field16_def
        codec_limits subslice_consumed Let_def
        split: if_splits dest!: cursor_rest_Ok readsD)
next
  assume "wf_span s \<and> b = encode_span s"
  then show "parse_span b = Ok s"
    by (simp add: parse_span_def cursor_runs codec_limits codec_lens wf_span_def
        encode_span_def push_field16_def unat_of_nat word_less_nat_alt subslice_consumed)
qed

lemma parse_cert_iff: "parse_cert b = Ok c \<longleftrightarrow> wf_cert c \<and> b = encode_cert c"
proof
  assume "parse_cert b = Ok c"
  then show "wf_cert c \<and> b = encode_cert c"
    by (auto simp: parse_cert_def cursor_Oks wf_cert_def encode_cert_def encode_cert_tbs_def
        push_field16_def codec_limits subslice_consumed Let_def not_less word_le_nat_alt
        split: if_splits dest!: cursor_rest_Ok readsD parse_ca_sigs_OkD)
next
  assume wf: "wf_cert c \<and> b = encode_cert c"
  let ?n = "unat (ce_ca_sig_count c)"
  have len: "length (ce_ca_sigs c) = ?n * 96"
    using wf by (simp add: wf_cert_def codec_lens)
  have r: "reads d (ce_ca_sigs c) (adv (?n * 96) d)"
    if "cursor_ok d" "remaining d = ce_ca_sigs c" for d
    using reads_adv [OF that(1), of "?n * 96"] that(2) len by simp
  have loop: "parse_ca_sigs ?n 0 [] d = Ok (adv (?n * 96) d)"
    if "cursor_ok d" "remaining d = ce_ca_sigs c" for d
    using wf r [OF that] by (auto simp: parse_ca_sigs_Ok [OF that(1)] wf_cert_def)
  have slice: "subslice b' (cur_pos d) (cur_pos (adv (?n * 96) d)) = Ok (ce_ca_sigs c)"
    if "cursor_ok d" "remaining d = ce_ca_sigs c" "cur_buf d = b'" for d b'
    using reads_slice [OF r [OF that(1,2)] that(3)] .
  from wf show "parse_cert b = Ok c"
    by (simp add: parse_cert_def cursor_runs codec_limits codec_lens wf_cert_def
        encode_cert_def encode_cert_tbs_def push_field16_def unat_of_nat word_less_nat_alt word_le_nat_alt
        subslice_consumed loop slice Let_def)
qed

section \<open>No input makes a parser panic\<close>

lemma subslice_tbs_total: "subslice b 0 (cur_pos c) = Panic \<Longrightarrow> cursor_ok c \<Longrightarrow> cur_buf c = b \<Longrightarrow> False"
  by (auto simp: subslice_consumed)

lemma cursor_rest_total: "cursor_rest c = Panic \<Longrightarrow> cursor_ok c \<Longrightarrow> False"
  by (simp add: cursor_rest_run)

lemma parse_ca_sigs_total [simp]: "parse_ca_sigs n i prev c \<noteq> Panic"
  by (induction n arbitrary: i prev c) (auto split: if_splits)

lemma parse_ca_sigs_slice_total:
  "parse_ca_sigs n 0 [] c = Ok c' \<Longrightarrow> subslice b (cur_pos c) (cur_pos c') = Panic \<Longrightarrow>
     cursor_ok c \<Longrightarrow> cur_buf c = b \<Longrightarrow> False"
  by (auto simp: parse_ca_sigs_Ok reads_slice)

lemma parse_ca_sigs_reads:
  "parse_ca_sigs n 0 [] c = Ok c' \<Longrightarrow> cursor_ok c \<Longrightarrow> cursor_ok c'"
  by (auto simp: parse_ca_sigs_Ok reads_ok)

lemma parse_envelope_total: "parse_envelope b \<noteq> Panic"
  by (auto simp: parse_envelope_def cursor_Oks codec_limits Let_def
      split: if_splits dest: subslice_tbs_total cursor_rest_total dest!: readsD)

lemma parse_intent_total: "parse_intent b \<noteq> Panic"
  by (auto simp: parse_intent_def cursor_Oks codec_limits Let_def
      split: if_splits dest: subslice_tbs_total cursor_rest_total dest!: readsD)

lemma parse_grant_total: "parse_grant b \<noteq> Panic"
  by (auto simp: parse_grant_def cursor_Oks codec_limits Let_def
      split: if_splits dest: subslice_tbs_total cursor_rest_total dest!: readsD)

lemma parse_refusal_total: "parse_refusal b \<noteq> Panic"
  by (auto simp: parse_refusal_def cursor_Oks codec_limits Let_def
      split: if_splits dest: subslice_tbs_total cursor_rest_total dest!: readsD)

lemma parse_span_total: "parse_span b \<noteq> Panic"
  by (auto simp: parse_span_def cursor_Oks codec_limits Let_def
      split: if_splits dest: subslice_tbs_total cursor_rest_total dest!: readsD)

lemma parse_cert_total: "parse_cert b \<noteq> Panic"
  by (auto simp: parse_cert_def cursor_Oks codec_limits Let_def
      split: if_splits dest: subslice_tbs_total cursor_rest_total parse_ca_sigs_slice_total
        parse_ca_sigs_reads dest!: readsD)

section \<open>The formats\<close>

interpretation envelope_format: message_format parse_envelope encode_envelope wf_envelope
  by unfold_locales (rule parse_envelope_iff)

interpretation intent_format: message_format parse_intent encode_intent wf_intent
  by unfold_locales (rule parse_intent_iff)

interpretation grant_format: message_format parse_grant encode_grant wf_grant
  by unfold_locales (rule parse_grant_iff)

interpretation refusal_format: message_format parse_refusal encode_refusal wf_refusal
  by unfold_locales (rule parse_refusal_iff)

interpretation span_format: message_format parse_span encode_span wf_span
  by unfold_locales (rule parse_span_iff)

interpretation cert_format: message_format parse_cert encode_cert wf_cert
  by unfold_locales (rule parse_cert_iff)

section \<open>Domain-separated signatures\<close>

definition verify_signed :: "crypto \<Rightarrow> u8 \<Rightarrow> bytes \<Rightarrow> bytes \<Rightarrow> bytes \<Rightarrow> bool" where
  "verify_signed cr domain_tag tbs sig signer =
     (if length signer \<noteq> 32 then False
      else if \<not> (ed_key_ok cr signer \<and> ed_sig_ok cr sig) then False
      else ed_verify cr signer (domain_tag # tbs) sig)"

section \<open>Properties\<close>

text \<open>
  C10: The envelope parser accepts a byte string exactly when it is the canonical encoding of
  a well-formed envelope, and returns that envelope, its signed prefix included: parsing and
  encoding are inverse, no envelope has two encodings, and no limit is off by one.
\<close>

theorem envelope_codec_exact: "parse_envelope b = Ok e \<longleftrightarrow> wf_envelope e \<and> b = encode_envelope e"
  by (rule envelope_format.parse_Ok_iff)

text \<open>
  The certificate parser accepts a byte string exactly when it is the encoding of a
  well-formed certificate: one to four CA signatures with strictly ascending keys, at most
  eight scope ids, and the signed part is everything before the signature count.
\<close>

theorem cert_codec_exact: "parse_cert b = Ok c \<longleftrightarrow> wf_cert c \<and> b = encode_cert c"
  by (rule cert_format.parse_Ok_iff)

text \<open>
  C22: The same holds of the body structures: intents, grants, refusals and spans are accepted
  exactly in their canonical encoding and within their limits.
\<close>

theorem body_codecs_exact:
  "(parse_intent bi = Ok i \<longleftrightarrow> wf_intent i \<and> bi = encode_intent i)
   \<and> (parse_grant bg = Ok g \<longleftrightarrow> wf_grant g \<and> bg = encode_grant g)
   \<and> (parse_refusal br = Ok r \<longleftrightarrow> wf_refusal r \<and> br = encode_refusal r)
   \<and> (parse_span bs = Ok s \<longleftrightarrow> wf_span s \<and> bs = encode_span s)"
  by (intro conjI intent_format.parse_Ok_iff grant_format.parse_Ok_iff
      refusal_format.parse_Ok_iff span_format.parse_Ok_iff)

text \<open>
  No input makes a channel parser panic: every slice and index the parsers take is
  guarded, for each of the six structures and for every byte string.
\<close>

theorem channel_parsers_never_panic:
  "parse_envelope b \<noteq> Panic \<and> parse_intent b \<noteq> Panic \<and> parse_grant b \<noteq> Panic
   \<and> parse_refusal b \<noteq> Panic \<and> parse_span b \<noteq> Panic \<and> parse_cert b \<noteq> Panic"
  by (intro conjI parse_envelope_total parse_intent_total parse_grant_total
      parse_refusal_total parse_span_total parse_cert_total)

end
