(* ===== verification/Intent.thy ===== *)
theory Intent
  imports Codec
begin

text \<open>
  The intent table (src/src/state/intent.rs): the pool of pending intents, with
  de-duplication by intent id and exclusivity by resource. A table is a list of entries;
  each operation takes the table and returns its result with the table it leaves. The
  abstract view is the lock map: which resource is held, by which intent, in which state.
\<close>

section \<open>State\<close>

definition T_PENDING_MS :: u64 where "T_PENDING_MS = 900000"
definition MAX_PENDING :: nat where "MAX_PENDING = 256"

datatype intent_error = TableFull | DuplicateIntentId | ResourceHeld | NotPending

datatype refusal_outcome = RefRejected | NoMatch

datatype intent_state = Pending | Executing | Expired | Rejected

text \<open>
  The resource array has 256 bytes of which the first \<open>e_resource_len\<close> count; admission
  bounds the length, so the prefix of an admitted entry is always in range.
\<close>

record intent_entry =
  e_intent_id :: bytes
  e_resource_id :: bytes
  e_resource_len :: nat
  e_state :: intent_state
  e_admitted_ms :: u64

record intent_table =
  entries :: "intent_entry list"

definition table_new :: intent_table where
  "table_new = \<lparr>entries = []\<rparr>"

definition entry_resource :: "intent_entry \<Rightarrow> bytes" where
  "entry_resource e = take (e_resource_len e) (e_resource_id e)"

definition is_live :: "intent_entry \<Rightarrow> bool" where
  "is_live e \<longleftrightarrow> e_state e = Pending \<or> e_state e = Executing"

definition pending_id :: "bytes \<Rightarrow> intent_entry \<Rightarrow> bool" where
  "pending_id iid e \<longleftrightarrow> e_state e = Pending \<and> e_intent_id e = iid"

section \<open>Operations\<close>

text \<open>The debug assertion on the length stays on in the release profile, so it panics.\<close>

definition admit ::
  "bytes \<Rightarrow> bytes \<Rightarrow> nat \<Rightarrow> u64 \<Rightarrow> intent_table \<Rightarrow> (unit, intent_error) outcome \<times> intent_table" where
  "admit iid resource resource_len now_ms t =
     (if \<not> resource_len \<le> MAX_RESOURCE then (Panic, t)
      else if \<exists>e \<in> set (entries t). pending_id iid e then (Err DuplicateIntentId, t)
      else if \<exists>e \<in> set (entries t). is_live e \<and> entry_resource e = take resource_len resource
      then (Err ResourceHeld, t)
      else if length (entries t) \<ge> MAX_PENDING then (Err TableFull, t)
      else (Ok (), t\<lparr>entries := entries t @
        [\<lparr>e_intent_id = iid, e_resource_id = resource, e_resource_len = resource_len,
          e_state = Pending, e_admitted_ms = now_ms\<rparr>]\<rparr>))"

definition match_for_grant :: "bytes \<Rightarrow> intent_table \<Rightarrow> nat option" where
  "match_for_grant iid t = position (pending_id iid) (entries t)"

definition begin_executing ::
  "nat \<Rightarrow> intent_table \<Rightarrow> (unit, intent_error) outcome \<times> intent_table" where
  "begin_executing idx t =
     (if idx < length (entries t) \<and> e_state (entries t ! idx) = Pending
      then (Ok (), t\<lparr>entries := (entries t)[idx := (entries t ! idx)\<lparr>e_state := Executing\<rparr>]\<rparr>)
      else (Err NotPending, t))"

definition compact :: "intent_table \<Rightarrow> intent_table" where
  "compact t = t\<lparr>entries := filter is_live (entries t)\<rparr>"

definition apply_refusal :: "bytes \<Rightarrow> intent_table \<Rightarrow> refusal_outcome \<times> intent_table" where
  "apply_refusal iid t =
     (case position (pending_id iid) (entries t) of
        Some idx \<Rightarrow>
          (RefRejected,
           compact (t\<lparr>entries := (entries t)[idx := (entries t ! idx)\<lparr>e_state := Rejected\<rparr>]\<rparr>))
      | None \<Rightarrow> (NoMatch, t))"

text \<open>
  The sweep: an entry expires when it is pending and its deadline has passed; the deadline
  is a checked addition. Returns the entries with the expired ones marked, and their number.
\<close>

fun expire_entries ::
  "u64 \<Rightarrow> intent_entry list \<Rightarrow> (intent_entry list \<times> nat, intent_error) outcome" where
  "expire_entries now_ms [] = Ok ([], 0)"
| "expire_entries now_ms (e # es) =
     and_then
       (if e_state e = Pending
        then and_then (checked_add (e_admitted_ms e) T_PENDING_MS) (\<lambda>deadline. Ok (now_ms > deadline))
        else Ok False)
     (\<lambda>due. and_then (expire_entries now_ms es) (\<lambda>(es', collapsed).
       if due then Ok (e\<lparr>e_state := Expired\<rparr> # es', collapsed + 1) else Ok (e # es', collapsed)))"

definition expire_timeouts ::
  "u64 \<Rightarrow> intent_table \<Rightarrow> (nat, intent_error) outcome \<times> intent_table" where
  "expire_timeouts now_ms t =
     (case expire_entries now_ms (entries t) of
        Ok (es, collapsed) \<Rightarrow>
          (Ok collapsed, if collapsed > 0 then compact (t\<lparr>entries := es\<rparr>) else t\<lparr>entries := es\<rparr>)
      | Err e \<Rightarrow> (Err e, t)
      | Panic \<Rightarrow> (Panic, t))"

section \<open>The invariant\<close>

definition intent_inv :: "intent_table \<Rightarrow> bool" where
  "intent_inv t \<longleftrightarrow>
     length (entries t) \<le> MAX_PENDING
     \<and> (\<forall>e \<in> set (entries t). is_live e \<and> e_resource_len e \<le> MAX_RESOURCE)
     \<and> distinct (map entry_resource (entries t))
     \<and> distinct (map e_intent_id (filter (\<lambda>e. e_state e = Pending) (entries t)))"

lemma table_new_inv [inv_intros]: "intent_inv table_new"
  by (simp add: intent_inv_def table_new_def)

lemma intent_inv_filter:
  assumes "intent_inv t"
  shows "intent_inv (t\<lparr>entries := filter P (entries t)\<rparr>)"
proof -
  have "length (filter P (entries t)) \<le> MAX_PENDING"
    using assms le_trans [OF length_filter_le] by (fastforce simp: intent_inv_def)
  moreover have "distinct (map e_intent_id (filter (\<lambda>e. P e \<and> e_state e = Pending) (entries t)))"
    using distinct_map_filter [of e_intent_id "filter (\<lambda>e. e_state e = Pending) (entries t)" P] assms
    by (simp add: intent_inv_def conj_commute)
  ultimately show ?thesis
    using assms by (auto simp: intent_inv_def intro: distinct_map_filter)
qed

lemma admit_Ok:
  "fst (admit iid res n now t) = Ok () \<longleftrightarrow>
     n \<le> MAX_RESOURCE \<and> (\<forall>e\<in>set (entries t). \<not> pending_id iid e)
     \<and> (\<forall>e\<in>set (entries t). is_live e \<longrightarrow> entry_resource e \<noteq> take n res)
     \<and> length (entries t) < MAX_PENDING"
  by (auto simp: admit_def)

lemma admit_inv [inv_intros]: "intent_inv t \<Longrightarrow> intent_inv (snd (admit iid res n now t))"
  by (auto simp: admit_def intent_inv_def is_live_def pending_id_def entry_resource_def)

lemma begin_executing_inv [inv_intros]:
  assumes inv: "intent_inv t"
  shows "intent_inv (snd (begin_executing i t))"
proof (cases "i < length (entries t) \<and> e_state (entries t ! i) = Pending")
  case True
  let ?xs = "entries t" and ?P = "\<lambda>e. e_state e = Pending"
  let ?e = "(?xs ! i)\<lparr>e_state := Executing\<rparr>"
  have "map entry_resource (?xs[i := ?e]) = map entry_resource ?xs"
    by (rule map_list_update_same) (simp add: entry_resource_def)
  moreover have "distinct (map e_intent_id (filter ?P (?xs[i := ?e])))"
    using inv True by (auto simp: intent_inv_def filter_around [of i ?xs] filter_list_update)
  moreover have "is_live e \<and> e_resource_len e \<le> MAX_RESOURCE" if "e \<in> set (?xs[i := ?e])" for e
  proof -
    from that set_update_subset_insert [of ?xs i ?e] have "e = ?e \<or> e \<in> set ?xs" by blast
    then show ?thesis using inv True by (auto simp: intent_inv_def is_live_def)
  qed
  ultimately show ?thesis
    using inv True unfolding begin_executing_def intent_inv_def by simp
next
  case False
  then show ?thesis using inv by (auto simp: begin_executing_def)
qed

text \<open>Under the invariant a refusal removes exactly the pending entry of that intent.\<close>

lemma apply_refusal_None:
  assumes "\<forall>e\<in>set (entries t). \<not> pending_id iid e"
  shows "apply_refusal iid t = (NoMatch, t)"
proof -
  have "position (pending_id iid) (entries t) = None" using assms by (simp add: position_None)
  then show ?thesis by (simp add: apply_refusal_def)
qed

lemma apply_refusal_Some:
  assumes inv: "intent_inv t" and ex: "\<exists>e\<in>set (entries t). pending_id iid e"
  shows "apply_refusal iid t = (RefRejected, t\<lparr>entries := filter (\<lambda>e. \<not> pending_id iid e) (entries t)\<rparr>)"
proof -
  let ?xs = "entries t" and ?P = "\<lambda>e. e_state e = Pending"
  from ex obtain i where i: "position (pending_id iid) ?xs = Some i"
    using position_None [of "pending_id iid" ?xs] by (cases "position (pending_id iid) ?xs") auto
  from position_SomeD [OF i] have ilt: "i < length ?xs" and pi: "pending_id iid (?xs ! i)" by auto
  let ?pre = "take i ?xs" and ?post = "drop (Suc i) ?xs"
  note parts = set_around [OF ilt]
  have "distinct (map e_intent_id (filter ?P ?pre @ [?xs ! i] @ filter ?P ?post))"
    using inv pi filter_around [OF ilt, of ?P] by (simp add: intent_inv_def pending_id_def)
  then have "e_intent_id (?xs ! i) \<notin> e_intent_id ` (set (filter ?P ?pre) \<union> set (filter ?P ?post))"
    by auto
  then have others: "\<not> pending_id iid e" if "e \<in> set ?pre \<union> set ?post" for e
    using that pi by (auto simp: pending_id_def ball_Un image_iff)
  have live: "is_live e" if "e \<in> set ?pre \<union> set ?post" for e
    using inv that parts by (auto simp: intent_inv_def)
  have "filter is_live (?xs[i := (?xs ! i)\<lparr>e_state := Rejected\<rparr>]) = ?pre @ ?post"
    using live ilt by (auto simp: filter_list_update is_live_def filter_id_conv)
  moreover have "filter (\<lambda>e. \<not> pending_id iid e) ?xs = ?pre @ ?post"
    using others pi by (auto simp: filter_around [OF ilt] filter_id_conv)
  ultimately show ?thesis by (simp add: apply_refusal_def i compact_def)
qed

lemma apply_refusal_snd:
  assumes "intent_inv t"
  shows "snd (apply_refusal iid t) = t\<lparr>entries := filter (\<lambda>e. \<not> pending_id iid e) (entries t)\<rparr>"
proof (cases "\<exists>e\<in>set (entries t). pending_id iid e")
  case False
  then have "filter (\<lambda>e. \<not> pending_id iid e) (entries t) = entries t"
    by (auto simp: filter_id_conv)
  with False show ?thesis by (simp add: apply_refusal_None)
qed (simp add: apply_refusal_Some [OF assms])

lemma apply_refusal_inv [inv_intros]: "intent_inv t \<Longrightarrow> intent_inv (snd (apply_refusal iid t))"
  by (simp add: apply_refusal_snd intent_inv_filter)

text \<open>The sweep as a filter: which entries are due, and what is left.\<close>

definition overdue :: "u64 \<Rightarrow> intent_entry \<Rightarrow> bool" where
  "overdue now_ms e \<longleftrightarrow> e_state e = Pending \<and> unat (e_admitted_ms e) + unat T_PENDING_MS < unat now_ms"

definition deadline_fits :: "intent_entry \<Rightarrow> bool" where
  "deadline_fits e \<longleftrightarrow> (e_state e = Pending \<longrightarrow> unat (e_admitted_ms e) + unat T_PENDING_MS < 2 ^ 64)"

lemma expire_entries_Ok:
  "expire_entries now es = Ok (es', n) \<longleftrightarrow>
     (\<forall>e\<in>set es. deadline_fits e)
     \<and> es' = map (\<lambda>e. if overdue now e then e\<lparr>e_state := Expired\<rparr> else e) es
     \<and> n = length (filter (overdue now) es)"
proof (induction es arbitrary: es' n)
  case (Cons e es)
  have "(now > e_admitted_ms e + T_PENDING_MS) = (unat (e_admitted_ms e) + unat T_PENDING_MS < unat now)"
    if "unat (e_admitted_ms e) + unat T_PENDING_MS < 2 ^ 64"
    using that by (simp add: word_less_nat_alt unat_word_ariths)
  then show ?case
    by (auto simp: Cons.IH checked_add_Ok overdue_def deadline_fits_def split: if_splits)
qed auto

lemma expire_entries_not_Err: "expire_entries now es \<noteq> Err e"
  by (induction es arbitrary: e) (auto simp: and_then_eq_Err split: if_splits)

lemma expire_entries_Panic:
  "expire_entries now es = Panic \<longleftrightarrow> (\<exists>e\<in>set es. \<not> deadline_fits e)"
  using expire_entries_Ok [of now es] expire_entries_not_Err [of now es]
  by (cases "expire_entries now es") auto

lemma expire_timeouts_Ok:
  assumes inv: "intent_inv t" and fits: "\<forall>e\<in>set (entries t). deadline_fits e"
  shows "expire_timeouts now t =
    (Ok (length (filter (overdue now) (entries t))),
     t\<lparr>entries := filter (\<lambda>e. \<not> overdue now e) (entries t)\<rparr>)"
proof -
  let ?mark = "\<lambda>e. if overdue now e then e\<lparr>e_state := Expired\<rparr> else e"
  have "filter is_live (map ?mark es) = filter (\<lambda>e. \<not> overdue now e) es"
    if "\<forall>e\<in>set es. is_live e" for es
    using that by (induction es) (auto simp: is_live_def)
  then have swept: "filter is_live (map ?mark (entries t)) = filter (\<lambda>e. \<not> overdue now e) (entries t)"
    using inv by (simp add: intent_inv_def)
  have "map ?mark (entries t) = filter (\<lambda>e. \<not> overdue now e) (entries t)"
    if "filter (overdue now) (entries t) = []"
  proof -
    from that have none: "\<forall>e\<in>set (entries t). \<not> overdue now e" by (simp add: filter_empty_conv)
    then have "map ?mark (entries t) = entries t" by (intro map_idI) auto
    with none show ?thesis by simp
  qed
  moreover have "expire_entries now (entries t) =
      Ok (map ?mark (entries t), length (filter (overdue now) (entries t)))"
    using fits by (simp add: expire_entries_Ok)
  ultimately show ?thesis
    using swept by (auto simp: expire_timeouts_def compact_def)
qed

lemma expire_timeouts_inv [inv_intros]:
  assumes "intent_inv t"
  shows "intent_inv (snd (expire_timeouts now t))"
proof (cases "\<forall>e\<in>set (entries t). deadline_fits e")
  case True
  then show ?thesis by (simp add: expire_timeouts_Ok assms intent_inv_filter)
next
  case False
  then have "expire_entries now (entries t) = Panic" by (auto simp: expire_entries_Panic)
  then show ?thesis by (simp add: expire_timeouts_def assms)
qed

section \<open>The table as a machine\<close>

datatype intent_op = OpAdmit bytes bytes nat u64 | OpBegin nat | OpRefuse bytes | OpExpire u64

fun intent_step :: "intent_op \<Rightarrow> intent_table \<Rightarrow> intent_table" where
  "intent_step (OpAdmit iid res n now) t = snd (admit iid res n now t)"
| "intent_step (OpBegin i) t = snd (begin_executing i t)"
| "intent_step (OpRefuse iid) t = snd (apply_refusal iid t)"
| "intent_step (OpExpire now) t = snd (expire_timeouts now t)"

interpretation intents: guarded_machine table_new intent_step intent_inv
proof unfold_locales
  show "intent_inv table_new" by (rule table_new_inv)
  show "intent_inv (intent_step op t)" if "intent_inv t" for op t
    using that by (cases op) (simp_all add: inv_intros)
qed

section \<open>The lock map\<close>

definition locks :: "intent_table \<Rightarrow> bytes \<Rightarrow> (bytes \<times> intent_state) option" where
  "locks t = map_of (map (\<lambda>e. (entry_resource e, e_intent_id e, e_state e)) (entries t))"

lemma locks_Some:
  assumes "intent_inv t"
  shows "locks t r = Some (iid, st) \<longleftrightarrow>
    (\<exists>e\<in>set (entries t). entry_resource e = r \<and> e_intent_id e = iid \<and> e_state e = st)"
  using assms by (auto simp: locks_def intent_inv_def o_def map_of_eq_Some_iff)

lemma locks_dom: "r \<in> dom (locks t) \<longleftrightarrow> (\<exists>e\<in>set (entries t). entry_resource e = r)"
  by (force simp: locks_def dom_map_of_conv_image_fst)

lemma card_locks: "intent_inv t \<Longrightarrow> card (dom (locks t)) = length (entries t)"
  using distinct_card [of "map entry_resource (entries t)"]
  by (simp add: locks_def intent_inv_def dom_map_of_conv_image_fst image_image)

lemma locks_filter:
  assumes "intent_inv t"
  shows "locks (t\<lparr>entries := filter P (entries t)\<rparr>) r = Some (iid, st) \<longleftrightarrow>
    (\<exists>e\<in>set (entries t). P e \<and> entry_resource e = r \<and> e_intent_id e = iid \<and> e_state e = st)"
  using locks_Some [OF intent_inv_filter [OF assms, of P]] by auto

text \<open>What admission and refusal promise, on the lock map alone.\<close>

definition spec_admit ::
  "bytes \<Rightarrow> bytes \<Rightarrow> nat \<Rightarrow> (bytes \<Rightarrow> (bytes \<times> intent_state) option) \<Rightarrow>
   (unit, intent_error) outcome \<times> (bytes \<Rightarrow> (bytes \<times> intent_state) option)" where
  "spec_admit iid res n m =
     (if MAX_RESOURCE < n then (Panic, m)
      else if \<exists>r'. m r' = Some (iid, Pending) then (Err DuplicateIntentId, m)
      else if take n res \<in> dom m then (Err ResourceHeld, m)
      else if card (dom m) \<ge> MAX_PENDING then (Err TableFull, m)
      else (Ok (), m(take n res \<mapsto> (iid, Pending))))"

definition spec_refuse ::
  "bytes \<Rightarrow> (bytes \<Rightarrow> (bytes \<times> intent_state) option) \<Rightarrow>
   refusal_outcome \<times> (bytes \<Rightarrow> (bytes \<times> intent_state) option)" where
  "spec_refuse iid m =
     (if \<exists>r. m r = Some (iid, Pending)
      then (RefRejected, \<lambda>r. if m r = Some (iid, Pending) then None else m r)
      else (NoMatch, m))"

lemma admit_locks:
  assumes inv: "intent_inv t"
  shows "(fst (admit iid res n now t), locks (snd (admit iid res n now t)))
    = spec_admit iid res n (locks t)"
proof -
  have dup: "(\<exists>r'. locks t r' = Some (iid, Pending)) \<longleftrightarrow> (\<exists>e\<in>set (entries t). pending_id iid e)"
    using locks_Some [OF inv] by (auto simp: pending_id_def)
  have held: "take n res \<in> dom (locks t) \<longleftrightarrow>
      (\<exists>e\<in>set (entries t). is_live e \<and> entry_resource e = take n res)"
    using inv by (auto simp: locks_dom intent_inv_def)
  have new: "locks (t\<lparr>entries := entries t @ [e]\<rparr>)
      = (locks t)(entry_resource e \<mapsto> (e_intent_id e, e_state e))"
    if "entry_resource e \<notin> dom (locks t)" for e
    using that by (auto simp: locks_def map_add_def fun_eq_iff split: option.splits)
  show ?thesis
    using new by (auto simp: admit_def spec_admit_def dup held card_locks [OF inv] entry_resource_def)
qed

lemma refusal_locks:
  assumes inv: "intent_inv t"
  shows "(fst (apply_refusal iid t), locks (snd (apply_refusal iid t))) = spec_refuse iid (locks t)"
proof -
  have dup: "(\<exists>r'. locks t r' = Some (iid, Pending)) \<longleftrightarrow> (\<exists>e\<in>set (entries t). pending_id iid e)"
    using locks_Some [OF inv] by (auto simp: pending_id_def)
  have same: "e = e'" if "e \<in> set (entries t)" "e' \<in> set (entries t)"
    "entry_resource e = entry_resource e'" for e e'
    using inv that by (auto simp: intent_inv_def distinct_map inj_on_def)
  have "locks (t\<lparr>entries := filter (\<lambda>e. \<not> pending_id iid e) (entries t)\<rparr>) r
      = (if locks t r = Some (iid, Pending) then None else locks t r)" for r
  proof (rule option_eqI)
    fix v :: "bytes \<times> intent_state"
    obtain j st where v: "v = (j, st)" by (cases v)
    show "locks (t\<lparr>entries := filter (\<lambda>e. \<not> pending_id iid e) (entries t)\<rparr>) r = Some v
      \<longleftrightarrow> (if locks t r = Some (iid, Pending) then None else locks t r) = Some v"
      unfolding v locks_filter [OF inv] using locks_Some [OF inv, of r] same
      by (auto simp: pending_id_def)
  qed
  then show ?thesis
    using apply_refusal_None [of t iid] apply_refusal_Some [OF inv, of iid]
    by (cases "\<exists>e\<in>set (entries t). pending_id iid e") (auto simp: spec_refuse_def dup)
qed

section \<open>Properties\<close>

text \<open>
  Whatever sequence of admissions, transitions, refusals and sweeps is run from the
  empty table, the table holds at most 256 entries, all of them live, no two of them on the
  same resource and no two pending ones with the same intent id.
\<close>

theorem intent_table_invariant: "intent_inv (fold intent_step ops table_new)"
  by (rule intents.inv_run)

text \<open>
  C11: Admission implements the lock map on every reachable table: it panics on an oversized
  length, refuses an id that is already pending, then a resource that is held, then a full
  table, and otherwise the resource, and nothing else, becomes held by this intent.
\<close>

theorem admit_refines_lock_map:
  "(fst (admit iid res n now (fold intent_step ops table_new)),
    locks (snd (admit iid res n now (fold intent_step ops table_new))))
   = spec_admit iid res n (locks (fold intent_step ops table_new))"
  by (rule admit_locks [OF intents.inv_run])

text \<open>
  A refusal implements the lock map on every reachable table: it releases exactly the
  resource its pending intent holds, and does nothing when no intent of that id is pending.
\<close>

theorem refusal_refines_lock_map:
  "(fst (apply_refusal iid (fold intent_step ops table_new)),
    locks (snd (apply_refusal iid (fold intent_step ops table_new))))
   = spec_refuse iid (locks (fold intent_step ops table_new))"
  by (rule refusal_locks [OF intents.inv_run])

text \<open>
  The timeout sweep removes exactly the pending entries whose admission time plus the
  pending timeout lies strictly before now, keeps every executing entry, preserves the order
  of the survivors and returns the number removed; it panics exactly when the deadline of
  some pending entry does not fit in 64 bits.
\<close>

theorem expire_timeouts_sweep:
  "expire_timeouts now (fold intent_step ops table_new) =
    (let t = fold intent_step ops table_new in
     if list_all deadline_fits (entries t)
     then (Ok (length (filter (overdue now) (entries t))),
           t\<lparr>entries := filter (\<lambda>e. \<not> overdue now e) (entries t)\<rparr>)
     else (Panic, t))"
proof (cases "list_all deadline_fits (entries (fold intent_step ops table_new))")
  case True
  then show ?thesis
    using expire_timeouts_Ok [OF intents.inv_run [of ops], of now] by (simp add: list_all_iff Let_def)
next
  case False
  then have "expire_entries now (entries (fold intent_step ops table_new)) = Panic"
    by (auto simp: expire_entries_Panic list_all_iff)
  with False show ?thesis by (simp add: expire_timeouts_def Let_def)
qed

end
