(* ===== verification/GrantLedger.thy ===== *)
theory GrantLedger
  imports Codec "HOL-Library.AList"
begin

text \<open>
  The durable grant ledger (src/src/state/ledger.rs): an append-only log of four record
  kinds and the caches rebuilt from it. The file is modelled by its contents and the write
  position of the open handle; the outcome of each write, sync, rename and reopen is an
  argument, so that a torn write or a failed rename is an input like any other. A HashMap is
  an association list (its iteration order is the list's), a HashSet a list without
  duplicates. The lemmas show what the log format is, that the log always replays to the
  caches, what every crash point leaves, and the bounds of the caches.
\<close>

section \<open>State\<close>

definition TAG_COMMIT :: u8 where "TAG_COMMIT = 1"
definition TAG_PUBLISHED :: u8 where "TAG_PUBLISHED = 2"
definition TAG_REVOKE :: u8 where "TAG_REVOKE = 3"
definition TAG_FIRST_RECEIPT :: u8 where "TAG_FIRST_RECEIPT = 4"
definition REC_COMMIT_LEN :: nat where "REC_COMMIT_LEN = 25"
definition REC_PUBLISHED_LEN :: nat where "REC_PUBLISHED_LEN = 17"
definition REC_REVOKE_LEN :: nat where "REC_REVOKE_LEN = 41"
definition REC_FIRST_RECEIPT_LEN :: nat where "REC_FIRST_RECEIPT_LEN = 25"
definition MAX_LIVE :: nat where "MAX_LIVE = 1024"
definition GRANT_ID_LEN :: nat where "GRANT_ID_LEN = 16"
definition SIG_PUBKEY_LEN :: nat where "SIG_PUBKEY_LEN = 32"

lemmas ledger_tags = TAG_COMMIT_def TAG_PUBLISHED_def TAG_REVOKE_def TAG_FIRST_RECEIPT_def
lemmas ledger_lens =
  REC_COMMIT_LEN_def REC_PUBLISHED_LEN_def REC_REVOKE_LEN_def REC_FIRST_RECEIPT_LEN_def
  GRANT_ID_LEN_def SIG_PUBKEY_LEN_def

datatype ledger_error = BadLog | ResourceExhausted | DiskError | Locked

record recovery =
  rc_orphans :: "bytes list"
  rc_consumed_count :: nat
  rc_revoked_count :: nat

text \<open>The directory: the log file and the temporary file of a prune, each possibly absent.\<close>

record ledger_disk =
  dk_log :: "bytes option"
  dk_tmp :: "bytes option"

record ledger_caches =
  gl_consumed :: "(bytes \<times> u64) list"
  gl_consumed_order :: "bytes list"
  gl_published :: "bytes list"
  gl_revoked :: "(bytes \<times> u64) list"
  gl_first_receipts :: "(bytes \<times> u64) list"

text \<open>An open handle is its position in the file.\<close>

record grant_ledger = ledger_caches +
  gl_file :: "nat option"
  gl_read_only :: bool
  gl_disk :: ledger_disk

definition log_bytes :: "grant_ledger \<Rightarrow> bytes" where
  "log_bytes l = (case dk_log (gl_disk l) of None \<Rightarrow> [] | Some b \<Rightarrow> b)"

section \<open>What the file system answers\<close>

datatype disk_write = WriteDone | WriteTorn nat | SyncFailed
datatype disk_read = ReadDone | SeekFailed | ReadFailed nat  \<comment> \<open>with where it left the handle\<close>
datatype open_answer = OpenDone | OpenFailed | StaleRemovalFailed
datatype prune_answer = PruneDone | TempFailed nat | RenameFailed | ReopenFailed | RelockFailed

section \<open>The lock\<close>

text \<open>The seam to flock (src/src/state/ffi.rs); its answer to a descriptor and an operation is an argument.\<close>

definition LOCK_EX :: "32 word" where "LOCK_EX = 2"
definition LOCK_NB :: "32 word" where "LOCK_NB = 4"

definition flock_exclusive_nb :: "('fd \<Rightarrow> 32 word \<Rightarrow> 32 word) \<Rightarrow> 'fd \<Rightarrow> bool" where
  "flock_exclusive_nb flock fd \<longleftrightarrow> flock fd (or LOCK_EX LOCK_NB) = 0"

section \<open>Opening\<close>

definition ledger_open ::
  "open_answer \<Rightarrow> bool \<Rightarrow> ledger_disk \<Rightarrow> (grant_ledger, ledger_error) outcome \<times> ledger_disk" where
  "ledger_open io locked_elsewhere d =
     (if io = OpenFailed then (Err DiskError, d)
      else
        let d1 = d\<lparr>dk_log := Some (case dk_log d of None \<Rightarrow> [] | Some b \<Rightarrow> b)\<rparr> in
        if locked_elsewhere then (Err Locked, d1)
        else if dk_tmp d \<noteq> None \<and> io = StaleRemovalFailed then (Err DiskError, d1)
        else
          let d2 = d1\<lparr>dk_tmp := None\<rparr> in
          (Ok \<lparr>gl_consumed = [], gl_consumed_order = [], gl_published = [], gl_revoked = [],
              gl_first_receipts = [], gl_file = Some 0, gl_read_only = False, gl_disk = d2\<rparr>, d2))"

definition ledger_open_read_only :: "ledger_disk \<Rightarrow> (grant_ledger, ledger_error) outcome" where
  "ledger_open_read_only d =
     (case dk_log d of
        None \<Rightarrow> Err DiskError
      | Some b \<Rightarrow>
          Ok \<lparr>gl_consumed = [], gl_consumed_order = [], gl_published = [], gl_revoked = [],
             gl_first_receipts = [], gl_file = Some 0, gl_read_only = True, gl_disk = d\<rparr>)"

section \<open>Recovery\<close>

definition record_need :: "u8 \<Rightarrow> nat option" where
  "record_need tag =
     (if tag = TAG_COMMIT then Some REC_COMMIT_LEN
      else if tag = TAG_PUBLISHED then Some REC_PUBLISHED_LEN
      else if tag = TAG_REVOKE then Some REC_REVOKE_LEN
      else if tag = TAG_FIRST_RECEIPT then Some REC_FIRST_RECEIPT_LEN
      else None)"

lemma record_need_pos: "record_need tag = Some n \<Longrightarrow> 0 < n"
  by (auto simp: record_need_def ledger_lens split: if_splits)

definition apply_record :: "u8 \<Rightarrow> bytes \<Rightarrow> 'a ledger_caches_scheme \<Rightarrow> 'a ledger_caches_scheme" where
  "apply_record tag rec l =
     (if tag = TAG_COMMIT then
        let gid = take GRANT_ID_LEN (drop 1 rec); expiry = from_be_bytes (drop (1 + GRANT_ID_LEN) rec);
            l1 = (if gid \<notin> set (gl_published l) \<and> map_of (gl_consumed l) gid = None
                  then l\<lparr>gl_consumed_order := gl_consumed_order l @ [gid]\<rparr> else l)
        in l1\<lparr>gl_consumed := AList.update gid expiry (gl_consumed l1)\<rparr>
      else if tag = TAG_PUBLISHED then
        let gid = drop 1 rec
        in l\<lparr>gl_consumed := AList.delete gid (gl_consumed l),
             gl_published := List.insert gid (gl_published l)\<rparr>
      else if tag = TAG_REVOKE then
        let pk = take SIG_PUBKEY_LEN (drop 1 rec)
        in l\<lparr>gl_revoked := AList.update pk (from_be_bytes (drop (1 + SIG_PUBKEY_LEN) rec)) (gl_revoked l)\<rparr>
      else
        let gid = take GRANT_ID_LEN (drop 1 rec)
        in (case map_of (gl_first_receipts l) gid of
              Some t \<Rightarrow> l
            | None \<Rightarrow> l\<lparr>gl_first_receipts :=
                AList.update gid (from_be_bytes (drop (1 + GRANT_ID_LEN) rec)) (gl_first_receipts l)\<rparr>))"

function replay ::
  "bytes \<Rightarrow> 'a ledger_caches_scheme \<Rightarrow> (unit, ledger_error) outcome \<times> 'a ledger_caches_scheme" where
  "replay buf l =
     (case buf of
        [] \<Rightarrow> (Ok (), l)
      | tag # _ \<Rightarrow>
          (case record_need tag of
             None \<Rightarrow> (Err BadLog, l)
           | Some need \<Rightarrow>
               if length buf < need then (Ok (), l)
               else replay (drop need buf) (apply_record tag (take need buf) l)))"
  by pat_completeness auto
termination
  by (relation "measure (\<lambda>(buf, l). length buf)") (auto dest: record_need_pos)

declare replay.simps [simp del]

definition clear_caches :: "'a ledger_caches_scheme \<Rightarrow> 'a ledger_caches_scheme" where
  "clear_caches l = l\<lparr>gl_consumed := [], gl_consumed_order := [], gl_published := [],
     gl_revoked := [], gl_first_receipts := []\<rparr>"

definition orphans :: "'a ledger_caches_scheme \<Rightarrow> bytes list" where
  "orphans l = filter (\<lambda>gid. map_of (gl_consumed l) gid \<noteq> None) (gl_consumed_order l)"

definition ledger_recover ::
  "disk_read \<Rightarrow> grant_ledger \<Rightarrow> (recovery, ledger_error) outcome \<times> grant_ledger" where
  "ledger_recover io l =
     (case gl_file l of
        None \<Rightarrow> (Err DiskError, l)
      | Some pos \<Rightarrow>
          (case io of
             SeekFailed \<Rightarrow> (Err DiskError, l)
           | ReadFailed at \<Rightarrow> (Err DiskError, l\<lparr>gl_file := Some at\<rparr>)
           | ReadDone \<Rightarrow>
               then_state (replay (log_bytes l) (clear_caches (l\<lparr>gl_file := Some (length (log_bytes l))\<rparr>)))
                 (\<lambda>_ l. (Ok \<lparr>rc_orphans = orphans l, rc_consumed_count = length (gl_consumed l),
                           rc_revoked_count = length (gl_revoked l)\<rparr>, l))))"

section \<open>Queries\<close>

definition get_first_receipt :: "bytes \<Rightarrow> 'a ledger_caches_scheme \<Rightarrow> u64 option" where
  "get_first_receipt gid l = map_of (gl_first_receipts l) gid"

definition is_consumed :: "bytes \<Rightarrow> 'a ledger_caches_scheme \<Rightarrow> bool" where
  "is_consumed gid l \<longleftrightarrow> map_of (gl_consumed l) gid \<noteq> None"

definition is_published :: "bytes \<Rightarrow> 'a ledger_caches_scheme \<Rightarrow> bool" where
  "is_published gid l \<longleftrightarrow> gid \<in> set (gl_published l)"

definition is_revoked :: "bytes \<Rightarrow> 'a ledger_caches_scheme \<Rightarrow> bool" where
  "is_revoked pk l \<longleftrightarrow> map_of (gl_revoked l) pk \<noteq> None"

lemmas ledger_queries = get_first_receipt_def is_consumed_def is_published_def is_revoked_def

section \<open>Appending\<close>

text \<open>A write at the handle's position overwrites what is there and extends the file.\<close>

definition write_at :: "nat \<Rightarrow> bytes \<Rightarrow> bytes \<Rightarrow> bytes" where
  "write_at off r content =
     take off (content @ replicate (off - length content) 0) @ r @ drop (off + length r) content"

definition put_bytes :: "nat \<Rightarrow> bytes \<Rightarrow> grant_ledger \<Rightarrow> grant_ledger" where
  "put_bytes off r l =
     l\<lparr>gl_file := Some (off + length r),
       gl_disk := (gl_disk l)\<lparr>dk_log := Some (write_at off r (log_bytes l))\<rparr>\<rparr>"

definition ledger_append ::
  "disk_write \<Rightarrow> bytes \<Rightarrow> grant_ledger \<Rightarrow> (unit, ledger_error) outcome \<times> grant_ledger" where
  "ledger_append io rec l =
     (if gl_read_only l then (Err DiskError, l)
      else case gl_file l of
        None \<Rightarrow> (Err DiskError, l)
      | Some off \<Rightarrow>
          (case io of
             WriteDone \<Rightarrow> (Ok (), put_bytes off rec l)
           | WriteTorn n \<Rightarrow> (Err DiskError, put_bytes off (take n rec) l)
           | SyncFailed \<Rightarrow> (Err DiskError, put_bytes off rec l)))"

section \<open>Pruning\<close>

definition prune_image :: "'a ledger_caches_scheme \<Rightarrow> bytes" where
  "prune_image l =
     concat (map (\<lambda>(gid, e). [TAG_COMMIT] @ gid @ to_be_bytes e) (gl_consumed l))
     @ concat (map (\<lambda>(pk, e). [TAG_REVOKE] @ pk @ to_be_bytes e) (gl_revoked l))
     @ concat (map (\<lambda>(gid, t). [TAG_FIRST_RECEIPT] @ gid @ to_be_bytes t) (gl_first_receipts l))"

definition prune_expired ::
  "prune_answer \<Rightarrow> u64 \<Rightarrow> grant_ledger \<Rightarrow> (unit, ledger_error) outcome \<times> grant_ledger" where
  "prune_expired io now_ms l =
     (if gl_read_only l then (Err DiskError, l)
      else if filter (\<lambda>(gid, e). e \<le> now_ms) (gl_consumed l) = [] then (Ok (), l)
      else
        let l1 = l\<lparr>gl_consumed := filter (\<lambda>(gid, e). \<not> e \<le> now_ms) (gl_consumed l)\<rparr>;
            l2 = l1\<lparr>gl_consumed_order :=
              filter (\<lambda>gid. map_of (gl_consumed l1) gid \<noteq> None) (gl_consumed_order l1)\<rparr>;
            image = prune_image l2; d = gl_disk l2;
            renamed = l2\<lparr>gl_disk := \<lparr>dk_log = Some image, dk_tmp = None\<rparr>\<rparr>
        in (case io of
              TempFailed n \<Rightarrow> (Err DiskError, l2\<lparr>gl_disk := d\<lparr>dk_tmp := Some (take n image)\<rparr>\<rparr>)
            | RenameFailed \<Rightarrow> (Err DiskError, l2\<lparr>gl_disk := d\<lparr>dk_tmp := Some image\<rparr>\<rparr>)
            | ReopenFailed \<Rightarrow> (Err DiskError, renamed\<lparr>gl_file := None\<rparr>)
            | RelockFailed \<Rightarrow> (Err Locked, renamed\<lparr>gl_file := None\<rparr>)
            | PruneDone \<Rightarrow> (Ok (), renamed\<lparr>gl_file := Some 0\<rparr>)))"

section \<open>Mutators\<close>

definition commit_consumed ::
  "disk_write \<Rightarrow> prune_answer \<Rightarrow> bytes \<Rightarrow> u64 \<Rightarrow> u64 \<Rightarrow> grant_ledger \<Rightarrow>
   (unit, ledger_error) outcome \<times> grant_ledger" where
  "commit_consumed io pio grant_id expiry_ms now_ms l =
     (if is_consumed grant_id l \<or> is_published grant_id l then (Ok (), l)
      else
        then_state
          (if length (gl_consumed l) \<ge> MAX_LIVE
           then then_state (prune_expired pio now_ms l) (\<lambda>_ l.
             if length (gl_consumed l) \<ge> MAX_LIVE then (Err ResourceExhausted, l) else (Ok (), l))
           else (Ok (), l))
          (\<lambda>_ l. then_state (ledger_append io ([TAG_COMMIT] @ grant_id @ to_be_bytes expiry_ms) l)
            (\<lambda>_ l. (Ok (), l\<lparr>gl_consumed_order := gl_consumed_order l @ [grant_id],
               gl_consumed := AList.update grant_id expiry_ms (gl_consumed l)\<rparr>))))"

definition mark_published ::
  "disk_write \<Rightarrow> bytes \<Rightarrow> grant_ledger \<Rightarrow> (unit, ledger_error) outcome \<times> grant_ledger" where
  "mark_published io grant_id l =
     (if is_published grant_id l then (Ok (), l)
      else then_state (ledger_append io ([TAG_PUBLISHED] @ grant_id) l)
        (\<lambda>_ l. (Ok (), l\<lparr>gl_consumed := AList.delete grant_id (gl_consumed l),
           gl_published := List.insert grant_id (gl_published l)\<rparr>)))"

definition commit_revocation ::
  "disk_write \<Rightarrow> bytes \<Rightarrow> u64 \<Rightarrow> grant_ledger \<Rightarrow> (unit, ledger_error) outcome \<times> grant_ledger" where
  "commit_revocation io sig_pubkey cert_expiry_ms l =
     (if is_revoked sig_pubkey l then (Ok (), l)
      else if length (gl_revoked l) \<ge> MAX_LIVE then (Err ResourceExhausted, l)
      else then_state (ledger_append io ([TAG_REVOKE] @ sig_pubkey @ to_be_bytes cert_expiry_ms) l)
        (\<lambda>_ l. (Ok (), l\<lparr>gl_revoked := AList.update sig_pubkey cert_expiry_ms (gl_revoked l)\<rparr>)))"

definition record_first_receipt ::
  "disk_write \<Rightarrow> bytes \<Rightarrow> u64 \<Rightarrow> grant_ledger \<Rightarrow> (unit, ledger_error) outcome \<times> grant_ledger" where
  "record_first_receipt io grant_id time_ms l =
     (if map_of (gl_first_receipts l) grant_id \<noteq> None then (Ok (), l)
      else then_state (ledger_append io ([TAG_FIRST_RECEIPT] @ grant_id @ to_be_bytes time_ms) l)
        (\<lambda>_ l. (Ok (), l\<lparr>gl_first_receipts :=
           AList.update grant_id time_ms (gl_first_receipts l)\<rparr>)))"

definition ledger_close :: "grant_ledger \<Rightarrow> grant_ledger" where
  "ledger_close l = l\<lparr>gl_file := None\<rparr>"

section \<open>The log as a list of records\<close>

datatype ledger_rec =
  RecCommit bytes u64 | RecPublished bytes | RecRevoke bytes u64 | RecReceipt bytes u64

primrec enc_rec :: "ledger_rec \<Rightarrow> bytes" where
  "enc_rec (RecCommit gid e) = [TAG_COMMIT] @ gid @ to_be_bytes e"
| "enc_rec (RecPublished gid) = [TAG_PUBLISHED] @ gid"
| "enc_rec (RecRevoke pk e) = [TAG_REVOKE] @ pk @ to_be_bytes e"
| "enc_rec (RecReceipt gid t) = [TAG_FIRST_RECEIPT] @ gid @ to_be_bytes t"

primrec wf_rec :: "ledger_rec \<Rightarrow> bool" where
  "wf_rec (RecCommit gid e) \<longleftrightarrow> length gid = GRANT_ID_LEN"
| "wf_rec (RecPublished gid) \<longleftrightarrow> length gid = GRANT_ID_LEN"
| "wf_rec (RecRevoke pk e) \<longleftrightarrow> length pk = SIG_PUBKEY_LEN"
| "wf_rec (RecReceipt gid t) \<longleftrightarrow> length gid = GRANT_ID_LEN"

text \<open>The effect of one record on the caches.\<close>

primrec apply_rec :: "ledger_rec \<Rightarrow> 'a ledger_caches_scheme \<Rightarrow> 'a ledger_caches_scheme" where
  "apply_rec (RecCommit gid e) l =
     (if gid \<notin> set (gl_published l) \<and> map_of (gl_consumed l) gid = None
      then l\<lparr>gl_consumed_order := gl_consumed_order l @ [gid]\<rparr> else l)
     \<lparr>gl_consumed := AList.update gid e (gl_consumed l)\<rparr>"
| "apply_rec (RecPublished gid) l =
     l\<lparr>gl_consumed := AList.delete gid (gl_consumed l), gl_published := List.insert gid (gl_published l)\<rparr>"
| "apply_rec (RecRevoke pk e) l = l\<lparr>gl_revoked := AList.update pk e (gl_revoked l)\<rparr>"
| "apply_rec (RecReceipt gid t) l =
     (if map_of (gl_first_receipts l) gid = None
      then l\<lparr>gl_first_receipts := AList.update gid t (gl_first_receipts l)\<rparr> else l)"

definition torn :: "bytes \<Rightarrow> bool" where
  "torn tail \<longleftrightarrow> tail = [] \<or> (\<exists>need. record_need (hd tail) = Some need \<and> length tail < need)"

lemma apply_record_enc:
  "wf_rec r \<Longrightarrow> apply_record (hd (enc_rec r)) (enc_rec r) l = apply_rec r l"
  by (cases r) (auto simp: apply_record_def ledger_tags ledger_lens Let_def split: option.splits)

lemma record_need_enc: "wf_rec r \<Longrightarrow> record_need (hd (enc_rec r)) = Some (length (enc_rec r))"
  by (cases r) (auto simp: record_need_def ledger_tags ledger_lens)

lemma enc_rec_Cons: "enc_rec r = hd (enc_rec r) # tl (enc_rec r)"
  by (cases r) auto

lemma replay_rec:
  assumes "wf_rec r"
  shows "replay (enc_rec r @ rest) l = replay rest (apply_rec r l)"
proof -
  obtain t ts where e: "enc_rec r = t # ts" using enc_rec_Cons by blast
  have "record_need t = Some (length (enc_rec r))" "apply_record t (enc_rec r) l = apply_rec r l"
    using record_need_enc [OF assms] apply_record_enc [OF assms] by (simp_all add: e)
  then show ?thesis by (subst replay.simps) (simp add: e)
qed

lemma replay_torn: "torn tail \<Longrightarrow> replay tail l = (Ok (), l)"
  by (subst replay.simps) (auto simp: torn_def split: list.splits)

lemma replay_recs:
  "list_all wf_rec recs \<Longrightarrow> replay (concat (map enc_rec recs) @ rest) l = replay rest (fold apply_rec recs l)"
  by (induction recs arbitrary: l) (simp_all add: replay_rec)

lemma torn_prefix:
  assumes "wf_rec r" "n < length (enc_rec r)"
  shows "torn (take n (enc_rec r))"
proof -
  obtain t ts where e: "enc_rec r = t # ts" using enc_rec_Cons by blast
  show ?thesis using record_need_enc [OF assms(1)] assms(2) by (cases n) (simp_all add: torn_def e)
qed

lemma enc_rec_exists:
  assumes "record_need tag = Some need" "length b = need" "hd b = tag"
  shows "\<exists>r. wf_rec r \<and> b = enc_rec r"
proof -
  from assms record_need_pos obtain ts where b: "b = tag # ts" by (cases b) fastforce+
  consider (c) "tag = TAG_COMMIT" "length ts = 24" | (p) "tag = TAG_PUBLISHED" "length ts = 16"
    | (r) "tag = TAG_REVOKE" "length ts = 40" | (f) "tag = TAG_FIRST_RECEIPT" "length ts = 24"
    using assms b by (auto simp: record_need_def ledger_lens split: if_splits)
  then show ?thesis
  proof cases
    case c
    then show ?thesis
      by (intro exI [of _ "RecCommit (take 16 ts) (from_be_bytes (drop 16 ts))"])
        (simp add: b ledger_lens to_from_be)
  next
    case p
    then show ?thesis by (intro exI [of _ "RecPublished ts"]) (simp add: b ledger_lens)
  next
    case r
    then show ?thesis
      by (intro exI [of _ "RecRevoke (take 32 ts) (from_be_bytes (drop 32 ts))"])
        (simp add: b ledger_lens to_from_be)
  next
    case f
    then show ?thesis
      by (intro exI [of _ "RecReceipt (take 16 ts) (from_be_bytes (drop 16 ts))"])
        (simp add: b ledger_lens to_from_be)
  qed
qed

text \<open>Every buffer that replays is a list of records and a torn tail.\<close>

lemma replay_Ok_iff:
  "fst (replay b l) = Ok () \<longleftrightarrow>
     (\<exists>recs tail. list_all wf_rec recs \<and> torn tail \<and> b = concat (map enc_rec recs) @ tail)"
proof
  show "\<exists>recs tail. list_all wf_rec recs \<and> torn tail \<and> b = concat (map enc_rec recs) @ tail"
    if "fst (replay b l) = Ok ()"
    using that
  proof (induction b l rule: replay.induct)
    case (1 b l)
    show ?case
    proof (cases "torn b")
      case True
      then show ?thesis by (intro exI [of _ "[]"] exI [of _ b]) simp
    next
      case False
      then obtain tag ts where b: "b = tag # ts" by (cases b) (auto simp: torn_def)
      from "1.prems" obtain need where need: "record_need tag = Some need"
        by (subst (asm) replay.simps) (auto simp: b split: option.splits)
      with False have len: "\<not> length b < need" by (auto simp: torn_def b)
      from "1.prems" have "fst (replay (drop need b) (apply_record tag (take need b) l)) = Ok ()"
        using need len by (subst (asm) replay.simps) (simp add: b)
      from "1.IH" [OF b need len this] obtain recs tail where
        r: "list_all wf_rec recs" "torn tail" "drop need b = concat (map enc_rec recs) @ tail" by blast
      have "hd (take need b) = tag" using record_need_pos [OF need] b by (cases need) auto
      then obtain r where "wf_rec r" "take need b = enc_rec r"
        using enc_rec_exists [OF need, of "take need b"] len by auto
      then have "b = concat (map enc_rec (r # recs)) @ tail" using r(3) append_take_drop_id [of need b] by simp
      with r \<open>wf_rec r\<close> show ?thesis by (intro exI [of _ "r # recs"] exI [of _ tail]) simp
    qed
  qed
next
  assume "\<exists>recs tail. list_all wf_rec recs \<and> torn tail \<and> b = concat (map enc_rec recs) @ tail"
  then show "fst (replay b l) = Ok ()" by (auto simp: replay_recs replay_torn)
qed

section \<open>Operations as records\<close>

datatype ledger_op = LCommit bytes u64 u64 | LPublish bytes | LRevoke bytes u64 | LReceipt bytes u64

primrec ledger_do ::
  "disk_write \<Rightarrow> prune_answer \<Rightarrow> ledger_op \<Rightarrow> grant_ledger \<Rightarrow> (unit, ledger_error) outcome \<times> grant_ledger" where
  "ledger_do io pio (LCommit gid e now) l = commit_consumed io pio gid e now l"
| "ledger_do io pio (LPublish gid) l = mark_published io gid l"
| "ledger_do io pio (LRevoke pk e) l = commit_revocation io pk e l"
| "ledger_do io pio (LReceipt gid t) l = record_first_receipt io gid t l"

primrec wf_op :: "ledger_op \<Rightarrow> bool" where
  "wf_op (LCommit gid e now) \<longleftrightarrow> length gid = GRANT_ID_LEN"
| "wf_op (LPublish gid) \<longleftrightarrow> length gid = GRANT_ID_LEN"
| "wf_op (LRevoke pk e) \<longleftrightarrow> length pk = SIG_PUBKEY_LEN"
| "wf_op (LReceipt gid t) \<longleftrightarrow> length gid = GRANT_ID_LEN"

text \<open>The record an operation appends when the live cap is not reached, if any.\<close>

primrec op_rec :: "ledger_op \<Rightarrow> 'a ledger_caches_scheme \<Rightarrow> ledger_rec option" where
  "op_rec (LCommit gid e now) l =
     (if is_consumed gid l \<or> is_published gid l then None else Some (RecCommit gid e))"
| "op_rec (LPublish gid) l = (if is_published gid l then None else Some (RecPublished gid))"
| "op_rec (LRevoke pk e) l =
     (if is_revoked pk l \<or> length (gl_revoked l) \<ge> MAX_LIVE then None else Some (RecRevoke pk e))"
| "op_rec (LReceipt gid t) l =
     (if get_first_receipt gid l \<noteq> None then None else Some (RecReceipt gid t))"

lemma op_rec_wf: "wf_op op \<Longrightarrow> op_rec op l = Some r \<Longrightarrow> wf_rec r"
  by (cases op) (auto split: if_splits)

lemma put_bytes_caches [simp]:
  "gl_consumed (put_bytes off r l) = gl_consumed l"
  "gl_consumed_order (put_bytes off r l) = gl_consumed_order l"
  "gl_published (put_bytes off r l) = gl_published l"
  "gl_revoked (put_bytes off r l) = gl_revoked l"
  "gl_first_receipts (put_bytes off r l) = gl_first_receipts l"
  "gl_read_only (put_bytes off r l) = gl_read_only l"
  "gl_file (put_bytes off r l) = Some (off + length r)"
  by (simp_all add: put_bytes_def)

lemma put_bytes_end:
  "off = length (log_bytes l) \<Longrightarrow> log_bytes (put_bytes off r l) = log_bytes l @ r"
  by (simp add: put_bytes_def log_bytes_def write_at_def)

lemma apply_rec_frame [simp]:
  "gl_file (apply_rec r l) = gl_file l" "gl_disk (apply_rec r l) = gl_disk l"
  "gl_read_only (apply_rec r l) = gl_read_only l"
  by (cases r; simp)+

lemma log_bytes_apply [simp]: "log_bytes (apply_rec r l) = log_bytes l"
  by (simp add: log_bytes_def)

lemma ledger_do_done:
  assumes "\<not> gl_read_only l" "gl_file l = Some off" "length (gl_consumed l) < MAX_LIVE"
  shows "snd (ledger_do WriteDone pio op l) =
    (case op_rec op l of None \<Rightarrow> l | Some r \<Rightarrow> apply_rec r (put_bytes off (enc_rec r) l))"
  using assms
  by (cases op) (auto simp: commit_consumed_def mark_published_def commit_revocation_def
      record_first_receipt_def ledger_append_def ledger_queries)

definition wrote :: "disk_write \<Rightarrow> bytes \<Rightarrow> bytes" where
  "wrote io r = (case io of WriteTorn n \<Rightarrow> take n r | _ \<Rightarrow> r)"

lemma ledger_do_failed:
  assumes "\<not> gl_read_only l" "gl_file l = Some off" "length (gl_consumed l) < MAX_LIVE"
    and "io \<noteq> WriteDone"
  shows "snd (ledger_do io pio op l) =
    (case op_rec op l of None \<Rightarrow> l | Some r \<Rightarrow> put_bytes off (wrote io (enc_rec r)) l)"
  using assms
  by (cases op; cases io) (auto simp: commit_consumed_def mark_published_def commit_revocation_def
      record_first_receipt_def ledger_append_def ledger_queries wrote_def)

lemma ledger_do_ok:
  assumes "\<not> gl_read_only l" "gl_file l = Some off" "length (gl_consumed l) < MAX_LIVE"
    and "fst (ledger_do io pio op l) = Ok ()"
  shows "op_rec op l = None \<or> io = WriteDone"
  using assms
  by (cases op; cases io) (auto simp: commit_consumed_def mark_published_def commit_revocation_def
      record_first_receipt_def ledger_append_def ledger_queries split: if_splits)

section \<open>Restarting on a log\<close>

definition caches :: "'a ledger_caches_scheme \<Rightarrow> ledger_caches" where
  "caches l = ledger_caches.truncate l"

definition no_caches :: ledger_caches where
  "no_caches = \<lparr>gl_consumed = [], gl_consumed_order = [], gl_published = [], gl_revoked = [],
     gl_first_receipts = []\<rparr>"

definition ledger_restart :: "ledger_disk \<Rightarrow> grant_ledger option" where
  "ledger_restart d =
     (case ledger_open OpenDone False d of
        (Ok l, _) \<Rightarrow> (case ledger_recover ReadDone l of (Ok _, l) \<Rightarrow> Some l | _ \<Rightarrow> None)
      | _ \<Rightarrow> None)"

definition log_of :: "ledger_rec list \<Rightarrow> ledger_disk" where
  "log_of recs = \<lparr>dk_log = Some (concat (map enc_rec recs)), dk_tmp = None\<rparr>"

lemma caches_sel [simp]:
  "gl_consumed (caches l) = gl_consumed l" "gl_consumed_order (caches l) = gl_consumed_order l"
  "gl_published (caches l) = gl_published l" "gl_revoked (caches l) = gl_revoked l"
  "gl_first_receipts (caches l) = gl_first_receipts l"
  by (simp_all add: caches_def ledger_caches.truncate_def)

lemma caches_apply: "caches (apply_rec r l) = apply_rec r (caches l)"
  by (cases r) (auto simp: caches_def ledger_caches.truncate_def)

lemma caches_fold: "caches (fold apply_rec recs l) = fold apply_rec recs (caches l)"
  by (induction recs arbitrary: l) (simp_all add: caches_apply)

lemma caches_put [simp]: "caches (put_bytes off r l) = caches l"
  by (simp add: caches_def ledger_caches.truncate_def)

lemma fold_frame [simp]:
  "gl_file (fold apply_rec recs l) = gl_file l" "gl_disk (fold apply_rec recs l) = gl_disk l"
  "gl_read_only (fold apply_rec recs l) = gl_read_only l"
  by (induction recs arbitrary: l) simp_all

definition synced :: "grant_ledger \<Rightarrow> bool" where
  "synced l \<longleftrightarrow> \<not> gl_read_only l \<and> gl_file l = Some (length (log_bytes l))
     \<and> dk_log (gl_disk l) \<noteq> None
     \<and> (\<exists>recs. list_all wf_rec recs \<and> log_bytes l = concat (map enc_rec recs)
          \<and> caches l = fold apply_rec recs no_caches)"

lemma ledger_restart_log:
  assumes "list_all wf_rec recs" "torn tail" "dk_log d = Some (concat (map enc_rec recs) @ tail)"
  shows "\<exists>l. ledger_restart d = Some l \<and> caches l = fold apply_rec recs no_caches
    \<and> gl_file l = Some (length (log_bytes l)) \<and> \<not> gl_read_only l \<and> dk_log (gl_disk l) = dk_log d"
proof -
  define l0 where "l0 = \<lparr>gl_consumed = [], gl_consumed_order = [], gl_published = [],
    gl_revoked = [], gl_first_receipts = [], gl_file = Some (length (concat (map enc_rec recs) @ tail)),
    gl_read_only = False, gl_disk = d\<lparr>dk_log := Some (concat (map enc_rec recs) @ tail), dk_tmp := None\<rparr>\<rparr>"
  have "ledger_restart d = Some (fold apply_rec recs l0)"
    using assms(3)
    by (simp add: replay_recs [OF assms(1)] replay_torn [OF assms(2)] ledger_restart_def ledger_open_def ledger_recover_def log_bytes_def clear_caches_def l0_def Let_def)
  moreover have "caches l0 = no_caches"
    by (simp add: caches_def ledger_caches.truncate_def l0_def no_caches_def)
  ultimately show ?thesis using assms by (simp add: caches_fold log_bytes_def l0_def)
qed

lemma ledger_restart_synced:
  assumes "list_all wf_rec recs"
  shows "\<exists>l. ledger_restart (log_of recs) = Some l \<and> synced l"
  using ledger_restart_log [OF assms, of "[]" "log_of recs"] assms
  by (fastforce simp: torn_def log_of_def synced_def log_bytes_def)

lemma ledger_do_synced:
  assumes "synced l" "wf_op op" "length (gl_consumed l) < MAX_LIVE"
  shows "synced (snd (ledger_do WriteDone pio op l))"
proof (cases "op_rec op l")
  case None
  with assms show ?thesis by (auto simp: ledger_do_done synced_def)
next
  case (Some r)
  from assms obtain recs where recs: "list_all wf_rec recs" "log_bytes l = concat (map enc_rec recs)"
    "caches l = fold apply_rec recs no_caches" by (auto simp: synced_def)
  have "wf_rec r" using op_rec_wf [OF assms(2) Some] .
  with recs have "\<exists>recs'. list_all wf_rec recs' \<and> log_bytes l @ enc_rec r = concat (map enc_rec recs')
      \<and> apply_rec r (caches l) = fold apply_rec recs' no_caches"
    by (intro exI [of _ "recs @ [r]"]) simp
  with assms Some show ?thesis
    by (simp add: ledger_do_done synced_def put_bytes_end caches_apply) (simp add: put_bytes_def)
qed

text \<open>
  The life of a ledger: operations with what the disk answers, and restarts. It is clean while
  every write was done or failed before its first byte. A write that tore ends the clean life, since
  recovery leaves the torn bytes in place.
\<close>

datatype ledger_life = Did disk_write prune_answer ledger_op | Restarted

primrec life_step :: "ledger_life \<Rightarrow> grant_ledger \<Rightarrow> grant_ledger" where
  "life_step (Did io pio op) l = snd (ledger_do io pio op l)"
| "life_step Restarted l = (case ledger_restart (gl_disk l) of Some l' \<Rightarrow> l' | None \<Rightarrow> l)"

primrec clean_life :: "ledger_life \<Rightarrow> bool" where
  "clean_life (Did io pio op) \<longleftrightarrow> wf_op op \<and> (io = WriteDone \<or> io = WriteTorn 0)"
| "clean_life Restarted \<longleftrightarrow> True"

primrec below_cap :: "ledger_life list \<Rightarrow> grant_ledger \<Rightarrow> bool" where
  "below_cap [] l \<longleftrightarrow> length (gl_consumed l) < MAX_LIVE"
| "below_cap (e # es) l \<longleftrightarrow> length (gl_consumed l) < MAX_LIVE \<and> below_cap es (life_step e l)"

lemma synced_put_nothing: "synced l \<Longrightarrow> synced (put_bytes (length (log_bytes l)) [] l)"
  by (auto simp: synced_def put_bytes_end) (simp add: put_bytes_def)

lemma restart_synced: "synced l \<Longrightarrow> \<exists>l'. ledger_restart (gl_disk l) = Some l' \<and> synced l'"
proof -
  assume "synced l"
  then obtain recs where recs: "list_all wf_rec recs" "dk_log (gl_disk l) = Some (concat (map enc_rec recs))"
    by (auto simp: synced_def log_bytes_def)
  from ledger_restart_log [OF recs(1), of "[]" "gl_disk l"] recs show ?thesis
    by (fastforce simp: torn_def synced_def log_bytes_def)
qed

lemma life_step_synced:
  assumes "synced l" "clean_life e" "length (gl_consumed l) < MAX_LIVE"
  shows "synced (life_step e l)"
proof (cases e)
  case (Did io pio op)
  from assms have h: "\<not> gl_read_only l" "gl_file l = Some (length (log_bytes l))" by (simp_all add: synced_def)
  show ?thesis
  proof (cases "io = WriteDone")
    case True
    with Did assms show ?thesis by (simp add: ledger_do_synced)
  next
    case False
    with Did assms have io: "io = WriteTorn 0" by simp
    with ledger_do_failed [OF h assms(3), of io pio op] Did assms(1) synced_put_nothing [OF assms(1)] show ?thesis
      by (auto simp: wrote_def split: option.split)
  qed
next
  case Restarted
  with restart_synced [OF assms(1)] show ?thesis by auto
qed

lemma life_synced:
  "synced l \<Longrightarrow> list_all clean_life es \<Longrightarrow> below_cap es l \<Longrightarrow>
     synced (fold life_step es l) \<and> length (gl_consumed (fold life_step es l)) < MAX_LIVE"
  by (induction es arbitrary: l) (simp_all add: life_step_synced del: life_step.simps)

lemma crash_one_op:
  assumes l: "synced l" "length (gl_consumed l) < MAX_LIVE" and op: "wf_op op"
  shows "map_option caches (ledger_restart (gl_disk (snd (ledger_do io pio op l))))
      \<in> {Some (caches l), Some (caches (snd (ledger_do WriteDone pio op l)))}
    \<and> (fst (ledger_do io pio op l) = Ok () \<longrightarrow>
        map_option caches (ledger_restart (gl_disk (snd (ledger_do io pio op l))))
        = Some (caches (snd (ledger_do WriteDone pio op l))))"
proof -
  from l obtain recs where recs: "list_all wf_rec recs" "dk_log (gl_disk l) = Some (concat (map enc_rec recs))"
    "caches l = fold apply_rec recs no_caches"
    by (auto simp: synced_def log_bytes_def)
  from l have h: "\<not> gl_read_only l" "gl_file l = Some (length (log_bytes l))" by (simp_all add: synced_def)
  have restart: "map_option caches (ledger_restart d) = Some (fold apply_rec rs no_caches)"
    if "list_all wf_rec rs" "torn tail" "dk_log d = Some (concat (map enc_rec rs) @ tail)" for d rs tail
    using ledger_restart_log [OF that] by auto
  have restart0: "map_option caches (ledger_restart d) = Some (fold apply_rec rs no_caches)"
    if "list_all wf_rec rs" "dk_log d = Some (concat (map enc_rec rs))" for d rs
    using restart [OF that(1), of "[]" d] that(2) by (simp add: torn_def)
  show ?thesis
  proof (cases "op_rec op l")
    case None
    then have "snd (ledger_do io pio op l) = l" "snd (ledger_do WriteDone pio op l) = l"
      using ledger_do_done [OF h l(2)] ledger_do_failed [OF h l(2)] by (cases "io = WriteDone"; simp)+
    then show ?thesis using restart0 [OF recs(1,2)] recs(3) by simp
  next
    case (Some r)
    have wf: "wf_rec r" using op_rec_wf [OF op Some] .
    have log: "dk_log (gl_disk (put_bytes (length (log_bytes l)) x l)) = Some (concat (map enc_rec recs) @ x)" for x
      using recs(2) by (simp add: put_bytes_def log_bytes_def write_at_def)
    have after: "caches (snd (ledger_do WriteDone pio op l)) = fold apply_rec (recs @ [r]) no_caches"
      using ledger_do_done [OF h l(2)] Some recs(3) by (simp add: caches_apply)
    have whole: "map_option caches (ledger_restart (gl_disk (put_bytes (length (log_bytes l)) (enc_rec r) l)))
        = Some (fold apply_rec (recs @ [r]) no_caches)"
      by (rule restart0) (use recs wf log in simp_all)
    show ?thesis
    proof (cases "io = WriteDone")
      case True
      then show ?thesis using ledger_do_done [OF h l(2)] Some whole after by simp
    next
      case False
      then have eq: "snd (ledger_do io pio op l) = put_bytes (length (log_bytes l)) (wrote io (enc_rec r)) l"
        using ledger_do_failed [OF h l(2)] Some by simp
      have nok: "fst (ledger_do io pio op l) \<noteq> Ok ()"
        using ledger_do_ok [OF h l(2), of io pio op] Some False by auto
      show ?thesis
      proof (cases "wrote io (enc_rec r) = enc_rec r")
        case True
        then show ?thesis using eq whole after nok by simp
      next
        case False
        then obtain n where "io = WriteTorn n" "n < length (enc_rec r)"
          by (cases io) (auto simp: wrote_def)
        then have "torn (wrote io (enc_rec r))" using torn_prefix [OF wf] by (simp add: wrote_def)
        then have "map_option caches (ledger_restart (gl_disk (snd (ledger_do io pio op l))))
            = Some (fold apply_rec recs no_caches)"
          using restart [OF recs(1)] log eq by simp
        then show ?thesis using recs(3) nok by simp
      qed
    qed
  qed
qed

section \<open>The invariant of the caches\<close>

definition ledger_inv :: "'a ledger_caches_scheme \<Rightarrow> bool" where
  "ledger_inv l \<longleftrightarrow>
     length (gl_consumed l) \<le> MAX_LIVE \<and> length (gl_revoked l) \<le> MAX_LIVE
     \<and> distinct (map fst (gl_consumed l)) \<and> distinct (map fst (gl_revoked l))
     \<and> distinct (map fst (gl_first_receipts l))
     \<and> distinct (gl_published l) \<and> distinct (gl_consumed_order l)
     \<and> set (gl_published l) \<inter> fst ` set (gl_consumed l) = {}
     \<and> fst ` set (gl_consumed l) \<subseteq> set (gl_consumed_order l)
     \<and> set (gl_consumed_order l) \<subseteq> fst ` set (gl_consumed l) \<union> set (gl_published l)"

definition fresh_ledger :: grant_ledger where
  "fresh_ledger = \<lparr>gl_consumed = [], gl_consumed_order = [], gl_published = [], gl_revoked = [],
     gl_first_receipts = [], gl_file = Some 0, gl_read_only = False,
     gl_disk = \<lparr>dk_log = Some [], dk_tmp = None\<rparr>\<rparr>"

datatype ledger_event = LOp disk_write prune_answer ledger_op | LPrune prune_answer u64 | LClose

primrec ledger_step :: "ledger_event \<Rightarrow> grant_ledger \<Rightarrow> grant_ledger" where
  "ledger_step (LOp io pio op) l = snd (ledger_do io pio op l)"
| "ledger_step (LPrune pio now) l = snd (prune_expired pio now l)"
| "ledger_step LClose l = ledger_close l"

lemma ledger_inv_caches: "ledger_inv (caches l) = ledger_inv l"
  by (simp add: ledger_inv_def)

lemma caches_close [simp]: "caches (ledger_close l) = caches l"
  by (simp add: ledger_close_def caches_def ledger_caches.truncate_def)

lemma caches_append [simp]: "caches (snd (ledger_append io r l)) = caches l"
  by (simp add: ledger_append_def split: option.split disk_write.split)

lemma append_inv: "ledger_append io r l = (x, l') \<Longrightarrow> ledger_inv l' = ledger_inv l"
  by (metis caches_append ledger_inv_caches snd_conv)

lemma append_cache_fields:
  "ledger_append io r l = (x, l') \<Longrightarrow> gl_consumed l' = gl_consumed l \<and> gl_published l' = gl_published l
     \<and> gl_consumed_order l' = gl_consumed_order l \<and> gl_revoked l' = gl_revoked l
     \<and> gl_first_receipts l' = gl_first_receipts l"
  by (metis caches_append caches_sel snd_conv)

text \<open>Appending and then updating the caches keeps what the update keeps.\<close>

lemma append_then_inv:
  assumes "ledger_inv l"
    and "\<And>l'. caches l' = caches l \<Longrightarrow> ledger_inv l' \<Longrightarrow> ledger_inv (g l')"
  shows "ledger_inv (snd (then_state (ledger_append io r l) (\<lambda>_ l. (Ok (), g l))))"
proof (rule snd_then_state)
  have same: "caches (snd (ledger_append io r l)) = caches l" by simp
  then show inv: "ledger_inv (snd (ledger_append io r l))" using assms(1) by (metis ledger_inv_caches)
  show "ledger_inv (snd (Ok (), g l'))" if "ledger_append io r l = (Ok x, l')" for x l'
    using assms(2) [of l'] same inv that by simp
qed

lemma caches_eqD:
  "caches l' = caches l \<Longrightarrow> gl_consumed l' = gl_consumed l \<and> gl_published l' = gl_published l
     \<and> gl_consumed_order l' = gl_consumed_order l \<and> gl_revoked l' = gl_revoked l
     \<and> gl_first_receipts l' = gl_first_receipts l"
  by (metis caches_sel)

lemma keys_delete: "fst ` set (AList.delete k xs) = fst ` set xs - {k}"
  by (metis list.set_map delete_keys set_removeAll)

lemma update_fresh: "map_of xs k = None \<Longrightarrow> AList.update k v xs = xs @ [(k, v)]"
  by (induction xs) (auto split: if_splits)

lemma prune_expired_fields:
  defines "keep now l \<equiv> filter (\<lambda>(gid, e). \<not> e \<le> now) (gl_consumed l)"
  shows "gl_consumed (snd (prune_expired io now l)) \<in> {gl_consumed l, keep now l}
    \<and> gl_published (snd (prune_expired io now l)) = gl_published l
    \<and> gl_revoked (snd (prune_expired io now l)) = gl_revoked l
    \<and> gl_first_receipts (snd (prune_expired io now l)) = gl_first_receipts l
    \<and> (snd (prune_expired io now l) = l
       \<or> gl_consumed (snd (prune_expired io now l)) = keep now l \<and>
         gl_consumed_order (snd (prune_expired io now l))
         = filter (\<lambda>gid. map_of (keep now l) gid \<noteq> None) (gl_consumed_order l))"
  unfolding keep_def prune_expired_def by (cases io) (auto simp: Let_def)

lemma drop_expired_inv:
  assumes inv: "ledger_inv l"
    and c: "gl_consumed l' = filter P (gl_consumed l)"
    and o: "gl_consumed_order l' = filter (\<lambda>gid. map_of (gl_consumed l') gid \<noteq> None) (gl_consumed_order l)"
    and same: "gl_published l' = gl_published l" "gl_revoked l' = gl_revoked l"
      "gl_first_receipts l' = gl_first_receipts l"
  shows "ledger_inv l'"
proof -
  have sub: "fst ` set (gl_consumed l') \<subseteq> fst ` set (gl_consumed l)" by (auto simp: c)
  then have ord: "set (gl_consumed_order l') = fst ` set (gl_consumed l')"
    using inv by (auto simp: o ledger_inv_def map_of_eq_None_iff)
  have len: "length (gl_consumed l') \<le> MAX_LIVE"
    using inv length_filter_le [of P "gl_consumed l"] unfolding c ledger_inv_def by linarith
  have disj: "set (gl_published l) \<inter> fst ` set (gl_consumed l') = {}"
  proof -
    have "set (gl_published l) \<inter> fst ` set (gl_consumed l) = {}" using inv by (simp add: ledger_inv_def)
    with sub show ?thesis by blast
  qed
  have dist: "distinct (map fst (gl_consumed l'))" "distinct (gl_consumed_order l')"
    using inv unfolding o c ledger_inv_def by (simp_all add: distinct_map_filter)
  show ?thesis
    using inv len disj dist ord unfolding ledger_inv_def same by simp
qed

lemma prune_expired_inv [inv_intros]:
  assumes "ledger_inv l"
  shows "ledger_inv (snd (prune_expired io now l))"
proof (cases "snd (prune_expired io now l) = l")
  case False
  with prune_expired_fields [of io now l] show ?thesis
    by (intro drop_expired_inv [OF assms, of _ "\<lambda>(gid, e). \<not> e \<le> now"]) simp_all
qed (simp add: assms)

lemma commit_add_inv:
  assumes "ledger_inv l" "map_of (gl_consumed l) gid = None" "gid \<notin> set (gl_published l)"
    and "length (gl_consumed l) < MAX_LIVE"
  shows "ledger_inv (l\<lparr>gl_consumed_order := gl_consumed_order l @ [gid],
    gl_consumed := AList.update gid e (gl_consumed l)\<rparr>)"
  using assms unfolding ledger_inv_def
  by (auto simp: update_fresh map_of_eq_None_iff)

definition can_commit :: "bytes \<Rightarrow> 'a ledger_caches_scheme \<Rightarrow> bool" where
  "can_commit gid l \<longleftrightarrow> ledger_inv l \<and> map_of (gl_consumed l) gid = None \<and> gid \<notin> set (gl_published l)"

lemma can_commit_caches: "can_commit gid (caches l) = can_commit gid l"
  by (simp add: can_commit_def ledger_inv_caches)

lemma prune_can_commit:
  assumes "can_commit gid l"
  shows "can_commit gid (snd (prune_expired io now l))"
proof -
  have "map_of (filter P xs) gid = None" if "map_of xs gid = None" for P and xs :: "(bytes \<times> u64) list"
    using that by (auto simp: map_of_eq_None_iff)
  then show ?thesis
    using assms prune_expired_fields [of io now l] prune_expired_inv [of l io now]
    by (auto simp: can_commit_def)
qed

definition make_room ::
  "prune_answer \<Rightarrow> u64 \<Rightarrow> grant_ledger \<Rightarrow> (unit, ledger_error) outcome \<times> grant_ledger" where
  "make_room pio now_ms l =
     (if length (gl_consumed l) \<ge> MAX_LIVE
      then then_state (prune_expired pio now_ms l) (\<lambda>_ l.
        if length (gl_consumed l) \<ge> MAX_LIVE then (Err ResourceExhausted, l) else (Ok (), l))
      else (Ok (), l))"

lemma make_room_can_commit: "can_commit gid l \<Longrightarrow> can_commit gid (snd (make_room pio now l))"
  unfolding make_room_def using prune_can_commit [of gid l pio now]
  by (cases "prune_expired pio now l" rule: prod.exhaust; cases "fst (prune_expired pio now l)") auto

lemma make_room_Ok: "make_room pio now l = (Ok x, l1) \<Longrightarrow> length (gl_consumed l1) < MAX_LIVE"
  by (auto simp: make_room_def then_state_eq_Ok split: if_splits)

lemma commit_consumed_eq:
  "commit_consumed io pio gid e now l =
     (if is_consumed gid l \<or> is_published gid l then (Ok (), l)
      else then_state (make_room pio now l)
        (\<lambda>_ l. then_state (ledger_append io ([TAG_COMMIT] @ gid @ to_be_bytes e) l)
          (\<lambda>_ l. (Ok (), l\<lparr>gl_consumed_order := gl_consumed_order l @ [gid],
             gl_consumed := AList.update gid e (gl_consumed l)\<rparr>))))"
  by (simp add: commit_consumed_def make_room_def)

lemma commit_consumed_inv [inv_intros]:
  assumes inv: "ledger_inv l"
  shows "ledger_inv (snd (commit_consumed io pio gid e now l))"
proof (cases "is_consumed gid l \<or> is_published gid l")
  case False
  then have can: "can_commit gid l" using inv by (simp add: can_commit_def ledger_queries)
  show ?thesis
    unfolding commit_consumed_eq if_not_P [OF False]
  proof (rule snd_then_state)
    show "ledger_inv (snd (make_room pio now l))"
      using make_room_can_commit [OF can, of pio now] by (simp add: can_commit_def)
    fix x l1
    assume room: "make_room pio now l = (Ok x, l1)"
    then have l1: "can_commit gid l1" "length (gl_consumed l1) < MAX_LIVE"
      using make_room_can_commit [OF can, of pio now] make_room_Ok [OF room] by simp_all
    then have "ledger_inv l1" by (simp add: can_commit_def)
    then show "ledger_inv (snd (then_state
        (ledger_append io ([TAG_COMMIT] @ gid @ to_be_bytes e) l1)
        (\<lambda>_ l. (Ok (), l\<lparr>gl_consumed_order := gl_consumed_order l @ [gid],
           gl_consumed := AList.update gid e (gl_consumed l)\<rparr>))))"
    proof (rule append_then_inv)
      fix l2 :: grant_ledger
      assume same: "caches l2 = caches l1"
      then have "can_commit gid l2" using l1 can_commit_caches by metis
      moreover have "length (gl_consumed l2) < MAX_LIVE" using l1 caches_eqD [OF same] by simp
      ultimately show "ledger_inv (l2\<lparr>gl_consumed_order := gl_consumed_order l2 @ [gid],
          gl_consumed := AList.update gid e (gl_consumed l2)\<rparr>)"
        by (intro commit_add_inv) (simp_all add: can_commit_def)
    qed
  qed
qed (simp add: commit_consumed_def inv)

lemma mark_published_inv [inv_intros]:
  assumes "ledger_inv l"
  shows "ledger_inv (snd (mark_published io gid l))"
proof -
  have "ledger_inv (l1\<lparr>gl_consumed := AList.delete gid (gl_consumed l1),
      gl_published := List.insert gid (gl_published l1)\<rparr>)" if "ledger_inv l1" for l1 :: grant_ledger
    using that length_delete_le [of gid "gl_consumed l1"]
    unfolding ledger_inv_def
    by (auto simp: delete_keys distinct_removeAll keys_delete)
  then show ?thesis
    using assms by (simp add: mark_published_def append_then_inv)
qed

lemma commit_revocation_inv [inv_intros]:
  assumes "ledger_inv l"
  shows "ledger_inv (snd (commit_revocation io pk e l))"
proof -
  have upd: "ledger_inv (l1\<lparr>gl_revoked := AList.update pk e (gl_revoked l1)\<rparr>)"
    if "ledger_inv l1" "map_of (gl_revoked l1) pk = None" "length (gl_revoked l1) < MAX_LIVE"
    for l1 :: grant_ledger
    using that unfolding ledger_inv_def by (auto simp: update_fresh map_of_eq_None_iff)
  then have "ledger_inv (snd (then_state (ledger_append io r l)
      (\<lambda>_ l. (Ok (), l\<lparr>gl_revoked := AList.update pk e (gl_revoked l)\<rparr>))))"
    if "map_of (gl_revoked l) pk = None" "length (gl_revoked l) < MAX_LIVE" for r
    by (intro append_then_inv [OF assms] upd) (use that in \<open>simp_all, (metis caches_sel(4))+\<close>)
  then show ?thesis
    using assms by (auto simp: commit_revocation_def is_revoked_def)
qed

lemma record_first_receipt_inv [inv_intros]:
  assumes "ledger_inv l"
  shows "ledger_inv (snd (record_first_receipt io gid t l))"
proof -
  have "ledger_inv (l1\<lparr>gl_first_receipts := AList.update gid t (gl_first_receipts l1)\<rparr>)"
    if "ledger_inv l1" for l1 :: grant_ledger
    using that unfolding ledger_inv_def by (auto simp: distinct_update)
  then show ?thesis
    using assms by (simp add: record_first_receipt_def append_then_inv)
qed

interpretation ledger: guarded_machine fresh_ledger ledger_step ledger_inv
proof unfold_locales
  show "ledger_inv fresh_ledger" by (simp add: ledger_inv_def fresh_ledger_def)
  show "ledger_inv (ledger_step ev l)" if "ledger_inv l" for ev l
  proof (cases ev)
    case (LOp io pio op)
    with that show ?thesis by (cases op) (simp_all add: inv_intros)
  qed (use that ledger_inv_caches [of "ledger_close l"] ledger_inv_caches [of l] in \<open>simp_all add: inv_intros\<close>)
qed

section \<open>The first-receipt anchor\<close>

definition anchored :: "bytes \<Rightarrow> u64 \<Rightarrow> 'a ledger_caches_scheme \<Rightarrow> bool" where
  "anchored gid t l \<longleftrightarrow> map_of (gl_first_receipts l) gid = Some t"

lemma anchored_append: "anchored gid t l \<Longrightarrow> anchored gid t (snd (ledger_append io r l))"
  by (metis anchored_def caches_append caches_sel(5))

lemma anchored_append_then:
  assumes "anchored gid t l" "\<And>l'. anchored gid t l' \<Longrightarrow> anchored gid t (g l')"
  shows "anchored gid t (snd (then_state (ledger_append io r l) (\<lambda>_ l. (Ok (), g l))))"
  by (rule snd_then_state) (use assms anchored_append [of gid t l io r] in simp_all)

lemma anchored_prune: "anchored gid t l \<Longrightarrow> anchored gid t (snd (prune_expired pio now l))"
  using prune_expired_fields [of pio now l] by (simp add: anchored_def)

lemma anchored_room: "anchored gid t l \<Longrightarrow> anchored gid t (snd (make_room pio now l))"
  unfolding make_room_def using anchored_prune [of gid t l pio now]
  by (cases "prune_expired pio now l"; cases "fst (prune_expired pio now l)") simp_all

lemma anchored_step: "anchored gid t l \<Longrightarrow> anchored gid t (ledger_step ev l)"
proof (induction ev)
  case (LOp io pio op)
  have fields: "anchored gid t l \<Longrightarrow> anchored gid t (l\<lparr>gl_consumed_order := a, gl_consumed := b\<rparr>)"
    "anchored gid t l \<Longrightarrow> anchored gid t (l\<lparr>gl_consumed := b, gl_published := c\<rparr>)"
    "anchored gid t l \<Longrightarrow> anchored gid t (l\<lparr>gl_revoked := b\<rparr>)" for l :: grant_ledger and a b c
    by (simp_all add: anchored_def)
  show ?case
  proof (cases op)
    case (LCommit g e now)
    have "anchored gid t (snd (commit_consumed io pio g e now l))"
    proof (cases "is_consumed g l \<or> is_published g l")
      case False
      show ?thesis
        unfolding commit_consumed_eq if_not_P [OF False]
        by (rule snd_then_state)
          (use anchored_room [OF LOp, of pio now] in \<open>simp_all add: anchored_append_then fields\<close>)
    qed (use LOp in \<open>simp add: commit_consumed_eq\<close>)
    with LCommit show ?thesis by simp
  next
    case (LReceipt g t')
    have "anchored gid t (l\<lparr>gl_first_receipts := AList.update g t' (gl_first_receipts l)\<rparr>)"
      if "anchored gid t l" "map_of (gl_first_receipts l) g = None" for l :: grant_ledger
      using that by (auto simp: anchored_def update_conv')
    note upd = this
    have "anchored gid t (snd (then_state (ledger_append io r l)
        (\<lambda>_ l. (Ok (), l\<lparr>gl_first_receipts := AList.update g t' (gl_first_receipts l)\<rparr>))))"
      if "map_of (gl_first_receipts l) g = None" for r
    proof (rule snd_then_state)
      show a: "anchored gid t (snd (ledger_append io r l))" by (rule anchored_append [OF LOp])
      show "anchored gid t (snd (Ok (), l'\<lparr>gl_first_receipts := AList.update g t' (gl_first_receipts l')\<rparr>))"
        if "ledger_append io r l = (Ok x, l')" for x l'
        using upd [of l'] a append_cache_fields [OF that] that \<open>map_of (gl_first_receipts l) g = None\<close> by simp
    qed
    with LReceipt LOp show ?thesis by (auto simp: record_first_receipt_def)
  qed (use LOp in \<open>simp_all add: mark_published_def commit_revocation_def anchored_append_then fields\<close>)
next
  case (LPrune pio now)
  then show ?case by (simp add: anchored_prune)
qed (simp add: anchored_def ledger_close_def)

lemma anchored_run: "anchored gid t l \<Longrightarrow> anchored gid t (fold ledger_step evs l)"
  by (induction evs arbitrary: l) (simp_all add: anchored_step)

section \<open>Properties\<close>

text \<open>
  C19: A log replays without error exactly when it is a sequence of well-formed records
  followed by a torn tail (a valid tag with too few bytes behind it, or nothing): any other
  content is reported as a bad log, and a torn tail never is.
\<close>

theorem ledger_log_format:
  "fst (replay b l) = Ok () \<longleftrightarrow>
     (\<exists>recs tail. list_all wf_rec recs \<and> torn tail \<and> b = concat (map enc_rec recs) @ tail)"
  by (rule replay_Ok_iff)

text \<open>
  C1: Crash safety up to the first torn write. On a ledger recovered from a well-formed log, after any
  operations and restarts whose writes were done or failed before their first byte, with the live cap
  never reached: whatever the disk answers to the next operation (done, torn after any number of
  bytes, sync failed), a restart succeeds and rebuilds exactly the caches from before or from after
  that operation; once the operation has returned Ok, it is after. Nothing is claimed for what is
  appended behind torn bytes: \<open>torn_then_commit_unreadable\<close> shows that it is lost.
\<close>

theorem ledger_crash_recovery:
  assumes "list_all wf_rec recs" "ledger_restart (log_of recs) = Some l0"
    and "list_all clean_life es" "below_cap es l0" "wf_op op" "l = fold life_step es l0"
  shows "map_option caches (ledger_restart (gl_disk (snd (ledger_do io pio op l))))
      \<in> {Some (caches l), Some (caches (snd (ledger_do WriteDone pio op l)))}
    \<and> (fst (ledger_do io pio op l) = Ok () \<longrightarrow>
        map_option caches (ledger_restart (gl_disk (snd (ledger_do io pio op l))))
        = Some (caches (snd (ledger_do WriteDone pio op l))))"
proof -
  have "synced l0" using ledger_restart_synced [OF assms(1)] assms(2) by auto
  from life_synced [OF this assms(3,4)] show ?thesis
    unfolding assms(6) by (intro crash_one_op assms(5)) simp_all
qed

text \<open>A grant is committed, a commit fails, the ledger restarts, and publishing the grant is torn.\<close>

definition short_life :: "ledger_life list" where
  "short_life = [Did WriteDone PruneDone (LCommit (replicate 16 1) 500 0),
     Did (WriteTorn 0) PruneDone (LCommit (replicate 16 2) 500 0), Restarted]"

lemma restart_empty: "ledger_restart (log_of []) = Some fresh_ledger"
  by (simp add: ledger_restart_def log_of_def ledger_open_def ledger_recover_def log_bytes_def
      replay.simps clear_caches_def fresh_ledger_def Let_def)

definition one_commit :: grant_ledger where
  "one_commit = \<lparr>gl_consumed = [(replicate 16 1, 500)], gl_consumed_order = [replicate 16 1], gl_published = [],
     gl_revoked = [], gl_first_receipts = [], gl_file = Some 25, gl_read_only = False,
     gl_disk = \<lparr>dk_log = Some (enc_rec (RecCommit (replicate 16 1) 500)), dk_tmp = None\<rparr>\<rparr>"

lemma length_commit: "length (enc_rec (RecCommit (replicate 16 n) e)) = 25"
  by simp

lemma commit_on_fresh:
  "life_step (Did WriteDone PruneDone (LCommit (replicate 16 1) 500 0)) fresh_ledger = one_commit"
  "life_step (Did (WriteTorn 0) PruneDone (LCommit (replicate 16 2) 500 0)) one_commit = one_commit"
  by (simp_all add: commit_consumed_def ledger_append_def ledger_queries fresh_ledger_def one_commit_def MAX_LIVE_def
      put_bytes_def write_at_def log_bytes_def)

lemma restart_one_commit: "life_step Restarted one_commit = one_commit"
proof -
  have "wf_rec (RecCommit (replicate 16 1) 500)" by (simp add: GRANT_ID_LEN_def)
  note replay = replay_rec [OF this, of "[]", simplified append_Nil2]
  show ?thesis
    by (simp add: one_commit_def ledger_restart_def ledger_open_def ledger_recover_def log_bytes_def clear_caches_def
        replay replay_torn torn_def Let_def length_commit del: enc_rec.simps)
qed

lemma ledger_crash_recovery_witness:
  "map_option caches (ledger_restart (gl_disk (snd (ledger_do (WriteTorn 7) PruneDone (LPublish (replicate 16 1)) one_commit))))
   \<in> {Some (caches one_commit),
      Some (caches (snd (ledger_do WriteDone PruneDone (LPublish (replicate 16 1)) one_commit)))}"
proof -
  have run: "one_commit = fold life_step short_life fresh_ledger"
    by (simp add: short_life_def commit_on_fresh restart_one_commit del: life_step.simps)
  have cap: "length (gl_consumed fresh_ledger) < MAX_LIVE" "length (gl_consumed one_commit) < MAX_LIVE"
    by (simp_all add: fresh_ledger_def one_commit_def MAX_LIVE_def)
  have "below_cap short_life fresh_ledger" "list_all clean_life short_life"
    using cap by (simp_all add: short_life_def commit_on_fresh restart_one_commit GRANT_ID_LEN_def del: life_step.simps)
  from ledger_crash_recovery [OF _ restart_empty this(2,1) _ run, of "LPublish (replicate 16 1)" "WriteTorn 7" PruneDone]
  show ?thesis by (simp add: GRANT_ID_LEN_def)
qed

text \<open>
  Whatever operations, prunes and disk failures a ledger goes through, at most 1024
  grants are consumed and 1024 signers revoked, a published grant is never consumed again
  (so it can never again be an orphan), and the insertion order lists every consumed grant
  exactly once.
\<close>

theorem ledger_caches_invariant: "ledger_inv (fold ledger_step evs fresh_ledger)"
  by (rule ledger.inv_run)

text \<open>
  The first-receipt anchor never moves: whatever operations, prunes and disk failures
  follow, the anchor of a grant stays what it was, unless the grant had none.
\<close>

theorem first_receipt_never_moves:
  "get_first_receipt gid l \<in> {None, get_first_receipt gid (fold ledger_step evs l)}"
  using anchored_run [of gid _ l evs]
  by (cases "get_first_receipt gid l") (auto simp: anchored_def get_first_receipt_def)

section \<open>Where the log and the caches part\<close>

text \<open>
  The handle returned by opening stands at offset 0 and only recovery moves it to the end:
  a commit on a ledger that was opened and not recovered overwrites the first 25 bytes of
  the existing log.
\<close>

theorem commit_without_recovery_overwrites:
  "dk_log (gl_disk (snd (commit_consumed WriteDone pio gid e now
     (fresh_ledger\<lparr>gl_disk := \<lparr>dk_log = Some b, dk_tmp = None\<rparr>\<rparr>))))
   = Some ([TAG_COMMIT] @ gid @ to_be_bytes e @ drop (9 + length gid) b)"
  by (simp add: commit_consumed_def ledger_append_def ledger_queries fresh_ledger_def MAX_LIVE_def
      put_bytes_def write_at_def log_bytes_def)

text \<open>
  A prune rewrites the log from the live commits, the revocations and the anchors, not from
  the tombstones, and reopens it at offset 0. After a prune that drops one expired grant, a
  published grant is no longer published in the log; and the next commit overwrites a
  grant that is still live.
\<close>

definition gid_of :: "u8 \<Rightarrow> bytes" where "gid_of n = replicate 16 n"

definition pruned_ledger :: grant_ledger where
  "pruned_ledger =
     fold ledger_step
       [LOp WriteDone PruneDone (LCommit (gid_of 1) 500 0), LOp WriteDone PruneDone (LPublish (gid_of 1)),
        LOp WriteDone PruneDone (LCommit (gid_of 2) 50 0), LOp WriteDone PruneDone (LCommit (gid_of 3) 500 0),
        LPrune PruneDone 100] fresh_ledger"

lemma pruned_ledger_value:
  "pruned_ledger = \<lparr>gl_consumed = [(gid_of 3, 500)], gl_consumed_order = [gid_of 3],
     gl_published = [gid_of 1], gl_revoked = [], gl_first_receipts = [], gl_file = Some 0,
     gl_read_only = False,
     gl_disk = \<lparr>dk_log = Some (enc_rec (RecCommit (gid_of 3) 500)), dk_tmp = None\<rparr>\<rparr>"
  by (simp add: pruned_ledger_def fresh_ledger_def commit_consumed_def mark_published_def
      ledger_append_def ledger_queries MAX_LIVE_def prune_expired_def prune_image_def put_bytes_def
      gid_of_def Let_def)

theorem prune_forgets_published:
  "is_published (gid_of 1) pruned_ledger
   \<and> map_option (is_published (gid_of 1)) (ledger_restart (gl_disk pruned_ledger)) = Some False"
proof -
  have "list_all wf_rec [RecCommit (gid_of 3) 500]" by (simp add: gid_of_def GRANT_ID_LEN_def)
  from ledger_restart_log [OF this, of "[]" "gl_disk pruned_ledger"] obtain l where
    "ledger_restart (gl_disk pruned_ledger) = Some l"
    and l: "caches l = apply_rec (RecCommit (gid_of 3) 500) no_caches"
    by (auto simp: pruned_ledger_value torn_def)
  moreover have "gl_published l = []" using arg_cong [OF l, of gl_published] by (simp add: no_caches_def)
  ultimately show ?thesis by (simp add: is_published_def pruned_ledger_value)
qed

theorem commit_after_prune_overwrites:
  "dk_log (gl_disk (ledger_step (LOp WriteDone PruneDone (LCommit (gid_of 4) 600 100)) pruned_ledger))
   = Some (enc_rec (RecCommit (gid_of 4) 600))"
  by (simp add: pruned_ledger_value commit_consumed_def ledger_append_def ledger_queries MAX_LIVE_def
      put_bytes_def write_at_def log_bytes_def gid_of_def)

text \<open>
  Recovery skips a torn record but leaves its bytes, and the next record goes behind them: a
  publication torn after seven bytes, a restart and a commit that returns Ok make a log that no
  restart can read.
\<close>

theorem torn_then_commit_unreadable:
  "let l1 = life_step (Did (WriteTorn 7) PruneDone (LPublish (replicate 16 1))) fresh_ledger;
       l2 = life_step Restarted l1; r = ledger_do WriteDone PruneDone (LCommit (replicate 16 9) 500 0) l2
   in fst r = Ok () \<and> ledger_restart (gl_disk (snd r)) = None"
proof -
  define bad where "bad = TAG_PUBLISHED # replicate 6 (1 :: u8)"
  define l1 where "l1 = fresh_ledger\<lparr>gl_file := Some 7, gl_disk := \<lparr>dk_log = Some bad, dk_tmp = None\<rparr>\<rparr>"
  have tear: "life_step (Did (WriteTorn 7) PruneDone (LPublish (replicate 16 1))) fresh_ledger = l1"
    by (simp add: l1_def bad_def mark_published_def ledger_append_def ledger_queries fresh_ledger_def
        put_bytes_def write_at_def log_bytes_def numeral_eq_Suc)
  have "torn bad" by (simp add: bad_def torn_def record_need_def ledger_tags ledger_lens)
  then have restart: "life_step Restarted l1 = l1"
    by (simp add: l1_def bad_def ledger_restart_def ledger_open_def ledger_recover_def log_bytes_def clear_caches_def
        replay_torn Let_def fresh_ledger_def)
  define l3 where "l3 = snd (ledger_do WriteDone PruneDone (LCommit (replicate 16 9) 500 0) l1)"
  have commit: "fst (ledger_do WriteDone PruneDone (LCommit (replicate 16 9) 500 0) l1) = Ok ()"
    "gl_disk l3 = \<lparr>dk_log = Some (bad @ enc_rec (RecCommit (replicate 16 9) 500)), dk_tmp = None\<rparr>"
    by (simp_all add: l3_def l1_def bad_def commit_consumed_def ledger_append_def ledger_queries fresh_ledger_def MAX_LIVE_def
        put_bytes_def write_at_def log_bytes_def)
  have "fst (replay (bad @ enc_rec (RecCommit (replicate 16 9) 500)) l) = Err BadLog" for l :: grant_ledger
  proof -
    let ?gid = "replicate 6 1 @ TAG_COMMIT # replicate 9 (9 :: u8)" and ?rest = "9 # replicate 6 9 @ to_be_bytes (500 :: u64)"
    have "bad @ enc_rec (RecCommit (replicate 16 9) 500) = enc_rec (RecPublished ?gid) @ ?rest"
      by (simp add: bad_def numeral_eq_Suc)
    moreover have "wf_rec (RecPublished ?gid)" by (simp add: GRANT_ID_LEN_def)
    moreover have "fst (replay ?rest l') = Err BadLog" for l' :: grant_ledger
      by (subst replay.simps) (simp add: record_need_def ledger_tags)
    ultimately show ?thesis using replay_rec by metis
  qed
  then have unread: "replay (bad @ enc_rec (RecCommit (replicate 16 9) 500)) l
      = (Err BadLog, (\<lambda>l. snd (replay (bad @ enc_rec (RecCommit (replicate 16 9) 500)) l)) l)" for l :: grant_ledger
    by (simp add: prod_eq_iff del: enc_rec.simps)
  have "ledger_restart (gl_disk l3) = None"
    unfolding commit(2) ledger_restart_def ledger_open_def
    by (simp add: ledger_recover_def log_bytes_def Let_def del: enc_rec.simps) (subst unread, simp del: enc_rec.simps)
  with commit(1) show ?thesis by (simp add: tear restart l3_def Let_def del: ledger_do.simps life_step.simps)
qed

end
