(* ===== verification/Replay.thy ===== *)
theory Replay
  imports Prelude
begin

text \<open>
  The anti-replay filter (src/src/transport/replay.rs): a sliding bitmap of 1024 bits in 16
  words. The contract of such a filter is a locale over the set of counters accepted so
  far; the lemmas show that the bitmap, with its word and bit shifts, implements it.
\<close>

unbundle bit_operations_syntax

section \<open>The contract\<close>

text \<open>
  A counter is fresh when nothing was accepted yet, when it is above every accepted counter,
  or when it lies within the window below the largest and was not accepted before.
\<close>

definition fresh_counter :: "nat \<Rightarrow> u64 \<Rightarrow> u64 set \<Rightarrow> bool" where
  "fresh_counter width c H \<longleftrightarrow>
     H = {} \<or> c > Max H \<or> unat (Max H) - unat c < width \<and> c \<notin> H"

primrec spec_accepts :: "nat \<Rightarrow> u64 list \<Rightarrow> u64 set \<Rightarrow> bool list" where
  "spec_accepts width [] H = []"
| "spec_accepts width (c # cs) H =
     fresh_counter width c H # spec_accepts width cs (if fresh_counter width c H then insert c H else H)"

primrec run_checks :: "(u64 \<Rightarrow> 's \<Rightarrow> bool \<times> 's) \<Rightarrow> u64 list \<Rightarrow> 's \<Rightarrow> bool list" where
  "run_checks check [] s = []"
| "run_checks check (c # cs) s = fst (check c s) # run_checks check cs (snd (check c s))"

definition accepted :: "u64 list \<Rightarrow> bool list \<Rightarrow> u64 list" where
  "accepted cs oks = map fst (filter snd (zip cs oks))"

lemma accepted_Cons [simp]:
  "accepted (c # cs) (ok # oks) = (if ok then c # accepted cs oks else accepted cs oks)"
  by (simp add: accepted_def)

locale replay_filter =
  fixes init :: 's
    and check :: "u64 \<Rightarrow> 's \<Rightarrow> bool \<times> 's"
    and width :: nat
    and tracks :: "'s \<Rightarrow> u64 set \<Rightarrow> bool"
  assumes tracks_init: "tracks init {}"
    and check_fresh: "tracks s H \<Longrightarrow> finite H \<Longrightarrow> fst (check c s) = fresh_counter width c H"
    and check_tracks: "tracks s H \<Longrightarrow> finite H \<Longrightarrow>
      tracks (snd (check c s)) (if fresh_counter width c H then insert c H else H)"
begin

lemma run_from: "tracks s H \<Longrightarrow> finite H \<Longrightarrow> run_checks check cs s = spec_accepts width cs H"
proof (induction cs arbitrary: s H)
  case (Cons c cs)
  note step = check_fresh [OF Cons.prems, of c] check_tracks [OF Cons.prems, of c]
  have "finite (if fresh_counter width c H then insert c H else H)" using Cons.prems by simp
  from Cons.IH [OF step(2) this] step(1) show ?case by simp
qed simp

lemma run_exact: "run_checks check cs init = spec_accepts width cs {}"
  by (rule run_from [OF tracks_init]) simp

lemma spec_new:
  "finite H \<Longrightarrow> distinct (accepted cs (spec_accepts width cs H))
     \<and> set (accepted cs (spec_accepts width cs H)) \<inter> H = {}"
proof (induction cs arbitrary: H)
  case (Cons c cs)
  have "c \<notin> H" if "fresh_counter width c H"
    using that Cons.prems Max_ge [of H c] by (auto simp: fresh_counter_def leD)
  with Cons.IH [of "if fresh_counter width c H then insert c H else H"] Cons.prems
  show ?case by (auto split: if_splits)
qed (simp add: accepted_def)

lemma no_replay: "distinct (accepted cs (run_checks check cs init))"
  using spec_new [of "{}" cs] by (simp add: run_exact)

end

section \<open>The window\<close>

definition WINDOW_BITS :: nat where "WINDOW_BITS = 1024"
definition WORD_BITS :: nat where "WORD_BITS = 64"
definition WINDOW_WORDS :: nat where "WINDOW_WORDS = WINDOW_BITS div WORD_BITS"

lemmas window_sizes = WINDOW_BITS_def WORD_BITS_def WINDOW_WORDS_def

record replay_window =
  rw_window :: "u64 list"
  rw_largest :: u64
  rw_initialized :: bool

definition replay_window_new :: replay_window where
  "replay_window_new =
     \<lparr>rw_window = replicate WINDOW_WORDS 0, rw_largest = 0, rw_initialized = False\<rparr>"

text \<open>The downward loop of the shift, in place: word w is written after every word above it.\<close>

primrec shift_words :: "nat \<Rightarrow> nat \<Rightarrow> nat \<Rightarrow> u64 list \<Rightarrow> u64 list" where
  "shift_words word_shift bit_shift 0 win = win"
| "shift_words word_shift bit_shift (Suc w) win =
     (let v =
        (if bit_shift = 0 then (if w \<ge> word_shift then win ! (w - word_shift) else 0)
         else (let v = (if w \<ge> word_shift then push_bit bit_shift (win ! (w - word_shift)) else 0)
               in if w \<ge> word_shift + 1
                  then v OR drop_bit (WORD_BITS - bit_shift) (win ! (w - word_shift - 1)) else v))
      in shift_words word_shift bit_shift w (win[w := v]))"

definition window_shift_left :: "u64 list \<Rightarrow> u64 \<Rightarrow> u64 list" where
  "window_shift_left win shift =
     (if unat shift \<ge> WINDOW_BITS then replicate WINDOW_WORDS 0
      else shift_words (unat shift div WORD_BITS) (unat shift mod WORD_BITS) WINDOW_WORDS win)"

definition window_check :: "u64 \<Rightarrow> replay_window \<Rightarrow> bool \<times> replay_window" where
  "window_check counter rw =
     (if \<not> rw_initialized rw then
        (True, rw\<lparr>rw_initialized := True, rw_largest := counter,
                 rw_window := (rw_window rw)[0 := rw_window rw ! 0 OR 1]\<rparr>)
      else if counter > rw_largest rw then
        let win = window_shift_left (rw_window rw) (counter - rw_largest rw)
        in (True, rw\<lparr>rw_largest := counter, rw_window := win[0 := win ! 0 OR 1]\<rparr>)
      else
        let diff = rw_largest rw - counter in
        if unat diff \<ge> WINDOW_BITS then (False, rw)
        else
          let w = unat diff div WORD_BITS; b = unat diff mod WORD_BITS; mask = push_bit b 1 in
          if rw_window rw ! w AND mask \<noteq> 0 then (False, rw)
          else (True, rw\<lparr>rw_window := (rw_window rw)[w := rw_window rw ! w OR mask]\<rparr>))"

section \<open>Bits of the window\<close>

definition wbit :: "u64 list \<Rightarrow> nat \<Rightarrow> bool" where
  "wbit win d \<longleftrightarrow> bit (win ! (d div 64)) (d mod 64)"

lemma length_shift_words [simp]: "length (shift_words ws bs n win) = length win"
  by (induction n arbitrary: win) (simp_all add: Let_def)

definition shifted_word :: "nat \<Rightarrow> nat \<Rightarrow> u64 list \<Rightarrow> nat \<Rightarrow> u64" where
  "shifted_word ws bs win w =
     (if bs = 0 then (if w \<ge> ws then win ! (w - ws) else 0)
      else (if w \<ge> ws then push_bit bs (win ! (w - ws)) else 0)
        OR (if w \<ge> ws + 1 then drop_bit (64 - bs) (win ! (w - ws - 1)) else 0))"

lemma nth_shift_words:
  "n \<le> length win \<Longrightarrow> k < length win \<Longrightarrow>
     shift_words ws bs n win ! k = (if k < n then shifted_word ws bs win k else win ! k)"
proof (induction n arbitrary: win)
  case (Suc n)
  let ?win = "win[n := shifted_word ws bs win n]"
  have "shift_words ws bs (Suc n) win = shift_words ws bs n ?win"
    by (simp add: shifted_word_def WORD_BITS_def)
  moreover have "shifted_word ws bs ?win k = shifted_word ws bs win k" if "k < n"
    using that by (simp add: shifted_word_def)
  ultimately show ?case using Suc by (auto simp: less_Suc_eq)
qed simp

lemma wbit_shifted:
  assumes "bs < 64" "d < 64 * length win"
  shows "bit (shifted_word ws bs win (d div 64)) (d mod 64) \<longleftrightarrow>
    64 * ws + bs \<le> d \<and> wbit win (d - (64 * ws + bs))"
proof -
  define q r where "q = d div 64" and "r = d mod 64"
  have d: "d = 64 * q + r" and r: "r < 64" by (simp_all add: q_def r_def)
  consider (low) "q < ws" | (same) "q \<ge> ws" "r \<ge> bs" | (borrow) "q > ws" "r < bs" | (edge) "q = ws" "r < bs"
    by linarith
  then show ?thesis
  proof cases
    case low
    then have "d < 64 * ws" using d r by linarith
    with low show ?thesis unfolding q_def [symmetric] r_def [symmetric] by (simp add: shifted_word_def)
  next
    case same
    then have e: "d - (64 * ws + bs) = 64 * (q - ws) + (r - bs)" "64 * ws + bs \<le> d"
      using d by (auto simp: algebra_simps diff_mult_distrib2)
    have "(64 * (q - ws) + (r - bs)) div 64 = q - ws" "(64 * (q - ws) + (r - bs)) mod 64 = r - bs"
      using r by (simp_all add: div_mult_self4)
    moreover have "\<not> bit (drop_bit (64 - bs) x) r" if "bs \<noteq> 0" for x :: u64
      using bit_imp_le_length [of x "64 - bs + r"] same(2) assms(1) by (auto simp: bit_drop_bit_eq)
    ultimately show ?thesis
      using same e r unfolding q_def [symmetric] r_def [symmetric] wbit_def
      by (auto simp: shifted_word_def bit_or_iff bit_push_bit_iff)
  next
    case borrow
    then have e: "d - (64 * ws + bs) = 64 * (q - ws - 1) + (64 + r - bs)" "64 * ws + bs \<le> d"
      using d assms(1) by (auto simp: algebra_simps diff_mult_distrib2)
    have "64 + r - bs < 64" using borrow(2) assms(1) by simp
    then have "(64 * (q - ws - 1) + (64 + r - bs)) div 64 = q - ws - 1"
      "(64 * (q - ws - 1) + (64 + r - bs)) mod 64 = 64 + r - bs"
      by (simp_all only: div_mult_self4 mod_mult_self4 div_less mod_less)
    moreover have "64 - bs + r = 64 + r - bs" using assms(1) by simp
    ultimately show ?thesis
      using borrow e r unfolding q_def [symmetric] r_def [symmetric] wbit_def
      by (auto simp: shifted_word_def bit_or_iff bit_push_bit_iff bit_drop_bit_eq)
  next
    case edge
    then have "d < 64 * ws + bs" using d by simp
    with edge show ?thesis unfolding q_def [symmetric] r_def [symmetric]
      by (auto simp: shifted_word_def bit_or_iff bit_push_bit_iff)
  qed
qed

lemma wbit_shift_left:
  assumes "length win = 16" "d < 1024"
  shows "wbit (window_shift_left win s) d \<longleftrightarrow> unat s \<le> d \<and> wbit win (d - unat s)"
proof (cases "unat s \<ge> 1024")
  case True
  have "d div 64 < 16" using assms(2) by simp
  then have "replicate 16 (0 :: u64) ! (d div 64) = 0" by (rule nth_replicate)
  with True assms(2) show ?thesis by (simp add: window_shift_left_def window_sizes wbit_def)
next
  case False
  let ?ws = "unat s div 64" and ?bs = "unat s mod 64"
  have "wbit (window_shift_left win s) d = bit (shifted_word ?ws ?bs win (d div 64)) (d mod 64)"
    using False assms by (simp add: window_shift_left_def window_sizes wbit_def nth_shift_words less_mult_imp_div_less)
  also have "\<dots> \<longleftrightarrow> 64 * ?ws + ?bs \<le> d \<and> wbit win (d - (64 * ?ws + ?bs))"
    by (rule wbit_shifted) (use assms in simp_all)
  finally show ?thesis by simp
qed

lemma wbit_set:
  assumes "length win = 16" "e < 1024" "d < 1024"
  shows "wbit (win[e div 64 := win ! (e div 64) OR push_bit (e mod 64) 1]) d \<longleftrightarrow> d = e \<or> wbit win d"
proof -
  have "e div 64 < 16" "d div 64 < 16" using assms by simp_all
  moreover have "d = e \<longleftrightarrow> d div 64 = e div 64 \<and> d mod 64 = e mod 64"
    by (metis mult_div_mod_eq)
  ultimately show ?thesis
    using assms(1) by (auto simp: wbit_def nth_list_update bit_or_iff bit_exp_iff)
qed

lemma mask_test: "(x AND push_bit b 1 \<noteq> 0) \<longleftrightarrow> bit x b" if "b < 64" for x :: u64
proof -
  have eq: "x AND push_bit b 1 = (if bit x b then 2 ^ b else 0)"
    by (rule bit_eqI) (auto simp: bit_and_iff bit_exp_iff)
  have "bit (2 ^ b :: u64) b" using that by (simp add: bit_exp_iff)
  then have "(2 ^ b :: u64) \<noteq> 0" using that by auto
  with eq show ?thesis by simp
qed

section \<open>The window implements the contract\<close>

definition window_tracks :: "replay_window \<Rightarrow> u64 set \<Rightarrow> bool" where
  "window_tracks rw H \<longleftrightarrow>
     length (rw_window rw) = 16 \<and> (rw_initialized rw \<longleftrightarrow> H \<noteq> {})
     \<and> (H = {} \<longrightarrow> rw_window rw = replicate 16 0)
     \<and> (H \<noteq> {} \<longrightarrow> rw_largest rw = Max H)
     \<and> (\<forall>d<1024. wbit (rw_window rw) d \<longleftrightarrow> (\<exists>c\<in>H. unat (Max H) = unat c + d))"

lemma wbit_zero: "d < 1024 \<Longrightarrow> \<not> wbit (replicate 16 0) d"
  using nth_replicate [of "d div 64" 16 "0 :: u64"] by (simp add: wbit_def)

lemma wbit_set_first:
  "length win = 16 \<Longrightarrow> d < 1024 \<Longrightarrow> wbit (win[0 := win ! 0 OR 1]) d \<longleftrightarrow> d = 0 \<or> wbit win d"
  using wbit_set [of win 0 d] by simp

lemma window_check_first:
  assumes "window_tracks rw {}"
  shows "fst (window_check c rw) \<and> window_tracks (snd (window_check c rw)) {c}"
proof -
  from assms have w: "rw_window rw = replicate 16 0" "\<not> rw_initialized rw" by (simp_all add: window_tracks_def)
  have bits: "wbit ((rw_window rw)[0 := rw_window rw ! 0 OR 1]) d \<longleftrightarrow> d = 0" if "d < 1024" for d
    using wbit_set_first [of "rw_window rw" d] wbit_zero [of d] w that by simp
  have "snd (window_check c rw) = rw\<lparr>rw_initialized := True, rw_largest := c,
      rw_window := (rw_window rw)[0 := rw_window rw ! 0 OR 1]\<rparr>" "fst (window_check c rw)"
    using w by (simp_all add: window_check_def)
  with bits w show ?thesis unfolding window_tracks_def by simp
qed

lemma window_check_above:
  assumes t: "window_tracks rw H" and H: "finite H" "H \<noteq> {}" and c: "Max H < c"
  shows "fst (window_check c rw) \<and> window_tracks (snd (window_check c rw)) (insert c H)"
proof -
  let ?win = "window_shift_left (rw_window rw) (c - Max H)"
  from t H have rw: "rw_initialized rw" "rw_largest rw = Max H" "length (rw_window rw) = 16"
    and bits: "\<And>d. d < 1024 \<Longrightarrow> wbit (rw_window rw) d \<longleftrightarrow> (\<exists>x\<in>H. unat (Max H) = unat x + d)"
    by (simp_all add: window_tracks_def)
  have s: "unat (c - Max H) = unat c - unat (Max H)" "unat (Max H) < unat c"
    using c by (simp_all add: unat_sub_if' word_less_nat_alt word_le_nat_alt del: Max_less_iff)
  have max: "Max (insert c H) = c" using H c by (simp add: max.absorb1 del: Max_less_iff)
  have len: "length ?win = 16" using rw by (simp add: window_shift_left_def window_sizes)
  have "wbit (?win[0 := ?win ! 0 OR 1]) d \<longleftrightarrow> (\<exists>x\<in>insert c H. unat c = unat x + d)" if d: "d < 1024" for d
  proof -
    have "wbit ?win d \<longleftrightarrow> unat (c - Max H) \<le> d \<and> (\<exists>x\<in>H. unat (Max H) = unat x + (d - unat (c - Max H)))"
      using wbit_shift_left [OF rw(3) d, of "c - Max H"] bits [of "d - unat (c - Max H)"] d by auto
    also have "\<dots> \<longleftrightarrow> (\<exists>x\<in>H. unat c = unat x + d)"
    proof -
      have "(unat (c - Max H) \<le> d \<and> unat (Max H) = unat x + (d - unat (c - Max H)))
          \<longleftrightarrow> unat c = unat x + d" if "x \<in> H" for x
        using Max_ge [OF H(1) that] s by (simp add: word_le_nat_alt) linarith
      then show ?thesis by blast
    qed
    finally show ?thesis using wbit_set_first [OF len d] by auto
  qed
  moreover have "snd (window_check c rw) = rw\<lparr>rw_largest := c, rw_window := ?win[0 := ?win ! 0 OR 1]\<rparr>"
    "fst (window_check c rw)" using rw c by (simp_all add: window_check_def Let_def del: Max_less_iff)
  ultimately show ?thesis using rw len max unfolding window_tracks_def by simp
qed

lemma window_check_below:
  assumes t: "window_tracks rw H" and H: "finite H" "H \<noteq> {}" and c: "\<not> Max H < c"
  defines "ok \<equiv> unat (Max H) - unat c < 1024 \<and> c \<notin> H"
  shows "fst (window_check c rw) = ok
    \<and> window_tracks (snd (window_check c rw)) (if ok then insert c H else H)"
proof -
  let ?d = "unat (Max H) - unat c"
  let ?mask = "push_bit (?d mod 64) 1" and ?w = "rw_window rw ! (?d div 64)"
  from t H have rw: "rw_initialized rw" "rw_largest rw = Max H" "length (rw_window rw) = 16"
    and bits: "\<And>d. d < 1024 \<Longrightarrow> wbit (rw_window rw) d \<longleftrightarrow> (\<exists>x\<in>H. unat (Max H) = unat x + d)"
    by (simp_all add: window_tracks_def)
  have d: "unat (Max H - c) = ?d" "unat c \<le> unat (Max H)"
    using c by (simp_all add: unat_sub_if' word_less_nat_alt word_le_nat_alt del: Max_less_iff)
  have max: "Max (insert c H) = Max H" using H c by (simp add: max.absorb2 not_less del: Max_less_iff)
  have mem: "(\<exists>x\<in>H. unat (Max H) = unat x + ?d) \<longleftrightarrow> c \<in> H"
  proof -
    have "unat (Max H) = unat x + ?d \<longleftrightarrow> x = c" for x
      using d(2) word_unat_eq_iff [of x c] by linarith
    then show ?thesis by simp
  qed
  have result: "window_check c rw =
      (if \<not> ?d < 1024 \<or> wbit (rw_window rw) ?d then (False, rw)
       else (True, rw\<lparr>rw_window := (rw_window rw)[?d div 64 := ?w OR ?mask]\<rparr>))"
    using rw c d(1) mask_test [of "?d mod 64" ?w]
    by (auto simp: window_check_def Let_def window_sizes wbit_def simp del: Max_less_iff)
  show ?thesis
  proof (cases ok)
    case True
    then have lt: "?d < 1024" and new: "\<not> wbit (rw_window rw) ?d"
      using bits [of ?d] mem by (simp_all add: ok_def)
    have "wbit ((rw_window rw)[?d div 64 := ?w OR ?mask]) e \<longleftrightarrow>
        (\<exists>x\<in>insert c H. unat (Max H) = unat x + e)" if "e < 1024" for e
      using wbit_set [OF rw(3) lt that] bits [OF that] d(2) by auto
    then show ?thesis
      using True lt new result rw max unfolding window_tracks_def by simp
  next
    case False
    then have "\<not> ?d < 1024 \<or> wbit (rw_window rw) ?d" using bits [of ?d] mem by (auto simp: ok_def)
    with False result t show ?thesis by simp
  qed
qed

lemma window_check_tracks:
  assumes "window_tracks rw H" "finite H"
  shows "fst (window_check c rw) = fresh_counter 1024 c H
    \<and> window_tracks (snd (window_check c rw)) (if fresh_counter 1024 c H then insert c H else H)"
proof -
  consider "H = {}" | "H \<noteq> {}" "Max H < c" | "H \<noteq> {}" "\<not> Max H < c" by blast
  then show ?thesis
  proof cases
    case 1
    with window_check_first assms show ?thesis by (simp add: fresh_counter_def)
  next
    case 2
    with window_check_above [OF assms, of c] show ?thesis
      by (simp add: fresh_counter_def del: Max_less_iff)
  next
    case 3
    with window_check_below [OF assms, of c] show ?thesis
      by (simp add: fresh_counter_def del: Max_less_iff)
  qed
qed

interpretation window: replay_filter replay_window_new window_check 1024 window_tracks
proof unfold_locales
  show "window_tracks replay_window_new {}"
    by (simp add: window_tracks_def replay_window_new_def window_sizes wbit_zero)
qed (simp_all add: window_check_tracks)

section \<open>Properties\<close>

text \<open>
  C12: The window accepts exactly the fresh counters: on every sequence of counters from a new
  window, the answers are those of the specification that remembers every accepted counter
  and accepts the first one, any above the largest, and any not yet accepted that lies less
  than 1024 below the largest.
\<close>

theorem replay_window_exact:
  "run_checks window_check cs replay_window_new = spec_accepts 1024 cs {}"
  by (rule window.run_exact)

text \<open>
  No counter is accepted twice: among the counters of any sequence that the window
  accepts, all are different.
\<close>

theorem replay_window_no_replay:
  "distinct (accepted cs (run_checks window_check cs replay_window_new))"
  by (rule window.no_replay)

end
