(* ===== verification/EvidenceLedger.thy ===== *)
theory EvidenceLedger
  imports Codec Replay
begin

text \<open>
  The in-memory evidence ledger (src/src/ledger_envelope.rs): the store of accepted
  envelope hashes, the replay windows per sender and channel, the anchors and the
  revocations. Envelopes and anchors are first-write tables (the contract of the prelude);
  the sequence check implements, per sender and channel, the specification of the replay
  filter. The two event counters are unbounded naturals.
\<close>

section \<open>State\<close>

definition HASH_BYTES :: nat where "HASH_BYTES = 32"
definition LEN_SIG_PUBKEY :: nat where "LEN_SIG_PUBKEY = 32"
definition MAX_ENVELOPES :: nat where "MAX_ENVELOPES = 4096"
definition MAX_SEQ_WINDOWS :: nat where "MAX_SEQ_WINDOWS = 256"
definition MAX_ANCHORS :: nat where "MAX_ANCHORS = 256"
definition MAX_REVOCATIONS :: nat where "MAX_REVOCATIONS = 64"

datatype evidence_error =
  StoreFull | SeqWindowsFull | AnchorsFull | RevocationsFull | Divergence | WindowStale

record envelope_entry =
  ee_hash :: bytes
  ee_sender :: bytes
  ee_channel :: bytes
  ee_seq :: u64

record seq_window =
  sw_sender :: bytes
  sw_channel :: bytes
  sw_replay :: replay_window

record anchor_entry =
  an_pubkey :: bytes
  an_hash :: bytes

record revocation_entry =
  rv_pubkey :: bytes
  rv_revoke_hash :: bytes
  rv_cert_expiry_ms :: u64

record evidence_ledger =
  el_envelopes :: "envelope_entry list"
  el_seq_windows :: "seq_window list"
  el_anchors :: "anchor_entry list"
  el_revocations :: "revocation_entry list"
  el_inserts_total :: nat
  el_storefull_total :: nat

definition evidence_ledger_new :: evidence_ledger where
  "evidence_ledger_new =
     \<lparr>el_envelopes = [], el_seq_windows = [], el_anchors = [], el_revocations = [],
      el_inserts_total = 0, el_storefull_total = 0\<rparr>"

definition envelope_count :: "evidence_ledger \<Rightarrow> nat" where
  "envelope_count l = length (el_envelopes l)"
definition seq_window_count :: "evidence_ledger \<Rightarrow> nat" where
  "seq_window_count l = length (el_seq_windows l)"
definition anchor_count :: "evidence_ledger \<Rightarrow> nat" where
  "anchor_count l = length (el_anchors l)"
definition revocation_count :: "evidence_ledger \<Rightarrow> nat" where
  "revocation_count l = length (el_revocations l)"

section \<open>Operations\<close>

definition find_envelope :: "bytes \<Rightarrow> bytes \<Rightarrow> u64 \<Rightarrow> evidence_ledger \<Rightarrow> bytes option" where
  "find_envelope sender channel seq l =
     map_option ee_hash (find (\<lambda>e. ee_sender e = sender \<and> ee_channel e = channel \<and> ee_seq e = seq)
       (el_envelopes l))"

definition insert_envelope ::
  "envelope_entry \<Rightarrow> evidence_ledger \<Rightarrow> (unit, evidence_error) outcome \<times> evidence_ledger" where
  "insert_envelope entry l =
     (case find (\<lambda>e. ee_sender e = ee_sender entry \<and> ee_channel e = ee_channel entry
                   \<and> ee_seq e = ee_seq entry) (el_envelopes l) of
        Some existing \<Rightarrow>
          if ee_hash existing = ee_hash entry then (Ok (), l) else (Err Divergence, l)
      | None \<Rightarrow>
          if length (el_envelopes l) \<ge> MAX_ENVELOPES
          then (Err StoreFull, l\<lparr>el_inserts_total := el_inserts_total l + 1,
                                 el_storefull_total := el_storefull_total l + 1\<rparr>)
          else (Ok (), l\<lparr>el_envelopes := el_envelopes l @ [entry],
                         el_inserts_total := el_inserts_total l + 1\<rparr>))"

definition all_parents_present :: "bytes list \<Rightarrow> evidence_ledger \<Rightarrow> bool" where
  "all_parents_present parents l =
     list_all (\<lambda>p. list_ex (\<lambda>e. ee_hash e = p) (el_envelopes l)) parents"

definition check_seq ::
  "bytes \<Rightarrow> bytes \<Rightarrow> u64 \<Rightarrow> evidence_ledger \<Rightarrow> (unit, evidence_error) outcome \<times> evidence_ledger" where
  "check_seq sender channel seq l =
     (case position (\<lambda>w. sw_sender w = sender \<and> sw_channel w = channel) (el_seq_windows l) of
        Some i \<Rightarrow>
          let (ok, rw) = window_check seq (sw_replay (el_seq_windows l ! i));
              l' = l\<lparr>el_seq_windows := (el_seq_windows l)[i := (el_seq_windows l ! i)\<lparr>sw_replay := rw\<rparr>]\<rparr>
          in if \<not> ok then (Err WindowStale, l') else (Ok (), l')
      | None \<Rightarrow>
          if length (el_seq_windows l) \<ge> MAX_SEQ_WINDOWS then (Err SeqWindowsFull, l)
          else
            let rw = snd (window_check seq replay_window_new) in
            (Ok (), l\<lparr>el_seq_windows := el_seq_windows l
               @ [\<lparr>sw_sender = sender, sw_channel = channel, sw_replay = rw\<rparr>]\<rparr>))"

definition set_anchor ::
  "bytes \<Rightarrow> bytes \<Rightarrow> evidence_ledger \<Rightarrow> (unit, evidence_error) outcome \<times> evidence_ledger" where
  "set_anchor pubkey hash l =
     (case find (\<lambda>a. an_pubkey a = pubkey) (el_anchors l) of
        Some a \<Rightarrow> if an_hash a = hash then (Ok (), l) else (Err Divergence, l)
      | None \<Rightarrow>
          if length (el_anchors l) \<ge> MAX_ANCHORS then (Err AnchorsFull, l)
          else (Ok (), l\<lparr>el_anchors := el_anchors l @ [\<lparr>an_pubkey = pubkey, an_hash = hash\<rparr>]\<rparr>))"

definition get_anchor :: "bytes \<Rightarrow> evidence_ledger \<Rightarrow> bytes option" where
  "get_anchor pubkey l = map_option an_hash (find (\<lambda>a. an_pubkey a = pubkey) (el_anchors l))"

text \<open>The index of the first entry with the lowest expiry.\<close>

primrec min_index :: "('a \<Rightarrow> 'k::linorder) \<Rightarrow> 'a list \<Rightarrow> nat option" where
  "min_index f [] = None"
| "min_index f (x # xs) =
     (case min_index f xs of
        None \<Rightarrow> Some 0
      | Some i \<Rightarrow> if f x \<le> f (xs ! i) then Some 0 else Some (Suc i))"

definition set_revocation ::
  "bytes \<Rightarrow> bytes \<Rightarrow> u64 \<Rightarrow> evidence_ledger \<Rightarrow> (unit, evidence_error) outcome \<times> evidence_ledger" where
  "set_revocation pubkey revoke_hash cert_expiry_ms l =
     (case find (\<lambda>r. rv_pubkey r = pubkey) (el_revocations l) of
        Some r \<Rightarrow> if rv_revoke_hash r = revoke_hash then (Ok (), l) else (Err Divergence, l)
      | None \<Rightarrow>
          then_state
            (if length (el_revocations l) \<ge> MAX_REVOCATIONS
             then (case min_index rv_cert_expiry_ms (el_revocations l) of
                     Some i \<Rightarrow> (Ok (), l\<lparr>el_revocations := swap_remove i (el_revocations l)\<rparr>)
                   | None \<Rightarrow> (Err RevocationsFull, l))
             else (Ok (), l))
            (\<lambda>_ l. (Ok (), l\<lparr>el_revocations := el_revocations l
               @ [\<lparr>rv_pubkey = pubkey, rv_revoke_hash = revoke_hash,
                   rv_cert_expiry_ms = cert_expiry_ms\<rparr>]\<rparr>)))"

definition is_revoked_key :: "bytes \<Rightarrow> evidence_ledger \<Rightarrow> bool" where
  "is_revoked_key pubkey l = list_ex (\<lambda>r. rv_pubkey r = pubkey) (el_revocations l)"

definition get_revoke_hash :: "bytes \<Rightarrow> evidence_ledger \<Rightarrow> bytes option" where
  "get_revoke_hash pubkey l =
     map_option rv_revoke_hash (find (\<lambda>r. rv_pubkey r = pubkey) (el_revocations l))"

section \<open>Envelopes and anchors are first-write tables\<close>

definition envelope_of :: "evidence_ledger \<Rightarrow> bytes \<times> bytes \<times> u64 \<Rightarrow> bytes option" where
  "envelope_of l = (\<lambda>(sender, channel, seq). find_envelope sender channel seq l)"

definition put_envelope ::
  "bytes \<times> bytes \<times> u64 \<Rightarrow> bytes \<Rightarrow> evidence_ledger \<Rightarrow> (unit, evidence_error) outcome \<times> evidence_ledger" where
  "put_envelope = (\<lambda>(sender, channel, seq) hash.
     insert_envelope \<lparr>ee_hash = hash, ee_sender = sender, ee_channel = channel, ee_seq = seq\<rparr>)"

lemma find_append:
  "find P (xs @ ys) = (case find P xs of None \<Rightarrow> find P ys | Some x \<Rightarrow> Some x)"
  by (induction xs) auto

interpretation envelopes:
  first_write_table envelope_of put_envelope "\<lambda>l. envelope_count l \<ge> MAX_ENVELOPES" Divergence StoreFull
proof unfold_locales
  fix s :: evidence_ledger and k :: "bytes \<times> bytes \<times> u64" and v w :: bytes
  obtain a b c where k: "k = (a, b, c)" by (cases k)
  show "put_envelope k v s = (if w = v then Ok () else Err Divergence, s)" if "envelope_of s k = Some w"
    using that by (auto simp: k envelope_of_def put_envelope_def find_envelope_def insert_envelope_def)
  show "fst (put_envelope k v s) = Err StoreFull \<and> envelope_of (snd (put_envelope k v s)) = envelope_of s"
    if "envelope_of s k = None" "envelope_count s \<ge> MAX_ENVELOPES"
    using that by (simp add: k envelope_of_def put_envelope_def find_envelope_def insert_envelope_def
        envelope_count_def)
  show "fst (put_envelope k v s) = Ok ()
      \<and> envelope_of (snd (put_envelope k v s)) = (envelope_of s)(k \<mapsto> v)"
    if "envelope_of s k = None" "\<not> envelope_count s \<ge> MAX_ENVELOPES"
    using that by (auto simp: k envelope_of_def put_envelope_def find_envelope_def insert_envelope_def
        envelope_count_def find_append fun_eq_iff split: option.splits)
qed

interpretation anchors:
  first_write_table "\<lambda>l pk. get_anchor pk l" set_anchor "\<lambda>l. anchor_count l \<ge> MAX_ANCHORS"
    Divergence AnchorsFull
proof unfold_locales
  fix s :: evidence_ledger and k v w :: bytes
  show "set_anchor k v s = (if w = v then Ok () else Err Divergence, s)" if "get_anchor k s = Some w"
    using that by (auto simp: get_anchor_def set_anchor_def)
  show "fst (set_anchor k v s) = Err AnchorsFull
      \<and> (\<lambda>pk. get_anchor pk (snd (set_anchor k v s))) = (\<lambda>pk. get_anchor pk s)"
    if "get_anchor k s = None" "anchor_count s \<ge> MAX_ANCHORS"
    using that by (simp add: get_anchor_def set_anchor_def anchor_count_def)
  show "fst (set_anchor k v s) = Ok ()
      \<and> (\<lambda>pk. get_anchor pk (snd (set_anchor k v s))) = (\<lambda>pk. get_anchor pk s)(k \<mapsto> v)"
    if "get_anchor k s = None" "\<not> anchor_count s \<ge> MAX_ANCHORS"
    using that by (auto simp: get_anchor_def set_anchor_def anchor_count_def find_append
        fun_eq_iff split: option.splits)
qed

section \<open>The sequence windows\<close>

text \<open>
  What the windows stand for: the set of sequence numbers accepted so far for every
  (sender, channel). The specification of one check on that history.
\<close>

type_synonym seq_history = "bytes \<times> bytes \<Rightarrow> u64 set"

definition spec_check_seq ::
  "bytes \<times> bytes \<Rightarrow> u64 \<Rightarrow> seq_history \<Rightarrow> (unit, evidence_error) outcome" where
  "spec_check_seq k seq H =
     (if H k = {} \<and> card {k'. H k' \<noteq> {}} \<ge> MAX_SEQ_WINDOWS then Err SeqWindowsFull
      else if fresh_counter 1024 seq (H k) then Ok () else Err WindowStale)"

definition spec_history :: "bytes \<times> bytes \<Rightarrow> u64 \<Rightarrow> seq_history \<Rightarrow> seq_history" where
  "spec_history k seq H = (if spec_check_seq k seq H = Ok () then H(k := insert seq (H k)) else H)"

definition sw_key :: "seq_window \<Rightarrow> bytes \<times> bytes" where
  "sw_key w = (sw_sender w, sw_channel w)"

definition seq_tracks :: "evidence_ledger \<Rightarrow> seq_history \<Rightarrow> bool" where
  "seq_tracks l H \<longleftrightarrow>
     distinct (map sw_key (el_seq_windows l)) \<and> length (el_seq_windows l) \<le> MAX_SEQ_WINDOWS
     \<and> {k. H k \<noteq> {}} = sw_key ` set (el_seq_windows l)
     \<and> (\<forall>k. finite (H k))
     \<and> (\<forall>w\<in>set (el_seq_windows l). window_tracks (sw_replay w) (H (sw_key w)))"

lemma seq_tracks_new: "seq_tracks evidence_ledger_new (\<lambda>_. {})"
  by (simp add: seq_tracks_def evidence_ledger_new_def)

lemma seq_tracks_card: "seq_tracks l H \<Longrightarrow> card {k. H k \<noteq> {}} = length (el_seq_windows l)"
  using distinct_card [of "map sw_key (el_seq_windows l)"] by (simp add: seq_tracks_def)

lemma seq_windows_update:
  assumes t: "seq_tracks l H" and i: "i < length (el_seq_windows l)"
    and key: "sw_key (el_seq_windows l ! i) = k"
    and rw: "window_tracks rw H'" "H' \<noteq> {}" "finite H'"
  shows "seq_tracks (l\<lparr>el_seq_windows := (el_seq_windows l)[i := (el_seq_windows l ! i)\<lparr>sw_replay := rw\<rparr>]\<rparr>)
    (H(k := H'))"
proof -
  let ?ws = "el_seq_windows l" and ?w = "(el_seq_windows l ! i)\<lparr>sw_replay := rw\<rparr>"
  have same: "map sw_key (?ws[i := ?w]) = map sw_key ?ws"
    by (rule map_list_update_same) (simp add: sw_key_def)
  then have keys: "sw_key ` set (?ws[i := ?w]) = sw_key ` set ?ws" by (metis list.set_map)
  have "k \<in> sw_key ` set ?ws" using i key by auto
  then have dom: "{k'. (H(k := H')) k' \<noteq> {}} = sw_key ` set ?ws"
    using t rw(2) unfolding seq_tracks_def by auto
  have "window_tracks (sw_replay w) ((H(k := H')) (sw_key w))" if "w \<in> set (?ws[i := ?w])" for w
  proof -
    from that obtain j where j: "j < length ?ws" "w = ?ws[i := ?w] ! j" by (auto simp: in_set_conv_nth)
    show ?thesis
    proof (cases "j = i")
      case True
      with j key rw(1) show ?thesis by (simp add: sw_key_def)
    next
      case False
      have "distinct (map sw_key ?ws)" using t by (simp add: seq_tracks_def)
      with False j i have "sw_key (?ws ! j) \<noteq> k"
        using key nth_eq_iff_index_eq [of "map sw_key ?ws" j i] by auto
      with False j t show ?thesis by (simp add: seq_tracks_def)
    qed
  qed
  then show ?thesis using t dom rw(3) unfolding seq_tracks_def by (simp add: same keys)
qed

lemma check_seq_tracks:
  assumes t: "seq_tracks l H"
  shows "fst (check_seq sender channel seq l) = spec_check_seq (sender, channel) seq H
    \<and> seq_tracks (snd (check_seq sender channel seq l)) (spec_history (sender, channel) seq H)"
proof -
  let ?k = "(sender, channel)" and ?ws = "el_seq_windows l"
  let ?P = "\<lambda>w. sw_sender w = sender \<and> sw_channel w = channel"
  have fin: "finite (H ?k)" and dom: "{k. H k \<noteq> {}} = sw_key ` set ?ws" using t by (simp_all add: seq_tracks_def)
  show ?thesis
  proof (cases "position ?P ?ws")
    case None
    then have "?k \<notin> sw_key ` set ?ws" by (auto simp: position_None sw_key_def)
    then have empty: "H ?k = {}" using dom by blast
    have rw: "window_tracks (snd (window_check seq replay_window_new)) {seq}"
      using window_check_first [OF window.tracks_init] by simp
    have "seq_tracks (l\<lparr>el_seq_windows := ?ws @ [\<lparr>sw_sender = sender, sw_channel = channel,
          sw_replay = snd (window_check seq replay_window_new)\<rparr>]\<rparr>) (H(?k := {seq}))"
      if "length ?ws < MAX_SEQ_WINDOWS"
      using t that rw \<open>?k \<notin> sw_key ` set ?ws\<close> dom
      unfolding seq_tracks_def by (auto simp: sw_key_def)
    with None empty t show ?thesis
      by (auto simp: check_seq_def spec_check_seq_def spec_history_def seq_tracks_card [OF t]
          fresh_counter_def Let_def)
  next
    case (Some i)
    from position_SomeD [OF Some] have i: "i < length ?ws" "sw_key (?ws ! i) = ?k"
      by (auto simp: sw_key_def)
    then have "?k \<in> sw_key ` set ?ws" by (metis image_eqI nth_mem)
    then have ne: "H ?k \<noteq> {}" using dom by blast
    have "\<forall>w\<in>set ?ws. window_tracks (sw_replay w) (H (sw_key w))" using t by (simp add: seq_tracks_def)
    with nth_mem [OF i(1)] i(2) have "window_tracks (sw_replay (?ws ! i)) (H ?k)" by metis
    note step = window_check_tracks [OF this fin, of seq]
    obtain ok rw where r: "window_check seq (sw_replay (?ws ! i)) = (ok, rw)" by (cases "window_check seq (sw_replay (?ws ! i))")
    with step have ok: "ok = fresh_counter 1024 seq (H ?k)"
      and rw: "window_tracks rw (if ok then insert seq (H ?k) else H ?k)" by simp_all
    have "seq_tracks (snd (check_seq sender channel seq l)) (H(?k := if ok then insert seq (H ?k) else H ?k))"
      using seq_windows_update [OF t i rw] ne fin by (cases ok) (simp_all add: check_seq_def Some r)
    moreover have "fst (check_seq sender channel seq l) = (if ok then Ok () else Err WindowStale)"
      by (simp add: check_seq_def Some r)
    ultimately show ?thesis
      using ok ne by (auto simp: spec_check_seq_def spec_history_def)
  qed
qed

text \<open>The other operations leave the windows alone.\<close>

datatype evidence_op =
  EvInsert envelope_entry | EvSeq bytes bytes u64 | EvAnchor bytes bytes | EvRevoke bytes bytes u64

primrec evidence_step :: "evidence_op \<Rightarrow> evidence_ledger \<Rightarrow> evidence_ledger" where
  "evidence_step (EvInsert e) l = snd (insert_envelope e l)"
| "evidence_step (EvSeq s c q) l = snd (check_seq s c q l)"
| "evidence_step (EvAnchor pk h) l = snd (set_anchor pk h l)"
| "evidence_step (EvRevoke pk h e) l = snd (set_revocation pk h e l)"

primrec seq_op :: "evidence_op \<Rightarrow> seq_history \<Rightarrow> seq_history" where
  "seq_op (EvInsert e) H = H"
| "seq_op (EvSeq s c q) H = spec_history (s, c) q H"
| "seq_op (EvAnchor pk h) H = H"
| "seq_op (EvRevoke pk h e) H = H"

lemma other_windows:
  "el_seq_windows (snd (insert_envelope e l)) = el_seq_windows l"
  "el_seq_windows (snd (set_anchor pk h l)) = el_seq_windows l"
  "el_seq_windows (snd (set_revocation pk h x l)) = el_seq_windows l"
  by (auto simp: insert_envelope_def set_anchor_def set_revocation_def split: option.splits)

lemma evidence_step_tracks: "seq_tracks l H \<Longrightarrow> seq_tracks (evidence_step op l) (seq_op op H)"
  by (cases op) (simp_all add: check_seq_tracks, simp_all add: seq_tracks_def other_windows)

lemma evidence_run_tracks:
  "seq_tracks l H \<Longrightarrow> seq_tracks (fold evidence_step ops l) (fold seq_op ops H)"
  by (induction ops arbitrary: l H) (simp_all add: evidence_step_tracks)

section \<open>The invariant\<close>

definition ee_key :: "envelope_entry \<Rightarrow> bytes \<times> bytes \<times> u64" where
  "ee_key e = (ee_sender e, ee_channel e, ee_seq e)"

definition evidence_inv :: "evidence_ledger \<Rightarrow> bool" where
  "evidence_inv l \<longleftrightarrow>
     length (el_envelopes l) \<le> MAX_ENVELOPES \<and> distinct (map ee_key (el_envelopes l))
     \<and> length (el_seq_windows l) \<le> MAX_SEQ_WINDOWS \<and> distinct (map sw_key (el_seq_windows l))
     \<and> length (el_anchors l) \<le> MAX_ANCHORS \<and> distinct (map an_pubkey (el_anchors l))
     \<and> length (el_revocations l) \<le> MAX_REVOCATIONS \<and> distinct (map rv_pubkey (el_revocations l))
     \<and> el_inserts_total l = length (el_envelopes l) + el_storefull_total l"

lemma min_index_less: "min_index f xs = Some i \<Longrightarrow> i < length xs \<and> (\<forall>x\<in>set xs. f (xs ! i) \<le> f x)"
proof (induction xs arbitrary: i)
  case (Cons x xs)
  show ?case
  proof (cases "min_index f xs")
    case None
    then have "xs = []" by (cases xs) (auto split: option.splits if_splits)
    with Cons.prems show ?thesis by simp
  next
    case (Some j)
    with Cons.IH [OF this] Cons.prems show ?thesis
      by (auto split: if_splits intro: order_trans)
  qed
qed simp

lemma min_index_None: "min_index f xs = None \<longleftrightarrow> xs = []"
  by (cases xs) (auto split: option.splits)

lemma set_revocation_inv:
  assumes "evidence_inv l"
  shows "evidence_inv (snd (set_revocation pk h x l))"
proof (cases "find (\<lambda>r. rv_pubkey r = pk) (el_revocations l)")
  case None
  let ?rs = "el_revocations l" and ?r = "\<lparr>rv_pubkey = pk, rv_revoke_hash = h, rv_cert_expiry_ms = x\<rparr>"
  have new: "pk \<notin> rv_pubkey ` set ?rs" using None by (auto simp: find_None_iff)
  have d: "distinct (map rv_pubkey ?rs)" using assms by (simp add: evidence_inv_def)
  show ?thesis
  proof (cases "min_index rv_cert_expiry_ms ?rs")
    case None
    then have "snd (set_revocation pk h x l) = l\<lparr>el_revocations := ?rs @ [?r]\<rparr>"
      using \<open>find _ _ = None\<close> by (simp add: set_revocation_def min_index_None MAX_REVOCATIONS_def)
    with assms new None show ?thesis by (simp add: evidence_inv_def min_index_None MAX_REVOCATIONS_def)
  next
    case (Some i)
    then have i: "i < length ?rs" using min_index_less by blast
    have "distinct (map rv_pubkey (swap_remove i ?rs))" "pk \<notin> rv_pubkey ` set (swap_remove i ?rs)"
      using distinct_map_swap_remove [OF i d] set_swap_remove [OF i] new by blast+
    with assms new d Some \<open>find _ _ = None\<close> show ?thesis
      by (auto simp: set_revocation_def evidence_inv_def MAX_REVOCATIONS_def)
  qed
qed (use assms in \<open>simp add: set_revocation_def\<close>)

lemma insert_envelope_inv: "evidence_inv l \<Longrightarrow> evidence_inv (snd (insert_envelope e l))"
  by (auto simp: insert_envelope_def evidence_inv_def ee_key_def find_None_iff split: option.splits)

lemma set_anchor_inv: "evidence_inv l \<Longrightarrow> evidence_inv (snd (set_anchor pk h l))"
  by (auto simp: set_anchor_def evidence_inv_def find_None_iff split: option.splits)

lemma check_seq_inv: "evidence_inv l \<Longrightarrow> evidence_inv (snd (check_seq s c q l))"
proof (cases "position (\<lambda>w. sw_sender w = s \<and> sw_channel w = c) (el_seq_windows l)")
  case None
  assume inv: "evidence_inv l"
  have "(s, c) \<notin> sw_key ` set (el_seq_windows l)" using None by (auto simp: position_None sw_key_def)
  with inv None show ?thesis by (auto simp: check_seq_def evidence_inv_def sw_key_def Let_def)
next
  case (Some i)
  assume inv: "evidence_inv l"
  have "map sw_key ((el_seq_windows l)[i := (el_seq_windows l ! i)\<lparr>sw_replay := rw\<rparr>])
      = map sw_key (el_seq_windows l)" for rw
    by (rule map_list_update_same) (simp add: sw_key_def)
  with inv Some show ?thesis by (simp add: check_seq_def evidence_inv_def Let_def split: prod.split)
qed

interpretation evidence: guarded_machine evidence_ledger_new evidence_step evidence_inv
proof unfold_locales
  show "evidence_inv evidence_ledger_new" by (simp add: evidence_inv_def evidence_ledger_new_def)
  show "evidence_inv (evidence_step op l)" if "evidence_inv l" for op l
    using that by (cases op)
      (simp_all add: insert_envelope_inv set_anchor_inv check_seq_inv set_revocation_inv)
qed

section \<open>Properties\<close>

text \<open>
  Whatever sequence of insertions, sequence checks, anchors and revocations is run from a
  new ledger, the four tables keep their capacities, no key occurs twice in any of them, and
  the scan counter is the number of stored envelopes plus the number of refusals for room.
\<close>

theorem evidence_ledger_invariant: "evidence_inv (fold evidence_step ops evidence_ledger_new)"
  by (rule evidence.inv_run)

text \<open>
  The envelope store is a first-write map from (sender, channel, sequence number) to hash:
  a stored identity is accepted again exactly with its own hash, on a full store too, and is
  an equivocation with any other hash; a new identity is stored unless the store is full; and
  no other binding changes.
\<close>

theorem insert_envelope_refines_map:
  "fst (insert_envelope e l) =
     (case envelope_of l (ee_key e) of
        Some h \<Rightarrow> if h = ee_hash e then Ok () else Err Divergence
      | None \<Rightarrow> if envelope_count l \<ge> MAX_ENVELOPES then Err StoreFull else Ok ())
   \<and> envelope_of (snd (insert_envelope e l)) =
     (if envelope_of l (ee_key e) = None \<and> \<not> envelope_count l \<ge> MAX_ENVELOPES
      then (envelope_of l)(ee_key e \<mapsto> ee_hash e) else envelope_of l)"
proof -
  have "insert_envelope e = put_envelope (ee_key e) (ee_hash e)"
    by (cases e) (simp add: put_envelope_def ee_key_def)
  then show ?thesis
    by (simp add: envelopes.put_result envelopes.put_lookup cong: option.case_cong)
qed

text \<open>
  The anchor of a key is its first hash for ever: whatever anchors are set afterwards,
  a key that has an anchor keeps it.
\<close>

theorem anchor_never_changes:
  "get_anchor pk l \<in> {None, get_anchor pk (fold (\<lambda>(k, h) l. snd (set_anchor k h l)) kvs l)}"
  using anchors.puts_keep [where s = l and k = pk and kvs = kvs] by (cases "get_anchor pk l") auto

text \<open>
  After any operations, a sequence check answers as the specification on the history of
  accepted numbers of that sender and channel alone: a first number opens a window unless 256
  are open, a later one is accepted exactly when it is fresh within 1024.
\<close>

theorem check_seq_refines_history:
  "fst (check_seq sender channel seq (fold evidence_step ops evidence_ledger_new))
   = spec_check_seq (sender, channel) seq (fold seq_op ops (\<lambda>_. {}))"
  using check_seq_tracks [OF evidence_run_tracks [OF seq_tracks_new, of ops]] by simp

text \<open>
  The table of revocations never refuses for room: when it holds 64 keys it evicts the one
  whose certificate expires first, so a revoked key can stop being revoked.
\<close>

theorem revocations_never_full: "fst (set_revocation pk h x l) \<noteq> Err RevocationsFull"
proof (cases "min_index rv_cert_expiry_ms (el_revocations l)")
  case None
  then have "el_revocations l = []" by (simp add: min_index_None)
  then show ?thesis by (simp add: set_revocation_def MAX_REVOCATIONS_def)
qed (auto simp: set_revocation_def split: option.splits)

end
