(* ===== verification/Resolver.thy ===== *)
theory Resolver
  imports Intent
begin

text \<open>
  The resource resolver (src/src/transport/resolver.rs): the grammar of canonical resource
  ids, the operator-declared set of resources with its aliases, the resolution of a proposed
  id to a canonical one, the serialisation of the set, and admission through the resolver.
  The fixed arrays with their counts and lengths are lists of the used prefixes. The lemmas
  show that the validator accepts exactly the grammar, what resolution returns, and that the
  lock of an admitted intent is keyed on the canonical form.
\<close>

unbundle bit_operations_syntax

section \<open>Constants and errors\<close>

definition FP_BYTES :: nat where "FP_BYTES = 8"
definition FP_HEX_LEN :: nat where "FP_HEX_LEN = 16"
definition NS_MAX :: nat where "NS_MAX = 32"
definition PATH_MAX :: nat where "PATH_MAX = 180"
definition ID_MAX :: nat where "ID_MAX = 4 + FP_HEX_LEN + 1 + NS_MAX + 1 + PATH_MAX"
definition DOMAIN_RESOURCE_SET :: u8 where "DOMAIN_RESOURCE_SET = 8"
definition MAX_RESOURCES :: nat where "MAX_RESOURCES = 32"
definition MAX_ALIASES :: nat where "MAX_ALIASES = 64"

lemmas resolver_sizes =
  FP_BYTES_def FP_HEX_LEN_def NS_MAX_def PATH_MAX_def ID_MAX_def MAX_RESOURCES_def MAX_ALIASES_def

datatype resolve_error =
  MalformedCanonical | SetFull | AliasPoolFull | DuplicateEntry | UnknownResource
  | AmbiguousResource | ForeignExecutor | BufferTooSmall | IntentRefused intent_error

section \<open>Fingerprints\<close>

text \<open>Lowercase hex digits as ASCII codes.\<close>

definition hex_digit :: "u8 \<Rightarrow> u8" where
  "hex_digit d = (if d < 10 then 48 + d else 87 + d)"

definition hex_bytes :: "bytes \<Rightarrow> bytes" where
  "hex_bytes bs = concat (map (\<lambda>b. [hex_digit (drop_bit 4 b), hex_digit (b AND 15)]) bs)"

definition executor_fp :: "crypto \<Rightarrow> bytes \<Rightarrow> bytes" where
  "executor_fp cr sig_pubkey = hex_bytes (take FP_BYTES (blake2s cr sig_pubkey))"

section \<open>The grammar of canonical ids\<close>

text \<open>ASCII: slash 47, dot 46, hyphen 45, underscore 95, digits from 48, letters from 97.\<close>

definition SLASH :: u8 where "SLASH = 47"
definition DOT :: u8 where "DOT = 46"

definition is_hex_lower :: "u8 \<Rightarrow> bool" where
  "is_hex_lower c \<longleftrightarrow> 48 \<le> c \<and> c \<le> 57 \<or> 97 \<le> c \<and> c \<le> 102"

definition is_ns_char :: "u8 \<Rightarrow> bool" where
  "is_ns_char c \<longleftrightarrow> 97 \<le> c \<and> c \<le> 122 \<or> 48 \<le> c \<and> c \<le> 57 \<or> c = 45"

definition is_path_char :: "u8 \<Rightarrow> bool" where
  "is_path_char c \<longleftrightarrow> is_ns_char c \<or> c = DOT \<or> c = 95"

definition seg_len_invalid :: "nat \<Rightarrow> nat \<Rightarrow> bool" where
  "seg_len_invalid seg_len dots \<longleftrightarrow> seg_len = 0 \<or> dots = seg_len \<and> seg_len \<le> 2"

text \<open>
  The namespace loop: up to the next slash or the end, None on a character outside the
  alphabet; returns the length scanned. The path loop carries the length of the segment and
  the number of dots in it.
\<close>

primrec ns_scan :: "bytes \<Rightarrow> nat option" where
  "ns_scan [] = Some 0"
| "ns_scan (c # cs) =
     (if c = SLASH then Some 0 else if \<not> is_ns_char c then None else map_option Suc (ns_scan cs))"

primrec path_scan :: "nat \<Rightarrow> nat \<Rightarrow> bytes \<Rightarrow> bool" where
  "path_scan seg_len dots [] = (\<not> seg_len_invalid seg_len dots)"
| "path_scan seg_len dots (c # cs) =
     (if \<not> is_path_char c \<and> c \<noteq> SLASH then False
      else if c = SLASH then
        (if seg_len_invalid seg_len dots then False else path_scan 0 0 cs)
      else path_scan (seg_len + 1) (if c = DOT then dots + 1 else dots) cs)"

definition validate_canonical :: "bytes \<Rightarrow> bool" where
  "validate_canonical rid =
     (if length rid < 4 + FP_HEX_LEN + 3 then False
      else if take 4 rid \<noteq> [98, 111, 108, 58] then False
      else if \<not> list_all is_hex_lower (take FP_HEX_LEN (drop 4 rid)) then False
      else if rid ! (4 + FP_HEX_LEN) \<noteq> SLASH then False
      else
        let ns_start = 4 + FP_HEX_LEN + 1 in
        (case ns_scan (drop ns_start rid) of
           None \<Rightarrow> False
         | Some ns_len \<Rightarrow>
             if ns_len < 1 \<or> ns_len > NS_MAX then False
             else let pos = ns_start + ns_len in
             if pos \<ge> length rid \<or> rid ! pos \<noteq> SLASH then False
             else let path_start = pos + 1 in
             if \<not> path_scan 0 0 (drop path_start rid) then False
             else let path_len = length rid - path_start in 1 \<le> path_len \<and> path_len \<le> PATH_MAX))"

text \<open>The grammar: bol:fp/namespace/seg/.../seg, no segment empty, one dot or two dots.\<close>

definition path_segment :: "bytes \<Rightarrow> bool" where
  "path_segment s \<longleftrightarrow> s \<noteq> [] \<and> list_all is_path_char s \<and> s \<noteq> [DOT] \<and> s \<noteq> [DOT, DOT]"

fun join_path :: "bytes list \<Rightarrow> bytes" where
  "join_path [] = []"
| "join_path [s] = s"
| "join_path (s # ss) = s @ SLASH # join_path ss"

definition canonical_form :: "bytes \<Rightarrow> bool" where
  "canonical_form rid \<longleftrightarrow>
     (\<exists>fp ns segs. rid = [98, 111, 108, 58] @ fp @ [SLASH] @ ns @ [SLASH] @ join_path segs
        \<and> length fp = FP_HEX_LEN \<and> list_all is_hex_lower fp
        \<and> list_all is_ns_char ns \<and> 1 \<le> length ns \<and> length ns \<le> NS_MAX
        \<and> segs \<noteq> [] \<and> list_all path_segment segs \<and> length (join_path segs) \<le> PATH_MAX)"

lemma slash_not_char [simp]: "\<not> is_ns_char SLASH" "\<not> is_path_char SLASH"
  by (simp_all add: is_path_char_def is_ns_char_def SLASH_def DOT_def word_le_nat_alt)

lemma dot_path_char [simp]: "is_path_char DOT"
  by (simp add: is_path_char_def)

lemma ns_scan_iff:
  "ns_scan cs = Some n \<longleftrightarrow>
     n \<le> length cs \<and> list_all is_ns_char (take n cs) \<and> (n < length cs \<longrightarrow> cs ! n = SLASH)"
proof (induction cs arbitrary: n)
  case (Cons c cs)
  show ?case
  proof (cases n)
    case (Suc m)
    then show ?thesis using Cons.IH [of m] by (cases "c = SLASH") auto
  qed auto
qed simp

text \<open>The state of the path loop after a partial segment: its length and its dots.\<close>

definition seg_ok :: "bytes \<Rightarrow> bool" where
  "seg_ok s \<longleftrightarrow> \<not> seg_len_invalid (length s) (length (filter (\<lambda>c. c = DOT) s))"

lemma seg_ok_iff: "list_all is_path_char s \<Longrightarrow> seg_ok s \<longleftrightarrow> path_segment s"
proof -
  have "filter (\<lambda>c. c = DOT) s = s \<longleftrightarrow> (\<forall>c\<in>set s. c = DOT)" by (simp add: filter_id_conv)
  moreover have "length (filter (\<lambda>c. c = DOT) s) = length s \<longleftrightarrow> filter (\<lambda>c. c = DOT) s = s"
    by (metis filter_id_conv length_filter_less less_irrefl)
  moreover have "(\<forall>c\<in>set s. c = DOT) \<and> length s \<le> 2 \<and> s \<noteq> [] \<longleftrightarrow> s = [DOT] \<or> s = [DOT, DOT]"
    by (cases s; cases "tl s"; cases "tl (tl s)") auto
  ultimately show "list_all is_path_char s \<Longrightarrow> seg_ok s \<longleftrightarrow> path_segment s"
    by (auto simp: seg_ok_def seg_len_invalid_def path_segment_def)
qed

lemma join_path_Cons: "ss \<noteq> [] \<Longrightarrow> join_path (s # ss) = s @ SLASH # join_path ss"
  by (cases ss) auto

lemma path_scan_iff:
  "list_all is_path_char s \<Longrightarrow>
     path_scan (length s) (length (filter (\<lambda>c. c = DOT) s)) cs \<longleftrightarrow>
     (\<exists>segs. segs \<noteq> [] \<and> list_all path_segment segs \<and> s @ cs = join_path segs)"
proof (induction cs arbitrary: s)
  case Nil
  have "segs = [s]" if "segs \<noteq> []" "list_all path_segment segs" "s = join_path segs" for segs
  proof (cases segs)
    case (Cons t ts)
    then show ?thesis using that Nil by (cases ts) auto
  qed (use that in simp)
  then have "(\<exists>segs. segs \<noteq> [] \<and> list_all path_segment segs \<and> s = join_path segs) \<longleftrightarrow> path_segment s"
    by (metis join_path.simps(2) list.distinct(1) list.pred_inject(1) list.pred_inject(2))
  then show ?case using seg_ok_iff [OF Nil] by (simp add: seg_ok_def)
next
  case (Cons c cs)
  show ?case
  proof (cases "c = SLASH")
    case True
    have split: "t = s \<and> x = SLASH # cs" if "s @ SLASH # cs = t @ x" "list_all is_path_char t"
      "x = [] \<or> hd x = SLASH" for t x
    proof -
      have "takeWhile (\<lambda>c. c \<noteq> SLASH) (s @ SLASH # cs) = s"
        using Cons.prems by (subst takeWhile_append2) (auto simp: list_all_iff)
      moreover have "takeWhile (\<lambda>c. c \<noteq> SLASH) (t @ x) = t"
        using that(2,3) by (subst takeWhile_append2) (auto simp: list_all_iff, cases x, auto)
      ultimately show ?thesis using that(1) by simp
    qed
    have IH: "path_scan 0 0 cs \<longleftrightarrow> (\<exists>segs. segs \<noteq> [] \<and> list_all path_segment segs \<and> cs = join_path segs)"
      using Cons.IH [of "[]"] by simp
    have "(\<exists>segs. segs \<noteq> [] \<and> list_all path_segment segs \<and> s @ SLASH # cs = join_path segs)
      \<longleftrightarrow> path_segment s \<and> (\<exists>segs. segs \<noteq> [] \<and> list_all path_segment segs \<and> cs = join_path segs)"
      (is "?l \<longleftrightarrow> ?r")
    proof
      assume ?l
      then obtain t ts where t: "list_all path_segment (t # ts)" "s @ SLASH # cs = join_path (t # ts)"
        by (metis list.exhaust)
      have tc: "list_all is_path_char t" using t(1) by (simp add: path_segment_def)
      show ?r
      proof (cases "ts = []")
        case True
        then show ?thesis using split [of t "[]"] t tc by simp
      next
        case False
        then have "s @ SLASH # cs = t @ SLASH # join_path ts" using t(2) by (simp add: join_path_Cons)
        from split [OF this tc] False t show ?thesis by auto
      qed
    next
      assume ?r
      then obtain segs where "path_segment s" "segs \<noteq> []" "list_all path_segment segs" "cs = join_path segs"
        by blast
      then show ?l by (intro exI [of _ "s # segs"]) (simp add: join_path_Cons)
    qed
    then show ?thesis using True IH seg_ok_iff [OF Cons.prems] by (auto simp: seg_ok_def)
  next
    case False
    show ?thesis
    proof (cases "is_path_char c")
      case True
      with False Cons.IH [of "s @ [c]"] Cons.prems show ?thesis by (cases "c = DOT") simp_all
    next
      case bad: False
      have "c \<notin> set (join_path segs)" if "list_all path_segment segs" for segs
        using that bad False by (induction segs rule: join_path.induct) (auto simp: path_segment_def list_all_iff)
      then have "\<not> (\<exists>segs. segs \<noteq> [] \<and> list_all path_segment segs \<and> s @ c # cs = join_path segs)"
        by (metis in_set_conv_decomp)
      with bad False show ?thesis by simp
    qed
  qed
qed

lemma validate_canonical_iff: "validate_canonical rid \<longleftrightarrow> canonical_form rid"
proof
  assume v: "validate_canonical rid"
  then obtain n where long: "length rid \<ge> 23" and pre: "take 4 rid = [98, 111, 108, 58]"
    and fp: "list_all is_hex_lower (take 16 (drop 4 rid))" and sl: "rid ! 20 = SLASH"
    and ns: "ns_scan (drop 21 rid) = Some n" "1 \<le> n" "n \<le> 32"
    and sl2: "21 + n < length rid" "rid ! (21 + n) = SLASH"
    and path: "path_scan 0 0 (drop (22 + n) rid)" "length rid - (22 + n) \<le> 180"
    by (auto simp: validate_canonical_def resolver_sizes Let_def not_less not_le
        split: if_splits option.splits)
  from path_scan_iff [of "[]" "drop (22 + n) rid"] path obtain segs where segs: "segs \<noteq> []"
    "list_all path_segment segs" "drop (22 + n) rid = join_path segs" by auto
  have "rid = take 4 rid @ take 16 (drop 4 rid) @ [rid ! 20] @ take n (drop 21 rid) @ [rid ! (21 + n)]
      @ drop (22 + n) rid"
  proof -
    have a: "rid = take 4 rid @ drop 4 rid" by simp
    have b: "drop 4 rid = take 16 (drop 4 rid) @ drop 20 rid"
      using append_take_drop_id [of 16 "drop 4 rid"] by simp
    have c: "drop 20 rid = rid ! 20 # drop 21 rid"
      using long Cons_nth_drop_Suc [of 20 rid] by simp
    have d: "drop 21 rid = take n (drop 21 rid) @ drop (21 + n) rid"
      using append_take_drop_id [of n "drop 21 rid"] by (simp add: add.commute)
    have e: "drop (21 + n) rid = rid ! (21 + n) # drop (22 + n) rid"
      using sl2 Cons_nth_drop_Suc [of "21 + n" rid] by simp
    from a b c d e show ?thesis by (metis append_Cons append_Nil append_assoc)
  qed
  moreover have "length (take n (drop 21 rid)) = n" using sl2 by simp
  moreover have "list_all is_ns_char (take n (drop 21 rid))" using ns by (simp add: ns_scan_iff)
  moreover have "length (take 16 (drop 4 rid)) = 16" using long by simp
  moreover have "length (join_path segs) \<le> 180" using path(2) segs(3) by (metis length_drop)
  ultimately show "canonical_form rid"
    unfolding canonical_form_def resolver_sizes using pre fp sl sl2 ns segs
    by (intro exI [of _ "take 16 (drop 4 rid)"] exI [of _ "take n (drop 21 rid)"] exI [of _ segs]) simp
next
  assume "canonical_form rid"
  then obtain fp ns segs where rid: "rid = [98, 111, 108, 58] @ fp @ [SLASH] @ ns @ [SLASH] @ join_path segs"
    and fp: "length fp = 16" "list_all is_hex_lower fp"
    and ns: "list_all is_ns_char ns" "1 \<le> length ns" "length ns \<le> 32"
    and segs: "segs \<noteq> []" "list_all path_segment segs" "length (join_path segs) \<le> 180"
    by (auto simp: canonical_form_def resolver_sizes)
  have "join_path segs \<noteq> []" using segs by (cases segs rule: join_path.cases) (auto simp: path_segment_def)
  moreover have "drop 21 rid = ns @ SLASH # join_path segs" using fp by (simp add: rid)
  moreover have "ns_scan (ns @ SLASH # join_path segs) = Some (length ns)" using ns by (simp add: ns_scan_iff)
  moreover have "path_scan 0 0 (join_path segs)" using path_scan_iff [of "[]" "join_path segs"] segs by auto
  moreover have "rid ! 20 = SLASH" "rid ! (21 + length ns) = SLASH"
    "length rid = 22 + length ns + length (join_path segs)"
    using fp by (simp_all add: rid nth_append nth_Cons')
  moreover have "drop (22 + length ns) rid = join_path segs"
    using fp by (subst append_eq_conv_conj [THEN iffD1, THEN conjunct2,
        of "[98, 111, 108, 58] @ fp @ [SLASH] @ ns @ [SLASH]" "join_path segs" rid]) (simp_all add: rid)
  ultimately show "validate_canonical rid"
    using fp ns segs by (auto simp: validate_canonical_def resolver_sizes Let_def rid Suc_le_eq)
qed

section \<open>The resolver\<close>

record rs_alias =
  al_bytes :: bytes
  al_entry :: nat

record resolver =
  rs_own_fp :: bytes
  rs_entries :: "bytes list"
  rs_aliases :: "rs_alias list"

definition resolver_new :: "crypto \<Rightarrow> bytes \<Rightarrow> resolver" where
  "resolver_new cr sig_pubkey =
     \<lparr>rs_own_fp = executor_fp cr sig_pubkey, rs_entries = [], rs_aliases = []\<rparr>"

definition find_entry :: "bytes \<Rightarrow> resolver \<Rightarrow> nat option" where
  "find_entry canonical r = position (\<lambda>e. e = canonical) (rs_entries r)"

definition alias_hits :: "nat \<Rightarrow> bytes \<Rightarrow> resolver \<Rightarrow> bool" where
  "alias_hits entry_idx proposed r =
     list_ex (\<lambda>a. al_entry a = entry_idx \<and> al_bytes a = proposed) (rs_aliases r)"

definition resolver_add :: "bytes \<Rightarrow> resolver \<Rightarrow> (unit, resolve_error) outcome \<times> resolver" where
  "resolver_add canonical r =
     (if \<not> validate_canonical canonical then (Err MalformedCanonical, r)
      else if length canonical > ID_MAX then (Err MalformedCanonical, r)
      else if length (rs_entries r) = MAX_RESOURCES then (Err SetFull, r)
      else if find_entry canonical r \<noteq> None then (Err DuplicateEntry, r)
      else (Ok (), r\<lparr>rs_entries := rs_entries r @ [canonical]\<rparr>))"

definition add_alias :: "bytes \<Rightarrow> bytes \<Rightarrow> resolver \<Rightarrow> (unit, resolve_error) outcome \<times> resolver" where
  "add_alias canonical al r =
     (if al = [] \<or> length al > ID_MAX then (Err MalformedCanonical, r)
      else case find_entry canonical r of
        None \<Rightarrow> (Err UnknownResource, r)
      | Some idx \<Rightarrow>
          if length (rs_aliases r) = MAX_ALIASES then (Err AliasPoolFull, r)
          else (Ok (), r\<lparr>rs_aliases := rs_aliases r @ [\<lparr>al_bytes = al, al_entry = idx\<rparr>]\<rparr>))"

definition entry_hit :: "resolver \<Rightarrow> bytes \<Rightarrow> nat \<Rightarrow> bool" where
  "entry_hit r proposed i \<longleftrightarrow> rs_entries r ! i = proposed \<or> alias_hits i proposed r"

text \<open>The loop over the entries, with the index found so far.\<close>

primrec resolve_loop ::
  "resolver \<Rightarrow> bytes \<Rightarrow> nat list \<Rightarrow> nat option \<Rightarrow> (nat option, resolve_error) outcome" where
  "resolve_loop r proposed [] found = Ok found"
| "resolve_loop r proposed (i # is) found =
     (if entry_hit r proposed i then
        (case found of
           Some f \<Rightarrow> if f \<noteq> i then Err AmbiguousResource else resolve_loop r proposed is found
         | None \<Rightarrow> resolve_loop r proposed is (Some i))
      else resolve_loop r proposed is found)"

definition resolve :: "resolver \<Rightarrow> bytes \<Rightarrow> (bytes, resolve_error) outcome" where
  "resolve r proposed =
     and_then (resolve_loop r proposed [0..<length (rs_entries r)] None) (\<lambda>found.
     and_then (ok_or UnknownResource found) (\<lambda>idx.
     let c = rs_entries r ! idx in
     and_then (subslice c 4 (4 + FP_HEX_LEN)) (\<lambda>fp.
     if fp \<noteq> rs_own_fp r then Err ForeignExecutor else Ok c)))"

definition entry_aliases :: "resolver \<Rightarrow> nat \<Rightarrow> bytes list" where
  "entry_aliases r i = map al_bytes (filter (\<lambda>a. al_entry a = i) (rs_aliases r))"

definition serialized_len :: "resolver \<Rightarrow> nat" where
  "serialized_len r =
     sum_list (map (\<lambda>i. 2 + length (rs_entries r ! i) + 2
       + sum_list (map (\<lambda>a. 2 + length a) (entry_aliases r i))) [0..<length (rs_entries r)])"

text \<open>The serialised set, written to the front of the output buffer.\<close>

definition serialize_entry :: "resolver \<Rightarrow> nat \<Rightarrow> bytes" where
  "serialize_entry r i =
     push_field16 (rs_entries r ! i)
     @ to_be_bytes (word_of_nat (length (entry_aliases r i)) :: u16)
     @ concat (map push_field16 (entry_aliases r i))"

definition serialize :: "resolver \<Rightarrow> bytes \<Rightarrow> (nat \<times> bytes, resolve_error) outcome" where
  "serialize r out =
     (if length out < serialized_len r then Err BufferTooSmall
      else
        let data = concat (map (serialize_entry r) [0..<length (rs_entries r)])
        in Ok (length data, data @ drop (length data) out))"

definition resolve_and_admit ::
  "resolver \<Rightarrow> bytes \<Rightarrow> bytes \<Rightarrow> u64 \<Rightarrow> intent_table \<Rightarrow> (unit, resolve_error) outcome \<times> intent_table" where
  "resolve_and_admit r intent_id resource_id now_ms t =
     (case resolve r resource_id of
        Ok canonical \<Rightarrow>
          if length canonical > MAX_RESOURCE then (Err MalformedCanonical, t)
          else
            let canonical_buf = canonical @ replicate (MAX_RESOURCE - length canonical) 0;
                (res, t') = admit intent_id canonical_buf (length canonical) now_ms t
            in (map_err IntentRefused res, t')
      | Err e \<Rightarrow> (Err e, t)
      | Panic \<Rightarrow> (Panic, t))"

section \<open>What resolution returns\<close>

definition resolver_inv :: "resolver \<Rightarrow> bool" where
  "resolver_inv r \<longleftrightarrow>
     list_all canonical_form (rs_entries r) \<and> distinct (rs_entries r)
     \<and> length (rs_entries r) \<le> MAX_RESOURCES \<and> length (rs_aliases r) \<le> MAX_ALIASES
     \<and> list_all (\<lambda>a. al_entry a < length (rs_entries r) \<and> al_bytes a \<noteq> []
         \<and> length (al_bytes a) \<le> ID_MAX) (rs_aliases r)"

datatype resolver_op = RsAdd bytes | RsAlias bytes bytes

primrec resolver_step :: "resolver_op \<Rightarrow> resolver \<Rightarrow> resolver" where
  "resolver_step (RsAdd c) r = snd (resolver_add c r)"
| "resolver_step (RsAlias c a) r = snd (add_alias c a r)"

lemma find_entry_Some: "find_entry c r = Some i \<Longrightarrow> i < length (rs_entries r) \<and> rs_entries r ! i = c"
  unfolding find_entry_def using position_SomeD [of "\<lambda>e. e = c" "rs_entries r" i] by simp

lemma resolver_step_inv: "resolver_inv r \<Longrightarrow> resolver_inv (resolver_step op r)"
proof (cases op)
  case (RsAdd c)
  assume inv: "resolver_inv r"
  have "c \<notin> set (rs_entries r)" if "find_entry c r = None"
    using that by (auto simp: find_entry_def position_None)
  with inv RsAdd show ?thesis
    by (auto simp: resolver_add_def resolver_inv_def validate_canonical_iff list_all_iff)
next
  case (RsAlias c a)
  assume inv: "resolver_inv r"
  with RsAlias show ?thesis
    by (auto simp: add_alias_def resolver_inv_def dest: find_entry_Some split: option.splits)
qed

interpretation resolvers: guarded_machine "resolver_new cr pk" resolver_step resolver_inv
  by unfold_locales (simp_all add: resolver_step_inv, simp add: resolver_inv_def resolver_new_def)

lemma canonical_form_length: "canonical_form c \<Longrightarrow> 23 \<le> length c \<and> length c \<le> ID_MAX"
  unfolding validate_canonical_iff [symmetric]
proof -
  assume v: "validate_canonical c"
  have "canonical_form c" using v by (simp add: validate_canonical_iff)
  then obtain fp ns segs where "c = [98, 111, 108, 58] @ fp @ [SLASH] @ ns @ [SLASH] @ join_path segs"
    "length fp = 16" "length ns \<le> 32" "length (join_path segs) \<le> 180"
    by (auto simp: canonical_form_def resolver_sizes)
  then have "length c \<le> 234" by simp
  with v show "23 \<le> length c \<and> length c \<le> ID_MAX"
    by (simp add: validate_canonical_def resolver_sizes split: if_splits)
qed

lemma resolve_loop_from:
  "distinct is \<Longrightarrow> f \<notin> set is \<Longrightarrow> resolve_loop r p is (Some f) =
     (if filter (entry_hit r p) is = [] then Ok (Some f) else Err AmbiguousResource)"
  by (induction "is") auto

lemma resolve_loop_eq:
  "distinct is \<Longrightarrow> resolve_loop r p is None =
     (case filter (entry_hit r p) is of
        [] \<Rightarrow> Ok None
      | [i] \<Rightarrow> Ok (Some i)
      | _ \<Rightarrow> Err AmbiguousResource)"
  by (induction "is") (auto simp: resolve_loop_from split: list.splits)

text \<open>The entries a proposed id names, directly or through an alias.\<close>

definition named_entries :: "resolver \<Rightarrow> bytes \<Rightarrow> nat list" where
  "named_entries r p = filter (entry_hit r p) [0..<length (rs_entries r)]"

lemma resolve_eq:
  assumes inv: "resolver_inv r"
  shows "resolve r p =
    (case named_entries r p of
       [] \<Rightarrow> Err UnknownResource
     | [i] \<Rightarrow> if take 16 (drop 4 (rs_entries r ! i)) = rs_own_fp r then Ok (rs_entries r ! i)
              else Err ForeignExecutor
     | _ \<Rightarrow> Err AmbiguousResource)"
proof -
  have "subslice (rs_entries r ! i) 4 (4 + FP_HEX_LEN) = Ok (take 16 (drop 4 (rs_entries r ! i)))"
    if "named_entries r p = [i]" for i
  proof -
    have "i \<in> set (named_entries r p)" using that by simp
    then have "i < length (rs_entries r)" by (simp add: named_entries_def)
    with inv have "canonical_form (rs_entries r ! i)" by (simp add: resolver_inv_def list_all_length)
    from canonical_form_length [OF this] show ?thesis by (simp add: subslice_def FP_HEX_LEN_def)
  qed
  then show ?thesis
    by (auto simp: resolve_def resolve_loop_eq named_entries_def [symmetric] Let_def split: list.split)
qed

lemma resolve_Ok:
  assumes "resolver_inv r" "resolve r p = Ok c"
  shows "c \<in> set (rs_entries r) \<and> canonical_form c"
proof -
  from assms obtain i where i: "named_entries r p = [i]" "c = rs_entries r ! i"
    by (auto simp: resolve_eq split: list.splits if_splits)
  have "i \<in> set (named_entries r p)" by (simp add: i)
  then have "i < length (rs_entries r)" by (simp add: named_entries_def)
  with i assms(1) show ?thesis by (auto simp: resolver_inv_def list_all_length)
qed

lemma resolve_no_Panic: "resolver_inv r \<Longrightarrow> resolve r p \<noteq> Panic"
  by (auto simp: resolve_eq split: list.splits)

lemma length_serialize_entry:
  "length (serialize_entry r i) =
     2 + length (rs_entries r ! i) + 2 + sum_list (map (\<lambda>a. 2 + length a) (entry_aliases r i))"
  by (simp add: serialize_entry_def push_field16_def length_concat o_def)

lemma length_serialized:
  "length (concat (map (serialize_entry r) [0..<length (rs_entries r)])) = serialized_len r"
  by (simp add: length_concat serialized_len_def o_def length_serialize_entry)

section \<open>Properties\<close>

text \<open>
  The validator accepts a byte string exactly when it is a canonical id of the grammar:
  the prefix, 16 lowercase hex digits, a namespace of 1 to 32 characters and a path of at
  most 180 bytes made of slash-separated segments, none of them empty, one dot or two dots.
\<close>

theorem validate_canonical_exact: "validate_canonical rid \<longleftrightarrow> canonical_form rid"
  by (rule validate_canonical_iff)

text \<open>
  C21: On every resolver built by declarations and aliases, resolution looks at the entries the
  proposed bytes name: none is unknown, two or more are ambiguous, a single one is returned
  when it carries this executor's fingerprint and is foreign otherwise; it never panics.
\<close>

theorem resolve_exact:
  "resolve (fold resolver_step ops (resolver_new cr pk)) p =
    (let r = fold resolver_step ops (resolver_new cr pk) in
     case named_entries r p of
       [] \<Rightarrow> Err UnknownResource
     | [i] \<Rightarrow> if take 16 (drop 4 (rs_entries r ! i)) = rs_own_fp r then Ok (rs_entries r ! i)
              else Err ForeignExecutor
     | _ \<Rightarrow> Err AmbiguousResource)"
  unfolding Let_def by (rule resolve_eq [OF resolvers.inv_run])

lemma resolve_and_admit_locks:
  assumes inv: "resolver_inv r" "intent_inv t"
  shows "(let (res, t') = resolve_and_admit r iid p now t in (res, locks t')) =
    (case resolve r p of
      Ok c \<Rightarrow> (case spec_admit iid c (length c) (locks t) of (res, m) \<Rightarrow> (map_err IntentRefused res, m))
    | Err e \<Rightarrow> (Err e, locks t)
    | Panic \<Rightarrow> (Panic, locks t))"
proof (cases "resolve r p")
  case (Ok c)
  let ?buf = "c @ replicate (MAX_RESOURCE - length c) 0"
  have "length c \<le> MAX_RESOURCE"
    using resolve_Ok [OF inv(1) Ok] canonical_form_length [of c] by (simp add: resolver_sizes MAX_RESOURCE_def)
  moreover have "spec_admit iid ?buf (length c) m = spec_admit iid c (length c) m" for m
    by (simp add: spec_admit_def)
  moreover note admit_locks [OF inv(2), of iid ?buf "length c" now, symmetric]
  ultimately show ?thesis
    by (cases "admit iid ?buf (length c) now t") (auto simp: resolve_and_admit_def Ok)
qed (simp_all add: resolve_and_admit_def)

text \<open>
  Admission through the resolver locks the canonical form: on every reachable resolver and
  table, a proposal that resolves is admitted exactly as the lock map allows for the canonical
  bytes, whatever alias was proposed, and one that does not resolve leaves the map alone.
\<close>

theorem resolve_and_admit_locks_canonical:
  "(let r = fold resolver_step rops (resolver_new cr pk); t = fold intent_step tops table_new;
        (res, t') = resolve_and_admit r iid p now t in (res, locks t')) =
   (let r = fold resolver_step rops (resolver_new cr pk); t = fold intent_step tops table_new in
    case resolve r p of
      Ok c \<Rightarrow> (case spec_admit iid c (length c) (locks t) of (res, m) \<Rightarrow> (map_err IntentRefused res, m))
    | Err e \<Rightarrow> (Err e, locks t)
    | Panic \<Rightarrow> (Panic, locks t))"
  unfolding Let_def
  by (rule resolve_and_admit_locks [OF resolvers.inv_run intents.inv_run, unfolded Let_def])

end
