(* ===== verification/Verify.thy ===== *)
theory Verify
  imports Resolver EvidenceLedger
begin

text \<open>
  The authority decisions (src/src/transport/verify.rs): envelope and grant signatures, the
  ordered checks of a grant, scopes, refusals, channel control and membership, the role of a
  body type, the served-certificate check and the admission of an envelope into the evidence
  ledger. The hooks of the caller are functions over a state they may change; a callback that
  runs on success is passed as such a function. The lemmas give the exact result of each
  decision as the first failing check of its list.
\<close>

unbundle bit_operations_syntax

section \<open>Errors\<close>

datatype verify_error =
  BadVersion | BadEnvelopeBinding | BadSignature | MalformedKey | BadApproverCert | BadSubjectCert
  | ApproverRevoked | ApproverOutOfScope | SubjectRevoked | SubjectOutOfScope | WrongExecutor
  | WrongSubject | NoMatchingIntent | WrongResource | ActionDigestMismatch | GrantExpired
  | AlreadyConsumed | WrongBodyType | SeqWindowStale | Equivocation | UnknownParents | BadControlBody

section \<open>Signatures and digests\<close>

definition verify_signed_err ::
  "crypto \<Rightarrow> u8 \<Rightarrow> bytes \<Rightarrow> bytes \<Rightarrow> bytes \<Rightarrow> (unit, verify_error) outcome" where
  "verify_signed_err cr tag tbs sig pubkey =
     (if length pubkey \<noteq> LEN_PUBKEY then Err MalformedKey
      else if length sig \<noteq> LEN_SIG then Err BadSignature
      else if verify_signed cr tag tbs sig pubkey then Ok () else Err BadSignature)"

definition verify_envelope :: "crypto \<Rightarrow> envelope \<Rightarrow> (unit, verify_error) outcome" where
  "verify_envelope cr env = verify_signed_err cr DOMAIN_ENVELOPE (env_tbs env) (env_sig env) (env_sender env)"

definition action_digest :: "crypto \<Rightarrow> bytes \<Rightarrow> bytes" where
  "action_digest cr action = blake2s cr action"

section \<open>Expiry\<close>

definition check_expiry :: "u64 \<Rightarrow> u64 \<Rightarrow> u64 \<Rightarrow> u64 \<Rightarrow> u64 \<Rightarrow> (unit, verify_error) outcome" where
  "check_expiry not_after now_ms first_receipt_ms t_max_s t_recv_s =
     and_then (checked_mul t_max_s 1000) (\<lambda>t_max_ms.
     and_then (checked_mul t_recv_s 1000) (\<lambda>t_recv_ms.
     if now_ms \<ge> not_after then Err GrantExpired
     else and_then (checked_add first_receipt_ms t_max_ms) (\<lambda>lim.
     if not_after > lim then Err GrantExpired
     else and_then (checked_add first_receipt_ms t_recv_ms) (\<lambda>lim.
     if now_ms > lim then Err GrantExpired else Ok ()))))"

section \<open>The sender table\<close>

definition SENDER_MAX_ACTION :: nat where "SENDER_MAX_ACTION = 512"

record sender_entry =
  se_intent_id :: bytes
  se_sender :: bytes
  se_action :: bytes
  se_action_len :: nat

record sender_table =
  st_entries :: "sender_entry list"

definition sender_table_new :: sender_table where
  "sender_table_new = \<lparr>st_entries = []\<rparr>"

definition sender_lookup :: "sender_table \<Rightarrow> bytes \<Rightarrow> sender_entry option" where
  "sender_lookup st iid = find (\<lambda>e. se_intent_id e = iid) (st_entries st)"

section \<open>Scopes\<close>

definition cert_carries_scope :: "cert \<Rightarrow> bytes \<Rightarrow> bool" where
  "cert_carries_scope c scope =
     list_ex (\<lambda>i. let off = i * LEN_SCOPE_ID in
       off + LEN_SCOPE_ID \<le> length (ce_scope_ids c)
       \<and> take LEN_SCOPE_ID (drop off (ce_scope_ids c)) = scope) [0..<unat (ce_scope_count c)]"

text \<open>The position behind the last slash before end, 0 when there is none.\<close>

primrec back_to_slash :: "bytes \<Rightarrow> nat \<Rightarrow> nat" where
  "back_to_slash rid 0 = 0"
| "back_to_slash rid (Suc n) = (if rid ! n \<noteq> SLASH then back_to_slash rid n else Suc n)"

lemma back_to_slash_le: "back_to_slash rid n \<le> n"
  by (induction n) auto

function scope_walk :: "crypto \<Rightarrow> cert \<Rightarrow> bytes \<Rightarrow> nat \<Rightarrow> bool" where
  "scope_walk cr c rid end_pos =
     (if end_pos = 0 then False
      else if cert_carries_scope c (take LEN_SCOPE_ID (blake2s cr (take end_pos rid))) then True
      else
        let new_end = back_to_slash rid end_pos in
        if new_end = 0 then False else scope_walk cr c rid (new_end - 1))"
  by pat_completeness auto
termination
proof (relation "measure (\<lambda>(cr, c, rid, e). e)", goal_cases)
  case (2 cr c rid e x)
  then show ?case using back_to_slash_le [of rid e] by auto
qed simp

declare scope_walk.simps [simp del]

definition scope_covers_resource :: "crypto \<Rightarrow> cert \<Rightarrow> bytes \<Rightarrow> bool" where
  "scope_covers_resource cr c rid = scope_walk cr c rid (length rid)"

section \<open>The grant chain\<close>

datatype effect_outcome = Fired | EffectDeclined

record 's grant_context =
  gc_own_pubkey :: bytes
  gc_approver_cert :: cert
  gc_subject_cert :: cert
  gc_trusted_ca_keys :: "bytes list"
  gc_intent_table :: intent_table
  gc_sender_table :: sender_table
  gc_now_ms :: u64
  gc_first_receipt_ms :: u64
  gc_t_max_s :: u64
  gc_t_recv_s :: u64
  gc_already_consumed :: "bytes \<Rightarrow> u64 \<Rightarrow> u64 \<Rightarrow> 's \<Rightarrow> bool"
  gc_is_revoked :: "bytes \<Rightarrow> bool"

text \<open>Checks 0 to 11 in their order; the routine runs the effect once they have all passed.\<close>

definition grant_checks ::
  "crypto \<Rightarrow> envelope \<Rightarrow> grant \<Rightarrow> 's grant_context \<Rightarrow> 's \<Rightarrow> (unit, verify_error) outcome" where
  "grant_checks cr env g ctx s =
     (if gr_version g \<noteq> 2 then Err BadVersion
      else if length (gr_intent_id g) \<noteq> LEN_INTENT_ID then Err BadEnvelopeBinding
      else
        and_then (ok_or NoMatchingIntent (match_for_grant (gr_intent_id g) (gc_intent_table ctx))) (\<lambda>intent_idx.
        and_then (index_at (entries (gc_intent_table ctx)) intent_idx) (\<lambda>intent_entry.
        and_then (ok_or NoMatchingIntent (sender_lookup (gc_sender_table ctx) (gr_intent_id g))) (\<lambda>sender_entry.
        if env_body_type env \<noteq> BODY_GRANT then Err BadEnvelopeBinding
        else if env_sender env \<noteq> gr_approver g then Err BadEnvelopeBinding
        else
        and_then (verify_signed_err cr DOMAIN_GRANT (gr_tbs g) (gr_sig g) (gr_approver g)) (\<lambda>_.
        if ce_role_bits (gc_approver_cert ctx) AND ROLE_APPROVER = 0 then Err BadApproverCert
        else if ce_sig_pubkey (gc_approver_cert ctx) \<noteq> gr_approver g then Err BadApproverCert
        else if gc_is_revoked ctx (ce_sig_pubkey (gc_approver_cert ctx)) then Err ApproverRevoked
        else if ce_version (gc_approver_cert ctx) \<ge> 3
             \<and> \<not> scope_covers_resource cr (gc_approver_cert ctx) (gr_resource_id g) then Err ApproverOutOfScope
        else if ce_role_bits (gc_subject_cert ctx) AND ROLE_AGENT = 0 then Err BadSubjectCert
        else if ce_sig_pubkey (gc_subject_cert ctx) \<noteq> gr_subject g then Err BadSubjectCert
        else if gc_is_revoked ctx (ce_sig_pubkey (gc_subject_cert ctx)) then Err SubjectRevoked
        else if ce_version (gc_subject_cert ctx) \<ge> 3
             \<and> \<not> scope_covers_resource cr (gc_subject_cert ctx) (gr_resource_id g) then Err SubjectOutOfScope
        else if gr_executor g \<noteq> gc_own_pubkey ctx then Err WrongExecutor
        else if gr_subject g \<noteq> se_sender sender_entry then Err WrongSubject
        else if gr_intent_id g \<noteq> e_intent_id intent_entry then Err NoMatchingIntent
        else
        and_then (subslice (e_resource_id intent_entry) 0 (e_resource_len intent_entry)) (\<lambda>res.
        if gr_resource_id g \<noteq> res then Err WrongResource
        else
        and_then (subslice (se_action sender_entry) 0 (se_action_len sender_entry)) (\<lambda>action.
        if gr_action_digest g \<noteq> action_digest cr action then Err ActionDigestMismatch
        else
        and_then (check_expiry (gr_not_after g) (gc_now_ms ctx) (gc_first_receipt_ms ctx)
          (gc_t_max_s ctx) (gc_t_recv_s ctx)) (\<lambda>_.
        if gc_already_consumed ctx (gr_grant_id g) (gr_not_after g) (gc_now_ms ctx) s
        then Err AlreadyConsumed else Ok ()))))))))"

definition verify_grant_then ::
  "crypto \<Rightarrow> envelope \<Rightarrow> grant \<Rightarrow> 's grant_context \<Rightarrow> (grant \<Rightarrow> 's \<Rightarrow> effect_outcome \<times> 's) \<Rightarrow> 's \<Rightarrow>
   (effect_outcome, verify_error) outcome \<times> 's" where
  "verify_grant_then cr env g ctx execute s =
     (case grant_checks cr env g ctx s of
        Ok _ \<Rightarrow> (case execute g s of (oc, s') \<Rightarrow> (Ok oc, s'))
      | Err e \<Rightarrow> (Err e, s)
      | Panic \<Rightarrow> (Panic, s))"

section \<open>Refusals\<close>

record refusal_context =
  rc_trusted_ca_keys :: "bytes list"
  rc_approver_cert :: cert
  rc_now_ms :: u64
  rc_intent_table :: intent_table

definition verify_refusal_then ::
  "crypto \<Rightarrow> envelope \<Rightarrow> refusal \<Rightarrow> (bytes \<Rightarrow> 's \<Rightarrow> 's) \<Rightarrow> refusal_context \<times> 's \<Rightarrow>
   (unit, verify_error) outcome \<times> refusal_context \<times> 's" where
  "verify_refusal_then cr env r on_rejected cs =
     (case cs of (ctx, s) \<Rightarrow>
       if env_body_type env \<noteq> BODY_REFUSAL then (Err BadEnvelopeBinding, ctx, s)
       else case verify_signed_err cr DOMAIN_REFUSAL (ref_tbs r) (ref_sig r) (env_sender env) of
         Err e \<Rightarrow> (Err e, ctx, s)
       | Panic \<Rightarrow> (Panic, ctx, s)
       | Ok _ \<Rightarrow>
           if ce_role_bits (rc_approver_cert ctx) AND ROLE_APPROVER = 0 then (Err BadApproverCert, ctx, s)
           else if ce_sig_pubkey (rc_approver_cert ctx) \<noteq> env_sender env then (Err BadApproverCert, ctx, s)
           else if length (ref_intent_id r) \<noteq> LEN_INTENT_ID then (Err BadEnvelopeBinding, ctx, s)
           else
             let (oc, t) = apply_refusal (ref_intent_id r) (rc_intent_table ctx);
                 ctx' = ctx\<lparr>rc_intent_table := t\<rparr>
             in (Ok (), ctx', if oc = RefRejected then on_rejected (ref_intent_id r) s else s))"

section \<open>Channel control\<close>

datatype channel_error =
  BadMatchRule | BadChannelId | DuplicateGenesis | GenesisNotAdmin | BadActionType | RevokeNotAdmin
  | MemberRevoked | NotMember

record channel_context =
  cc_genesis_exists :: "bytes \<Rightarrow> bool"
  cc_is_revoked :: "bytes \<Rightarrow> bool"

definition cert_carries_scope_raw :: "cert \<Rightarrow> bytes \<Rightarrow> bool" where
  "cert_carries_scope_raw c scope =
     list_ex (\<lambda>i. let off = i * LEN_SCOPE_ID in
       off + LEN_SCOPE_ID \<le> length (ce_scope_ids c)
       \<and> take LEN_SCOPE_ID (drop off (ce_scope_ids c)) = scope) [0..<unat (ce_scope_count c)]"

text \<open>The source has the search twice.\<close>

lemma cert_carries_scope_raw [simp]: "cert_carries_scope_raw = cert_carries_scope"
  by (intro ext) (simp only: cert_carries_scope_raw_def cert_carries_scope_def)

definition verify_control_genesis ::
  "crypto \<Rightarrow> bytes \<Rightarrow> bytes \<Rightarrow> cert \<Rightarrow> bytes \<Rightarrow> bytes \<Rightarrow> channel_context \<Rightarrow> (unit, channel_error) outcome" where
  "verify_control_genesis cr genesis_name genesis_ca_key_0 admin_cert admin_group channel_id ctx =
     (if \<not> cert_carries_scope_raw admin_cert admin_group then Err GenesisNotAdmin
      else if channel_id \<noteq> blake2s cr (genesis_name @ genesis_ca_key_0) then Err BadChannelId
      else if cc_genesis_exists ctx channel_id then Err DuplicateGenesis else Ok ())"

definition verify_control :: "u8 \<Rightarrow> cert \<Rightarrow> bytes \<Rightarrow> (unit, channel_error) outcome" where
  "verify_control action_type sender_cert admin_group =
     (if action_type \<noteq> 1 \<and> action_type \<noteq> 2 then Err BadActionType
      else if action_type = 2 \<and> \<not> cert_carries_scope_raw sender_cert admin_group then Err RevokeNotAdmin
      else Ok ())"

definition require_member :: "cert \<Rightarrow> bytes \<Rightarrow> channel_context \<Rightarrow> (unit, channel_error) outcome" where
  "require_member sender_cert member_group ctx =
     (if cc_is_revoked ctx (ce_sig_pubkey sender_cert) then Err MemberRevoked
      else if \<not> cert_carries_scope_raw sender_cert member_group then Err NotMember else Ok ())"

section \<open>Roles of body types\<close>

definition body_type_allowed :: "u8 \<Rightarrow> u8 \<Rightarrow> bool" where
  "body_type_allowed body_type role_bits =
     (let is_agent = role_bits AND ROLE_AGENT \<noteq> 0;
          is_approver = role_bits AND ROLE_APPROVER \<noteq> 0;
          is_executor = role_bits AND ROLE_EXECUTOR \<noteq> 0
      in if body_type = BODY_INTENT then is_agent
         else if body_type = BODY_GRANT \<or> body_type = BODY_REFUSAL then is_approver
         else if body_type = BODY_EFFECT then is_executor
         else body_type = BODY_CONTROL)"

definition revoke_prune_expiry :: "bytes \<Rightarrow> u64" where
  "revoke_prune_expiry body = (if length body \<ge> 8 then from_be_bytes (take 8 body) else - 1)"

section \<open>Served certificates\<close>

datatype mesh_error = MeshUntrusted | MeshExpired | MeshBadSignature | MeshMalformedCert

record mesh_context =
  mc_trusted_anchors :: "bytes list"
  mc_now_ms :: u64
  mc_is_revoked :: "bytes \<Rightarrow> bool"

definition verify_served_cert_then ::
  "crypto \<Rightarrow> bytes \<Rightarrow> mesh_context \<Rightarrow> (bytes \<Rightarrow> 'r) \<Rightarrow> ('r, mesh_error) outcome" where
  "verify_served_cert_then cr cert_bytes ctx k =
     (if length cert_bytes < 32 + 8 + 64 then Err MeshMalformedCert
      else
        let sig_pubkey = take 32 cert_bytes;
            expiry_ms = from_be_bytes (take 8 (drop 32 cert_bytes)) :: u64;
            sig = take 64 (drop 40 cert_bytes)
        in if mc_now_ms ctx > expiry_ms then Err MeshExpired
           else
             let tbs = sig_pubkey @ to_be_bytes expiry_ms in
             if \<not> list_ex (\<lambda>anchor. verify_signed cr DOMAIN_CERT tbs sig anchor) (mc_trusted_anchors ctx)
             then Err MeshUntrusted
             else if mc_is_revoked ctx sig_pubkey then Err MeshUntrusted
             else Ok (k sig_pubkey))"

section \<open>Envelope admission\<close>

definition verify_envelope_admission ::
  "bytes \<Rightarrow> bytes \<Rightarrow> bytes \<Rightarrow> u64 \<Rightarrow> bytes list \<Rightarrow> evidence_ledger \<Rightarrow>
   (unit, verify_error) outcome \<times> evidence_ledger" where
  "verify_envelope_admission hash sender channel seq parents l =
     (if \<not> all_parents_present parents l then (Err UnknownParents, l)
      else case check_seq sender channel seq l of
        (Err e, l') \<Rightarrow> (Err SeqWindowStale, l')
      | (Panic, l') \<Rightarrow> (Panic, l')
      | (Ok _, l') \<Rightarrow>
          (case insert_envelope \<lparr>ee_hash = hash, ee_sender = sender, ee_channel = channel, ee_seq = seq\<rparr> l' of
             (Err e, l'') \<Rightarrow> (Err Equivocation, l'')
           | (Panic, l'') \<Rightarrow> (Panic, l'')
           | (Ok _, l'') \<Rightarrow> (Ok (), l'')))"

section \<open>The scope walk tries every segment prefix\<close>

lemma back_to_slash_zero: "back_to_slash rid n = 0 \<longleftrightarrow> (\<forall>k<n. rid ! k \<noteq> SLASH)"
  by (induction n) (auto simp: less_Suc_eq)

lemma back_to_slash_Suc:
  "back_to_slash rid n = Suc m \<Longrightarrow> m < n \<and> rid ! m = SLASH \<and> (\<forall>k. m < k \<and> k < n \<longrightarrow> rid ! k \<noteq> SLASH)"
  by (induction n) (auto simp: less_Suc_eq split: if_splits)

definition scope_hit :: "crypto \<Rightarrow> cert \<Rightarrow> bytes \<Rightarrow> nat \<Rightarrow> bool" where
  "scope_hit cr c rid n \<longleftrightarrow> cert_carries_scope c (take LEN_SCOPE_ID (blake2s cr (take n rid)))"

lemma scope_walk_iff:
  "scope_walk cr c rid e \<longleftrightarrow>
     (\<exists>n. 0 < n \<and> n \<le> e \<and> (n = e \<or> rid ! n = SLASH) \<and> scope_hit cr c rid n)"
proof (induction e rule: less_induct)
  case (less e)
  show ?case
  proof (cases "e = 0")
    case True
    then show ?thesis by (simp add: scope_walk.simps)
  next
    case False
    have unfold: "scope_walk cr c rid e \<longleftrightarrow> scope_hit cr c rid e
        \<or> back_to_slash rid e \<noteq> 0 \<and> scope_walk cr c rid (back_to_slash rid e - 1)"
      using False by (subst scope_walk.simps) (auto simp: scope_hit_def Let_def)
    show ?thesis
    proof (cases "back_to_slash rid e")
      case 0
      then have "\<forall>k<e. rid ! k \<noteq> SLASH" by (simp add: back_to_slash_zero)
      with False 0 unfold show ?thesis by (auto simp: le_less)
    next
      case (Suc m)
      from back_to_slash_Suc [OF Suc] have m: "m < e" "rid ! m = SLASH"
        "\<forall>k. m < k \<and> k < e \<longrightarrow> rid ! k \<noteq> SLASH" by auto
      have "0 < n \<and> n \<le> e \<and> (n = e \<or> rid ! n = SLASH) \<longleftrightarrow>
          n = e \<or> 0 < n \<and> n \<le> m \<and> (n = m \<or> rid ! n = SLASH)" for n
        using m False by (metis gr0I le_less le_neq_implies_less less_le_not_le nat_le_linear order_trans)
      then have eq: "(0 < n \<and> n \<le> e \<and> (n = e \<or> rid ! n = SLASH) \<and> scope_hit cr c rid n) \<longleftrightarrow>
          (n = e \<or> 0 < n \<and> n \<le> m \<and> (n = m \<or> rid ! n = SLASH)) \<and> scope_hit cr c rid n" for n
        by (metis (no_types, lifting))
      have "(\<exists>n. 0 < n \<and> n \<le> e \<and> (n = e \<or> rid ! n = SLASH) \<and> scope_hit cr c rid n) \<longleftrightarrow>
          scope_hit cr c rid e \<or> (\<exists>n. 0 < n \<and> n \<le> m \<and> (n = m \<or> rid ! n = SLASH) \<and> scope_hit cr c rid n)"
        unfolding eq by blast
      with unfold less.IH [OF m(1)] Suc show ?thesis by simp
    qed
  qed
qed

section \<open>What a grant must satisfy\<close>

definition expiry_ok :: "u64 \<Rightarrow> u64 \<Rightarrow> u64 \<Rightarrow> u64 \<Rightarrow> u64 \<Rightarrow> bool" where
  "expiry_ok not_after now first t_max_s t_recv_s \<longleftrightarrow>
     unat now < unat not_after
     \<and> unat not_after \<le> unat first + 1000 * unat t_max_s
     \<and> unat now \<le> unat first + 1000 * unat t_recv_s
     \<and> unat first + 1000 * unat t_max_s < 2 ^ 64 \<and> unat first + 1000 * unat t_recv_s < 2 ^ 64"

lemma check_expiry_Ok:
  "check_expiry not_after now first t_max_s t_recv_s = Ok () \<longleftrightarrow>
     expiry_ok not_after now first t_max_s t_recv_s"
proof -
  have mul: "checked_mul t 1000 = Ok m \<longleftrightarrow> 1000 * unat t < 2 ^ 64 \<and> m = t * 1000"
    for t m :: u64
    by (auto simp: checked_mul_def mult.commute)
  have val: "unat (t * 1000) = 1000 * unat t" if "1000 * unat t < 2 ^ 64" for t :: u64
    using unat_checked_mul [of t 1000 "t * 1000"] that by (simp add: checked_mul_def mult.commute)
  have add: "unat (first + m) = unat first + unat m" if "unat first + unat m < 2 ^ 64" for m
    using that by (simp add: unat_word_ariths)
  have sum: "unat (first + t * 1000) = unat first + 1000 * unat t"
    if "unat first + 1000 * unat t < 2 ^ 64" for t
    using that by (simp add: add val)
  have lim: "(\<exists>m. checked_mul t 1000 = (Ok m :: (u64, verify_error) outcome) \<and> (\<exists>l. checked_add first m = (Ok l :: (u64, verify_error) outcome) \<and> Q l)) \<longleftrightarrow>
      unat first + 1000 * unat t < 2 ^ 64 \<and> Q (first + t * 1000)" for t and Q :: "u64 \<Rightarrow> bool"
    by (cases "1000 * unat t < 2 ^ 64") (simp_all add: mul checked_add_Ok val)
  have "check_expiry not_after now first t_max_s t_recv_s = Ok () \<longleftrightarrow>
      \<not> now \<ge> not_after
      \<and> (\<exists>m. checked_mul t_max_s 1000 = (Ok m :: (u64, verify_error) outcome) \<and> (\<exists>l. checked_add first m = (Ok l :: (u64, verify_error) outcome) \<and> \<not> not_after > l))
      \<and> (\<exists>m. checked_mul t_recv_s 1000 = (Ok m :: (u64, verify_error) outcome) \<and> (\<exists>l. checked_add first m = (Ok l :: (u64, verify_error) outcome) \<and> \<not> now > l))"
    by (auto simp: check_expiry_def guard_Ok)
  then show ?thesis
    unfolding lim by (auto simp: expiry_ok_def sum word_less_nat_alt word_le_nat_alt not_le not_less)
qed

definition holds_role :: "crypto \<Rightarrow> 's grant_context \<Rightarrow> grant \<Rightarrow> cert \<Rightarrow> u8 \<Rightarrow> bytes \<Rightarrow> bool" where
  "holds_role cr ctx g c role key \<longleftrightarrow>
     ce_role_bits c AND role \<noteq> 0 \<and> ce_sig_pubkey c = key \<and> \<not> gc_is_revoked ctx key
     \<and> (ce_version c < 3 \<or> scope_covers_resource cr c (gr_resource_id g))"

definition grant_authorised :: "crypto \<Rightarrow> envelope \<Rightarrow> grant \<Rightarrow> 's grant_context \<Rightarrow> 's \<Rightarrow> bool" where
  "grant_authorised cr env g ctx s \<longleftrightarrow>
     gr_version g = 2 \<and> length (gr_intent_id g) = LEN_INTENT_ID
     \<and> env_body_type env = BODY_GRANT \<and> env_sender env = gr_approver g
     \<and> verify_signed_err cr DOMAIN_GRANT (gr_tbs g) (gr_sig g) (gr_approver g) = Ok ()
     \<and> holds_role cr ctx g (gc_approver_cert ctx) ROLE_APPROVER (gr_approver g)
     \<and> holds_role cr ctx g (gc_subject_cert ctx) ROLE_AGENT (gr_subject g)
     \<and> gr_executor g = gc_own_pubkey ctx
     \<and> (\<exists>i se. match_for_grant (gr_intent_id g) (gc_intent_table ctx) = Some i
          \<and> sender_lookup (gc_sender_table ctx) (gr_intent_id g) = Some se
          \<and> gr_subject g = se_sender se
          \<and> e_resource_len (entries (gc_intent_table ctx) ! i)
              \<le> length (e_resource_id (entries (gc_intent_table ctx) ! i))
          \<and> gr_resource_id g = entry_resource (entries (gc_intent_table ctx) ! i)
          \<and> se_action_len se \<le> length (se_action se)
          \<and> gr_action_digest g = blake2s cr (take (se_action_len se) (se_action se)))
     \<and> expiry_ok (gr_not_after g) (gc_now_ms ctx) (gc_first_receipt_ms ctx) (gc_t_max_s ctx) (gc_t_recv_s ctx)
     \<and> \<not> gc_already_consumed ctx (gr_grant_id g) (gr_not_after g) (gc_now_ms ctx) s"

lemma match_for_grant_entry:
  "match_for_grant iid t = Some i \<Longrightarrow> i < length (entries t) \<and> e_intent_id (entries t ! i) = iid"
  unfolding match_for_grant_def using position_SomeD [of "pending_id iid" "entries t" i]
  by (simp add: pending_id_def)

lemma subslice_prefix_Ok: "subslice xs 0 n = Ok ys \<longleftrightarrow> n \<le> length xs \<and> ys = take n xs"
  by (auto simp: subslice_def)

lemma index_at_Ok: "index_at xs i = Ok x \<longleftrightarrow> i < length xs \<and> x = xs ! i"
  by (auto simp: index_at_def)

lemma grant_checks_Ok: "grant_checks cr env g ctx s = Ok () \<longleftrightarrow> grant_authorised cr env g ctx s"
proof -
  have "grant_checks cr env g ctx s = Ok () \<longleftrightarrow>
     gr_version g = 2 \<and> length (gr_intent_id g) = LEN_INTENT_ID
     \<and> (\<exists>i. match_for_grant (gr_intent_id g) (gc_intent_table ctx) = Some i
        \<and> i < length (entries (gc_intent_table ctx))
        \<and> (\<exists>se. sender_lookup (gc_sender_table ctx) (gr_intent_id g) = Some se
          \<and> env_body_type env = BODY_GRANT \<and> env_sender env = gr_approver g
          \<and> verify_signed_err cr DOMAIN_GRANT (gr_tbs g) (gr_sig g) (gr_approver g) = Ok ()
          \<and> holds_role cr ctx g (gc_approver_cert ctx) ROLE_APPROVER (gr_approver g)
          \<and> holds_role cr ctx g (gc_subject_cert ctx) ROLE_AGENT (gr_subject g)
          \<and> gr_executor g = gc_own_pubkey ctx \<and> gr_subject g = se_sender se
          \<and> gr_intent_id g = e_intent_id (entries (gc_intent_table ctx) ! i)
          \<and> e_resource_len (entries (gc_intent_table ctx) ! i)
              \<le> length (e_resource_id (entries (gc_intent_table ctx) ! i))
          \<and> gr_resource_id g = entry_resource (entries (gc_intent_table ctx) ! i)
          \<and> se_action_len se \<le> length (se_action se)
          \<and> gr_action_digest g = blake2s cr (take (se_action_len se) (se_action se))
          \<and> expiry_ok (gr_not_after g) (gc_now_ms ctx) (gc_first_receipt_ms ctx) (gc_t_max_s ctx) (gc_t_recv_s ctx)
          \<and> \<not> gc_already_consumed ctx (gr_grant_id g) (gr_not_after g) (gc_now_ms ctx) s))"
    unfolding grant_checks_def holds_role_def
    by (simp only: guard_Ok and_then_eq_Ok ok_or_simps subslice_prefix_Ok index_at_Ok check_expiry_Ok
        action_digest_def entry_resource_def not_not ex_simps simp_thms de_Morgan_conj not_le
        ex_simps split: if_splits) (auto simp: not_le check_expiry_Ok)
  then show ?thesis
    unfolding grant_authorised_def using match_for_grant_entry [of "gr_intent_id g" "gc_intent_table ctx"]
    by (metis (no_types, lifting))
qed

lemma verify_grant_then_eq:
  "verify_grant_then cr env g ctx ex s =
     (if grant_authorised cr env g ctx s then (Ok (fst (ex g s)), snd (ex g s))
      else (case grant_checks cr env g ctx s of Err e \<Rightarrow> Err e | _ \<Rightarrow> Panic, s))"
  using grant_checks_Ok [of cr env g ctx s]
  by (auto simp: verify_grant_then_def split: outcome.splits prod.splits)

section \<open>What a refusal must satisfy\<close>

definition refusal_authorised :: "crypto \<Rightarrow> envelope \<Rightarrow> refusal \<Rightarrow> cert \<Rightarrow> bool" where
  "refusal_authorised cr env r c \<longleftrightarrow>
     env_body_type env = BODY_REFUSAL
     \<and> verify_signed_err cr DOMAIN_REFUSAL (ref_tbs r) (ref_sig r) (env_sender env) = Ok ()
     \<and> ce_role_bits c AND ROLE_APPROVER \<noteq> 0 \<and> ce_sig_pubkey c = env_sender env
     \<and> length (ref_intent_id r) = LEN_INTENT_ID"

lemma verify_signed_err_no_Panic [simp]: "verify_signed_err cr tag tbs sg pk \<noteq> Panic"
  by (simp add: verify_signed_err_def)

lemma verify_refusal_then_eq:
  "verify_refusal_then cr env r on_rejected (ctx, s) =
     (if refusal_authorised cr env r (rc_approver_cert ctx) then
        (Ok (), ctx\<lparr>rc_intent_table := snd (apply_refusal (ref_intent_id r) (rc_intent_table ctx))\<rparr>,
         if fst (apply_refusal (ref_intent_id r) (rc_intent_table ctx)) = RefRejected
         then on_rejected (ref_intent_id r) s else s)
      else (fst (verify_refusal_then cr env r on_rejected (ctx, s)), ctx, s))"
  unfolding verify_refusal_then_def refusal_authorised_def
  by (auto simp: Let_def split: outcome.splits prod.splits)

lemma verify_refusal_then_Ok:
  "is_ok (fst (verify_refusal_then cr env r on_rejected (ctx, s))) \<longleftrightarrow>
     refusal_authorised cr env r (rc_approver_cert ctx)"
  unfolding verify_refusal_then_def refusal_authorised_def
  by (auto simp: Let_def split: outcome.splits prod.splits)

section \<open>Admission against its history\<close>

text \<open>
  A run of admissions: the ledger and, beside it, the history of accepted sequence numbers
  of the specification. Whatever is stored has its number in the history, so a stored
  identity always fails the sequence check.
\<close>

type_synonym admission = "bytes \<times> bytes \<times> bytes \<times> u64 \<times> bytes list"

fun admission_step :: "admission \<Rightarrow> evidence_ledger \<times> seq_history \<Rightarrow> evidence_ledger \<times> seq_history" where
  "admission_step (hash, sender, channel, seq, parents) (l, H) =
     (snd (verify_envelope_admission hash sender channel seq parents l),
      if all_parents_present parents l then spec_history (sender, channel) seq H else H)"

definition admission_inv :: "evidence_ledger \<times> seq_history \<Rightarrow> bool" where
  "admission_inv lH = (case lH of (l, H) \<Rightarrow>
     seq_tracks l H \<and> (\<forall>e\<in>set (el_envelopes l). ee_seq e \<in> H (ee_sender e, ee_channel e)))"

lemma seq_tracks_cong: "el_seq_windows l' = el_seq_windows l \<Longrightarrow> seq_tracks l' H = seq_tracks l H"
  by (simp add: seq_tracks_def)

lemma spec_history_mono: "H k \<subseteq> spec_history k' q H k"
  by (auto simp: spec_history_def)

lemma check_seq_envelopes: "el_envelopes (snd (check_seq s c q l)) = el_envelopes l"
  by (simp add: check_seq_def Let_def split: option.split prod.split)

lemma fresh_not_old: "finite H \<Longrightarrow> fresh_counter w q H \<Longrightarrow> q \<notin> H"
  using Max_ge [of H q] by (auto simp: fresh_counter_def leD)

lemma spec_check_seq_old:
  assumes "finite (H k)" "q \<in> H k"
  shows "spec_check_seq k q H = Err WindowStale"
  using assms fresh_not_old [of "H k" 1024 q] by (auto simp: spec_check_seq_def)

lemma stored_in_history:
  assumes "admission_inv (l, H)" "envelope_of l (s, c, q) \<noteq> None"
  shows "q \<in> H (s, c)"
proof -
  from assms(2) obtain e where "e \<in> set (el_envelopes l)" "ee_sender e = s" "ee_channel e = c" "ee_seq e = q"
    by (auto simp: envelope_of_def find_envelope_def find_Some_iff in_set_conv_nth)
  with assms(1) show ?thesis by (auto simp: admission_inv_def)
qed

lemma admission_eq:
  assumes inv: "admission_inv (l, H)"
  shows "fst (verify_envelope_admission hash s c q ps l) =
      (if \<not> all_parents_present ps l then Err UnknownParents
       else if spec_check_seq (s, c) q H \<noteq> Ok () then Err SeqWindowStale
       else if envelope_count l \<ge> MAX_ENVELOPES then Err Equivocation else Ok ())
    \<and> admission_inv (admission_step (hash, s, c, q, ps) (l, H))"
proof -
  have t: "seq_tracks l H" using inv by (simp add: admission_inv_def)
  obtain r l' where cs: "check_seq s c q l = (r, l')" by (cases "check_seq s c q l")
  from check_seq_tracks [OF t, of s c q] cs have r: "r = spec_check_seq (s, c) q H"
    and t': "seq_tracks l' (spec_history (s, c) q H)" by simp_all
  have env': "el_envelopes l' = el_envelopes l" using check_seq_envelopes [of s c q l] cs by simp
  have mono: "\<forall>e\<in>set (el_envelopes l). ee_seq e \<in> spec_history (s, c) q H (ee_sender e, ee_channel e)"
    using inv spec_history_mono by (fastforce simp: admission_inv_def)
  show ?thesis
  proof (cases "all_parents_present ps l \<and> r = Ok ()")
    case False
    have "r \<noteq> Panic" by (simp add: r spec_check_seq_def)
    with False show ?thesis
      using inv t' mono by (cases "spec_check_seq (s, c) q H")
        (auto simp: verify_envelope_admission_def cs r admission_inv_def env')
  next
    case True
    have fin: "finite (H (s, c))" using t by (simp add: seq_tracks_def)
    have "q \<notin> H (s, c)"
    proof
      assume "q \<in> H (s, c)"
      from spec_check_seq_old [of H "(s, c)" q, OF fin this] True r show False by simp
    qed
    then have "envelope_of l (s, c, q) = None" using stored_in_history [OF inv] by blast
    then have new: "envelope_of l' (s, c, q) = None" by (simp add: envelope_of_def find_envelope_def env')
    let ?e = "\<lparr>ee_hash = hash, ee_sender = s, ee_channel = c, ee_seq = q\<rparr>"
    have ins: "insert_envelope ?e l' = (if length (el_envelopes l) \<ge> MAX_ENVELOPES
        then (Err StoreFull, l'\<lparr>el_inserts_total := el_inserts_total l' + 1,
                                el_storefull_total := el_storefull_total l' + 1\<rparr>)
        else (Ok (), l'\<lparr>el_envelopes := el_envelopes l @ [?e], el_inserts_total := el_inserts_total l' + 1\<rparr>))"
      using new env' by (simp add: insert_envelope_def envelope_of_def find_envelope_def)
    have "q \<in> spec_history (s, c) q H (s, c)" using True r by (simp add: spec_history_def)
    with True t' mono r show ?thesis
      by (auto simp: verify_envelope_admission_def cs ins admission_inv_def env' envelope_count_def
          seq_tracks_cong [of "l'\<lparr>el_envelopes := x, el_inserts_total := y\<rparr>" l' for x y]
          seq_tracks_cong [of "l'\<lparr>el_inserts_total := x, el_storefull_total := y\<rparr>" l' for x y])
  qed
qed

interpretation admissions:
  guarded_machine "(evidence_ledger_new, \<lambda>_. {})" admission_step admission_inv
proof unfold_locales
  show "admission_inv (evidence_ledger_new, \<lambda>_. {})"
    by (simp add: admission_inv_def seq_tracks_new) (simp add: evidence_ledger_new_def)
  show "admission_inv (admission_step op lH)" if "admission_inv lH" for op lH
    using that by (cases op; cases lH) (simp only: admission_eq)
qed

section \<open>What admission promises\<close>

text \<open>
  The specification knows the accepted numbers of each sender and channel and the hash stored for each
  sender, channel and number. An envelope needs every parent hash stored, a number that is fresh for
  its sender and channel - none accepted yet and fewer than 256 pairs of sender and channel seen, or
  above all accepted ones, or not accepted and within 1024 of the largest - and room
  among 4096 envelopes, in this order. Its number counts as accepted once it is fresh.
\<close>

type_synonym spec_envelopes = "bytes \<times> bytes \<times> u64 \<rightharpoonup> bytes"

definition spec_fresh :: "bytes \<times> bytes \<Rightarrow> u64 \<Rightarrow> seq_history \<Rightarrow> bool" where
  "spec_fresh k q H \<longleftrightarrow>
     (if H k = {} then card {k'. H k' \<noteq> {}} < 256
      else q > Max (H k) \<or> (unat (Max (H k)) - unat q < 1024 \<and> q \<notin> H k))"

fun spec_admit_envelope :: "admission \<Rightarrow> seq_history \<times> spec_envelopes \<Rightarrow> (unit, verify_error) outcome \<times> seq_history \<times> spec_envelopes" where
  "spec_admit_envelope (hash, s, c, q, ps) (H, A) =
     (if \<not> set ps \<subseteq> ran A then (Err UnknownParents, H, A)
      else if \<not> spec_fresh (s, c) q H then (Err SeqWindowStale, H, A)
      else if card (dom A) \<ge> 4096 then (Err Equivocation, H((s, c) := insert q (H (s, c))), A)
      else (Ok (), H((s, c) := insert q (H (s, c))), A((s, c, q) \<mapsto> hash)))"

fun admit_envelope :: "admission \<Rightarrow> evidence_ledger \<Rightarrow> (unit, verify_error) outcome \<times> evidence_ledger" where
  "admit_envelope (hash, s, c, q, ps) l = verify_envelope_admission hash s c q ps l"

definition admission_rel :: "evidence_ledger \<Rightarrow> seq_history \<times> spec_envelopes \<Rightarrow> bool" where
  "admission_rel l HA \<longleftrightarrow> admission_inv (l, fst HA) \<and> distinct (map ee_key (el_envelopes l)) \<and> snd HA = envelope_of l"

lemma spec_fresh_check: "spec_fresh k q H \<longleftrightarrow> spec_check_seq k q H = Ok ()"
  by (auto simp: spec_fresh_def spec_check_seq_def fresh_counter_def MAX_SEQ_WINDOWS_def)

lemma envelope_of_map: "envelope_of l = map_of (map (\<lambda>e. (ee_key e, ee_hash e)) (el_envelopes l))"
proof
  fix k :: "bytes \<times> bytes \<times> u64"
  obtain s c q where k: "k = (s, c, q)" by (cases k)
  have "map_option ee_hash (find (\<lambda>e. ee_sender e = s \<and> ee_channel e = c \<and> ee_seq e = q) es)
      = map_of (map (\<lambda>e. (ee_key e, ee_hash e)) es) (s, c, q)" for es
    by (induction es) (auto simp: ee_key_def)
  then show "envelope_of l k = map_of (map (\<lambda>e. (ee_key e, ee_hash e)) (el_envelopes l)) k"
    by (simp add: envelope_of_def find_envelope_def k)
qed

lemma stored_counts:
  assumes "distinct (map ee_key (el_envelopes l))"
  shows "ran (envelope_of l) = ee_hash ` set (el_envelopes l)" "card (dom (envelope_of l)) = length (el_envelopes l)"
proof -
  let ?m = "map (\<lambda>e. (ee_key e, ee_hash e)) (el_envelopes l)"
  have keys: "map fst ?m = map ee_key (el_envelopes l)" by (simp add: comp_def)
  have "distinct (map fst ?m)" unfolding keys by (rule assms)
  from ran_distinct [OF this] show "ran (envelope_of l) = ee_hash ` set (el_envelopes l)"
    unfolding envelope_of_map by (simp add: image_image)
  have "dom (map_of ?m) = set (map ee_key (el_envelopes l))" unfolding dom_map_of_conv_image_fst by (simp add: image_image)
  then show "card (dom (envelope_of l)) = length (el_envelopes l)"
    unfolding envelope_of_map using distinct_card [OF assms] by simp
qed

lemma admission_stores:
  assumes "admission_inv (l, H)"
  shows "el_envelopes (snd (verify_envelope_admission hash s c q ps l)) = el_envelopes l @
      (if fst (verify_envelope_admission hash s c q ps l) = Ok ()
       then [\<lparr>ee_hash = hash, ee_sender = s, ee_channel = c, ee_seq = q\<rparr>] else [])"
    and "fst (verify_envelope_admission hash s c q ps l) = Ok () \<Longrightarrow> envelope_of l (s, c, q) = None"
proof -
  have fin: "finite (H (s, c))" using assms by (simp add: admission_inv_def seq_tracks_def)
  show new: "envelope_of l (s, c, q) = None" if "fst (verify_envelope_admission hash s c q ps l) = Ok ()"
  proof -
    have "spec_check_seq (s, c) q H = Ok ()"
      using that conjunct1 [OF admission_eq [OF assms, of hash s c q ps]] by (auto split: if_splits)
    then have "q \<notin> H (s, c)" using spec_check_seq_old [of H "(s, c)" q, OF fin] by auto
    then show ?thesis using stored_in_history [OF assms] by blast
  qed
  obtain r l' where cs: "check_seq s c q l = (r, l')" by (cases "check_seq s c q l")
  have env: "el_envelopes l' = el_envelopes l" using check_seq_envelopes [of s c q l] cs by simp
  show "el_envelopes (snd (verify_envelope_admission hash s c q ps l)) = el_envelopes l @
      (if fst (verify_envelope_admission hash s c q ps l) = Ok ()
       then [\<lparr>ee_hash = hash, ee_sender = s, ee_channel = c, ee_seq = q\<rparr>] else [])"
  proof (cases "envelope_of l (s, c, q)")
    case None
    then show ?thesis
      using cs env by (auto simp: verify_envelope_admission_def insert_envelope_def envelope_of_def find_envelope_def
          split: outcome.split)
  next
    case (Some h)
    with new have "fst (verify_envelope_admission hash s c q ps l) \<noteq> Ok ()" by auto
    with Some show ?thesis
      using cs env by (auto simp: verify_envelope_admission_def insert_envelope_def envelope_of_def find_envelope_def
          split: outcome.split option.split)
  qed
qed

lemma admission_simulates:
  assumes "admission_rel l HA"
  shows "fst (admit_envelope op l) = fst (spec_admit_envelope op HA) \<and> admission_rel (snd (admit_envelope op l)) (snd (spec_admit_envelope op HA))"
proof -
  obtain hash s c q ps where op: "op = (hash, s, c, q, ps)" by (cases op)
  obtain H A where HA: "HA = (H, A)" by (cases HA)
  have inv: "admission_inv (l, H)" and dist: "distinct (map ee_key (el_envelopes l))" and A: "A = envelope_of l"
    using assms by (simp_all add: HA admission_rel_def)
  have parents: "all_parents_present ps l \<longleftrightarrow> set ps \<subseteq> ran A"
    unfolding A stored_counts(1) [OF dist] by (auto simp: all_parents_present_def list_all_iff list_ex_iff)
  have room: "envelope_count l = card (dom A)" by (simp add: A stored_counts(2) [OF dist] envelope_count_def)
  note eq = admission_eq [OF inv, of hash s c q ps]
  note res = conjunct1 [OF eq, unfolded parents room]
  note stores = admission_stores [OF inv, of hash s c q ps]
  have fst_eq: "fst (admit_envelope op l) = fst (spec_admit_envelope op HA)"
    using res by (auto simp: op HA spec_fresh_check MAX_ENVELOPES_def split: if_splits)
  have H': "fst (snd (spec_admit_envelope op HA)) = (if all_parents_present ps l then spec_history (s, c) q H else H)"
    by (simp add: op HA parents spec_fresh_check spec_history_def)
  have A': "snd (snd (spec_admit_envelope op HA)) = (if fst (spec_admit_envelope op HA) = Ok () then A((s, c, q) \<mapsto> hash) else A)"
    by (simp add: op HA)
  let ?l' = "snd (verify_envelope_admission hash s c q ps l)"
  have inv': "admission_inv (?l', fst (snd (spec_admit_envelope op HA)))" using conjunct2 [OF eq] unfolding H' by simp
  have store': "distinct (map ee_key (el_envelopes ?l')) \<and> snd (snd (spec_admit_envelope op HA)) = envelope_of ?l'"
  proof (cases "fst (verify_envelope_admission hash s c q ps l) = Ok ()")
    case True
    let ?m = "map (\<lambda>e. (ee_key e, ee_hash e)) (el_envelopes l)"
    have none: "map_of ?m (s, c, q) = None" using stores(2) [OF True] by (simp add: envelope_of_map)
    then have "(s, c, q) \<notin> ee_key ` set (el_envelopes l)" by (simp add: map_of_eq_None_iff image_image)
    moreover have "envelope_of ?l' = (envelope_of l)((s, c, q) \<mapsto> hash)"
      using none by (auto simp: envelope_of_map stores(1) True ee_key_def map_add_def fun_eq_iff split: option.split)
    ultimately show ?thesis
      using dist fst_eq True by (simp add: A' A stores(1)) (simp add: op ee_key_def)
  next
    case False
    then have "envelope_of ?l' = envelope_of l" by (simp add: envelope_of_map stores(1))
    with False show ?thesis using dist fst_eq by (simp add: A' A stores(1)) (simp add: op)
  qed
  show ?thesis using fst_eq inv' store' by (simp add: admission_rel_def op)
qed

lemma admission_run:
  "admission_rel l HA \<Longrightarrow> admission_rel (fold (\<lambda>op l. snd (admit_envelope op l)) ops l) (fold (\<lambda>op HA. snd (spec_admit_envelope op HA)) ops HA)"
  by (induction ops arbitrary: l HA) (use admission_simulates in auto)

lemma admission_rel_new: "admission_rel evidence_ledger_new (\<lambda>_. {}, Map.empty)"
  by (simp add: admission_rel_def admission_inv_def seq_tracks_new envelope_of_map) (simp add: evidence_ledger_new_def)

section \<open>Properties\<close>

text \<open>
  A certificate covers a resource exactly when it carries the scope id (the first eight
  bytes of the hash) of the whole resource id or of one of its prefixes that end before a
  slash: the walk from the full path to the root misses none of them and tries no other.
\<close>

theorem scope_covers_segment_prefixes:
  "scope_covers_resource cr c rid \<longleftrightarrow>
     list_ex (\<lambda>n. (n = length rid \<or> rid ! n = SLASH)
       \<and> cert_carries_scope c (take LEN_SCOPE_ID (blake2s cr (take n rid)))) [1..<Suc (length rid)]"
  unfolding scope_covers_resource_def scope_walk_iff scope_hit_def
  by (auto simp: list_ex_iff Suc_le_eq le_less_Suc_eq less_Suc_eq_le)

text \<open>
  C2: The effect of a grant runs exactly when the grant is authorised: version 2, carried by a
  grant envelope of its approver, signed by it, approver and subject holding their roles,
  unrevoked and in scope, this executor, the pending intent's sender, resource and action
  digest, unexpired in all three ways and not consumed. Otherwise nothing changes and the
  result is an error or the panic of an overflowing deadline.
\<close>

theorem grant_effect_iff_authorised:
  "verify_grant_then cr env g ctx execute s =
     (if grant_authorised cr env g ctx s then (Ok (fst (execute g s)), snd (execute g s))
      else (case grant_checks cr env g ctx s of Err e \<Rightarrow> Err e | _ \<Rightarrow> Panic, s))"
  by (rule verify_grant_then_eq)

text \<open>
  The three expiry conditions in exact arithmetic: a grant passes when now is strictly
  before its end, the end is no later than the maximum lifetime after first receipt, now is
  no later than the receipt window after first receipt, and neither bound overflows.
\<close>

theorem expiry_exact:
  "check_expiry not_after now first t_max_s t_recv_s = Ok () \<longleftrightarrow>
     unat now < unat not_after
     \<and> unat not_after \<le> unat first + 1000 * unat t_max_s
     \<and> unat now \<le> unat first + 1000 * unat t_recv_s
     \<and> unat first + 1000 * unat t_max_s < 2 ^ 64 \<and> unat first + 1000 * unat t_recv_s < 2 ^ 64"
  unfolding check_expiry_Ok expiry_ok_def ..

text \<open>
  A refusal is applied exactly when it is authorised (a refusal envelope, signed by its
  sender, whose certificate is that of an approver): then the intent table takes the refusal
  and the callback runs when a pending intent was rejected; otherwise nothing changes.
\<close>

theorem refusal_iff_authorised:
  "verify_refusal_then cr env r on_rejected (ctx, s) =
     (if refusal_authorised cr env r (rc_approver_cert ctx) then
        (Ok (), ctx\<lparr>rc_intent_table := snd (apply_refusal (ref_intent_id r) (rc_intent_table ctx))\<rparr>,
         if fst (apply_refusal (ref_intent_id r) (rc_intent_table ctx)) = RefRejected
         then on_rejected (ref_intent_id r) s else s)
      else (fst (verify_refusal_then cr env r on_rejected (ctx, s)), ctx, s))
   \<and> (is_ok (fst (verify_refusal_then cr env r on_rejected (ctx, s))) \<longleftrightarrow>
      refusal_authorised cr env r (rc_approver_cert ctx))"
  by (rule conjI [OF verify_refusal_then_eq verify_refusal_then_Ok])

text \<open>
  C17: Admission implements its specification on every sequence of envelopes: the answers are those
  of the specification, which knows only the accepted numbers and the stored hashes, and the
  store holds exactly its map. So an envelope is refused for its parents first, at no cost;
  then for a number that is stale or of a new sender and channel beyond 256 of them; and a fresh
  number is used up even when the store of 4096 has no room, which is reported as
  equivocation; a different hash for a stored envelope is already refused as stale.
\<close>

theorem envelope_admission_exact:
  "let l = fold (\<lambda>op l. snd (admit_envelope op l)) ops evidence_ledger_new;
       HA = fold (\<lambda>op HA. snd (spec_admit_envelope op HA)) ops (\<lambda>_. {}, Map.empty)
   in fst (verify_envelope_admission hash s c q ps l) = fst (spec_admit_envelope (hash, s, c, q, ps) HA)
      \<and> envelope_of l = snd HA"
  using admission_run [OF admission_rel_new, of ops]
    admission_simulates [OF admission_run [OF admission_rel_new, of ops], of "(hash, s, c, q, ps)"]
  by (simp add: Let_def admission_rel_def)

text \<open>
  A full store costs the sequence number all the same: the window has moved before the
  insertion is refused.
\<close>

theorem full_store_consumes_sequence:
  assumes "admission_inv (l, H)" "all_parents_present ps l" "spec_check_seq (s, c) q H = Ok ()"
    and "envelope_count l \<ge> MAX_ENVELOPES"
  shows "fst (verify_envelope_admission hash s c q ps l) = Err Equivocation
    \<and> fst (verify_envelope_admission hash s c q ps
        (snd (verify_envelope_admission hash s c q ps l))) \<in> {Err UnknownParents, Err SeqWindowStale}"
proof -
  note a = admission_eq [OF assms(1), of hash s c q ps]
  let ?H = "spec_history (s, c) q H"
  have "q \<in> ?H (s, c)" using assms(3) by (simp add: spec_history_def)
  moreover from a assms(2) have inv: "admission_inv (snd (verify_envelope_admission hash s c q ps l), ?H)" by simp
  then have "finite (?H (s, c))" by (simp add: admission_inv_def seq_tracks_def)
  ultimately have "spec_check_seq (s, c) q ?H = Err WindowStale" by (intro spec_check_seq_old [of ?H "(s, c)" q])
  with a assms admission_eq [OF inv, of hash s c q ps] show ?thesis by simp
qed

end
