(* ===== verification/Binding.thy ===== *)
theory Binding
  imports Codec
begin

text \<open>
  Certificate identity and session binding (src/src/transport/binding.rs): role
  constraints, the overlay address, the chain check against the trusted CAs, the clock
  check, and the binding of a session to a certificate. The lemmas give the chain check as a
  predicate and show, together with the parser, that an accepted approver certificate
  carries the signatures of two different trusted CAs.
\<close>

unbundle bit_operations_syntax

definition DOMAIN_BINDING :: u8 where "DOMAIN_BINDING = 5"
definition MAX_PRIVILEGED_LIFETIME_MS :: u64 where "MAX_PRIVILEGED_LIFETIME_MS = 2592000000"
definition APPROVER_QUORUM :: u8 where "APPROVER_QUORUM = 2"
definition LEN_OVERLAY_ADDR :: nat where "LEN_OVERLAY_ADDR = 16"
definition OVERLAY_PREFIX :: u8 where "OVERLAY_PREFIX = 253"
definition LEN_CA_SIG :: nat where "LEN_CA_SIG = 64"

datatype binding_error =
  BdMalformedKey | BdBadCaSignature | BdUntrustedCa | CertExpired | BdCertTooLongLived
  | BdRoleAgentApprover | BdRoleAgentExecutor | BdRoleApproverExecutor | BdApproverNoQuorum
  | BadBindingSig | KexPubkeyMismatch

datatype cert_chain_error =
  ChainMalformedKey | BadCaSignature | UntrustedCa | CertTooLongLived | RoleAgentApprover
  | RoleAgentExecutor | RoleApproverExecutor | ApproverNoQuorum

record cert_view =
  cv_sig_pubkey :: bytes
  cv_kex_pubkey :: bytes
  cv_role_bits :: u8
  cv_not_before :: u64
  cv_not_after :: u64
  cv_tbs :: bytes
  cv_ca_sigs :: bytes
  cv_ca_sig_count :: nat

definition check_role_constraints :: "u8 \<Rightarrow> (unit, cert_chain_error) outcome" where
  "check_role_constraints role_bits =
     (let agent = role_bits AND ROLE_AGENT \<noteq> 0;
          approver = role_bits AND ROLE_APPROVER \<noteq> 0;
          executor = role_bits AND ROLE_EXECUTOR \<noteq> 0
      in if agent \<and> approver then Err RoleAgentApprover
         else if agent \<and> executor then Err RoleAgentExecutor
         else if approver \<and> executor then Err RoleApproverExecutor
         else Ok ())"

definition derive_overlay_addr :: "crypto \<Rightarrow> bytes \<Rightarrow> bytes" where
  "derive_overlay_addr cr sig_pubkey =
     OVERLAY_PREFIX # take (LEN_OVERLAY_ADDR - 1) (blake2s cr sig_pubkey)"

definition in_trust_set :: "bytes \<Rightarrow> bytes list \<Rightarrow> bool" where
  "in_trust_set ca_key trusted = list_ex (\<lambda>k. k = ca_key) trusted"

text \<open>The loop over the packed (CA key, signature) pairs.\<close>

primrec check_ca_sigs ::
  "crypto \<Rightarrow> cert_view \<Rightarrow> bytes list \<Rightarrow> nat list \<Rightarrow> (unit, cert_chain_error) outcome" where
  "check_ca_sigs cr c trusted [] = Ok ()"
| "check_ca_sigs cr c trusted (i # is) =
     (let pair_len = LEN_CA_KEY + LEN_CA_SIG; off = i * pair_len in
      if off + pair_len > length (cv_ca_sigs c) then Err BadCaSignature
      else
        let ca_key = take LEN_CA_KEY (drop off (cv_ca_sigs c));
            ca_sig = take LEN_CA_SIG (drop (off + LEN_CA_KEY) (cv_ca_sigs c))
        in if \<not> verify_signed cr DOMAIN_CERT (cv_tbs c) ca_sig ca_key then Err BadCaSignature
           else if \<not> in_trust_set ca_key trusted then Err UntrustedCa
           else check_ca_sigs cr c trusted is)"

definition validate_cert_chain ::
  "crypto \<Rightarrow> cert_view \<Rightarrow> bytes list \<Rightarrow> (unit, cert_chain_error) outcome" where
  "validate_cert_chain cr c trusted =
     and_then (check_role_constraints (cv_role_bits c)) (\<lambda>_.
     if cv_role_bits c AND ROLE_APPROVER \<noteq> 0 \<and> cv_ca_sig_count c < unat APPROVER_QUORUM
     then Err ApproverNoQuorum
     else if cv_role_bits c AND (ROLE_APPROVER OR ROLE_EXECUTOR) \<noteq> 0
       \<and> saturating_sub (cv_not_after c) (cv_not_before c) > MAX_PRIVILEGED_LIFETIME_MS
     then Err CertTooLongLived
     else check_ca_sigs cr c trusted [0..<cv_ca_sig_count c])"

definition validate_cert_no_clock ::
  "crypto \<Rightarrow> cert_view \<Rightarrow> bytes list \<Rightarrow> (unit, cert_chain_error) outcome" where
  "validate_cert_no_clock cr c trusted = validate_cert_chain cr c trusted"

primrec bind_chain_error :: "cert_chain_error \<Rightarrow> binding_error" where
  "bind_chain_error ChainMalformedKey = BdMalformedKey"
| "bind_chain_error BadCaSignature = BdBadCaSignature"
| "bind_chain_error UntrustedCa = BdUntrustedCa"
| "bind_chain_error CertTooLongLived = BdCertTooLongLived"
| "bind_chain_error RoleAgentApprover = BdRoleAgentApprover"
| "bind_chain_error RoleAgentExecutor = BdRoleAgentExecutor"
| "bind_chain_error RoleApproverExecutor = BdRoleApproverExecutor"
| "bind_chain_error ApproverNoQuorum = BdApproverNoQuorum"

definition validate_cert ::
  "crypto \<Rightarrow> cert_view \<Rightarrow> bytes list \<Rightarrow> u64 \<Rightarrow> (unit, binding_error) outcome" where
  "validate_cert cr c trusted now_ms =
     and_then (map_err bind_chain_error (validate_cert_chain cr c trusted)) (\<lambda>_.
     if now_ms < cv_not_before c \<or> now_ms \<ge> cv_not_after c then Err CertExpired else Ok ())"

definition bind_session ::
  "crypto \<Rightarrow> cert_view \<Rightarrow> bytes \<Rightarrow> bytes \<Rightarrow> bytes \<Rightarrow> bytes list \<Rightarrow> u64 \<Rightarrow> (unit, binding_error) outcome" where
  "bind_session cr c binding_sig handshake_hash remote_kex_pubkey trusted now_ms =
     and_then (validate_cert cr c trusted now_ms) (\<lambda>_.
     if length (cv_kex_pubkey c) \<noteq> length remote_kex_pubkey \<or> cv_kex_pubkey c \<noteq> remote_kex_pubkey
     then Err KexPubkeyMismatch
     else if \<not> verify_signed cr DOMAIN_BINDING handshake_hash binding_sig (cv_sig_pubkey c)
     then Err BadBindingSig
     else Ok ())"

section \<open>The chain check as a predicate\<close>

text \<open>The i-th packed pair, the role separation, and the chain.\<close>

definition ca_pair :: "bytes \<Rightarrow> nat \<Rightarrow> bytes \<times> bytes" where
  "ca_pair sigs i = (take 32 (drop (i * 96) sigs), take 64 (drop (i * 96 + 32) sigs))"

definition ca_vouches :: "crypto \<Rightarrow> cert_view \<Rightarrow> bytes list \<Rightarrow> nat \<Rightarrow> bool" where
  "ca_vouches cr c trusted i \<longleftrightarrow>
     i * 96 + 96 \<le> length (cv_ca_sigs c)
     \<and> verify_signed cr DOMAIN_CERT (cv_tbs c) (snd (ca_pair (cv_ca_sigs c) i)) (fst (ca_pair (cv_ca_sigs c) i))
     \<and> fst (ca_pair (cv_ca_sigs c) i) \<in> set trusted"

definition role_count :: "u8 \<Rightarrow> nat" where
  "role_count r = length (filter (\<lambda>b. r AND b \<noteq> 0) [ROLE_AGENT, ROLE_APPROVER, ROLE_EXECUTOR])"

definition chain_ok :: "crypto \<Rightarrow> cert_view \<Rightarrow> bytes list \<Rightarrow> bool" where
  "chain_ok cr c trusted \<longleftrightarrow>
     role_count (cv_role_bits c) \<le> 1
     \<and> (cv_role_bits c AND ROLE_APPROVER = 0 \<or> 2 \<le> cv_ca_sig_count c)
     \<and> (cv_role_bits c AND (ROLE_APPROVER OR ROLE_EXECUTOR) = 0
        \<or> unat (cv_not_after c) \<le> unat (cv_not_before c) + 2592000000)
     \<and> list_all (ca_vouches cr c trusted) [0..<cv_ca_sig_count c]"

lemma check_role_constraints_Ok:
  "check_role_constraints r = Ok () \<longleftrightarrow> role_count r \<le> 1"
  by (auto simp: check_role_constraints_def role_count_def Let_def)

lemma check_ca_sigs_Ok:
  "check_ca_sigs cr c trusted is = Ok () \<longleftrightarrow> list_all (ca_vouches cr c trusted) is"
  by (induction "is") (auto simp: Let_def ca_vouches_def ca_pair_def codec_lens LEN_CA_SIG_def
      in_trust_set_def list_ex_iff)

lemma validate_cert_chain_Ok:
  "validate_cert_chain cr c trusted = Ok () \<longleftrightarrow> chain_ok cr c trusted"
proof -
  have life: "(saturating_sub a b > MAX_PRIVILEGED_LIFETIME_MS) \<longleftrightarrow> \<not> unat a \<le> unat b + 2592000000"
    for a b :: u64
    by (auto simp: word_less_nat_alt unat_saturating_sub MAX_PRIVILEGED_LIFETIME_MS_def)
  have unit: "(\<exists>u. r = Ok u \<and> P) \<longleftrightarrow> r = Ok () \<and> P" for r :: "(unit, cert_chain_error) outcome" and P
    by auto
  show ?thesis
    unfolding validate_cert_chain_def chain_ok_def and_then_eq_Ok guard_Ok unit
      check_role_constraints_Ok check_ca_sigs_Ok life
    by (auto simp: APPROVER_QUORUM_def)
qed

lemma validate_cert_Ok:
  "validate_cert cr c trusted now = Ok () \<longleftrightarrow>
     chain_ok cr c trusted \<and> cv_not_before c \<le> now \<and> now < cv_not_after c"
  by (auto simp: validate_cert_def guard_Ok validate_cert_chain_Ok)

section \<open>A parsed certificate\<close>

definition view_of :: "cert \<Rightarrow> cert_view" where
  "view_of c = \<lparr>cv_sig_pubkey = ce_sig_pubkey c, cv_kex_pubkey = ce_kex_pubkey c,
     cv_role_bits = ce_role_bits c, cv_not_before = ce_not_before c, cv_not_after = ce_not_after c,
     cv_tbs = ce_tbs c, cv_ca_sigs = ce_ca_sigs c, cv_ca_sig_count = unat (ce_ca_sig_count c)\<rparr>"

lemma nth_ca_keys: "i < n \<Longrightarrow> ca_keys n bs ! i = take LEN_CA_KEY (drop (i * (LEN_CA_KEY + LEN_SIG)) bs)"
proof (induction n arbitrary: i bs)
  case (Suc n)
  then show ?case by (cases i) (simp_all add: add.commute add.left_commute)
qed simp

lemma parsed_keys_distinct:
  assumes "parse_cert b = Ok c" "i < j" "j < unat (ce_ca_sig_count c)"
  shows "fst (ca_pair (ce_ca_sigs c) i) \<noteq> fst (ca_pair (ce_ca_sigs c) j)"
proof -
  have "sorted_wrt (<) (ca_keys (unat (ce_ca_sig_count c)) (ce_ca_sigs c))"
    using assms(1) by (simp add: parse_cert_iff wf_cert_def)
  with assms(2,3) have "ca_keys (unat (ce_ca_sig_count c)) (ce_ca_sigs c) ! i
      < ca_keys (unat (ce_ca_sig_count c)) (ce_ca_sigs c) ! j"
    by (simp add: sorted_wrt_iff_nth_less)
  then show ?thesis using assms by (simp add: nth_ca_keys ca_pair_def codec_lens)
qed

section \<open>Properties\<close>

text \<open>
  A certificate is valid exactly when it holds at most one of the three roles, an approver
  has at least two CA signatures, a privileged certificate lives at most thirty days, every
  packed signature is in range, verifies over the signed part and is by a trusted CA, and now
  lies in the half-open interval of its validity.
\<close>

theorem validate_cert_exact:
  "validate_cert cr c trusted now = Ok () \<longleftrightarrow>
     chain_ok cr c trusted \<and> cv_not_before c \<le> now \<and> now < cv_not_after c"
  by (rule validate_cert_Ok)

text \<open>
  C20: Quorum: a certificate that parses and whose chain is accepted with the approver role
  carries verified signatures of at least two different trusted CAs.
\<close>

theorem approver_needs_two_authorities:
  assumes "parse_cert b = Ok c" "validate_cert_chain cr (view_of c) trusted = Ok ()"
    and "ce_role_bits c AND ROLE_APPROVER \<noteq> 0"
  shows "\<exists>k1 k2 s1 s2. k1 \<noteq> k2 \<and> k1 \<in> set trusted \<and> k2 \<in> set trusted
    \<and> verify_signed cr DOMAIN_CERT (ce_tbs c) s1 k1 \<and> verify_signed cr DOMAIN_CERT (ce_tbs c) s2 k2"
proof -
  from assms(2,3) have two: "2 \<le> unat (ce_ca_sig_count c)"
    and all: "list_all (ca_vouches cr (view_of c) trusted) [0..<unat (ce_ca_sig_count c)]"
    by (auto simp: validate_cert_chain_Ok chain_ok_def view_of_def)
  then have "ca_vouches cr (view_of c) trusted 0" "ca_vouches cr (view_of c) trusted 1"
    by (simp_all add: list_all_iff)
  moreover have "fst (ca_pair (ce_ca_sigs c) 0) \<noteq> fst (ca_pair (ce_ca_sigs c) 1)"
    using parsed_keys_distinct [OF assms(1), of 0 1] two by simp
  ultimately show ?thesis by (auto simp: ca_vouches_def view_of_def)
qed

definition sample_cert :: cert where
  "sample_cert = (let c = \<lparr>ce_version = 2, ce_role_bits = 8, ce_sig_pubkey = replicate 32 7,
     ce_kex_pubkey = replicate 32 8, ce_not_before = 0, ce_not_after = 1000, ce_name = [],
     ce_scope_count = 0, ce_scope_ids = [], ce_ca_sig_count = 2,
     ce_ca_sigs = replicate 96 1 @ replicate 96 2, ce_tbs = []\<rparr> in c\<lparr>ce_tbs := encode_cert_tbs c\<rparr>)"

lemma approver_needs_two_authorities_witness:
  "\<exists>k1 k2 s1 s2. k1 \<noteq> k2 \<and> k1 \<in> set [replicate 32 1, replicate 32 2]
    \<and> k2 \<in> set [replicate 32 1, replicate 32 (2 :: u8)]
    \<and> verify_signed toy_crypto DOMAIN_CERT (ce_tbs sample_cert) s1 k1
    \<and> verify_signed toy_crypto DOMAIN_CERT (ce_tbs sample_cert) s2 k2"
proof (rule approver_needs_two_authorities)
  have "ca_keys 2 (replicate 96 1 @ replicate 96 2) = [replicate 32 (1 :: u8), replicate 32 2]"
    by (simp add: numeral_2_eq_2 codec_lens)
  moreover have "replicate 32 (1 :: u8) < replicate 32 2" by (simp add: numeral_eq_Suc)
  ultimately show "parse_cert (encode_cert sample_cert) = Ok sample_cert"
    unfolding parse_cert_iff
    by (simp add: wf_cert_def sample_cert_def Let_def codec_lens codec_limits encode_cert_tbs_def)
  show "validate_cert_chain toy_crypto (view_of sample_cert) [replicate 32 1, replicate 32 2] = Ok ()"
    unfolding validate_cert_chain_Ok
    by (simp add: chain_ok_def sample_cert_def view_of_def Let_def role_count_def ROLE_AGENT_def
        ROLE_APPROVER_def ROLE_EXECUTOR_def ca_vouches_def ca_pair_def verify_signed_def toy_crypto_def
        upt_rec)
  show "ce_role_bits sample_cert AND ROLE_APPROVER \<noteq> 0"
    by (simp add: sample_cert_def Let_def ROLE_APPROVER_def)
qed

end
