(* ===== verification/Dispatch.thy ===== *)
theory Dispatch
  imports Verify Binding
begin

text \<open>
  The router (src/src/transport/dispatch.rs): one envelope in, one outcome out. Intents go
  through the resolver into the intent table and leave a sender record; grants are verified
  and run their effect; refusals release their intent. The hooks are functions over a state
  of the caller. The lemmas show when an effect runs, that no grant runs twice as long as its
  consumption is recorded (a contract of the hooks, stated as a locale), and the invariant
  of the tables.
\<close>

unbundle bit_operations_syntax

section \<open>State\<close>

definition T_MAX_S_DEFAULT :: u64 where "T_MAX_S_DEFAULT = 3600"
definition T_RECV_S_DEFAULT :: u64 where "T_RECV_S_DEFAULT = 300"

datatype dispatch_error =
  BadEnvelope | BadBody | UnsupportedBody | NoPendingIntent | UnknownSender | ActionTooLarge
  | DispatchDiskError | VerifyFailed verify_error | ResolveFailed resolve_error

datatype dispatch_outcome =
  IntentAdmitted | GrantExecuted | EffectRefused | RefusalApplied | Utterance | Control | Effect

record 's hooks =
  hk_execute_effect :: "grant \<Rightarrow> 's \<Rightarrow> effect_outcome \<times> 's"
  hk_cert_for_sender :: "bytes \<Rightarrow> cert option"
  hk_on_rejected :: "bytes \<Rightarrow> 's \<Rightarrow> 's"
  hk_is_revoked :: "bytes \<Rightarrow> bool"
  hk_already_consumed :: "bytes \<Rightarrow> u64 \<Rightarrow> u64 \<Rightarrow> 's \<Rightarrow> bool"

record dispatcher =
  dp_resolver :: resolver
  dp_intent_table :: intent_table
  dp_sender_table :: sender_table
  dp_own_pubkey :: bytes
  dp_own_cert :: cert
  dp_trusted_ca_keys :: "bytes list"

section \<open>Routing\<close>

definition dispatch_intent ::
  "envelope \<Rightarrow> u64 \<Rightarrow> dispatcher \<Rightarrow> (dispatch_outcome, dispatch_error) outcome \<times> dispatcher" where
  "dispatch_intent env now_ms d =
     (case parse_intent (env_body env) of
        Err e \<Rightarrow> (Err BadBody, d)
      | Panic \<Rightarrow> (Panic, d)
      | Ok i \<Rightarrow>
          if length (int_intent_id i) \<noteq> LEN_INTENT_ID then (Err BadBody, d)
          else
            let (res, t) = resolve_and_admit (dp_resolver d) (int_intent_id i) (int_resource_id i) now_ms
                             (dp_intent_table d);
                d = d\<lparr>dp_intent_table := t\<rparr>
            in case res of
                 Err e \<Rightarrow> (Err (ResolveFailed e), d)
               | Panic \<Rightarrow> (Panic, d)
               | Ok _ \<Rightarrow>
                   if length (int_action i) > SENDER_MAX_ACTION then (Err ActionTooLarge, d)
                   else
                     let action_buf = int_action i @ replicate (SENDER_MAX_ACTION - length (int_action i)) 0;
                         sender_buf = (if length (env_sender env) = 32 then env_sender env else replicate 32 0)
                     in (Ok IntentAdmitted, d\<lparr>dp_sender_table := (dp_sender_table d)\<lparr>st_entries :=
                           st_entries (dp_sender_table d) @
                             [\<lparr>se_intent_id = int_intent_id i, se_sender = sender_buf,
                               se_action = action_buf, se_action_len = length (int_action i)\<rparr>]\<rparr>\<rparr>))"

definition grant_context_of :: "'s hooks \<Rightarrow> cert \<Rightarrow> u64 \<Rightarrow> dispatcher \<Rightarrow> 's grant_context" where
  "grant_context_of hooks sender_cert now_ms d =
     \<lparr>gc_own_pubkey = dp_own_pubkey d, gc_approver_cert = sender_cert, gc_subject_cert = sender_cert,
      gc_trusted_ca_keys = dp_trusted_ca_keys d, gc_intent_table = dp_intent_table d,
      gc_sender_table = dp_sender_table d, gc_now_ms = now_ms, gc_first_receipt_ms = now_ms,
      gc_t_max_s = T_MAX_S_DEFAULT, gc_t_recv_s = T_RECV_S_DEFAULT,
      gc_already_consumed = hk_already_consumed hooks, gc_is_revoked = hk_is_revoked hooks\<rparr>"

definition dispatch_grant ::
  "crypto \<Rightarrow> 's hooks \<Rightarrow> envelope \<Rightarrow> u64 \<Rightarrow> dispatcher \<times> 's \<Rightarrow>
   (dispatch_outcome, dispatch_error) outcome \<times> dispatcher \<times> 's" where
  "dispatch_grant cr hooks env now_ms ds =
     (case ds of (d, s) \<Rightarrow>
      case parse_grant (env_body env) of
        Err e \<Rightarrow> (Err BadBody, d, s)
      | Panic \<Rightarrow> (Panic, d, s)
      | Ok g \<Rightarrow>
          (case hk_cert_for_sender hooks (env_sender env) of
             None \<Rightarrow> (Err UnknownSender, d, s)
           | Some sender_cert \<Rightarrow>
               (case verify_grant_then cr env g (grant_context_of hooks sender_cert now_ms d)
                       (hk_execute_effect hooks) s of
                  (Ok Fired, s') \<Rightarrow> (Ok GrantExecuted, d, s')
                | (Ok EffectDeclined, s') \<Rightarrow> (Ok EffectRefused, d, s')
                | (Err e, s') \<Rightarrow> (Err (VerifyFailed e), d, s')
                | (Panic, s') \<Rightarrow> (Panic, d, s'))))"

definition dispatch_refusal ::
  "crypto \<Rightarrow> 's hooks \<Rightarrow> envelope \<Rightarrow> u64 \<Rightarrow> dispatcher \<times> 's \<Rightarrow>
   (dispatch_outcome, dispatch_error) outcome \<times> dispatcher \<times> 's" where
  "dispatch_refusal cr hooks env now_ms ds =
     (case ds of (d, s) \<Rightarrow>
      case parse_refusal (env_body env) of
        Err e \<Rightarrow> (Err BadBody, d, s)
      | Panic \<Rightarrow> (Panic, d, s)
      | Ok r \<Rightarrow>
          (case hk_cert_for_sender hooks (env_sender env) of
             None \<Rightarrow> (Err UnknownSender, d, s)
           | Some approver_cert \<Rightarrow>
               let ctx = \<lparr>rc_trusted_ca_keys = dp_trusted_ca_keys d, rc_approver_cert = approver_cert,
                          rc_now_ms = now_ms, rc_intent_table = dp_intent_table d\<rparr>;
                   (res, ctx', s') = verify_refusal_then cr env r (hk_on_rejected hooks) (ctx, s);
                   d' = d\<lparr>dp_intent_table := rc_intent_table ctx'\<rparr>
               in case res of
                    Ok _ \<Rightarrow> (Ok RefusalApplied, d', s')
                  | Err e \<Rightarrow> (Err (VerifyFailed e), d', s')
                  | Panic \<Rightarrow> (Panic, d', s')))"

definition dispatch ::
  "crypto \<Rightarrow> 's hooks \<Rightarrow> bytes \<Rightarrow> u64 \<Rightarrow> dispatcher \<times> 's \<Rightarrow>
   (dispatch_outcome, dispatch_error) outcome \<times> dispatcher \<times> 's" where
  "dispatch cr hooks env_bytes now_ms ds =
     (case parse_envelope env_bytes of
        Err e \<Rightarrow> (Err BadEnvelope, ds)
      | Panic \<Rightarrow> (Panic, ds)
      | Ok env \<Rightarrow>
          (case verify_envelope cr env of
             Err e \<Rightarrow> (Err (VerifyFailed e), ds)
           | Panic \<Rightarrow> (Panic, ds)
           | Ok _ \<Rightarrow>
               if env_body_type env = BODY_INTENT then
                 (case dispatch_intent env now_ms (fst ds) of (res, d') \<Rightarrow> (res, d', snd ds))
               else if env_body_type env = BODY_GRANT then dispatch_grant cr hooks env now_ms ds
               else if env_body_type env = BODY_REFUSAL then dispatch_refusal cr hooks env now_ms ds
               else if env_body_type env = BODY_UTTERANCE then (Ok Utterance, ds)
               else if env_body_type env = BODY_EFFECT then (Ok Effect, ds)
               else if env_body_type env = BODY_CONTROL then (Ok Control, ds)
               else (Err UnsupportedBody, ds)))"

text \<open>The seams to the durable ledger do nothing yet: no orphan is recovered, no tombstone written.\<close>

definition init_durable_ledger :: "string \<Rightarrow> 'o list \<Rightarrow> (nat \<times> 'o list, dispatch_error) outcome" where
  "init_durable_ledger path orphan_out = Ok (0, orphan_out)"

definition tombstone_orphan :: "bytes \<Rightarrow> (unit, dispatch_error) outcome" where
  "tombstone_orphan grant_id = Ok ()"

section \<open>When an effect runs\<close>

text \<open>The authorised grant an envelope carries, if any, in the state the router is in.\<close>

definition carried_grant :: "crypto \<Rightarrow> 's hooks \<Rightarrow> bytes \<Rightarrow> u64 \<Rightarrow> dispatcher \<times> 's \<Rightarrow> grant option" where
  "carried_grant cr hooks b now ds =
     (case parse_envelope b of
        Ok env \<Rightarrow>
          if verify_envelope cr env = Ok () \<and> env_body_type env = BODY_GRANT then
            (case (parse_grant (env_body env), hk_cert_for_sender hooks (env_sender env)) of
               (Ok g, Some c) \<Rightarrow>
                 if grant_authorised cr env g (grant_context_of hooks c now (fst ds)) (snd ds)
                 then Some g else None
             | _ \<Rightarrow> None)
          else None
      | _ \<Rightarrow> None)"

lemma body_tags_distinct [simp]:
  "BODY_GRANT \<noteq> BODY_INTENT" "BODY_GRANT \<noteq> BODY_REFUSAL" "BODY_REFUSAL \<noteq> BODY_INTENT"
  "BODY_UTTERANCE \<noteq> BODY_GRANT"
  by (simp_all add: BODY_GRANT_def BODY_INTENT_def BODY_REFUSAL_def BODY_UTTERANCE_def)

lemma verify_envelope_no_Panic [simp]: "verify_envelope cr env \<noteq> Panic"
  by (simp add: verify_envelope_def)

lemma dispatch_grant_eq:
  "dispatch_grant cr hooks env now (d, s) =
     (case (parse_grant (env_body env), hk_cert_for_sender hooks (env_sender env)) of
        (Ok g, Some c) \<Rightarrow>
          if grant_authorised cr env g (grant_context_of hooks c now d) s
          then (Ok (if fst (hk_execute_effect hooks g s) = Fired then GrantExecuted else EffectRefused),
                d, snd (hk_execute_effect hooks g s))
          else (fst (dispatch_grant cr hooks env now (d, s)), d, s)
      | _ \<Rightarrow> (fst (dispatch_grant cr hooks env now (d, s)), d, s))"
  by (auto simp: dispatch_grant_def verify_grant_then_eq
      split: outcome.split option.split effect_outcome.split)

lemma dispatch_grant_result:
  "fst (dispatch_grant cr hooks env now (d, s)) \<in> {Ok GrantExecuted, Ok EffectRefused} \<longleftrightarrow>
     (\<exists>g c. parse_grant (env_body env) = Ok g \<and> hk_cert_for_sender hooks (env_sender env) = Some c
       \<and> grant_authorised cr env g (grant_context_of hooks c now d) s)"
  by (auto simp: dispatch_grant_def verify_grant_then_eq
      split: outcome.split option.split effect_outcome.split)

lemma dispatch_other_results:
  "fst (dispatch_intent env now d) \<notin> {Ok GrantExecuted, Ok EffectRefused}"
  "fst (dispatch_refusal cr hooks env now ds) \<notin> {Ok GrantExecuted, Ok EffectRefused}"
  by (auto simp: dispatch_intent_def dispatch_refusal_def Let_def
      split: outcome.splits option.splits prod.splits)

lemma dispatch_fires:
  "fst (dispatch cr hooks b now (d, s)) \<in> {Ok GrantExecuted, Ok EffectRefused} \<longleftrightarrow>
     carried_grant cr hooks b now (d, s) \<noteq> None"
proof (cases "parse_envelope b")
  case (Ok env)
  show ?thesis
  proof (cases "verify_envelope cr env = Ok () \<and> env_body_type env = BODY_GRANT")
    case True
    then show ?thesis
      using dispatch_grant_result [of cr hooks env now d s]
      by (simp add: dispatch_def carried_grant_def Ok)
        (auto split: outcome.splits option.splits)
  next
    case False
    then show ?thesis
      using dispatch_other_results(1) [of env now d] dispatch_other_results(2) [of cr hooks env now "(d, s)"]
      by (auto simp: dispatch_def carried_grant_def Ok split: outcome.splits prod.splits)
  qed
qed (simp_all add: dispatch_def carried_grant_def)

lemma carried_grantD:
  assumes "carried_grant cr hooks b now (d, s) = Some g"
  obtains env c where "parse_envelope b = Ok env" "verify_envelope cr env = Ok ()"
    "env_body_type env = BODY_GRANT" "parse_grant (env_body env) = Ok g"
    "hk_cert_for_sender hooks (env_sender env) = Some c"
    "grant_authorised cr env g (grant_context_of hooks c now d) s"
  using assms by (auto simp: carried_grant_def split: outcome.splits option.splits if_splits)

lemma dispatch_grant_state:
  assumes "carried_grant cr hooks b now (d, s) = Some g"
  shows "snd (snd (dispatch cr hooks b now (d, s))) = snd (hk_execute_effect hooks g s)"
  using assms by (rule carried_grantD) (simp add: dispatch_def dispatch_grant_eq)

lemma dispatch_refusal_state:
  "snd (snd (dispatch_refusal cr hooks env now (d, s))) \<in> {s} \<union> {hk_on_rejected hooks i s |i. True}"
  by (auto simp: dispatch_refusal_def verify_refusal_then_def Let_def
      split: outcome.splits option.splits prod.splits)

lemma dispatch_quiet_state:
  assumes "carried_grant cr hooks b now (d, s) = None"
  shows "snd (snd (dispatch cr hooks b now (d, s))) \<in> {s} \<union> {hk_on_rejected hooks i s |i. True}"
proof (cases "parse_envelope b")
  case (Ok env)
  show ?thesis
  proof (cases "verify_envelope cr env = Ok () \<and> env_body_type env = BODY_GRANT")
    case True
    have "dispatch cr hooks b now (d, s) = dispatch_grant cr hooks env now (d, s)"
      using True by (simp add: dispatch_def Ok)
    moreover have "snd (snd (dispatch_grant cr hooks env now (d, s))) = s"
    proof (cases "parse_grant (env_body env)")
      case (Ok g)
      then show ?thesis
        using True assms \<open>parse_envelope b = Ok env\<close>
        by (cases "hk_cert_for_sender hooks (env_sender env)")
          (auto simp: carried_grant_def dispatch_grant_def verify_grant_then_eq split: outcome.split)
    qed (simp_all add: dispatch_grant_def)
    ultimately show ?thesis by simp
  next
    case False
    then show ?thesis
      using dispatch_refusal_state [of cr hooks env now d s]
      by (auto simp: dispatch_def Ok split: outcome.splits prod.splits)
  qed
qed (simp_all add: dispatch_def)

section \<open>No grant runs twice once its consumption is recorded\<close>

text \<open>
  One dispatch after another. Each comes with an environment of its own: the time, and whatever else the
  hooks depend on, such as the certificates known then and the answers of the disk. The run lists
  the grants whose effect ran, by id and expiry, with whether the caller managed to record
  the consumption.
\<close>

primrec fired_run ::
  "crypto \<Rightarrow> ('e \<Rightarrow> u64) \<Rightarrow> ('e \<Rightarrow> 's hooks) \<Rightarrow> ('e \<Rightarrow> grant \<Rightarrow> 's \<Rightarrow> bool) \<Rightarrow> (bytes \<times> 'e) list \<Rightarrow>
   dispatcher \<times> 's \<Rightarrow> ((bytes \<times> u64) \<times> bool) list" where
  "fired_run cr clock hooks recorded [] ds = []"
| "fired_run cr clock hooks recorded (ev # evs) ds =
     (case carried_grant cr (hooks (snd ev)) (fst ev) (clock (snd ev)) ds of
        Some g \<Rightarrow> [((gr_grant_id g, gr_not_after g), recorded (snd ev) g (snd ds))]
      | None \<Rightarrow> [])
     @ fired_run cr clock hooks recorded evs
         (snd (dispatch cr (hooks (snd ev)) (fst ev) (clock (snd ev)) ds))"

text \<open>A recorded grant does not occur again.\<close>

definition never_again :: "('k \<times> bool) list \<Rightarrow> bool" where
  "never_again = sorted_wrt (\<lambda>a b. \<not> (snd a \<and> fst a = fst b))"

text \<open>
  What the caller promises, on a clock that does not run backwards: a grant its record bars
  has expired or fails its test, a recorded effect bars its grant, and neither time nor an
  effect nor a refusal lifts a bar. A record may forget a grant once it has expired.
\<close>

locale consumption_record =
  fixes clock :: "'e \<Rightarrow> u64"
    and hooks :: "'e \<Rightarrow> 's hooks"
    and barred :: "u64 \<Rightarrow> 's \<Rightarrow> bytes \<times> u64 \<Rightarrow> bool"
    and recorded :: "'e \<Rightarrow> grant \<Rightarrow> 's \<Rightarrow> bool"
  assumes test_bars: "barred (clock e) s (gid, na) \<Longrightarrow>
      na \<le> clock e \<or> hk_already_consumed (hooks e) gid na (clock e) s"
    and effect_bars: "recorded e g s \<Longrightarrow>
      barred (clock e) (snd (hk_execute_effect (hooks e) g s)) (gr_grant_id g, gr_not_after g)"
    and time_keeps: "barred t s k \<Longrightarrow> t \<le> now \<Longrightarrow> barred now s k"
    and effect_keeps: "barred (clock e) s k \<Longrightarrow> barred (clock e) (snd (hk_execute_effect (hooks e) g s)) k"
    and rejection_keeps: "barred (clock e) s k \<Longrightarrow> barred (clock e) (hk_on_rejected (hooks e) i s) k"
begin

lemma carried_not_barred:
  "carried_grant cr (hooks e) b (clock e) (d, s) = Some g \<Longrightarrow>
   \<not> barred (clock e) s (gr_grant_id g, gr_not_after g)"
  using test_bars [of e s "gr_grant_id g" "gr_not_after g"]
  by (auto simp: carried_grant_def grant_authorised_def grant_context_of_def expiry_ok_def word_le_nat_alt
      split: outcome.splits option.splits if_splits)

lemma dispatch_keeps:
  assumes "barred (clock e) s k"
  shows "barred (clock e) (snd (snd (dispatch cr (hooks e) b (clock e) (d, s)))) k"
proof (cases "carried_grant cr (hooks e) b (clock e) (d, s)")
  case None
  from dispatch_quiet_state [OF this] consider
      "snd (snd (dispatch cr (hooks e) b (clock e) (d, s))) = s"
    | i where "snd (snd (dispatch cr (hooks e) b (clock e) (d, s))) = hk_on_rejected (hooks e) i s" by blast
  then show ?thesis using assms rejection_keeps by cases metis+
next
  case (Some g)
  show ?thesis unfolding dispatch_grant_state [OF Some] by (rule effect_keeps [OF assms])
qed

lemma fired_not_barred:
  "barred t s k \<Longrightarrow> sorted (t # map (\<lambda>ev. clock (snd ev)) evs) \<Longrightarrow>
   k \<notin> fst ` set (fired_run cr clock hooks recorded evs (d, s))"
proof (induction evs arbitrary: t d s)
  case (Cons ev evs)
  let ?now = "clock (snd ev)"
  obtain d' s' where step: "snd (dispatch cr (hooks (snd ev)) (fst ev) ?now (d, s)) = (d', s')"
    by fastforce
  have "t \<le> ?now" using Cons.prems(2) by simp
  then have now: "barred ?now s k" by (rule time_keeps [OF Cons.prems(1)])
  have "barred ?now s' k" using dispatch_keeps [OF now, of cr "fst ev" d] step by simp
  moreover have "sorted (?now # map (\<lambda>ev. clock (snd ev)) evs)" using Cons.prems(2) by simp
  ultimately have later: "k \<notin> fst ` set (fired_run cr clock hooks recorded evs (d', s'))" by (rule Cons.IH)
  show ?case
  proof (cases "carried_grant cr (hooks (snd ev)) (fst ev) ?now (d, s)")
    case (Some g)
    have "(gr_grant_id g, gr_not_after g) \<noteq> k" using carried_not_barred [OF Some] now by auto
    with later step Some show ?thesis by simp
  qed (use later step in simp)
qed simp

lemma fired_never_again:
  "sorted (map (\<lambda>ev. clock (snd ev)) evs) \<Longrightarrow> never_again (fired_run cr clock hooks recorded evs (d, s))"
proof (induction evs arbitrary: d s)
  case (Cons ev evs)
  let ?now = "clock (snd ev)"
  obtain d' s' where step: "snd (dispatch cr (hooks (snd ev)) (fst ev) ?now (d, s)) = (d', s')"
    by fastforce
  have "(gr_grant_id g, gr_not_after g) \<notin> fst ` set (fired_run cr clock hooks recorded evs (d', s'))"
    if "carried_grant cr (hooks (snd ev)) (fst ev) ?now (d, s) = Some g" "recorded (snd ev) g s" for g
  proof (rule fired_not_barred)
    show "barred ?now s' (gr_grant_id g, gr_not_after g)"
      using dispatch_grant_state [OF that(1)] effect_bars [OF that(2)] step by simp
    show "sorted (?now # map (\<lambda>ev. clock (snd ev)) evs)" using Cons.prems by simp
  qed
  with Cons step show ?case
    by (fastforce simp: never_again_def image_iff split: option.split)
qed (simp add: never_again_def)

end

section \<open>The tables\<close>

definition sender_ok :: "sender_entry \<Rightarrow> bool" where
  "sender_ok se \<longleftrightarrow> length (se_intent_id se) = 16 \<and> length (se_sender se) = 32
     \<and> length (se_action se) = SENDER_MAX_ACTION \<and> se_action_len se \<le> SENDER_MAX_ACTION"

definition dispatch_inv :: "dispatcher \<Rightarrow> bool" where
  "dispatch_inv d \<longleftrightarrow> resolver_inv (dp_resolver d) \<and> intent_inv (dp_intent_table d)
     \<and> list_all (\<lambda>e. length (e_resource_id e) = MAX_RESOURCE) (entries (dp_intent_table d))
     \<and> list_all sender_ok (st_entries (dp_sender_table d))"

lemma resolve_and_admit_table:
  assumes "resolver_inv r" "intent_inv t" "list_all (\<lambda>e. length (e_resource_id e) = MAX_RESOURCE) (entries t)"
  shows "intent_inv (snd (resolve_and_admit r iid p now t))
    \<and> list_all (\<lambda>e. length (e_resource_id e) = MAX_RESOURCE) (entries (snd (resolve_and_admit r iid p now t)))"
proof (cases "resolve r p")
  case (Ok c)
  let ?buf = "c @ replicate (MAX_RESOURCE - length c) 0"
  have "length ?buf = MAX_RESOURCE"
    using resolve_Ok [OF assms(1) Ok] canonical_form_length [of c]
    by (simp add: resolver_sizes MAX_RESOURCE_def)
  then have "list_all (\<lambda>e. length (e_resource_id e) = MAX_RESOURCE) (entries (snd (admit iid ?buf (length c) now t)))"
    using assms(3) by (simp add: admit_def)
  moreover have "intent_inv (snd (admit iid ?buf (length c) now t))"
    using intents.inv_step [OF assms(2), of "OpAdmit iid ?buf (length c) now"] by simp
  ultimately show ?thesis using assms Ok
    by (auto simp: resolve_and_admit_def split: prod.split)
qed (simp_all add: resolve_and_admit_def assms)

lemma dispatch_intent_inv:
  assumes "dispatch_inv d"
  shows "dispatch_inv (snd (dispatch_intent env now d))"
proof -
  have t: "intent_inv (snd (resolve_and_admit (dp_resolver d) iid p now (dp_intent_table d)))
    \<and> list_all (\<lambda>e. length (e_resource_id e) = MAX_RESOURCE)
        (entries (snd (resolve_and_admit (dp_resolver d) iid p now (dp_intent_table d))))" for iid p
    by (rule resolve_and_admit_table) (use assms in \<open>simp_all add: dispatch_inv_def\<close>)
  show ?thesis
  proof (cases "parse_intent (env_body env)")
    case (Ok i)
    obtain res t' where ra: "resolve_and_admit (dp_resolver d) (int_intent_id i) (int_resource_id i) now
        (dp_intent_table d) = (res, t')" by fastforce
    with t [of "int_intent_id i" "int_resource_id i"] assms show ?thesis
      by (auto simp: dispatch_intent_def Ok ra dispatch_inv_def sender_ok_def LEN_INTENT_ID_def Let_def
          split: outcome.split)
  qed (simp_all add: dispatch_intent_def assms)
qed

lemma dispatch_refusal_inv:
  assumes "dispatch_inv d"
  shows "dispatch_inv (fst (snd (dispatch_refusal cr hooks env now (d, s))))"
proof -
  have inv: "intent_inv (dp_intent_table d)" using assms by (simp add: dispatch_inv_def)
  have "dispatch_inv (d\<lparr>dp_intent_table := snd (apply_refusal iid (dp_intent_table d))\<rparr>)" for iid
    using assms intents.inv_step [OF inv, of "OpRefuse iid"] apply_refusal_snd [OF inv, of iid]
    by (auto simp: dispatch_inv_def list_all_iff)
  then have "dispatch_inv (d\<lparr>dp_intent_table := t\<rparr>)" if "apply_refusal iid (dp_intent_table d) = (oc, t)" for iid oc t
    using that by (metis snd_conv)
  then show ?thesis using assms
    by (auto simp: dispatch_refusal_def verify_refusal_then_def Let_def
        split: outcome.split option.split prod.split)
qed

lemma dispatch_grant_tables: "fst (snd (dispatch_grant cr hooks env now (d, s))) = d"
  by (auto simp: dispatch_grant_def split: outcome.split option.split prod.split effect_outcome.split)

lemma dispatch_keeps_inv:
  assumes "dispatch_inv d"
  shows "dispatch_inv (fst (snd (dispatch cr hooks b now (d, s))))"
proof (cases "parse_envelope b")
  case (Ok env)
  show ?thesis
    by (simp add: dispatch_def Ok case_prod_unfold dispatch_grant_tables assms
        dispatch_intent_inv [OF assms] dispatch_refusal_inv [OF assms] split: outcome.split)
qed (simp_all add: dispatch_def assms)

section \<open>One certificate in both roles\<close>

text \<open>
  The router hands the certificate of the sender to the verification as the approver's and as
  the subject's, so a grant needs the agent and the approver role in one certificate, which
  the chain check forbids.
\<close>

lemma carried_grant_roles:
  assumes "carried_grant cr hooks b now (d, s) = Some g"
  shows "\<exists>env c. parse_envelope b = Ok env \<and> hk_cert_for_sender hooks (env_sender env) = Some c
    \<and> check_role_constraints (ce_role_bits c) = Err RoleAgentApprover"
  using assms
  by (auto simp: carried_grant_def grant_authorised_def holds_role_def grant_context_of_def
      check_role_constraints_def Let_def split: outcome.splits option.splits if_splits)

definition role_checked :: "'s hooks \<Rightarrow> 's hooks" where
  "role_checked hooks = hooks\<lparr>hk_cert_for_sender := \<lambda>k.
     (case hk_cert_for_sender hooks k of
        Some c \<Rightarrow> if check_role_constraints (ce_role_bits c) = Ok () then Some c else None
      | None \<Rightarrow> None)\<rparr>"

section \<open>A run of the router\<close>

definition new_dispatcher :: "resolver \<Rightarrow> bytes \<Rightarrow> cert \<Rightarrow> bytes list \<Rightarrow> dispatcher" where
  "new_dispatcher r own cert cas =
     \<lparr>dp_resolver = r, dp_intent_table = table_new, dp_sender_table = sender_table_new,
      dp_own_pubkey = own, dp_own_cert = cert, dp_trusted_ca_keys = cas\<rparr>"

definition dispatch_step ::
  "crypto \<Rightarrow> (u64 \<Rightarrow> 's hooks) \<Rightarrow> bytes \<times> u64 \<Rightarrow> dispatcher \<times> 's \<Rightarrow> dispatcher \<times> 's" where
  "dispatch_step cr hooks ev ds = snd (dispatch cr (hooks (snd ev)) (fst ev) (snd ev) ds)"

interpretation dispatches:
  guarded_machine "(new_dispatcher (fold resolver_step rops (resolver_new cr pk)) own cert cas, s0)"
    "dispatch_step cr hooks" "\<lambda>ds. dispatch_inv (fst ds)"
proof unfold_locales
  show "dispatch_inv (fst (new_dispatcher (fold resolver_step rops (resolver_new cr pk)) own cert cas, s0))"
    using resolvers.inv_run [of rops cr pk]
    by (simp add: dispatch_inv_def new_dispatcher_def table_new_inv)
      (simp add: table_new_def sender_table_new_def)
  show "dispatch_inv (fst (dispatch_step cr hooks ev ds))" if "dispatch_inv (fst ds)" for ev ds
    using dispatch_keeps_inv [OF that, of cr "hooks (snd ev)" "fst ev" "snd ev" "snd ds"]
    by (simp add: dispatch_step_def)
qed

section \<open>Properties\<close>

text \<open>
  C3: The effect hook runs exactly for an authorised grant: the router answers that a grant
  executed or was declined if and only if the bytes parse to a signed grant envelope whose
  grant is authorised for the sender's certificate; then the state is the effect's, and in
  every other case it is untouched except for the rejection callback of a refusal.
\<close>

theorem dispatch_effect_iff_carried_grant:
  "(fst (dispatch cr hooks b now (d, s)) \<in> {Ok GrantExecuted, Ok EffectRefused} \<longleftrightarrow>
      carried_grant cr hooks b now (d, s) \<noteq> None)
   \<and> (case carried_grant cr hooks b now (d, s) of
        Some g \<Rightarrow> snd (snd (dispatch cr hooks b now (d, s))) = snd (hk_execute_effect hooks g s)
      | None \<Rightarrow> snd (snd (dispatch cr hooks b now (d, s))) \<in> {s} \<union> {hk_on_rejected hooks i s |i. True})"
  using dispatch_fires [of cr hooks b now d s] dispatch_grant_state [of cr hooks b now d s]
    dispatch_quiet_state [of cr hooks b now d s]
  by (cases "carried_grant cr hooks b now (d, s)") simp_all

text \<open>
  On every run of the router from empty tables the resolver, the intent table and the
  sender records stay well formed: every sender record has a 16-byte id, a 32-byte sender and
  an action of at most 512 bytes, and every admitted resource fits its buffer, so that no
  check of a grant can index out of range.
\<close>

theorem dispatch_tables_invariant:
  "dispatch_inv (fst (fold (dispatch_step cr hooks) evs
     (new_dispatcher (fold resolver_step rops (resolver_new cr pk)) own cert cas, s0)))"
  by (rule dispatches.inv_run)

text \<open>
  No grant ever takes effect when the caller hands out only certificates that pass the
  role constraints: the router uses the sender's certificate as the approver's and as the
  subject's, and no certificate may hold both roles.
\<close>

theorem no_grant_with_separated_roles:
  "fst (dispatch cr (role_checked hooks) b now (d, s)) \<notin> {Ok GrantExecuted, Ok EffectRefused}"
proof -
  have "carried_grant cr (role_checked hooks) b now (d, s) = None"
  proof (rule ccontr)
    assume "carried_grant cr (role_checked hooks) b now (d, s) \<noteq> None"
    then obtain g where "carried_grant cr (role_checked hooks) b now (d, s) = Some g" by blast
    from carried_grant_roles [OF this] show False
      by (auto simp: role_checked_def split: option.splits if_splits)
  qed
  then show ?thesis by (simp only: dispatch_fires) simp
qed

end
