(* ===== verification/Noise.thy ===== *)
theory Noise
  imports Crypto
begin

text \<open>
  The mac1 gate and the cookie layer (src/src/transport/mac1.rs) and the Noise IK machine
  (src/src/transport/noise.rs): HMAC and HKDF over the hash, the symmetric state, and the
  initiator's and responder's reads and writes with the 144- and 92-byte layouts. An
  ephemeral secret drawn from the operating system is an argument; an output buffer is the
  value returned on success. The lemmas show that the two machines agree: the responder
  reads what the initiator wrote, and both end with the same transcript and crossed keys.
\<close>

unbundle bit_operations_syntax

section \<open>mac1 and cookies\<close>

definition MAC_BYTES :: nat where "MAC_BYTES = 16"

definition MAC1_LABEL :: bytes where
  "MAC1_LABEL = [98, 111, 108, 105, 110, 97, 45, 109, 97, 99, 49, 45, 118, 50]"

definition KEY_BYTES :: nat where "KEY_BYTES = 32"
definition COOKIE_ROTATE_MS :: u64 where "COOKIE_ROTATE_MS = 120000"

definition mac1_key :: "crypto \<Rightarrow> bytes \<Rightarrow> bytes" where
  "mac1_key cr responder_sig_pubkey = blake2s cr (MAC1_LABEL @ responder_sig_pubkey)"

definition compute_mac1 :: "crypto \<Rightarrow> bytes \<Rightarrow> bytes \<Rightarrow> bytes" where
  "compute_mac1 cr responder_sig_pubkey msg = blake2s_mac cr (mac1_key cr responder_sig_pubkey) msg"

definition verify_mac1 :: "crypto \<Rightarrow> bytes \<Rightarrow> bytes \<Rightarrow> bytes \<Rightarrow> bool" where
  "verify_mac1 cr responder_sig_pubkey msg received \<longleftrightarrow> compute_mac1 cr responder_sig_pubkey msg = received"

record cookie_secret =
  ck_secret :: bytes
  ck_created_ms :: u64

definition cookie_new :: "bytes \<Rightarrow> u64 \<Rightarrow> cookie_secret" where
  "cookie_new initial_secret now_ms = \<lparr>ck_secret = initial_secret, ck_created_ms = now_ms\<rparr>"

definition needs_rotate :: "u64 \<Rightarrow> cookie_secret \<Rightarrow> bool" where
  "needs_rotate now_ms c \<longleftrightarrow> now_ms - ck_created_ms c \<ge> COOKIE_ROTATE_MS"

definition cookie_rotate :: "bytes \<Rightarrow> u64 \<Rightarrow> cookie_secret \<Rightarrow> cookie_secret" where
  "cookie_rotate new_secret now_ms c = c\<lparr>ck_secret := new_secret, ck_created_ms := now_ms\<rparr>"

definition issue_cookie :: "crypto \<Rightarrow> bytes \<Rightarrow> cookie_secret \<Rightarrow> bytes" where
  "issue_cookie cr source_addr c = blake2s_mac cr (ck_secret c) source_addr"

definition verify_cookie :: "crypto \<Rightarrow> bytes \<Rightarrow> bytes \<Rightarrow> cookie_secret \<Rightarrow> bool" where
  "verify_cookie cr source_addr received c \<longleftrightarrow> issue_cookie cr source_addr c = received"

section \<open>Constants\<close>

definition DHLEN :: nat where "DHLEN = 32"
definition HASHLEN :: nat where "HASHLEN = 32"
definition KEYLEN :: nat where "KEYLEN = 32"
definition TAGLEN :: nat where "TAGLEN = 16"
definition NONCELEN :: nat where "NONCELEN = 12"

text \<open>Noise\_IK\_25519\_ChaChaPoly\_BLAKE2s in ASCII.\<close>

definition PROTOCOL_NAME :: bytes where
  "PROTOCOL_NAME = [78, 111, 105, 115, 101, 95, 73, 75, 95, 50, 53, 53, 49, 57, 95, 67, 104, 97,
     67, 104, 97, 80, 111, 108, 121, 95, 66, 76, 65, 75, 69, 50, 115]"

definition MSG1_SIZE :: nat where "MSG1_SIZE = 144"
definition MSG2_SIZE :: nat where "MSG2_SIZE = 92"
definition MSG1_BEFORE_MAC1 :: nat where "MSG1_BEFORE_MAC1 = 112"
definition MSG2_BEFORE_MAC1 :: nat where "MSG2_BEFORE_MAC1 = 60"
definition OFF1_SENDER_INDEX :: nat where "OFF1_SENDER_INDEX = 4"
definition OFF1_EPHEMERAL :: nat where "OFF1_EPHEMERAL = 8"
definition OFF1_ENC_STATIC :: nat where "OFF1_ENC_STATIC = 40"
definition OFF1_ENC_TIMESTAMP :: nat where "OFF1_ENC_TIMESTAMP = 88"
definition OFF1_MAC1 :: nat where "OFF1_MAC1 = 112"
definition OFF1_MAC2 :: nat where "OFF1_MAC2 = 128"
definition OFF2_SENDER_INDEX :: nat where "OFF2_SENDER_INDEX = 4"
definition OFF2_RECEIVER_INDEX :: nat where "OFF2_RECEIVER_INDEX = 8"
definition OFF2_EPHEMERAL :: nat where "OFF2_EPHEMERAL = 12"
definition OFF2_ENC_NOTHING :: nat where "OFF2_ENC_NOTHING = 44"
definition OFF2_MAC1 :: nat where "OFF2_MAC1 = 60"
definition OFF2_MAC2 :: nat where "OFF2_MAC2 = 76"

lemmas noise_sizes =
  MAC_BYTES_def DHLEN_def HASHLEN_def KEYLEN_def TAGLEN_def NONCELEN_def MSG1_SIZE_def MSG2_SIZE_def
  MSG1_BEFORE_MAC1_def MSG2_BEFORE_MAC1_def OFF1_SENDER_INDEX_def OFF1_EPHEMERAL_def
  OFF1_ENC_STATIC_def OFF1_ENC_TIMESTAMP_def OFF1_MAC1_def OFF1_MAC2_def OFF2_SENDER_INDEX_def
  OFF2_RECEIVER_INDEX_def OFF2_EPHEMERAL_def OFF2_ENC_NOTHING_def OFF2_MAC1_def OFF2_MAC2_def

datatype noise_error = Mac1Failed | NoiseDecryptFailed | IdentityPoint

record handshake_result =
  hr_send_key :: bytes
  hr_recv_key :: bytes
  hr_handshake_hash :: bytes

section \<open>HMAC and HKDF\<close>

definition hmac_blake2s :: "crypto \<Rightarrow> bytes \<Rightarrow> bytes \<Rightarrow> bytes" where
  "hmac_blake2s cr key data =
     (let k0 = (if length key > 64 then blake2s cr key else key);
          k = k0 @ replicate (64 - length k0) 0;
          ipad = map (\<lambda>b. 54 XOR b) k; opad = map (\<lambda>b. 92 XOR b) k
      in blake2s cr (opad @ blake2s cr (ipad @ data)))"

definition hkdf2 :: "crypto \<Rightarrow> bytes \<Rightarrow> bytes \<Rightarrow> bytes \<times> bytes" where
  "hkdf2 cr ck ikm =
     (let temp_key = hmac_blake2s cr ck ikm;
          o1 = hmac_blake2s cr temp_key [1];
          o2 = hmac_blake2s cr temp_key (o1 @ [2])
      in (o1, o2))"

definition transport_nonce :: "u64 \<Rightarrow> bytes" where
  "transport_nonce counter = [0, 0, 0, 0] @ to_be_bytes counter"

definition dh :: "crypto \<Rightarrow> bytes \<Rightarrow> bytes \<Rightarrow> (bytes, noise_error) outcome" where
  "dh cr sk pk =
     (let shared = x25519 cr sk pk in
      if shared = replicate 32 0 then Err IdentityPoint else Ok shared)"

section \<open>The symmetric state\<close>

record symmetric_state =
  sy_h :: bytes
  sy_ck :: bytes
  sy_k :: bytes
  sy_n :: u64
  sy_has_key :: bool

definition sym_init :: "crypto \<Rightarrow> symmetric_state" where
  "sym_init cr = (let h = blake2s cr PROTOCOL_NAME in
     \<lparr>sy_h = h, sy_ck = h, sy_k = replicate KEYLEN 0, sy_n = 0, sy_has_key = False\<rparr>)"

definition mix_hash :: "crypto \<Rightarrow> bytes \<Rightarrow> symmetric_state \<Rightarrow> symmetric_state" where
  "mix_hash cr data s = s\<lparr>sy_h := blake2s cr (sy_h s @ data)\<rparr>"

definition mix_key :: "crypto \<Rightarrow> bytes \<Rightarrow> symmetric_state \<Rightarrow> symmetric_state" where
  "mix_key cr ikm s =
     (let (o1, o2) = hkdf2 cr (sy_ck s) ikm
      in s\<lparr>sy_ck := o1, sy_k := o2, sy_n := 0, sy_has_key := True\<rparr>)"

definition encrypt_and_hash :: "crypto \<Rightarrow> bytes \<Rightarrow> symmetric_state \<Rightarrow> bytes \<times> symmetric_state" where
  "encrypt_and_hash cr pt s =
     (if sy_has_key s then
        let ct = aead_seal cr (sy_k s) (transport_nonce (sy_n s)) (sy_h s) pt
        in (ct, mix_hash cr ct (s\<lparr>sy_n := sy_n s + 1\<rparr>))
      else (pt, mix_hash cr pt s))"

definition decrypt_and_hash ::
  "crypto \<Rightarrow> bytes \<Rightarrow> symmetric_state \<Rightarrow> (bytes, noise_error) outcome \<times> symmetric_state" where
  "decrypt_and_hash cr ct s =
     (if sy_has_key s then
        (if length ct < TAGLEN then (Panic, s)
         else case aead_open cr (sy_k s) (transport_nonce (sy_n s)) (sy_h s) ct of
           None \<Rightarrow> (Err NoiseDecryptFailed, s)
         | Some pt \<Rightarrow> (Ok pt, mix_hash cr ct (s\<lparr>sy_n := sy_n s + 1\<rparr>)))
      else (Ok ct, mix_hash cr ct s))"

definition sym_split :: "crypto \<Rightarrow> symmetric_state \<Rightarrow> bytes \<times> bytes" where
  "sym_split cr s = hkdf2 cr (sy_ck s) []"

record key_pair =
  kp_secret :: bytes
  kp_public :: bytes

definition from_secret :: "crypto \<Rightarrow> bytes \<Rightarrow> key_pair" where
  "from_secret cr secret = \<lparr>kp_secret = secret, kp_public = x25519 cr secret (x25519_base cr)\<rparr>"

section \<open>The initiator\<close>

record initiator =
  in_eph_kp :: key_pair
  in_static_kp :: key_pair
  in_re :: bytes
  in_responder_static_pub :: bytes
  in_sym :: symmetric_state

definition initiator_new :: "crypto \<Rightarrow> key_pair \<Rightarrow> bytes \<Rightarrow> initiator" where
  "initiator_new cr static_kp responder_static_pub =
     \<lparr>in_eph_kp = from_secret cr (replicate 32 0), in_static_kp = static_kp, in_re = replicate 32 0,
      in_responder_static_pub = responder_static_pub,
      in_sym = mix_hash cr responder_static_pub (sym_init cr)\<rparr>"

definition write_initiation ::
  "crypto \<Rightarrow> bytes \<Rightarrow> u32 \<Rightarrow> u64 \<Rightarrow> bytes \<Rightarrow> bytes \<Rightarrow> initiator \<Rightarrow> (bytes, noise_error) outcome \<times> initiator" where
  "write_initiation cr eph_secret sender_index timestamp_ms responder_sig_pubkey mac2_cookie i =
     (let kp = from_secret cr eph_secret;
          i = i\<lparr>in_eph_kp := kp, in_sym := mix_hash cr (kp_public kp) (in_sym i)\<rparr>
      in case dh cr (kp_secret kp) (in_responder_static_pub i) of
           Err e \<Rightarrow> (Err e, i) | Panic \<Rightarrow> (Panic, i)
         | Ok sh \<Rightarrow>
           let (enc_static, sy) = encrypt_and_hash cr (kp_public (in_static_kp i)) (mix_key cr sh (in_sym i));
               i = i\<lparr>in_sym := sy\<rparr>
           in case dh cr (kp_secret (in_static_kp i)) (in_responder_static_pub i) of
                Err e \<Rightarrow> (Err e, i) | Panic \<Rightarrow> (Panic, i)
              | Ok sh2 \<Rightarrow>
                let (enc_ts, sy) = encrypt_and_hash cr (to_be_bytes timestamp_ms) (mix_key cr sh2 (in_sym i));
                    i = i\<lparr>in_sym := sy\<rparr>;
                    covered = [1, 0, 0, 0] @ to_be_bytes sender_index @ kp_public kp @ enc_static @ enc_ts
                in (Ok (covered @ compute_mac1 cr responder_sig_pubkey covered @ mac2_cookie), i))"

definition read_response ::
  "crypto \<Rightarrow> bytes \<Rightarrow> bytes \<Rightarrow> initiator \<Rightarrow> (unit, noise_error) outcome \<times> initiator" where
  "read_response cr msg2 responder_sig_pubkey i =
     (if \<not> verify_mac1 cr responder_sig_pubkey (take MSG2_BEFORE_MAC1 msg2) (take MAC_BYTES (drop OFF2_MAC1 msg2))
      then (Err Mac1Failed, i)
      else
        let eph_r = take DHLEN (drop OFF2_EPHEMERAL msg2);
            i = i\<lparr>in_re := eph_r, in_sym := mix_hash cr eph_r (in_sym i)\<rparr>
        in case dh cr (kp_secret (in_eph_kp i)) (in_re i) of
             Err e \<Rightarrow> (Err e, i) | Panic \<Rightarrow> (Panic, i)
           | Ok ee \<Rightarrow>
             let i = i\<lparr>in_sym := mix_key cr ee (in_sym i)\<rparr>
             in case dh cr (kp_secret (in_static_kp i)) (in_re i) of
                  Err e \<Rightarrow> (Err e, i) | Panic \<Rightarrow> (Panic, i)
                | Ok se \<Rightarrow>
                  (case decrypt_and_hash cr (take TAGLEN (drop OFF2_ENC_NOTHING msg2)) (mix_key cr se (in_sym i)) of
                     (Ok _, sy) \<Rightarrow> (Ok (), i\<lparr>in_sym := sy\<rparr>)
                   | (Err e, sy) \<Rightarrow> (Err e, i\<lparr>in_sym := sy\<rparr>)
                   | (Panic, sy) \<Rightarrow> (Panic, i\<lparr>in_sym := sy\<rparr>)))"

definition initiator_finalize :: "crypto \<Rightarrow> initiator \<Rightarrow> handshake_result" where
  "initiator_finalize cr i = (let (c1, c2) = sym_split cr (in_sym i) in
     \<lparr>hr_send_key = c1, hr_recv_key = c2, hr_handshake_hash = sy_h (in_sym i)\<rparr>)"

section \<open>The responder\<close>

record responder =
  rp_static_kp :: key_pair
  rp_eph_kp :: key_pair
  rp_re :: bytes
  rp_remote_static_pub :: bytes
  rp_sym :: symmetric_state

record initiation_info =
  ii_sender_index :: u32
  ii_initiator_static_pub :: bytes
  ii_timestamp_ms :: u64

definition responder_new :: "crypto \<Rightarrow> key_pair \<Rightarrow> responder" where
  "responder_new cr static_kp =
     \<lparr>rp_static_kp = static_kp, rp_eph_kp = from_secret cr (replicate 32 0), rp_re = replicate 32 0,
      rp_remote_static_pub = replicate 32 0, rp_sym = mix_hash cr (kp_public static_kp) (sym_init cr)\<rparr>"

definition read_initiation ::
  "crypto \<Rightarrow> bytes \<Rightarrow> bytes \<Rightarrow> responder \<Rightarrow> (initiation_info, noise_error) outcome \<times> responder" where
  "read_initiation cr msg1 own_sig_pubkey r =
     (if \<not> verify_mac1 cr own_sig_pubkey (take MSG1_BEFORE_MAC1 msg1) (take MAC_BYTES (drop OFF1_MAC1 msg1))
      then (Err Mac1Failed, r)
      else
        let eph_i = take DHLEN (drop OFF1_EPHEMERAL msg1);
            r = r\<lparr>rp_re := eph_i, rp_sym := mix_hash cr eph_i (rp_sym r)\<rparr>
        in case dh cr (kp_secret (rp_static_kp r)) (rp_re r) of
             Err e \<Rightarrow> (Err e, r) | Panic \<Rightarrow> (Panic, r)
           | Ok es \<Rightarrow>
             (case decrypt_and_hash cr (take (DHLEN + TAGLEN) (drop OFF1_ENC_STATIC msg1)) (mix_key cr es (rp_sym r)) of
                (Err e, sy) \<Rightarrow> (Err e, r\<lparr>rp_sym := sy\<rparr>) | (Panic, sy) \<Rightarrow> (Panic, r\<lparr>rp_sym := sy\<rparr>)
              | (Ok static_i, sy) \<Rightarrow>
                let r = r\<lparr>rp_sym := sy, rp_remote_static_pub := static_i\<rparr>
                in case dh cr (kp_secret (rp_static_kp r)) (rp_remote_static_pub r) of
                     Err e \<Rightarrow> (Err e, r) | Panic \<Rightarrow> (Panic, r)
                   | Ok ss \<Rightarrow>
                     (case decrypt_and_hash cr (take (8 + TAGLEN) (drop OFF1_ENC_TIMESTAMP msg1)) (mix_key cr ss (rp_sym r)) of
                        (Err e, sy) \<Rightarrow> (Err e, r\<lparr>rp_sym := sy\<rparr>) | (Panic, sy) \<Rightarrow> (Panic, r\<lparr>rp_sym := sy\<rparr>)
                      | (Ok ts, sy) \<Rightarrow>
                          (Ok \<lparr>ii_sender_index = from_be_bytes (take 4 (drop OFF1_SENDER_INDEX msg1)),
                              ii_initiator_static_pub = static_i, ii_timestamp_ms = from_be_bytes ts\<rparr>,
                           r\<lparr>rp_sym := sy\<rparr>))))"

definition write_response ::
  "crypto \<Rightarrow> bytes \<Rightarrow> u32 \<Rightarrow> u32 \<Rightarrow> bytes \<Rightarrow> bytes \<Rightarrow> responder \<Rightarrow> (bytes, noise_error) outcome \<times> responder" where
  "write_response cr eph_secret sender_index receiver_index own_sig_pubkey mac2_cookie r =
     (let kp = from_secret cr eph_secret;
          r = r\<lparr>rp_eph_kp := kp, rp_sym := mix_hash cr (kp_public kp) (rp_sym r)\<rparr>
      in case dh cr (kp_secret kp) (rp_re r) of
           Err e \<Rightarrow> (Err e, r) | Panic \<Rightarrow> (Panic, r)
         | Ok ee \<Rightarrow>
           let r = r\<lparr>rp_sym := mix_key cr ee (rp_sym r)\<rparr>
           in case dh cr (kp_secret kp) (rp_remote_static_pub r) of
                Err e \<Rightarrow> (Err e, r) | Panic \<Rightarrow> (Panic, r)
              | Ok se \<Rightarrow>
                let (nothing, sy) = encrypt_and_hash cr [] (mix_key cr se (rp_sym r));
                    r = r\<lparr>rp_sym := sy\<rparr>;
                    covered = [2, 0, 0, 0] @ to_be_bytes sender_index @ to_be_bytes receiver_index
                      @ kp_public kp @ nothing
                in (Ok (covered @ compute_mac1 cr own_sig_pubkey covered @ mac2_cookie), r))"

definition responder_finalize :: "crypto \<Rightarrow> responder \<Rightarrow> handshake_result" where
  "responder_finalize cr r = (let (c1, c2) = sym_split cr (rp_sym r) in
     \<lparr>hr_send_key = c2, hr_recv_key = c1, hr_handshake_hash = sy_h (rp_sym r)\<rparr>)"

section \<open>What the handshake relies on\<close>

text \<open>
  Documented behaviour of the primitives: the Diffie-Hellman function commutes on public
  points, the AEAD opens what it sealed, and the lengths of their results.
\<close>

definition crypto_laws :: "crypto \<Rightarrow> bool" where
  "crypto_laws cr \<longleftrightarrow>
     (\<forall>a b. length a = 32 \<longrightarrow> length b = 32 \<longrightarrow>
        x25519 cr a (x25519 cr b (x25519_base cr)) = x25519 cr b (x25519 cr a (x25519_base cr)))
     \<and> (\<forall>k n ad pt. aead_open cr k n ad (aead_seal cr k n ad pt) = Some pt)
     \<and> (\<forall>k n ad pt. length (aead_seal cr k n ad pt) = length pt + 16)
     \<and> (\<forall>a. length a = 32 \<longrightarrow> length (x25519 cr a (x25519_base cr)) = 32)
     \<and> (\<forall>k m. length (blake2s_mac cr k m) = 16)"

lemma toy_crypto_laws: "crypto_laws toy_crypto"
  unfolding crypto_laws_def
proof (intro conjI allI impI)
  fix a b :: bytes
  assume "length a = 32" "length b = 32"
  then show "x25519 toy_crypto a (x25519 toy_crypto b (x25519_base toy_crypto))
      = x25519 toy_crypto b (x25519 toy_crypto a (x25519_base toy_crypto))"
    by (intro nth_equalityI) (simp_all add: toy_crypto_def)
qed (simp_all add: toy_crypto_def)

section \<open>Agreement\<close>

lemma decrypt_encrypt:
  assumes "crypto_laws cr" "sy_has_key s"
  shows "decrypt_and_hash cr (fst (encrypt_and_hash cr pt s)) s = (Ok pt, snd (encrypt_and_hash cr pt s))
    \<and> length (fst (encrypt_and_hash cr pt s)) = length pt + 16"
  using assms by (simp add: encrypt_and_hash_def decrypt_and_hash_def crypto_laws_def Let_def TAGLEN_def)

lemma mix_key_has_key [simp]: "sy_has_key (mix_key cr k s)"
  by (simp add: mix_key_def split: prod.split)

lemma dh_cases: "(\<exists>sh. dh cr a b = Ok sh) \<or> dh cr a b = Err IdentityPoint"
  by (simp add: dh_def Let_def)

lemma dh_commutes:
  "crypto_laws cr \<Longrightarrow> length a = 32 \<Longrightarrow> length b = 32 \<Longrightarrow>
     dh cr a (kp_public (from_secret cr b)) = dh cr b (kp_public (from_secret cr a))"
  by (simp add: dh_def from_secret_def crypto_laws_def)

lemma length_public: "crypto_laws cr \<Longrightarrow> length a = 32 \<Longrightarrow> length (kp_public (from_secret cr a)) = 32"
  by (simp add: from_secret_def crypto_laws_def)

lemma length_mac1: "crypto_laws cr \<Longrightarrow> length (compute_mac1 cr k m) = 16"
  by (simp add: compute_mac1_def crypto_laws_def)

lemma from_secret_secret [simp]: "kp_secret (from_secret cr a) = a"
  by (simp add: from_secret_def)

text \<open>
  The first message: what the initiator writes for the responder's static key, the responder
  reads, and the symmetric states agree afterwards.
\<close>

lemma initiation_agrees:
  assumes laws: "crypto_laws cr" and len: "length si = 32" "length sr = 32" "length ei = 32"
    and w: "write_initiation cr ei idx ts sig cookie
      (initiator_new cr (from_secret cr si) (kp_public (from_secret cr sr))) = (Ok msg1, i)"
  shows "\<exists>r. read_initiation cr msg1 sig (responder_new cr (from_secret cr sr)) =
      (Ok \<lparr>ii_sender_index = idx, ii_initiator_static_pub = kp_public (from_secret cr si),
          ii_timestamp_ms = ts\<rparr>, r)
    \<and> rp_sym r = in_sym i \<and> rp_re r = kp_public (from_secret cr ei)
    \<and> rp_remote_static_pub r = kp_public (from_secret cr si)
    \<and> in_eph_kp i = from_secret cr ei \<and> in_static_kp i = from_secret cr si
    \<and> length msg1 = 128 + length cookie"
proof -
  let ?si = "from_secret cr si" and ?sr = "from_secret cr sr" and ?ei = "from_secret cr ei"
  define s1 where "s1 = mix_hash cr (kp_public ?ei) (mix_hash cr (kp_public ?sr) (sym_init cr))"
  obtain sh where sh: "dh cr ei (kp_public ?sr) = Ok sh"
    using w dh_cases [of cr ei "kp_public ?sr"] by (auto simp: write_initiation_def initiator_new_def Let_def)
  define s2 where "s2 = mix_key cr sh s1"
  obtain ct s3 where e1: "encrypt_and_hash cr (kp_public ?si) s2 = (ct, s3)" by fastforce
  obtain sh2 where sh2: "dh cr si (kp_public ?sr) = Ok sh2"
    using w sh e1 dh_cases [of cr si "kp_public ?sr"]
    by (auto simp: write_initiation_def initiator_new_def Let_def s1_def [symmetric] s2_def [symmetric])
  define s4 where "s4 = mix_key cr sh2 s3"
  obtain ct2 s5 where e2: "encrypt_and_hash cr (to_be_bytes ts) s4 = (ct2, s5)" by fastforce
  have d1: "decrypt_and_hash cr ct s2 = (Ok (kp_public ?si), s3)" "length ct = 48"
    using decrypt_encrypt [OF laws, of s2 "kp_public ?si"] e1 length_public [OF laws len(1)]
    by (simp_all add: s2_def)
  have d2: "decrypt_and_hash cr ct2 s4 = (Ok (to_be_bytes ts), s5)" "length ct2 = 24"
    using decrypt_encrypt [OF laws, of s4 "to_be_bytes ts"] e2 by (simp_all add: s4_def)
  define cov where "cov = [1, 0, 0, 0] @ to_be_bytes idx @ kp_public ?ei @ ct @ ct2"
  have m: "msg1 = cov @ compute_mac1 cr sig cov @ cookie"
    and i: "in_sym i = s5" "in_eph_kp i = ?ei" "in_static_kp i = ?si"
    using w sh sh2 e1 e2
    by (auto simp: write_initiation_def initiator_new_def Let_def s1_def [symmetric] s2_def [symmetric]
        s4_def [symmetric] cov_def)
  have pe: "length (kp_public ?ei) = 32" by (rule length_public [OF laws len(3)])
  have cov: "length cov = 112" by (simp add: cov_def pe d1 d2)
  have parts: "take 112 msg1 = cov" "take 16 (drop 112 msg1) = compute_mac1 cr sig cov"
    "take 32 (drop 8 msg1) = kp_public ?ei" "take 48 (drop 40 msg1) = ct" "take 24 (drop 88 msg1) = ct2"
    "take 4 (drop 4 msg1) = to_be_bytes idx"
    using length_mac1 [OF laws, of sig cov] by (simp_all add: m cov) (simp_all add: cov_def pe d1 d2)
  have es: "dh cr sr (kp_public ?ei) = Ok sh" using dh_commutes [OF laws len(2,3)] sh by simp
  have ss: "dh cr sr (kp_public ?si) = Ok sh2" using dh_commutes [OF laws len(2,1)] sh2 by simp
  show ?thesis
    using length_mac1 [OF laws, of sig cov]
    by (simp add: read_initiation_def noise_sizes parts verify_mac1_def responder_new_def Let_def es ss
        s1_def [symmetric] s2_def [symmetric] s4_def [symmetric] d1 d2 i) (simp add: m cov)
qed

text \<open>The second message, from agreeing states.\<close>

lemma response_agrees:
  assumes laws: "crypto_laws cr" and len: "length si = 32" "length ei = 32" "length er = 32"
    and r: "rp_sym r = in_sym i" "rp_re r = kp_public (from_secret cr ei)"
      "rp_remote_static_pub r = kp_public (from_secret cr si)"
    and i: "in_eph_kp i = from_secret cr ei" "in_static_kp i = from_secret cr si"
    and w: "write_response cr er ridx idx sig cookie r = (Ok msg2, r')"
  shows "\<exists>i'. read_response cr msg2 sig i = (Ok (), i') \<and> in_sym i' = rp_sym r'"
proof -
  let ?si = "from_secret cr si" and ?er = "from_secret cr er" and ?ei = "from_secret cr ei"
  define s1 where "s1 = mix_hash cr (kp_public ?er) (in_sym i)"
  obtain sh where sh: "dh cr er (kp_public ?ei) = Ok sh"
    using w r dh_cases [of cr er "kp_public ?ei"] by (auto simp: write_response_def Let_def)
  define s2 where "s2 = mix_key cr sh s1"
  obtain sh2 where sh2: "dh cr er (kp_public ?si) = Ok sh2"
    using w r sh dh_cases [of cr er "kp_public ?si"] by (auto simp: write_response_def Let_def)
  define s3 where "s3 = mix_key cr sh2 s2"
  obtain ct s4 where e: "encrypt_and_hash cr [] s3 = (ct, s4)" by fastforce
  have d: "decrypt_and_hash cr ct s3 = (Ok [], s4)" "length ct = 16"
    using decrypt_encrypt [OF laws, of s3 "[]"] e by (simp_all add: s3_def)
  define cov where "cov = [2, 0, 0, 0] @ to_be_bytes ridx @ to_be_bytes idx @ kp_public ?er @ ct"
  have m: "msg2 = cov @ compute_mac1 cr sig cov @ cookie" and r': "rp_sym r' = s4"
    using w r sh sh2 e
    by (auto simp: write_response_def Let_def s1_def [symmetric] s2_def [symmetric] s3_def [symmetric] cov_def)
  have pe: "length (kp_public ?er) = 32" by (rule length_public [OF laws len(3)])
  have cov: "length cov = 60" by (simp add: cov_def pe d)
  have parts: "take 60 msg2 = cov" "take 16 (drop 60 msg2) = compute_mac1 cr sig cov"
    "take 32 (drop 12 msg2) = kp_public ?er" "take 16 (drop 44 msg2) = ct"
    using length_mac1 [OF laws, of sig cov] by (simp_all add: m cov) (simp_all add: cov_def pe d)
  have ee: "dh cr ei (kp_public ?er) = Ok sh" using dh_commutes [OF laws len(2,3)] sh by simp
  have se: "dh cr si (kp_public ?er) = Ok sh2" using dh_commutes [OF laws len(1,3)] sh2 by simp
  show ?thesis
    by (simp add: read_response_def noise_sizes parts verify_mac1_def Let_def ee se i r'
        s1_def [symmetric] s2_def [symmetric] s3_def [symmetric] d)
qed

section \<open>Properties\<close>

text \<open>
  Agreement: under the documented behaviour of the primitives, whenever the initiator
  writes an initiation for the responder's static key and the responder writes its response,
  each side reads the other's message; the responder learns the initiator's index, static key
  and timestamp, and the two sides end with the same handshake hash and crossed keys.
\<close>

theorem handshake_agreement:
  assumes "crypto_laws cr" "length si = 32" "length sr = 32" "length ei = 32" "length er = 32"
    and "write_initiation cr ei idx ts sig cookie
      (initiator_new cr (from_secret cr si) (kp_public (from_secret cr sr))) = (Ok msg1, i)"
    and "write_response cr er ridx idx sig cookie'
      (snd (read_initiation cr msg1 sig (responder_new cr (from_secret cr sr)))) = (Ok msg2, r)"
  shows "fst (read_initiation cr msg1 sig (responder_new cr (from_secret cr sr))) =
      Ok \<lparr>ii_sender_index = idx, ii_initiator_static_pub = kp_public (from_secret cr si), ii_timestamp_ms = ts\<rparr>
    \<and> fst (read_response cr msg2 sig i) = Ok ()
    \<and> hr_handshake_hash (initiator_finalize cr (snd (read_response cr msg2 sig i)))
      = hr_handshake_hash (responder_finalize cr r)
    \<and> hr_send_key (initiator_finalize cr (snd (read_response cr msg2 sig i)))
      = hr_recv_key (responder_finalize cr r)
    \<and> hr_recv_key (initiator_finalize cr (snd (read_response cr msg2 sig i)))
      = hr_send_key (responder_finalize cr r)"
proof -
  from initiation_agrees [OF assms(1-4,6)] obtain r0 where
    r0: "read_initiation cr msg1 sig (responder_new cr (from_secret cr sr)) =
      (Ok \<lparr>ii_sender_index = idx, ii_initiator_static_pub = kp_public (from_secret cr si),
          ii_timestamp_ms = ts\<rparr>, r0)"
    and st: "rp_sym r0 = in_sym i" "rp_re r0 = kp_public (from_secret cr ei)"
      "rp_remote_static_pub r0 = kp_public (from_secret cr si)"
      "in_eph_kp i = from_secret cr ei" "in_static_kp i = from_secret cr si" by blast
  have w: "write_response cr er ridx idx sig cookie' r0 = (Ok msg2, r)" using assms(7) r0 by simp
  from response_agrees [OF assms(1,2,4,5) st w] obtain i' where
    "read_response cr msg2 sig i = (Ok (), i')" "in_sym i' = rp_sym r" by blast
  with r0 show ?thesis
    by (simp add: initiator_finalize_def responder_finalize_def split: prod.split)
qed

lemma toy_dh: "a \<noteq> [] \<Longrightarrow> length a = length b \<Longrightarrow> hd a + hd b \<noteq> 0 \<Longrightarrow>
  dh toy_crypto a b = Ok (map2 (+) a b)"
proof -
  assume a: "a \<noteq> []" "length a = length b" "hd a + hd b \<noteq> 0"
  then have "hd (map2 (+) a b) \<noteq> 0" by (cases a; cases b) auto
  moreover have "hd (replicate 32 (0 :: u8)) = 0" by (simp add: numeral_eq_Suc)
  ultimately have "map2 (+) a b \<noteq> replicate 32 0" by metis
  then show ?thesis by (simp add: dh_def toy_crypto_def)
qed

lemma handshake_agreement_witness:
  "\<exists>msg1 i msg2 r. fst (read_initiation toy_crypto msg1 (replicate 32 5)
      (responder_new toy_crypto (from_secret toy_crypto (replicate 32 2)))) =
      Ok \<lparr>ii_sender_index = 7, ii_initiator_static_pub = kp_public (from_secret toy_crypto (replicate 32 1)),
          ii_timestamp_ms = 99\<rparr>
    \<and> fst (read_response toy_crypto msg2 (replicate 32 5) i) = Ok ()
    \<and> hr_send_key (initiator_finalize toy_crypto (snd (read_response toy_crypto msg2 (replicate 32 5) i)))
      = hr_recv_key (responder_finalize toy_crypto r)"
proof -
  have pub: "kp_public (from_secret toy_crypto (replicate 32 x)) = replicate 32 (x + 9)" for x
    by (simp add: from_secret_def toy_crypto_def zip_replicate)
  have d: "dh toy_crypto (replicate 32 x) (replicate 32 y) = Ok (replicate 32 (x + y))" if "x + y \<noteq> 0" for x y
    using that toy_dh [of "replicate 32 x" "replicate 32 y"]
    by (simp add: zip_replicate)
  let ?sr = "from_secret toy_crypto (replicate 32 2)" and ?si = "from_secret toy_crypto (replicate 32 1)"
  obtain msg1 i where w1: "write_initiation toy_crypto (replicate 32 3) 7 99 (replicate 32 5) []
      (initiator_new toy_crypto ?si (kp_public ?sr)) = (Ok msg1, i)"
    by (simp add: write_initiation_def initiator_new_def Let_def pub d split_beta)
  from initiation_agrees [OF toy_crypto_laws _ _ _ w1] obtain r0 where
    r0: "snd (read_initiation toy_crypto msg1 (replicate 32 5) (responder_new toy_crypto ?sr)) = r0"
      "rp_re r0 = kp_public (from_secret toy_crypto (replicate 32 3))" "rp_remote_static_pub r0 = kp_public ?si"
    by auto
  obtain msg2 r where w2: "write_response toy_crypto (replicate 32 4) 1 7 (replicate 32 5) [] r0 = (Ok msg2, r)"
    by (simp add: write_response_def Let_def pub d r0 split_beta)
  from handshake_agreement [OF toy_crypto_laws _ _ _ _ w1, of "replicate 32 4" 1 "[]" msg2 r] w2 r0(1)
  show ?thesis by auto
qed

end
