(* ===== verification/Session.thy ===== *)
theory Session
  imports Replay Noise
begin

text \<open>
  Transport sessions (src/src/transport/session.rs): the 64-bit replay window with its zero
  sentinel, the two directions of a session, sealing and opening of type-4 packets, key
  rotation and the table of 512 slots. An output buffer is its length; the bytes a call
  writes are its result. The encryption of a plaintext is total (the package refuses only
  messages of more than 2^38 bytes).
\<close>

unbundle bit_operations_syntax

section \<open>Constants and errors\<close>

definition MAX_SESSIONS :: nat where "MAX_SESSIONS = 512"
definition REKEY_AFTER_MS :: u64 where "REKEY_AFTER_MS = 120000"
definition REKEY_AFTER_MESSAGES :: u64 where "REKEY_AFTER_MESSAGES = push_bit 48 1"
definition HEADER_SIZE :: nat where "HEADER_SIZE = 16"
definition MSG_TYPE_TRANSPORT :: u8 where "MSG_TYPE_TRANSPORT = 4"

datatype transport_error = RekeyRequired | TransportDecryptFailed | TransportReplay | SlotFull | OutOfRange | NotBound

section \<open>The replay window\<close>

record recv_window =
  wi_highest :: u64
  wi_mask :: u64

definition recv_window_new :: recv_window where
  "recv_window_new = \<lparr>wi_highest = 0, wi_mask = 0\<rparr>"

definition recv_check :: "u64 \<Rightarrow> recv_window \<Rightarrow> bool \<times> recv_window" where
  "recv_check counter w =
     (if wi_highest w = 0 then (True, w\<lparr>wi_highest := counter, wi_mask := 1\<rparr>)
      else if counter > wi_highest w then
        let shift = counter - wi_highest w;
            mask = (if shift \<ge> 64 then 0 else push_bit (unat shift) (wi_mask w))
        in (True, w\<lparr>wi_mask := mask OR 1, wi_highest := counter\<rparr>)
      else if counter = wi_highest w then (False, w)
      else
        let behind = wi_highest w - counter in
        if behind \<ge> 64 then (False, w)
        else
          let b = push_bit (unat behind) 1 in
          if wi_mask w AND b \<noteq> 0 then (False, w)
          else (True, w\<lparr>wi_mask := wi_mask w OR b\<rparr>))"

definition recv_window_zero :: "recv_window \<Rightarrow> recv_window" where
  "recv_window_zero w = w\<lparr>wi_highest := 0, wi_mask := 0\<rparr>"

section \<open>The two directions\<close>

record cipher_state =
  cs_key :: bytes
  cs_counter :: u64

definition cipher_state_new :: cipher_state where
  "cipher_state_new = \<lparr>cs_key = replicate 32 0, cs_counter = 0\<rparr>"

definition cipher_seal ::
  "crypto \<Rightarrow> nat \<Rightarrow> bytes \<Rightarrow> bytes \<Rightarrow> cipher_state \<Rightarrow> (bytes, transport_error) outcome \<times> cipher_state" where
  "cipher_seal cr out_len plaintext ad c =
     (if cs_counter c \<ge> REKEY_AFTER_MESSAGES then (Err RekeyRequired, c)
      else if out_len < length plaintext + 16 then (Err OutOfRange, c)
      else (Ok (aead_seal cr (cs_key c) (transport_nonce (cs_counter c)) ad plaintext),
            c\<lparr>cs_counter := cs_counter c + 1\<rparr>))"

definition cipher_zero :: "cipher_state \<Rightarrow> cipher_state" where
  "cipher_zero c = c\<lparr>cs_key := replicate 32 0, cs_counter := 0\<rparr>"

record recv_state =
  rs_key :: bytes
  rs_window :: recv_window

definition recv_state_new :: recv_state where
  "recv_state_new = \<lparr>rs_key = replicate 32 0, rs_window = recv_window_new\<rparr>"

definition recv_open ::
  "crypto \<Rightarrow> nat \<Rightarrow> bytes \<Rightarrow> bytes \<Rightarrow> u64 \<Rightarrow> recv_state \<Rightarrow> (bytes, transport_error) outcome \<times> recv_state" where
  "recv_open cr out_len ad ct counter r =
     (if length ct < 16 then (Err TransportDecryptFailed, r)
      else if out_len < length ct - 16 then (Err OutOfRange, r)
      else case aead_open cr (rs_key r) (transport_nonce counter) ad ct of
        None \<Rightarrow> (Err TransportDecryptFailed, r)
      | Some pt \<Rightarrow>
        let (fresh, w) = recv_check counter (rs_window r); r = r\<lparr>rs_window := w\<rparr>
        in if fresh then (Ok pt, r) else (Err TransportReplay, r))"

definition recv_zero :: "recv_state \<Rightarrow> recv_state" where
  "recv_zero r = r\<lparr>rs_key := replicate 32 0, rs_window := recv_window_zero (rs_window r)\<rparr>"

section \<open>A session\<close>

record session =
  se_local_index :: u32
  se_peer_index :: u32
  se_send :: cipher_state
  se_recv :: recv_state
  se_handshake_hash :: bytes
  se_key_epoch_ms :: u64
  se_bound :: bool
  se_in_use :: bool

definition session_new :: session where
  "session_new =
     \<lparr>se_local_index = 0, se_peer_index = 0, se_send = cipher_state_new, se_recv = recv_state_new,
      se_handshake_hash = replicate 32 0, se_key_epoch_ms = 0, se_bound = False, se_in_use = False\<rparr>"

definition due_for_rekey :: "u64 \<Rightarrow> session \<Rightarrow> (bool, 'e) outcome" where
  "due_for_rekey now_ms s =
     (if cs_counter (se_send s) \<ge> REKEY_AFTER_MESSAGES then Ok True
      else and_then (checked_add (se_key_epoch_ms s) REKEY_AFTER_MS) (\<lambda>due. Ok (now_ms \<ge> due)))"

definition transport_header :: "u32 \<Rightarrow> u64 \<Rightarrow> bytes" where
  "transport_header peer_index counter =
     [MSG_TYPE_TRANSPORT, 0, 0, 0] @ to_be_bytes peer_index @ to_be_bytes counter"

definition session_seal ::
  "crypto \<Rightarrow> nat \<Rightarrow> bytes \<Rightarrow> session \<Rightarrow> (bytes, transport_error) outcome \<times> session" where
  "session_seal cr out_len plaintext s =
     (let total = HEADER_SIZE + length plaintext + 16 in
      if out_len < total then (Err OutOfRange, s)
      else
        let header = transport_header (se_peer_index s) (cs_counter (se_send s));
            (res, c) = cipher_seal cr (total - HEADER_SIZE) plaintext header (se_send s);
            s = s\<lparr>se_send := c\<rparr>
        in case res of Ok ct \<Rightarrow> (Ok (header @ ct), s) | Err e \<Rightarrow> (Err e, s) | Panic \<Rightarrow> (Panic, s))"

definition session_open ::
  "crypto \<Rightarrow> bytes \<Rightarrow> u64 \<Rightarrow> nat \<Rightarrow> session \<Rightarrow> (bytes, transport_error) outcome \<times> session" where
  "session_open cr packet hdr_counter out_len s =
     (if length packet < HEADER_SIZE then (Err OutOfRange, s)
      else
        let (res, r) = recv_open cr out_len (take HEADER_SIZE packet) (drop HEADER_SIZE packet) hdr_counter (se_recv s)
        in (res, s\<lparr>se_recv := r\<rparr>))"

definition session_rotate :: "bytes \<Rightarrow> bytes \<Rightarrow> bytes \<Rightarrow> u64 \<Rightarrow> session \<Rightarrow> session" where
  "session_rotate send_key recv_key handshake_hash now_ms s =
     s\<lparr>se_send := (cipher_zero (se_send s))\<lparr>cs_key := send_key\<rparr>,
       se_recv := (recv_zero (se_recv s))\<lparr>rs_key := recv_key\<rparr>,
       se_handshake_hash := handshake_hash, se_key_epoch_ms := now_ms\<rparr>"

section \<open>The table\<close>

type_synonym session_table = "session list"

definition session_table_new :: session_table where
  "session_table_new = map (\<lambda>_. session_new) [0..<MAX_SESSIONS]"

definition session_lookup :: "u32 \<Rightarrow> session_table \<Rightarrow> session option" where
  "session_lookup local_index t =
     (if unat local_index \<ge> MAX_SESSIONS then None
      else if \<not> se_in_use (t ! unat local_index) then None
      else Some (t ! unat local_index))"

definition session_lookup_immut :: "u32 \<Rightarrow> session_table \<Rightarrow> session option" where
  "session_lookup_immut local_index t =
     (if unat local_index \<ge> MAX_SESSIONS then None
      else if \<not> se_in_use (t ! unat local_index) then None
      else Some (t ! unat local_index))"

lemma session_lookup_immut [simp]: "session_lookup_immut = session_lookup"
  by (intro ext) (simp only: session_lookup_immut_def session_lookup_def)

text \<open>A write through the reference a lookup returned.\<close>

definition session_put :: "u32 \<Rightarrow> session \<Rightarrow> session_table \<Rightarrow> session_table" where
  "session_put local_index s t = t[unat local_index := s]"

definition session_admit ::
  "u32 \<Rightarrow> u32 \<Rightarrow> bytes \<Rightarrow> bytes \<Rightarrow> bytes \<Rightarrow> u64 \<Rightarrow> session_table \<Rightarrow> (unit, transport_error) outcome \<times> session_table" where
  "session_admit local_index peer_index send_key recv_key handshake_hash now_ms t =
     (if unat local_index \<ge> MAX_SESSIONS then (Err OutOfRange, t)
      else
        let slot = t ! unat local_index in
        if se_in_use slot then (Err SlotFull, t)
        else (Ok (), t[unat local_index := slot\<lparr>
               se_local_index := local_index, se_peer_index := peer_index,
               se_send := (cipher_zero (se_send slot))\<lparr>cs_key := send_key\<rparr>,
               se_recv := (recv_zero (se_recv slot))\<lparr>rs_key := recv_key\<rparr>,
               se_handshake_hash := handshake_hash, se_key_epoch_ms := now_ms,
               se_bound := False, se_in_use := True\<rparr>]))"

definition session_release :: "u32 \<Rightarrow> session_table \<Rightarrow> session_table" where
  "session_release local_index t =
     (if unat local_index \<ge> MAX_SESSIONS then t
      else
        let slot = t ! unat local_index in
        t[unat local_index := slot\<lparr>
            se_send := cipher_zero (se_send slot), se_recv := recv_zero (se_recv slot),
            se_handshake_hash := replicate 32 0, se_bound := False, se_in_use := False\<rparr>])"

lemmas session_sizes = MAX_SESSIONS_def REKEY_AFTER_MS_def HEADER_SIZE_def MSG_TYPE_TRANSPORT_def

lemma rekey_limit: "REKEY_AFTER_MESSAGES = 2 ^ 48"
  by (simp add: REKEY_AFTER_MESSAGES_def)

section \<open>What the window does\<close>

text \<open>
  The reference: the filter that remembers what it accepted, over 64 counters, except that
  counter 0 is not remembered while nothing else is, since a highest counter of 0 stands
  for an empty window.
\<close>

definition remember :: "u64 \<Rightarrow> u64 set \<Rightarrow> u64 set" where
  "remember c H = (if fresh_counter 64 c H \<and> (H \<noteq> {} \<or> c \<noteq> 0) then insert c H else H)"

primrec sentinel_accepts :: "u64 list \<Rightarrow> u64 set \<Rightarrow> bool list" where
  "sentinel_accepts [] H = []"
| "sentinel_accepts (c # cs) H = fresh_counter 64 c H # sentinel_accepts cs (remember c H)"

definition recv_tracks :: "recv_window \<Rightarrow> u64 set \<Rightarrow> bool" where
  "recv_tracks w H \<longleftrightarrow> finite H \<and> (wi_highest w = 0 \<longleftrightarrow> H = {})
     \<and> (H \<noteq> {} \<longrightarrow> wi_highest w = Max H
          \<and> (\<forall>d<64. bit (wi_mask w) d \<longleftrightarrow> (\<exists>c\<in>H. unat (Max H) = unat c + d)))"

lemma recv_check_first:
  assumes "recv_tracks w {}"
  shows "fst (recv_check c w) \<and> recv_tracks (snd (recv_check c w)) (if c = 0 then {} else {c})"
proof -
  have "bit (1 :: u64) d \<longleftrightarrow> d = 0" for d by (simp add: bit_1_iff)
  with assms show ?thesis by (auto simp: recv_check_def recv_tracks_def)
qed

lemma recv_check_above:
  assumes t: "recv_tracks w H" and H: "H \<noteq> {}" and c: "Max H < c"
  shows "fst (recv_check c w) \<and> recv_tracks (snd (recv_check c w)) (insert c H)"
proof -
  from t H have fin: "finite H" and w: "wi_highest w = Max H" "Max H \<noteq> 0"
    and bits: "\<And>d. d < 64 \<Longrightarrow> bit (wi_mask w) d \<longleftrightarrow> (\<exists>x\<in>H. unat (Max H) = unat x + d)"
    by (auto simp: recv_tracks_def simp del: Max_less_iff)
  have s: "unat (c - Max H) = unat c - unat (Max H)" "unat (Max H) < unat c"
    using c by (simp_all add: unat_sub_if' word_less_nat_alt word_le_nat_alt del: Max_less_iff)
  have max: "Max (insert c H) = c" using H fin c by (simp add: max.absorb1 del: Max_less_iff)
  let ?m = "if c - Max H \<ge> 64 then 0 else push_bit (unat (c - Max H)) (wi_mask w)"
  have "bit (?m OR 1) d \<longleftrightarrow> (\<exists>x\<in>insert c H. unat c = unat x + d)" if d: "d < 64" for d
  proof -
    have "bit ?m d \<longleftrightarrow> unat (c - Max H) \<le> d \<and> (\<exists>x\<in>H. unat (Max H) = unat x + (d - unat (c - Max H)))"
      using bits [of "d - unat (c - Max H)"] d
      by (auto simp: bit_push_bit_iff word_le_nat_alt)
    also have "\<dots> \<longleftrightarrow> (\<exists>x\<in>H. unat c = unat x + d)"
    proof -
      have "(unat (c - Max H) \<le> d \<and> unat (Max H) = unat x + (d - unat (c - Max H)))
          \<longleftrightarrow> unat c = unat x + d" if "x \<in> H" for x
        using Max_ge [OF fin that] s by (simp add: word_le_nat_alt) linarith
      then show ?thesis by blast
    qed
    finally show ?thesis by (auto simp: bit_or_iff bit_1_iff)
  qed
  moreover have "snd (recv_check c w) = w\<lparr>wi_mask := ?m OR 1, wi_highest := c\<rparr>" "fst (recv_check c w)"
    using w c by (simp_all add: recv_check_def Let_def del: Max_less_iff)
  moreover have "c \<noteq> 0" using c by auto
  ultimately show ?thesis using fin max unfolding recv_tracks_def by simp
qed

lemma recv_check_below:
  assumes t: "recv_tracks w H" and H: "H \<noteq> {}" and c: "\<not> Max H < c"
  defines "ok \<equiv> unat (Max H) - unat c < 64 \<and> c \<notin> H"
  shows "fst (recv_check c w) = ok \<and> recv_tracks (snd (recv_check c w)) (if ok then insert c H else H)"
proof -
  let ?d = "unat (Max H) - unat c"
  from t H have fin: "finite H" and w: "wi_highest w = Max H" "Max H \<noteq> 0"
    and bits: "\<And>d. d < 64 \<Longrightarrow> bit (wi_mask w) d \<longleftrightarrow> (\<exists>x\<in>H. unat (Max H) = unat x + d)"
    by (auto simp: recv_tracks_def simp del: Max_less_iff)
  have d: "unat (Max H - c) = ?d" "unat c \<le> unat (Max H)"
    using c by (simp_all add: unat_sub_if' word_less_nat_alt word_le_nat_alt del: Max_less_iff)
  have max: "Max (insert c H) = Max H" using H fin c by (simp add: max.absorb2 not_less del: Max_less_iff)
  have mem: "(\<exists>x\<in>H. unat (Max H) = unat x + ?d) \<longleftrightarrow> c \<in> H"
  proof -
    have "unat (Max H) = unat x + ?d \<longleftrightarrow> x = c" for x
      using d(2) word_unat_eq_iff [of x c] by linarith
    then show ?thesis by simp
  qed
  have top: "Max H \<in> H" using fin H by (rule Max_in)
  have far: "Max H - c \<ge> 64 \<longleftrightarrow> \<not> ?d < 64" using d(1) by (auto simp: word_le_nat_alt)
  have result: "recv_check c w =
      (if \<not> ?d < 64 \<or> c \<in> H then (False, w)
       else (True, w\<lparr>wi_mask := wi_mask w OR push_bit ?d 1\<rparr>))"
  proof (cases "?d < 64")
    case True
    then show ?thesis
      using w c d(1) mask_test [OF True, of "wi_mask w"] bits [OF True] mem top far
      by (auto simp: recv_check_def Let_def simp del: Max_less_iff)
  next
    case False
    then have "c \<noteq> Max H" using top by auto
    with False show ?thesis using w c far by (simp add: recv_check_def Let_def del: Max_less_iff)
  qed
  have "bit (wi_mask w OR push_bit ?d 1) e \<longleftrightarrow> (\<exists>x\<in>insert c H. unat (Max H) = unat x + e)"
    if "e < 64" for e
    using bits [OF that] d(2) that by (auto simp: bit_or_iff bit_exp_iff bit_push_bit_iff bit_1_iff)
  with result t fin max w H show ?thesis unfolding recv_tracks_def ok_def by auto
qed

lemma recv_check_tracks:
  assumes "recv_tracks w H"
  shows "fst (recv_check c w) = fresh_counter 64 c H \<and> recv_tracks (snd (recv_check c w)) (remember c H)"
proof -
  consider "H = {}" | "H \<noteq> {}" "Max H < c" | "H \<noteq> {}" "\<not> Max H < c" by blast
  then show ?thesis
  proof cases
    case 1
    with recv_check_first [of w c] assms show ?thesis
      by (auto simp: fresh_counter_def remember_def)
  next
    case 2
    with recv_check_above [OF assms, of c] show ?thesis
      by (simp add: fresh_counter_def remember_def del: Max_less_iff)
  next
    case 3
    with recv_check_below [OF assms, of c] show ?thesis
      by (simp add: fresh_counter_def remember_def del: Max_less_iff)
  qed
qed

lemma recv_tracks_new: "recv_tracks recv_window_new {}"
  by (simp add: recv_tracks_def recv_window_new_def)

lemma sentinel_run: "recv_tracks w H \<Longrightarrow> run_checks recv_check cs w = sentinel_accepts cs H"
  by (induction cs arbitrary: w H) (simp_all add: recv_check_tracks)

lemma sentinel_new:
  "finite H \<Longrightarrow> distinct (filter (\<lambda>c. c \<noteq> 0) (accepted cs (sentinel_accepts cs H)))
     \<and> set (filter (\<lambda>c. c \<noteq> 0) (accepted cs (sentinel_accepts cs H))) \<inter> H = {}"
proof (induction cs arbitrary: H)
  case (Cons c cs)
  have "c \<notin> H" if "fresh_counter 64 c H"
    using that Cons.prems Max_ge [of H c] by (auto simp: fresh_counter_def leD)
  with Cons.IH [of "remember c H"] Cons.prems show ?case by (auto simp: remember_def split: if_splits)
qed (simp add: accepted_def)

section \<open>A channel between two sessions\<close>

text \<open>
  The sender seals a list of messages into buffers of the given sizes; the receiver opens
  packets into buffers large enough, with the counter it reads from the packet's header.
\<close>

definition header_counter :: "bytes \<Rightarrow> u64" where
  "header_counter p = from_be_bytes (take 8 (drop 8 p))"

primrec seal_run ::
  "crypto \<Rightarrow> (nat \<times> bytes) list \<Rightarrow> session \<Rightarrow> (bytes, transport_error) outcome list" where
  "seal_run cr [] s = []"
| "seal_run cr (m # ms) s =
     fst (session_seal cr (fst m) (snd m) s) # seal_run cr ms (snd (session_seal cr (fst m) (snd m) s))"

primrec open_run :: "crypto \<Rightarrow> bytes list \<Rightarrow> session \<Rightarrow> (bytes, transport_error) outcome list" where
  "open_run cr [] s = []"
| "open_run cr (p # ps) s =
     (let (res, s') = session_open cr p (header_counter p) (length p) s in res # open_run cr ps s')"

definition oks :: "('a, 'e) outcome list \<Rightarrow> 'a list" where
  "oks rs = concat (map (\<lambda>r. case r of Ok a \<Rightarrow> [a] | _ \<Rightarrow> []) rs)"

lemma oks_simps [simp]:
  "oks [] = []" "oks (Ok a # rs) = a # oks rs" "oks (Err e # rs) = oks rs" "oks (Panic # rs) = oks rs"
  by (simp_all add: oks_def)

definition packet_of :: "crypto \<Rightarrow> bytes \<Rightarrow> u32 \<Rightarrow> u64 \<Rightarrow> bytes \<Rightarrow> bytes" where
  "packet_of cr key peer c pt = transport_header peer c
     @ aead_seal cr key (transport_nonce c) (transport_header peer c) pt"

lemma length_header [simp]: "length (transport_header peer c) = 16"
  by (simp add: transport_header_def)

lemma header_counter_packet [simp]: "header_counter (packet_of cr key peer c pt) = c"
  by (simp add: header_counter_def packet_of_def transport_header_def)

lemma session_seal_cases:
  "session_seal cr n pt s =
     (if n < length pt + 32 then (Err OutOfRange, s)
      else if cs_counter (se_send s) \<ge> 2 ^ 48 then (Err RekeyRequired, s)
      else (Ok (packet_of cr (cs_key (se_send s)) (se_peer_index s) (cs_counter (se_send s)) pt),
            s\<lparr>se_send := (se_send s)\<lparr>cs_counter := cs_counter (se_send s) + 1\<rparr>\<rparr>))"
  by (simp add: session_seal_def cipher_seal_def Let_def HEADER_SIZE_def rekey_limit packet_of_def add.commute)

lemma next_counter: "c < 2 ^ 48 \<Longrightarrow> unat (c + 1 :: u64) = unat c + 1"
  by (simp add: word_less_nat_alt unat_word_ariths)

text \<open>The messages whose buffer has room, as many of them as there are counters left, are sealed in turn.\<close>

definition fits_buffer :: "nat \<times> bytes \<Rightarrow> bool" where
  "fits_buffer m \<longleftrightarrow> length (snd m) + 32 \<le> fst m"

definition sealed_count :: "(nat \<times> bytes) list \<Rightarrow> session \<Rightarrow> nat" where
  "sealed_count ms s = min (length (filter fits_buffer ms)) (2 ^ 48 - unat (cs_counter (se_send s)))"

lemma seal_run_packets:
  "oks (seal_run cr ms s) = map (\<lambda>k. packet_of cr (cs_key (se_send s)) (se_peer_index s)
     (cs_counter (se_send s) + word_of_nat k) (snd (filter fits_buffer ms ! k))) [0..<sealed_count ms s]"
proof (induction ms arbitrary: s)
  case Nil
  show ?case by (simp add: sealed_count_def)
next
  case (Cons m ms)
  let ?c = "cs_counter (se_send s)"
  consider (skip) "\<not> fits_buffer m" | (full) "fits_buffer m" "2 ^ 48 \<le> unat ?c" | (seal) "fits_buffer m" "unat ?c < 2 ^ 48"
    by linarith
  then show ?case
  proof cases
    case skip
    then have "session_seal cr (fst m) (snd m) s = (Err OutOfRange, s)"
      by (simp add: session_seal_cases fits_buffer_def)
    with Cons [of s] skip show ?thesis by (simp add: sealed_count_def)
  next
    case full
    then have "session_seal cr (fst m) (snd m) s = (Err RekeyRequired, s)"
      by (simp add: session_seal_cases fits_buffer_def word_le_nat_alt)
    with Cons [of s] full show ?thesis by (simp add: sealed_count_def)
  next
    case seal
    define s' where "s' = s\<lparr>se_send := (se_send s)\<lparr>cs_counter := ?c + 1\<rparr>\<rparr>"
    have c': "cs_counter (se_send s') = ?c + 1" "cs_key (se_send s') = cs_key (se_send s)" "se_peer_index s' = se_peer_index s"
      by (simp_all add: s'_def)
    have e: "session_seal cr (fst m) (snd m) s = (Ok (packet_of cr (cs_key (se_send s)) (se_peer_index s) ?c (snd m)), s')"
      using seal by (simp add: session_seal_cases fits_buffer_def s'_def word_le_nat_alt)
    have u: "unat (?c + 1) = unat ?c + 1" using seal(2) by (intro next_counter) (simp add: word_less_nat_alt)
    have n: "sealed_count (m # ms) s = Suc (sealed_count ms s')"
      using seal u by (simp add: sealed_count_def c')
    show ?thesis
      using Cons [of s'] seal(1) by (simp add: e n c' map_upt_Suc add.assoc del: upt_Suc)
  qed
qed

lemma session_open_packet:
  assumes "crypto_laws cr" "rs_key (se_recv r) = key"
  shows "session_open cr (packet_of cr key peer c pt) c (length (packet_of cr key peer c pt)) r =
    (let (fresh, w) = recv_check c (rs_window (se_recv r))
     in (if fresh then Ok pt else Err TransportReplay, r\<lparr>se_recv := (se_recv r)\<lparr>rs_window := w\<rparr>\<rparr>))"
proof -
  have "length (aead_seal cr key n ad pt) = length pt + 16" "aead_open cr key n ad (aead_seal cr key n ad pt) = Some pt"
    for n ad using assms(1) by (simp_all add: crypto_laws_def)
  then show ?thesis
    using assms(2) by (simp add: session_open_def recv_open_def packet_of_def HEADER_SIZE_def Let_def split_beta)
qed

lemma open_run_packets:
  assumes "crypto_laws cr" "rs_key (se_recv r) = key" "recv_tracks (rs_window (se_recv r)) H"
  shows "open_run cr (map (\<lambda>(c, pt). packet_of cr key peer c pt) cps) r
    = map2 (\<lambda>(c, pt) fresh. if fresh then Ok pt else Err TransportReplay) cps
        (sentinel_accepts (map fst cps) H)"
  using assms(2,3)
proof (induction cps arbitrary: r H)
  case (Cons cp cps)
  obtain c pt where cp: "cp = (c, pt)" by (cases cp)
  obtain fresh w where w: "recv_check c (rs_window (se_recv r)) = (fresh, w)"
    by (cases "recv_check c (rs_window (se_recv r))")
  have "fresh = fresh_counter 64 c H" "recv_tracks w (remember c H)"
    using recv_check_tracks [OF Cons.prems(2), of c] w by simp_all
  with Cons.IH [of "r\<lparr>se_recv := (se_recv r)\<lparr>rs_window := w\<rparr>\<rparr>"] Cons.prems
  show ?case by (simp add: cp session_open_packet [OF assms(1)] w)
qed simp

lemma seal_run_fits:
  "list_all (\<lambda>m. length (snd m) + 32 \<le> fst m) ms \<Longrightarrow> unat (cs_counter (se_send s)) + length ms \<le> 2 ^ 48 \<Longrightarrow>
   seal_run cr ms s = map (\<lambda>k. Ok (packet_of cr (cs_key (se_send s)) (se_peer_index s)
     (cs_counter (se_send s) + word_of_nat k) (snd (ms ! k)))) [0..<length ms]"
proof (induction ms arbitrary: s)
  case (Cons m ms)
  let ?c = "cs_counter (se_send s)"
  have c: "?c < 2 ^ 48" using Cons.prems(2) by (simp add: word_less_nat_alt)
  define s' where "s' = s\<lparr>se_send := (se_send s)\<lparr>cs_counter := ?c + 1\<rparr>\<rparr>"
  have e: "session_seal cr (fst m) (snd m) s
      = (Ok (packet_of cr (cs_key (se_send s)) (se_peer_index s) ?c (snd m)), s')"
    using Cons.prems c by (simp add: session_seal_cases s'_def)
  have "seal_run cr ms s' = map (\<lambda>k. Ok (packet_of cr (cs_key (se_send s)) (se_peer_index s)
      (?c + 1 + word_of_nat k) (snd (ms ! k)))) [0..<length ms]"
    using Cons.IH [of s'] Cons.prems next_counter [OF c] by (simp add: s'_def)
  with e show ?case by (simp add: add.assoc map_upt_Suc del: upt_Suc)
qed simp

section \<open>The table's invariant\<close>

text \<open>
  What the owner of the table does with it: admission, release, and the session operations
  on the session a lookup returned.
\<close>

datatype session_op =
    SAdmit u32 u32 bytes bytes bytes u64
  | SRelease u32
  | SSeal u32 nat bytes
  | SOpen u32 bytes u64 nat
  | SRotate u32 bytes bytes bytes u64

definition on_session :: "u32 \<Rightarrow> (session \<Rightarrow> session) \<Rightarrow> session_table \<Rightarrow> session_table" where
  "on_session i f t = (case session_lookup i t of None \<Rightarrow> t | Some s \<Rightarrow> session_put i (f s) t)"

fun session_step :: "crypto \<Rightarrow> session_op \<Rightarrow> session_table \<Rightarrow> session_table" where
  "session_step cr (SAdmit i peer sk rk h now) t = snd (session_admit i peer sk rk h now t)"
| "session_step cr (SRelease i) t = session_release i t"
| "session_step cr (SSeal i n pt) t = on_session i (\<lambda>s. snd (session_seal cr n pt s)) t"
| "session_step cr (SOpen i p c n) t = on_session i (\<lambda>s. snd (session_open cr p c n s)) t"
| "session_step cr (SRotate i sk rk h now) t = on_session i (session_rotate sk rk h now) t"

definition slot_ok :: "nat \<Rightarrow> session \<Rightarrow> bool" where
  "slot_ok i s \<longleftrightarrow>
     (if se_in_use s then unat (se_local_index s) = i \<and> cs_counter (se_send s) \<le> 2 ^ 48
      else se_send s = cipher_state_new \<and> se_recv s = recv_state_new
        \<and> se_handshake_hash s = replicate 32 0 \<and> \<not> se_bound s)"

definition session_inv :: "session_table \<Rightarrow> bool" where
  "session_inv t \<longleftrightarrow> length t = 512 \<and> (\<forall>i<512. slot_ok i (t ! i))"

lemma zeroed [simp]:
  "cipher_zero c = cipher_state_new" "recv_zero r = recv_state_new"
  by (simp_all add: cipher_zero_def cipher_state_new_def recv_zero_def recv_state_new_def
      recv_window_zero_def recv_window_new_def)

lemma session_inv_update: "session_inv t \<Longrightarrow> slot_ok i s \<Longrightarrow> session_inv (t[i := s])"
  unfolding session_inv_def
proof (intro conjI allI impI)
  fix j :: nat
  assume "length t = 512 \<and> (\<forall>i<512. slot_ok i (t ! i))" "slot_ok i s" "j < 512"
  then show "slot_ok j (t[i := s] ! j)" by (cases "j = i") simp_all
qed simp

lemma session_lookup_Some:
  "session_lookup i t = Some s \<longleftrightarrow> unat i < 512 \<and> se_in_use (t ! unat i) \<and> s = t ! unat i"
  by (auto simp: session_lookup_def MAX_SESSIONS_def)

lemma on_session_inv:
  assumes "session_inv t"
    and f: "\<And>s. se_in_use s \<Longrightarrow> slot_ok (unat i) s \<Longrightarrow> slot_ok (unat i) (f s)"
  shows "session_inv (on_session i f t)"
proof (cases "session_lookup i t")
  case (Some s)
  then have "se_in_use s" "slot_ok (unat i) s" using assms(1) by (auto simp: session_lookup_Some session_inv_def)
  with Some f session_inv_update [OF assms(1)] show ?thesis by (simp add: on_session_def session_put_def)
qed (simp add: on_session_def assms)

lemma session_seal_slot: "se_in_use s \<Longrightarrow> slot_ok i s \<Longrightarrow> slot_ok i (snd (session_seal cr n pt s))"
  using next_counter [of "cs_counter (se_send s)"]
  by (auto simp: session_seal_cases slot_ok_def not_le word_le_nat_alt word_less_nat_alt)

lemma session_open_slot: "se_in_use s \<Longrightarrow> slot_ok i s \<Longrightarrow> slot_ok i (snd (session_open cr p c n s))"
  by (auto simp: session_open_def slot_ok_def split_beta Let_def)

lemma session_step_inv: "session_inv t \<Longrightarrow> session_inv (session_step cr op t)"
proof (cases op)
  case (SAdmit i peer sk rk h now)
  assume "session_inv t"
  with SAdmit show ?thesis
    by (auto simp: session_admit_def Let_def cipher_state_new_def slot_ok_def intro!: session_inv_update)
next
  case (SRelease i)
  assume "session_inv t"
  with SRelease show ?thesis
    by (auto simp: session_release_def Let_def slot_ok_def intro!: session_inv_update)
qed (auto intro!: on_session_inv simp: session_seal_slot session_open_slot,
     auto simp: session_rotate_def slot_ok_def cipher_state_new_def)

interpretation sessions: guarded_machine session_table_new "session_step cr" session_inv for cr
proof unfold_locales
  show "session_inv session_table_new"
    by (simp add: session_inv_def session_table_new_def MAX_SESSIONS_def slot_ok_def session_new_def)
qed (rule session_step_inv)

section \<open>Properties\<close>

text \<open>
  The receive window answers every sequence of counters as the reference filter over 64
  counters, in which counter 0 is not remembered while no larger counter was accepted.
\<close>

theorem recv_window_exact:
  "run_checks recv_check cs recv_window_new = sentinel_accepts cs {}"
  by (rule sentinel_run [OF recv_tracks_new])

text \<open>
  Apart from counter 0, the receive window accepts no counter twice.
\<close>

theorem recv_window_no_replay:
  "distinct (filter (\<lambda>c. c \<noteq> 0) (accepted cs (run_checks recv_check cs recv_window_new)))"
  using sentinel_new [of "{}" cs] by (simp add: sentinel_run [OF recv_tracks_new])

text \<open>Counter 0 is accepted again until a larger counter arrives, and once more after it.\<close>

lemma counter_zero_replayed:
  "run_checks recv_check [0, 0, 5, 0, 0] recv_window_new = [True, True, True, True, False]"
  by code_simp

text \<open>
  C23: No nonce is used twice under one key. Between two rotations, whatever the messages and buffer sizes,
  the packets a session seals are those of the messages whose buffer has room, until the counters below
  2^48 run out; the k-th of them is its header followed by the sealing, under the session's key and with the
  header as associated data, of the k-th such message under the nonce of four zeros and the
  first counter plus k in eight bytes; and these nonces are all different.
\<close>

theorem sealed_nonces_never_repeat:
  "let c0 = cs_counter (se_send s); fitting = filter (\<lambda>m. length (snd m) + 32 \<le> fst m) ms;
       n = min (length fitting) (2 ^ 48 - unat c0);
       nonce = (\<lambda>k. [0, 0, 0, 0] @ to_be_bytes (c0 + word_of_nat k));
       header = (\<lambda>k. transport_header (se_peer_index s) (c0 + word_of_nat k))
   in oks (seal_run cr ms s)
        = map (\<lambda>k. header k @ aead_seal cr (cs_key (se_send s)) (nonce k) (header k) (snd (fitting ! k))) [0..<n]
      \<and> distinct (map nonce [0..<n])"
proof -
  let ?c = "cs_counter (se_send s)"
  have "x = y" if "x < 2 ^ 48" "y < 2 ^ 48" "(word_of_nat x :: u64) = word_of_nat y" for x y
    using arg_cong [OF that(3), of unat] that(1,2) by (simp add: unat_of_nat)
  moreover have "to_be_bytes v = to_be_bytes w \<longleftrightarrow> v = w" for v w :: u64 by (metis from_to_be_u64)
  ultimately have "distinct (map (\<lambda>k. [0, 0, 0, 0] @ to_be_bytes (?c + word_of_nat k)) [0..<min m (2 ^ 48 - unat ?c)])" for m
    by (auto simp: distinct_map inj_on_def)
  moreover have "fits_buffer = (\<lambda>m. length (snd m) + 32 \<le> fst m)" by (simp add: fits_buffer_def fun_eq_iff)
  ultimately show ?thesis
    using seal_run_packets [of cr ms s] by (simp add: Let_def sealed_count_def packet_of_def transport_nonce_def)
qed

text \<open>
  C15: Delivery: when the two sessions share a key and the buffers fit, every message is
  sealed, and the sealed packets opened in any order, with repetitions, yield exactly the
  plaintext of each packet whose counter the reference filter accepts and a replay error for
  each other one.
\<close>

theorem channel_delivers:
  assumes "crypto_laws cr" "list_all (\<lambda>m. length (snd m) + 32 \<le> fst m) ms" "length ms \<le> 2 ^ 48"
    and "cs_counter (se_send s) = 0" "rs_key (se_recv r) = cs_key (se_send s)"
    and "rs_window (se_recv r) = recv_window_new" "list_all (\<lambda>k. k < length ms) ks"
  shows "open_run cr (map (\<lambda>k. oks (seal_run cr ms s) ! k) ks) r
    = map2 (\<lambda>k fresh. if fresh then Ok (snd (ms ! k)) else Err TransportReplay) ks
        (sentinel_accepts (map word_of_nat ks) {})"
proof -
  let ?p = "\<lambda>k. packet_of cr (cs_key (se_send s)) (se_peer_index s) (word_of_nat k) (snd (ms ! k))"
  have oks_map: "oks (map (\<lambda>k. Ok (f k)) js :: (bytes, transport_error) outcome list) = map f js" for f and js :: "nat list"
    by (induction js) simp_all
  have "seal_run cr ms s = map (\<lambda>k. Ok (?p k)) [0..<length ms]"
    using seal_run_fits [OF assms(2), of s cr] assms(3,4) by simp
  then have "oks (seal_run cr ms s) = map ?p [0..<length ms]" by (simp add: oks_map)
  then have packets: "map (\<lambda>k. oks (seal_run cr ms s) ! k) ks
      = map (\<lambda>(c, pt). packet_of cr (cs_key (se_send s)) (se_peer_index s) c pt)
          (map (\<lambda>k. (word_of_nat k, snd (ms ! k))) ks)"
    using assms(7) by (simp add: list_all_iff)
  have "recv_tracks (rs_window (se_recv r)) {}" using assms(6) recv_tracks_new by simp
  from open_run_packets [OF assms(1,5) this, of "se_peer_index s" "map (\<lambda>k. (word_of_nat k, snd (ms ! k))) ks"]
  show ?thesis unfolding packets by (simp add: o_def zip_map1 split_beta)
qed

lemma channel_delivers_witness:
  "open_run toy_crypto (map (\<lambda>k. oks (seal_run toy_crypto [(40, [1]), (40, [2])] session_new) ! k) [1, 0, 1]) session_new
    = [Ok [2], Ok [1], Err TransportReplay]"
proof -
  have "sentinel_accepts (map word_of_nat [1, 0, 1]) {} = [True, True, False]"
    by (simp add: remember_def fresh_counter_def)
  with channel_delivers [OF toy_crypto_laws, of "[(40, [1]), (40, [2])]" session_new session_new "[1, 0, 1]"]
  show ?thesis by (simp add: session_new_def cipher_state_new_def recv_state_new_def)
qed

text \<open>
  On every run, a slot in use carries its own index and a send counter of at most 2^48,
  and a slot not in use holds no key, counter, window, handshake hash or binding.
\<close>

theorem session_table_invariant: "session_inv (fold (session_step cr) ops session_table_new)"
  by (rule sessions.inv_run)

end
