(* ===== verification/Handshake.thy ===== *)
theory Handshake
  imports Noise
begin

text \<open>
  The responder's accept table and datagram handler (src/src/transport/handshake.rs). The
  send closure is a function from the message to its success; the handler also returns the
  messages it passed to it. The ephemeral secret the response draws is an argument.
\<close>

section \<open>The table\<close>

definition HS_MAX_SESSIONS :: nat where "HS_MAX_SESSIONS = 16"
definition T_HS_IDLE_MS :: u64 where "T_HS_IDLE_MS = 900000"

datatype handshake_error = NotInitiation | HsTableFull | Refused | SendFailed

record hs_session =
  hs_send_key :: bytes
  hs_recv_key :: bytes
  hs_hash :: bytes
  hs_peer_static :: bytes
  hs_created_ms :: u64

type_synonym hs_table = "hs_session option list"

definition hs_table_new :: hs_table where
  "hs_table_new = replicate HS_MAX_SESSIONS None"

definition has_free :: "hs_table \<Rightarrow> bool" where
  "has_free t \<longleftrightarrow> list_ex (\<lambda>s. s = None) t"

definition hs_commit :: "hs_session \<Rightarrow> hs_table \<Rightarrow> (nat, 'e) outcome \<times> hs_table" where
  "hs_commit s t =
     (case position (\<lambda>s. s = None) t of None \<Rightarrow> (Panic, t) | Some slot \<Rightarrow> (Ok slot, t[slot := Some s]))"

definition hs_zeroize :: "hs_session \<Rightarrow> hs_session" where
  "hs_zeroize s = s\<lparr>hs_send_key := replicate 32 0, hs_recv_key := replicate 32 0,
     hs_hash := replicate 32 0, hs_peer_static := replicate 32 0, hs_created_ms := 0\<rparr>"

definition release_slot :: "nat \<Rightarrow> hs_table \<Rightarrow> hs_table" where
  "release_slot index t =
     (if index \<ge> HS_MAX_SESSIONS then t
      else let t = t[index := map_option hs_zeroize (t ! index)] in t[index := None])"

primrec stale_from :: "u64 \<Rightarrow> u64 \<Rightarrow> nat \<Rightarrow> hs_table \<Rightarrow> nat list \<times> hs_table" where
  "stale_from now_ms timeout_ms idx [] = ([], [])"
| "stale_from now_ms timeout_ms idx (slot # slots) =
     (let (freed, slots') = stale_from now_ms timeout_ms (Suc idx) slots in
      case slot of
        None \<Rightarrow> (freed, slot # slots')
      | Some s \<Rightarrow>
        if saturating_sub now_ms (hs_created_ms s) > timeout_ms then (idx # freed, None # slots')
        else (freed, slot # slots'))"

definition release_stale :: "u64 \<Rightarrow> u64 \<Rightarrow> hs_table \<Rightarrow> nat list \<times> hs_table" where
  "release_stale now_ms timeout_ms t = stale_from now_ms timeout_ms 0 t"

section \<open>The datagram handler\<close>

definition process_datagram ::
  "crypto \<Rightarrow> bytes \<Rightarrow> bytes \<Rightarrow> bytes \<Rightarrow> (bytes \<Rightarrow> bool) \<Rightarrow> bytes \<Rightarrow> u64 \<Rightarrow> hs_table \<Rightarrow>
   (nat, handshake_error) outcome \<times> hs_table \<times> bytes list" where
  "process_datagram cr datagram own_dh_secret own_sig_pub send eph_secret now_ms t =
     (if length datagram \<noteq> MSG1_SIZE \<or> datagram ! 0 \<noteq> 1 then (Err NotInitiation, t, [])
      else if \<not> has_free t then (Err HsTableFull, t, [])
      else case read_initiation cr datagram own_sig_pub (responder_new cr (from_secret cr own_dh_secret)) of
        (Panic, _) \<Rightarrow> (Panic, t, []) | (Err _, _) \<Rightarrow> (Err Refused, t, [])
      | (Ok info, r) \<Rightarrow>
        (case position (\<lambda>s. s = None) t of
           None \<Rightarrow> (Panic, t, [])
         | Some responder_index \<Rightarrow>
           (case write_response cr eph_secret (word_of_nat responder_index) (ii_sender_index info)
                own_sig_pub (replicate 16 0) r of
              (Panic, _) \<Rightarrow> (Panic, t, []) | (Err _, _) \<Rightarrow> (Err Refused, t, [])
            | (Ok out, r) \<Rightarrow>
              if \<not> send out then (Err SendFailed, t, [out])
              else
                let result = responder_finalize cr r;
                    session = \<lparr>hs_send_key = hr_send_key result, hs_recv_key = hr_recv_key result,
                      hs_hash = hr_handshake_hash result,
                      hs_peer_static = ii_initiator_static_pub info, hs_created_ms = now_ms\<rparr>;
                    (slot, t') = hs_commit session t
                in (slot, t', [out]))))"

section \<open>Lemmas\<close>

lemma has_free_position: "has_free t \<longleftrightarrow> position (\<lambda>s. s = None) t \<noteq> None"
  by (auto simp: has_free_def position_None list_ex_iff)

lemma hs_commit_position:
  "position (\<lambda>s. s = None) t = Some slot \<Longrightarrow> hs_commit s t = (Ok slot, t[slot := Some s])"
  by (simp add: hs_commit_def)

definition stale :: "u64 \<Rightarrow> u64 \<Rightarrow> hs_session \<Rightarrow> bool" where
  "stale now_ms timeout_ms s \<longleftrightarrow> unat now_ms > unat (hs_created_ms s) + unat timeout_ms"

lemma stale_test: "saturating_sub now (hs_created_ms s) > timeout \<longleftrightarrow> stale now timeout s"
  by (auto simp: stale_def word_less_nat_alt unat_saturating_sub)

lemma stale_from_spec:
  "stale_from now timeout idx t =
     (map (\<lambda>k. idx + k) (filter (\<lambda>k. \<exists>s. t ! k = Some s \<and> stale now timeout s) [0..<length t]),
      map (\<lambda>slot. case slot of None \<Rightarrow> None | Some s \<Rightarrow> if stale now timeout s then None else Some s) t)"
proof (induction t arbitrary: idx)
  case (Cons slot t)
  have "filter P [0..<Suc n] = (if P 0 then [0] else []) @ map Suc (filter (\<lambda>k. P (Suc k)) [0..<n])" for P n
  proof -
    have "[0..<Suc n] = 0 # map Suc [0..<n]" by (simp add: map_Suc_upt upt_conv_Cons del: upt_Suc)
    then show ?thesis by (simp add: filter_map o_def del: upt_Suc)
  qed
  then show ?case
    unfolding stale_from.simps Cons.IH stale_test
    by (cases slot) (simp_all add: o_def del: upt_Suc)
qed simp

text \<open>The handler's outcomes: refusals leave the table, success fills the first free slot.\<close>

definition commits :: "bytes \<Rightarrow> u64 \<Rightarrow> hs_table \<Rightarrow> nat \<Rightarrow> hs_table \<Rightarrow> bytes list \<Rightarrow> bool" where
  "commits peer_index now t slot t' sent \<longleftrightarrow>
     position (\<lambda>s. s = None) t = Some slot
     \<and> (\<exists>s. t' = t[slot := Some s] \<and> hs_created_ms s = now)
     \<and> (\<exists>m. sent = [m] \<and> take 4 (drop 4 m) = to_be_bytes (word_of_nat slot :: u32)
          \<and> take 4 (drop 8 m) = peer_index)"

lemma write_response_header:
  assumes "write_response cr er ridx idx sig cookie r = (Ok m, r')"
  shows "take 4 (drop 4 m) = to_be_bytes ridx \<and> take 4 (drop 8 m) = to_be_bytes idx"
  using assms by (auto simp: write_response_def Let_def split: outcome.splits prod.splits)

lemma read_initiation_index:
  assumes "read_initiation cr m sig r = (Ok info, r')"
  shows "ii_sender_index info = from_be_bytes (take 4 (drop 4 m))"
  using assms by (auto simp: read_initiation_def Let_def noise_sizes split: if_splits outcome.splits prod.splits)

lemma decrypt_no_panic: "16 \<le> length ct \<Longrightarrow> fst (decrypt_and_hash cr ct s) \<noteq> Panic"
  by (simp add: decrypt_and_hash_def TAGLEN_def split: option.split)

lemma dh_no_panic: "dh cr a b \<noteq> Panic"
  by (simp add: dh_def Let_def)

lemma read_initiation_no_panic:
  assumes "length m = 144"
  shows "fst (read_initiation cr m sig r) \<noteq> Panic"
proof -
  have d: "decrypt_and_hash cr (take 48 (drop 40 m)) s \<noteq> (Panic, s')"
    "decrypt_and_hash cr (take 24 (drop 88 m)) s \<noteq> (Panic, s')" for s s'
    using decrypt_no_panic [of "take 48 (drop 40 m)" cr s] decrypt_no_panic [of "take 24 (drop 88 m)" cr s]
      assms by auto
  then show ?thesis
    using dh_no_panic by (auto simp: read_initiation_def Let_def noise_sizes split: outcome.splits prod.splits)
qed

lemma write_response_no_panic: "fst (write_response cr er ridx idx sig cookie r) \<noteq> Panic"
  using dh_no_panic by (auto simp: write_response_def Let_def split: outcome.splits prod.splits)

text \<open>What every outcome of the handler says, case by case.\<close>

definition datagram_outcome ::
  "bytes \<Rightarrow> (bytes \<Rightarrow> bool) \<Rightarrow> u64 \<Rightarrow> hs_table \<Rightarrow> (nat, handshake_error) outcome \<times> hs_table \<times> bytes list \<Rightarrow> bool" where
  "datagram_outcome dg send now t = (\<lambda>(res, t', sent).
     case res of
       Ok slot \<Rightarrow> commits (take 4 (drop 4 dg)) now t slot t' sent \<and> list_all send sent
     | Panic \<Rightarrow> False
     | Err NotInitiation \<Rightarrow> (length dg \<noteq> 144 \<or> dg ! 0 \<noteq> 1) \<and> t' = t \<and> sent = []
     | Err HsTableFull \<Rightarrow> length dg = 144 \<and> dg ! 0 = 1 \<and> None \<notin> set t \<and> t' = t \<and> sent = []
     | Err Refused \<Rightarrow> length dg = 144 \<and> dg ! 0 = 1 \<and> None \<in> set t \<and> t' = t \<and> sent = []
     | Err SendFailed \<Rightarrow> t' = t \<and> (\<exists>m. sent = [m] \<and> \<not> send m))"

lemma process_datagram_outcome:
  "datagram_outcome dg send now t (process_datagram cr dg sk sig send er now t)"
proof (cases "length dg \<noteq> 144 \<or> dg ! 0 \<noteq> 1 \<or> \<not> has_free t")
  case True
  then show ?thesis
    by (auto simp: process_datagram_def datagram_outcome_def MSG1_SIZE_def has_free_def list_ex_iff)
next
  case False
  then obtain slot where slot: "position (\<lambda>s. s = None) t = Some slot" by (auto simp: has_free_position)
  have free: "None \<in> set t" using False by (auto simp: has_free_def list_ex_iff)
  obtain ri r where r: "read_initiation cr dg sig (responder_new cr (from_secret cr sk)) = (ri, r)" by fastforce
  note base = process_datagram_def datagram_outcome_def MSG1_SIZE_def
  have np: "ri \<noteq> Panic" using read_initiation_no_panic [of dg cr sig] False r by (metis fst_conv)
  show ?thesis
  proof (cases ri)
    case (Ok info)
    obtain wo r' where w: "write_response cr er (word_of_nat slot) (ii_sender_index info) sig (replicate 16 0) r
        = (wo, r')" by fastforce
    have np': "wo \<noteq> Panic" using write_response_no_panic w by (metis fst_conv)
    show ?thesis
    proof (cases wo)
      case (Ok m)
      have "take 4 (drop 4 m) = to_be_bytes (word_of_nat slot :: u32)" "take 4 (drop 8 m) = take 4 (drop 4 dg)"
        using write_response_header w read_initiation_index r False \<open>ri = Ok info\<close> Ok
        by (auto simp: to_from_be_u32)
      with Ok \<open>ri = Ok info\<close> r slot w False show ?thesis
        by (simp add: base hs_commit_position commits_def Let_def)
          (metis hs_session.select_convs(5))
    qed (use np' \<open>ri = Ok info\<close> r slot w False free in \<open>auto simp: base\<close>)
  qed (use np r False free in \<open>auto simp: base\<close>)
qed

text \<open>The two ends of a committed handshake.\<close>

lemma committed_agrees:
  assumes "crypto_laws cr" "length si = 32" "length sr = 32" "length ei = 32" "length er = 32"
    and "write_initiation cr ei idx ts sig (replicate 16 0)
      (initiator_new cr (from_secret cr si) (kp_public (from_secret cr sr))) = (Ok msg1, i)"
    and "process_datagram cr msg1 sr sig send er now t = (Ok slot, t', sent)"
  shows "\<exists>m i' s. sent = [m] \<and> t' = t[slot := Some s] \<and> read_response cr m sig i = (Ok (), i')
    \<and> hs_send_key s = hr_recv_key (initiator_finalize cr i')
    \<and> hs_recv_key s = hr_send_key (initiator_finalize cr i')
    \<and> hs_hash s = hr_handshake_hash (initiator_finalize cr i')
    \<and> hs_peer_static s = kp_public (from_secret cr si)"
proof -
  from initiation_agrees [OF assms(1-4,6)] obtain r where
    r: "read_initiation cr msg1 sig (responder_new cr (from_secret cr sr)) =
      (Ok \<lparr>ii_sender_index = idx, ii_initiator_static_pub = kp_public (from_secret cr si),
          ii_timestamp_ms = ts\<rparr>, r)"
    and st: "rp_sym r = in_sym i" "rp_re r = kp_public (from_secret cr ei)"
      "rp_remote_static_pub r = kp_public (from_secret cr si)"
      "in_eph_kp i = from_secret cr ei" "in_static_kp i = from_secret cr si" by blast
  from assms(7) obtain m r' where p: "position (\<lambda>s. s = None) t = Some slot" and
    w: "write_response cr er (word_of_nat slot) idx sig (replicate 16 0) r = (Ok m, r')"
    and s: "sent = [m]" "t' = t[slot := Some \<lparr>hs_send_key = hr_send_key (responder_finalize cr r'),
        hs_recv_key = hr_recv_key (responder_finalize cr r'), hs_hash = hr_handshake_hash (responder_finalize cr r'),
        hs_peer_static = kp_public (from_secret cr si), hs_created_ms = now\<rparr>]"
    by (auto simp: process_datagram_def r hs_commit_position Let_def split: if_splits outcome.splits prod.splits option.splits)
  from response_agrees [OF assms(1,2,4,5) st w] obtain i' where
    "read_response cr m sig i = (Ok (), i')" "in_sym i' = rp_sym r'" by blast
  then show ?thesis
    using s by (auto simp: initiator_finalize_def responder_finalize_def Let_def split: prod.splits)
qed

section \<open>Properties\<close>

text \<open>
  A datagram either commits exactly one session, stamped now, into the first free slot
  after exactly one accepted send that names that slot and echoes the initiator's index, or
  it leaves the table as it was: nothing is sent for a datagram of the wrong shape, on a full
  table or on a refused handshake, and a failed send commits nothing. It never panics.
\<close>

theorem handshake_single_commit:
  "datagram_outcome dg send now t (process_datagram cr dg sk sig send er now t)"
  by (rule process_datagram_outcome)

text \<open>
  The stale sweep frees exactly the slots whose session is older than the timeout,
  returns their indices in increasing order, and leaves every other slot as it was.
\<close>

theorem release_stale_exact:
  "release_stale now timeout t =
     (filter (\<lambda>k. \<exists>s. t ! k = Some s \<and> stale now timeout s) [0..<length t],
      map (\<lambda>slot. case slot of None \<Rightarrow> None | Some s \<Rightarrow> if stale now timeout s then None else Some s) t)"
  by (simp add: release_stale_def stale_from_spec)

text \<open>
  C14: End to end: when the responder commits a session for an initiation the initiator wrote
  for its static key, the initiator accepts the message that was sent, its two keys are those
  of the committed session crossed over, the transcripts agree, and the session names the
  initiator's static key.
\<close>

theorem committed_session_agrees:
  assumes "crypto_laws cr" "length si = 32" "length sr = 32" "length ei = 32" "length er = 32"
    and "write_initiation cr ei idx ts sig (replicate 16 0)
      (initiator_new cr (from_secret cr si) (kp_public (from_secret cr sr))) = (Ok msg1, i)"
    and "process_datagram cr msg1 sr sig send er now t = (Ok slot, t', sent)"
  shows "\<exists>m i' s. sent = [m] \<and> t' = t[slot := Some s] \<and> read_response cr m sig i = (Ok (), i')
    \<and> hs_send_key s = hr_recv_key (initiator_finalize cr i')
    \<and> hs_recv_key s = hr_send_key (initiator_finalize cr i')
    \<and> hs_hash s = hr_handshake_hash (initiator_finalize cr i')
    \<and> hs_peer_static s = kp_public (from_secret cr si)"
  by (rule committed_agrees [OF assms])

lemma committed_session_agrees_witness:
  "\<exists>msg1 i t' m i' s. process_datagram toy_crypto msg1 (replicate 32 2) (replicate 32 5) (\<lambda>_. True)
      (replicate 32 4) 50 hs_table_new = (Ok 0, t', [m])
    \<and> t' ! 0 = Some s \<and> read_response toy_crypto m (replicate 32 5) i = (Ok (), i')
    \<and> hs_send_key s = hr_recv_key (initiator_finalize toy_crypto i')
    \<and> hs_peer_static s = replicate 32 10"
proof -
  have pub: "kp_public (from_secret toy_crypto (replicate 32 x)) = replicate 32 (x + 9)" for x
    by (simp add: from_secret_def toy_crypto_def zip_replicate)
  have d: "dh toy_crypto (replicate 32 x) (replicate 32 y) = Ok (replicate 32 (x + y))" if "x + y \<noteq> 0" for x y
    using that toy_dh [of "replicate 32 x" "replicate 32 y"] by (simp add: zip_replicate)
  let ?sr = "from_secret toy_crypto (replicate 32 2)" and ?si = "from_secret toy_crypto (replicate 32 1)"
  obtain msg1 i where w: "write_initiation toy_crypto (replicate 32 3) 7 99 (replicate 32 5) (replicate 16 0)
      (initiator_new toy_crypto ?si (kp_public ?sr)) = (Ok msg1, i)"
    by (simp add: write_initiation_def initiator_new_def Let_def pub d split_beta)
  have shape: "length msg1 = 144" "msg1 ! 0 = 1"
    using initiation_agrees [OF toy_crypto_laws _ _ _ w] w
    by (auto simp: write_initiation_def initiator_new_def Let_def pub d split_beta)
  from initiation_agrees [OF toy_crypto_laws _ _ _ w] obtain r where
    r: "read_initiation toy_crypto msg1 (replicate 32 5) (responder_new toy_crypto ?sr)
      = (Ok \<lparr>ii_sender_index = 7, ii_initiator_static_pub = kp_public ?si, ii_timestamp_ms = 99\<rparr>, r)"
      "rp_re r = kp_public (from_secret toy_crypto (replicate 32 3))" "rp_remote_static_pub r = kp_public ?si"
    by auto
  have free: "position (\<lambda>s. s = None) hs_table_new = Some 0"
    by (simp add: hs_table_new_def HS_MAX_SESSIONS_def numeral_eq_Suc)
  obtain t' m where p: "process_datagram toy_crypto msg1 (replicate 32 2) (replicate 32 5) (\<lambda>_. True)
      (replicate 32 4) 50 hs_table_new = (Ok 0, t', [m])"
    using free has_free_position [of hs_table_new]
    by (simp add: process_datagram_def shape MSG1_SIZE_def r write_response_def Let_def pub d split_beta hs_commit_def)
  from committed_session_agrees [OF toy_crypto_laws _ _ _ _ w p] obtain i' s where
    "t' = hs_table_new[0 := Some s]" "read_response toy_crypto m (replicate 32 5) i = (Ok (), i')"
    "hs_send_key s = hr_recv_key (initiator_finalize toy_crypto i')" "hs_peer_static s = kp_public ?si"
    by auto
  moreover have "hs_table_new[0 := Some s] ! 0 = Some s" by (simp add: hs_table_new_def HS_MAX_SESSIONS_def)
  moreover have "kp_public ?si = replicate 32 10" using pub [of 1] by simp
  ultimately show ?thesis using p by metis
qed

end
