(* ===== verification/Dag.thy ===== *)
theory Dag
  imports Prelude
begin

text \<open>
  The causal graph over envelope hashes (src/src/transport/dag.rs) and the audit without a
  clock (src/src/transport/historical.rs). An array with its count is the list of its used
  part: the node table with node_count, each parent row with its parent_count, and the queue
  and touched arrays of one search with their tails; a write past an array's end is a panic.
  Node indices, below 128, are natural numbers. The search is the code's breadth-first loop
  with its shared visited bitmap and its reset.
\<close>

section \<open>The graph\<close>

definition NODE_BYTES :: nat where "NODE_BYTES = 32"
definition MAX_NODES :: nat where "MAX_NODES = 128"
definition DAG_MAX_PARENTS :: nat where "DAG_MAX_PARENTS = 8"

lemmas dag_sizes = NODE_BYTES_def MAX_NODES_def DAG_MAX_PARENTS_def

datatype dag_error = DagOverflow | Cyclic | NotNode

record dag =
  dg_nodes :: "bytes list"
  dg_parents :: "nat list list"
  dg_visited :: "bool list"

definition dag_new :: dag where
  "dag_new = \<lparr>dg_nodes = [], dg_parents = [], dg_visited = replicate MAX_NODES False\<rparr>"

definition index_of :: "bytes \<Rightarrow> dag \<Rightarrow> nat option" where
  "index_of hash d = position (\<lambda>n. n = hash) (dg_nodes d)"

definition dag_contains :: "bytes \<Rightarrow> dag \<Rightarrow> bool" where
  "dag_contains hash d \<longleftrightarrow> index_of hash d \<noteq> None"

definition intern :: "bytes \<Rightarrow> dag \<Rightarrow> (nat, dag_error) outcome \<times> dag" where
  "intern hash d =
     (case index_of hash d of
        Some i \<Rightarrow> (Ok i, d)
      | None \<Rightarrow>
        if length (dg_nodes d) \<ge> MAX_NODES then (Err DagOverflow, d)
        else (Ok (length (dg_nodes d)),
              d\<lparr>dg_nodes := dg_nodes d @ [hash], dg_parents := dg_parents d @ [[]]\<rparr>))"

section \<open>The search\<close>

record bfs =
  bf_head :: nat
  bf_queue :: "nat list"
  bf_visited :: "bool list"
  bf_touched :: "nat list"

text \<open>One unvisited node: mark it, remember it, append it to the queue.\<close>

definition bfs_push :: "nat \<Rightarrow> bfs \<Rightarrow> (bfs, 'e) outcome" where
  "bfs_push p s =
     (if p \<ge> length (bf_visited s) \<or> length (bf_touched s) \<ge> MAX_NODES \<or> length (bf_queue s) \<ge> MAX_NODES
      then Panic
      else Ok (s\<lparr>bf_visited := (bf_visited s)[p := True], bf_touched := bf_touched s @ [p],
                 bf_queue := bf_queue s @ [p]\<rparr>))"

primrec scan_parents :: "nat \<Rightarrow> nat list \<Rightarrow> bfs \<Rightarrow> (bool \<times> bfs, 'e) outcome" where
  "scan_parents ancestor [] s = Ok (False, s)"
| "scan_parents ancestor (p # ps) s =
     (if p = ancestor then Ok (True, s)
      else and_then (index_at (bf_visited s) p) (\<lambda>seen.
        if seen then scan_parents ancestor ps s
        else and_then (bfs_push p s) (scan_parents ancestor ps)))"

text \<open>A scan keeps the number of unvisited nodes plus the length of the queue.\<close>

definition unvisited :: "bool list \<Rightarrow> nat" where
  "unvisited vs = length (filter Not vs)"

lemma unvisited_mark: "p < length vs \<Longrightarrow> \<not> vs ! p \<Longrightarrow> Suc (unvisited (vs[p := True])) = unvisited vs"
proof (induction vs arbitrary: p)
  case (Cons v vs)
  then show ?case by (cases p) (auto simp: unvisited_def)
qed simp

lemma scan_parents_keeps:
  "scan_parents a ps s = (Ok (b, s') :: (bool \<times> bfs, 'e) outcome) \<Longrightarrow>
     bf_head s' = bf_head s
     \<and> unvisited (bf_visited s') + length (bf_queue s') = unvisited (bf_visited s) + length (bf_queue s)
     \<and> length (bf_queue s) \<le> length (bf_queue s')"
proof (induction ps arbitrary: s)
  case (Cons p ps)
  show ?case
  proof (cases "p = a")
    case False
    with Cons.prems obtain seen where seen: "index_at (bf_visited s) p = (Ok seen :: (bool, 'e) outcome)" by auto
    show ?thesis
    proof (cases seen)
      case True
      with Cons False seen show ?thesis by simp
    next
      case False
      with \<open>p \<noteq> a\<close> seen Cons.prems obtain s1 where push: "bfs_push p s = (Ok s1 :: (bfs, 'e) outcome)"
        and rest: "scan_parents a ps s1 = (Ok (b, s') :: (bool \<times> bfs, 'e) outcome)" by auto
      have "p < length (bf_visited s)" "\<not> bf_visited s ! p"
        using seen False by (auto simp: index_at_def split: if_splits)
      with push have "bf_head s1 = bf_head s" "length (bf_queue s1) = Suc (length (bf_queue s))"
        "Suc (unvisited (bf_visited s1)) = unvisited (bf_visited s)"
        using unvisited_mark by (auto simp: bfs_push_def split: if_splits)
      with Cons.IH [OF rest] show ?thesis by simp
    qed
  qed (use Cons.prems in simp)
qed simp

function bfs_loop :: "nat \<Rightarrow> dag \<Rightarrow> bfs \<Rightarrow> (bool \<times> bfs, 'e) outcome" where
  "bfs_loop ancestor d s =
     (if bf_head s < length (bf_queue s) then
        let cur = bf_queue s ! bf_head s; s1 = s\<lparr>bf_head := bf_head s + 1\<rparr> in
        if cur < length (dg_parents d) then
          (case scan_parents ancestor (dg_parents d ! cur) s1 of
             Ok (found, s2) \<Rightarrow> if found then Ok (True, s2) else bfs_loop ancestor d s2
           | Err e \<Rightarrow> Err e | Panic \<Rightarrow> Panic)
        else Panic
      else Ok (False, s))"
  by auto
termination
proof (relation "measure (\<lambda>(a, d, s). unvisited (bf_visited s) + length (bf_queue s) - bf_head s)")
  fix a d s cur s1 x found s2
  assume h: "bf_head s < length (bf_queue s)" and s1: "s1 = s\<lparr>bf_head := bf_head s + 1\<rparr>"
    and r: "scan_parents a (dg_parents d ! cur) s1 = Ok x" "(found, s2) = x"
  from scan_parents_keeps [of a "dg_parents d ! cur" s1 found s2] r
  have "bf_head s2 = bf_head s1" "length (bf_queue s1) \<le> length (bf_queue s2)"
    "unvisited (bf_visited s2) + length (bf_queue s2) = unvisited (bf_visited s1) + length (bf_queue s1)"
    by auto
  with h s1 show "((a, d, s2), a, d, s) \<in> measure (\<lambda>(a, d, s). unvisited (bf_visited s) + length (bf_queue s) - bf_head s)"
    by auto
qed simp

declare bfs_loop.simps [simp del]

definition reset_visited :: "nat list \<Rightarrow> dag \<Rightarrow> dag" where
  "reset_visited touched d = d\<lparr>dg_visited := fold (\<lambda>i vs. vs[i := False]) touched (dg_visited d)\<rparr>"

definition is_ancestor_idx :: "nat \<Rightarrow> nat \<Rightarrow> dag \<Rightarrow> (bool, 'e) outcome \<times> dag" where
  "is_ancestor_idx ancestor descendant d =
     (if ancestor = descendant then (Ok False, d)
      else
        case and_then (bfs_push descendant
               \<lparr>bf_head = 0, bf_queue = [], bf_visited = dg_visited d, bf_touched = []\<rparr>) (bfs_loop ancestor d) of
          Ok (found, s) \<Rightarrow> (Ok found, reset_visited (bf_touched s) (d\<lparr>dg_visited := bf_visited s\<rparr>))
        | Err e \<Rightarrow> (Err e, d) | Panic \<Rightarrow> (Panic, d))"

definition dag_insert :: "bytes \<Rightarrow> bytes \<Rightarrow> dag \<Rightarrow> (unit, dag_error) outcome \<times> dag" where
  "dag_insert parent child d =
     (if parent = child then (Err Cyclic, d)
      else then_state (intern parent d) (\<lambda>pidx d.
        then_state (intern child d) (\<lambda>cidx d.
          then_state (is_ancestor_idx cidx pidx d) (\<lambda>closes d.
            if closes then (Err Cyclic, d)
            else if pidx \<in> set (dg_parents d ! cidx) then (Ok (), d)
            else if length (dg_parents d ! cidx) \<ge> DAG_MAX_PARENTS then (Err DagOverflow, d)
            else (Ok (), d\<lparr>dg_parents := (dg_parents d)[cidx := dg_parents d ! cidx @ [pidx]]\<rparr>)))))"

definition is_ancestor :: "bytes \<Rightarrow> bytes \<Rightarrow> dag \<Rightarrow> (bool, 'e) outcome \<times> dag" where
  "is_ancestor ancestor descendant d =
     (case index_of ancestor d of None \<Rightarrow> (Ok False, d) | Some a \<Rightarrow>
      (case index_of descendant d of None \<Rightarrow> (Ok False, d) | Some b \<Rightarrow> is_ancestor_idx a b d))"

definition supersedes :: "bytes \<Rightarrow> bytes \<Rightarrow> bytes \<Rightarrow> dag \<Rightarrow> (bool, 'e) outcome \<times> dag" where
  "supersedes origin effect claim d =
     then_state (is_ancestor origin effect d) (\<lambda>first d.
       if first then is_ancestor effect claim d else (Ok False, d))"

definition node_from_slice :: "bytes \<Rightarrow> (bytes, dag_error) outcome" where
  "node_from_slice s = (if length s \<noteq> NODE_BYTES then Err NotNode else Ok s)"

section \<open>The search decides ancestry\<close>

definition edges :: "dag \<Rightarrow> (nat \<times> nat) set" where
  "edges d = {(p, c). c < length (dg_parents d) \<and> p \<in> set (dg_parents d ! c)}"

definition dag_shape :: "dag \<Rightarrow> bool" where
  "dag_shape d \<longleftrightarrow>
     length (dg_nodes d) \<le> 128 \<and> distinct (dg_nodes d) \<and> length (dg_parents d) = length (dg_nodes d)
     \<and> (\<forall>row\<in>set (dg_parents d). distinct row \<and> length row \<le> 8 \<and> set row \<subseteq> {..<length (dg_nodes d)})
     \<and> dg_visited d = replicate 128 False"

definition dag_inv :: "dag \<Rightarrow> bool" where
  "dag_inv d \<longleftrightarrow> dag_shape d \<and> acyclic (edges d)"

text \<open>
  What holds at every step of a search from b: the visited marks, the touched list and the
  queue name the same nodes, all of them b or ancestors of b.
\<close>

definition search_ok :: "dag \<Rightarrow> nat \<Rightarrow> bfs \<Rightarrow> bool" where
  "search_ok d b s \<longleftrightarrow>
     bf_touched s = bf_queue s \<and> distinct (bf_queue s) \<and> set (bf_queue s) \<subseteq> {..<length (dg_nodes d)}
     \<and> bf_visited s = map (\<lambda>v. v \<in> set (bf_queue s)) [0..<128]
     \<and> set (bf_queue s) \<subseteq> {v. (v, b) \<in> (edges d)\<^sup>*} \<and> b \<in> set (bf_queue s)
     \<and> bf_head s \<le> length (bf_queue s)"

lemma marks_update: "(map (\<lambda>v. v \<in> Q) [0..<n])[p := True] = map (\<lambda>v. v \<in> insert p Q) [0..<n]"
proof (rule nth_equalityI)
  fix i
  assume "i < length ((map (\<lambda>v. v \<in> Q) [0..<n])[p := True])"
  then show "(map (\<lambda>v. v \<in> Q) [0..<n])[p := True] ! i = map (\<lambda>v. v \<in> insert p Q) [0..<n] ! i"
    by (cases "i = p") simp_all
qed simp

lemma mark_one: "(replicate 128 False)[p := True] = map (\<lambda>v. v = p) [0..<128]"
  using marks_update [of "{}" 128 p] by (simp add: map_replicate_trivial map_replicate_const)

lemma bfs_push_ok:
  assumes sh: "dag_shape d" and s: "search_ok d b s"
    and p: "p < length (dg_nodes d)" "p \<notin> set (bf_queue s)" "(p, b) \<in> (edges d)\<^sup>*"
  shows "\<exists>s'. (bfs_push p s :: (bfs, 'e) outcome) = Ok s' \<and> search_ok d b s'
    \<and> bf_queue s' = bf_queue s @ [p] \<and> bf_head s' = bf_head s"
proof -
  have len: "length (dg_nodes d) \<le> 128" using sh by (simp add: dag_shape_def)
  have "card (set (p # bf_queue s)) \<le> card {..<length (dg_nodes d)}"
    using s p by (intro card_mono) (auto simp: search_ok_def)
  then have q: "length (bf_queue s) < 128"
    using s p len by (simp add: search_ok_def distinct_card)
  have "(map (\<lambda>v. v \<in> set (bf_queue s)) [0..<128])[p := True] = map (\<lambda>v. v \<in> set (bf_queue s @ [p])) [0..<128]"
    using marks_update [of "set (bf_queue s)" 128 p] by simp
  with q s p len show ?thesis
    by (auto simp: bfs_push_def search_ok_def MAX_NODES_def)
qed

lemma scan_parents_ok:
  assumes sh: "dag_shape d" and "search_ok d b s" "set ps \<subseteq> {v. (v, b) \<in> (edges d)\<^sup>*}"
    "set ps \<subseteq> {..<length (dg_nodes d)}"
  shows "\<exists>s'. (scan_parents a ps s :: (bool \<times> bfs, 'e) outcome) = Ok (a \<in> set ps, s') \<and> search_ok d b s'
    \<and> bf_head s' = bf_head s \<and> (\<exists>new. bf_queue s' = bf_queue s @ new \<and> a \<notin> set new)
    \<and> (a \<notin> set ps \<longrightarrow> set ps \<subseteq> set (bf_queue s'))"
  using assms(2-)
proof (induction ps arbitrary: s)
  case (Cons p ps)
  show ?case
  proof (cases "p = a")
    case False
    have "p < 128" using Cons.prems sh by (auto simp: dag_shape_def)
    then have seen: "index_at (bf_visited s) p = Ok (p \<in> set (bf_queue s))"
      using Cons.prems by (simp add: search_ok_def index_at_def)
    show ?thesis
    proof (cases "p \<in> set (bf_queue s)")
      case True
      with Cons.IH [of s] Cons.prems False seen show ?thesis by fastforce
    next
      case new: False
      from bfs_push_ok [OF sh Cons.prems(1), of p] Cons.prems new obtain s1 where
        s1: "(bfs_push p s :: (bfs, 'e) outcome) = Ok s1" "search_ok d b s1"
          "bf_queue s1 = bf_queue s @ [p]" "bf_head s1 = bf_head s" by auto
      with Cons.IH [OF s1(2)] Cons.prems False seen new show ?thesis by fastforce
    qed
  qed (use Cons.prems in simp)
qed simp

lemma ancestors_within:
  assumes "(a, b) \<in> (edges d)\<^sup>+" "b \<in> Q" "\<And>v p. v \<in> Q \<Longrightarrow> (p, v) \<in> edges d \<Longrightarrow> p \<noteq> a \<and> p \<in> Q"
  shows False
  using assms
  by (induction rule: converse_trancl_induct) blast+

lemma bfs_loop_ok:
  "dag_shape d \<Longrightarrow> search_ok d b s \<Longrightarrow> a \<notin> set (bf_queue s) \<Longrightarrow>
     (\<And>i p. i < bf_head s \<Longrightarrow> (p, bf_queue s ! i) \<in> edges d \<Longrightarrow> p \<noteq> a \<and> p \<in> set (bf_queue s)) \<Longrightarrow>
     \<exists>s'. (bfs_loop a d s :: (bool \<times> bfs, 'e) outcome) = Ok ((a, b) \<in> (edges d)\<^sup>+, s') \<and> search_ok d b s'"
proof (induction a d s rule: bfs_loop.induct [where ?'a = 'e])
  case (1 a d s)
  note sh = "1.prems"(1) and ok = "1.prems"(2) and fresh = "1.prems"(3) and past = "1.prems"(4)
  show ?case
  proof (cases "bf_head s < length (bf_queue s)")
    case False
    then have "bf_head s = length (bf_queue s)" using ok by (simp add: search_ok_def)
    then have "\<And>v p. v \<in> set (bf_queue s) \<Longrightarrow> (p, v) \<in> edges d \<Longrightarrow> p \<noteq> a \<and> p \<in> set (bf_queue s)"
      using past by (metis in_set_conv_nth)
    then have "(a, b) \<notin> (edges d)\<^sup>+"
      using ancestors_within [of a b d "set (bf_queue s)"] ok by (auto simp: search_ok_def)
    then show ?thesis using False ok by (simp add: bfs_loop.simps [of a d s])
  next
    case True
    define cur where "cur = bf_queue s ! bf_head s"
    define s1 where "s1 = s\<lparr>bf_head := bf_head s + 1\<rparr>"
    have in_q: "cur \<in> set (bf_queue s)" using True by (simp add: cur_def)
    then have cur: "cur < length (dg_parents d)" "(cur, b) \<in> (edges d)\<^sup>*"
      using sh ok by (auto simp: search_ok_def dag_shape_def)
    have row: "dg_parents d ! cur \<in> set (dg_parents d)" using cur by simp
    have par: "(p, cur) \<in> edges d \<longleftrightarrow> p \<in> set (dg_parents d ! cur)" for p
      using cur by (simp add: edges_def)
    have ok1: "search_ok d b s1" using ok True by (simp add: s1_def search_ok_def)
    have "set (dg_parents d ! cur) \<subseteq> {v. (v, b) \<in> (edges d)\<^sup>*}"
      using par cur(2) by (auto intro: converse_rtrancl_into_rtrancl)
    moreover have "set (dg_parents d ! cur) \<subseteq> {..<length (dg_nodes d)}"
      using sh row by (auto simp: dag_shape_def)
    ultimately obtain s2 where s2: "(scan_parents a (dg_parents d ! cur) s1 :: (bool \<times> bfs, 'e) outcome)
        = Ok (a \<in> set (dg_parents d ! cur), s2)" "search_ok d b s2" "bf_head s2 = bf_head s1"
      and new: "\<exists>new. bf_queue s2 = bf_queue s1 @ new \<and> a \<notin> set new"
      and all: "a \<notin> set (dg_parents d ! cur) \<Longrightarrow> set (dg_parents d ! cur) \<subseteq> set (bf_queue s2)"
      using scan_parents_ok [OF sh ok1, of "dg_parents d ! cur" a] by blast
    have step: "bfs_loop a d s =
        (if a \<in> set (dg_parents d ! cur) then Ok (True, s2) else bfs_loop a d s2 :: (bool \<times> bfs, 'e) outcome)"
      using True cur(1) s2(1) [unfolded s1_def]
      by (simp add: bfs_loop.simps [of a d s] cur_def [symmetric] Let_def)
    show ?thesis
    proof (cases "a \<in> set (dg_parents d ! cur)")
      case True
      then have "(a, cur) \<in> edges d" by (simp add: par)
      then have "(a, b) \<in> (edges d)\<^sup>+" using cur(2) by (rule rtrancl_into_trancl2)
      with True step s2(2) show ?thesis by simp
    next
      case False
      obtain more where q2: "bf_queue s2 = bf_queue s @ more" "a \<notin> set more" using new by (auto simp: s1_def)
      have "p \<noteq> a \<and> p \<in> set (bf_queue s2)" if "i < bf_head s2" "(p, bf_queue s2 ! i) \<in> edges d" for i p
      proof (cases "i < bf_head s")
        case True
        then have "bf_queue s2 ! i = bf_queue s ! i"
          using q2 \<open>bf_head s < length (bf_queue s)\<close> by (simp add: nth_append)
        with past [OF True] that(2) q2 show ?thesis by auto
      next
        case False
        then have "i = bf_head s" using that(1) s2(3) by (simp add: s1_def)
        then have "bf_queue s2 ! i = cur"
          using q2 \<open>bf_head s < length (bf_queue s)\<close> by (simp add: nth_append cur_def)
        with that(2) par all \<open>a \<notin> set (dg_parents d ! cur)\<close> show ?thesis by auto
      qed
      moreover have "a \<notin> set (bf_queue s2)" using fresh q2 by simp
      ultimately have "\<exists>s'. (bfs_loop a d s2 :: (bool \<times> bfs, 'e) outcome)
          = Ok ((a, b) \<in> (edges d)\<^sup>+, s') \<and> search_ok d b s'"
        using "1.IH" [OF True cur_def s1_def _ s2(1)] cur(1) False sh s2(2) by (simp add: cur_def)
      with False step show ?thesis by simp
    qed
  qed
qed

lemma reset_marks:
  "length (fold (\<lambda>i vs. vs[i := False]) q vs) = length vs
   \<and> (\<forall>k<length vs. fold (\<lambda>i vs. vs[i := False]) q vs ! k = (k \<notin> set q \<and> vs ! k))"
  by (induction q arbitrary: vs) (auto, metis nth_list_update_eq nth_list_update_neq)

text \<open>The search answers exactly ancestry and leaves the graph as it was.\<close>

lemma is_ancestor_idx_exact:
  assumes "dag_inv d" "a < length (dg_nodes d)" "b < length (dg_nodes d)"
  shows "is_ancestor_idx a b d = (Ok ((a, b) \<in> (edges d)\<^sup>+) :: (bool, 'e) outcome, d)"
proof (cases "a = b")
  case True
  with assms(1) show ?thesis by (simp add: is_ancestor_idx_def dag_inv_def acyclic_def)
next
  case False
  have sh: "dag_shape d" using assms(1) by (simp add: dag_inv_def)
  then have vis: "dg_visited d = replicate 128 False" and n: "length (dg_nodes d) \<le> 128" by (simp_all add: dag_shape_def)
  let ?s0 = "\<lparr>bf_head = 0, bf_queue = [], bf_visited = dg_visited d, bf_touched = []\<rparr>"
  define s1 where "s1 = \<lparr>bf_head = 0, bf_queue = [b], bf_visited = (dg_visited d)[b := True], bf_touched = [b]\<rparr>"
  have push: "bfs_push b ?s0 = (Ok s1 :: (bfs, 'e) outcome)" using assms(3) n by (simp add: bfs_push_def s1_def vis MAX_NODES_def)
  have "search_ok d b s1"
    using assms(3) n mark_one [of b] by (simp add: search_ok_def s1_def vis)
  with bfs_loop_ok [OF sh this, of a] False obtain s2 where
    loop: "bfs_loop a d s1 = (Ok ((a, b) \<in> (edges d)\<^sup>+, s2) :: (bool \<times> bfs, 'e) outcome)" and s2: "search_ok d b s2"
    by (auto simp: s1_def)
  have "fold (\<lambda>i vs. vs[i := False]) (bf_touched s2) (bf_visited s2) = replicate 128 False"
    using s2 reset_marks [of "bf_queue s2" "bf_visited s2"]
    by (intro nth_equalityI) (simp_all add: search_ok_def)
  then show ?thesis
    using False by (simp add: is_ancestor_idx_def push loop reset_visited_def vis [symmetric])
qed

section \<open>The relation over hashes\<close>

definition causes :: "dag \<Rightarrow> (bytes \<times> bytes) set" where
  "causes d = map_prod ((!) (dg_nodes d)) ((!) (dg_nodes d)) ` edges d"

lemma edges_within: "dag_shape d \<Longrightarrow> (p, c) \<in> edges d \<Longrightarrow> p < length (dg_nodes d) \<and> c < length (dg_nodes d)"
  by (force simp: edges_def dag_shape_def)

lemma causes_mem:
  assumes "dag_shape d" "p < length (dg_nodes d)" "c < length (dg_nodes d)"
  shows "(dg_nodes d ! p, dg_nodes d ! c) \<in> causes d \<longleftrightarrow> (p, c) \<in> edges d"
proof
  assume "(dg_nodes d ! p, dg_nodes d ! c) \<in> causes d"
  then obtain i j where e: "(i, j) \<in> edges d" "dg_nodes d ! p = dg_nodes d ! i" "dg_nodes d ! c = dg_nodes d ! j"
    by (auto simp: causes_def)
  with edges_within [OF assms(1) e(1)] assms have "p = i" "c = j"
    by (auto simp: dag_shape_def nth_eq_iff_index_eq)
  with e(1) show "(p, c) \<in> edges d" by simp
qed (force simp: causes_def)

lemma causes_trancl:
  assumes "dag_shape d" "p < length (dg_nodes d)" "c < length (dg_nodes d)"
  shows "(dg_nodes d ! p, dg_nodes d ! c) \<in> (causes d)\<^sup>+ \<longleftrightarrow> (p, c) \<in> (edges d)\<^sup>+"
proof
  have "\<exists>i j. (i, j) \<in> (edges d)\<^sup>+ \<and> u = dg_nodes d ! i \<and> v = dg_nodes d ! j \<and> i < length (dg_nodes d) \<and> j < length (dg_nodes d)"
    if "(u, v) \<in> (causes d)\<^sup>+" for u v
    using that
  proof (induction rule: trancl_induct)
    case (base v)
    then obtain i j where "(i, j) \<in> edges d" "u = dg_nodes d ! i" "v = dg_nodes d ! j" by (auto simp: causes_def)
    with edges_within [OF assms(1)] show ?case by blast
  next
    case (step v w)
    then obtain i j where ij: "(i, j) \<in> (edges d)\<^sup>+" "u = dg_nodes d ! i" "v = dg_nodes d ! j"
      "i < length (dg_nodes d)" "j < length (dg_nodes d)" by blast
    from step(2) obtain j' k where jk: "(j', k) \<in> edges d" "v = dg_nodes d ! j'" "w = dg_nodes d ! k"
      by (auto simp: causes_def)
    with edges_within [OF assms(1)] have "j' < length (dg_nodes d)" "k < length (dg_nodes d)" by blast+
    moreover have "j' = j" using assms(1) ij jk calculation by (auto simp: dag_shape_def nth_eq_iff_index_eq)
    ultimately show ?case using ij jk by (metis trancl_into_trancl)
  qed
  moreover assume "(dg_nodes d ! p, dg_nodes d ! c) \<in> (causes d)\<^sup>+"
  ultimately obtain i j where "(i, j) \<in> (edges d)\<^sup>+" "dg_nodes d ! p = dg_nodes d ! i"
    "dg_nodes d ! c = dg_nodes d ! j" "i < length (dg_nodes d)" "j < length (dg_nodes d)" by blast
  with assms show "(p, c) \<in> (edges d)\<^sup>+" by (auto simp: dag_shape_def nth_eq_iff_index_eq)
next
  assume "(p, c) \<in> (edges d)\<^sup>+"
  then show "(dg_nodes d ! p, dg_nodes d ! c) \<in> (causes d)\<^sup>+"
  proof (induction rule: trancl_induct)
    case (base c)
    then have "(dg_nodes d ! p, dg_nodes d ! c) \<in> causes d" by (force simp: causes_def)
    then show ?case by blast
  next
    case (step c k)
    then have "(dg_nodes d ! c, dg_nodes d ! k) \<in> causes d" by (force simp: causes_def)
    with step(3) show ?case by (rule trancl_into_trancl)
  qed
qed

lemma causes_known: "dag_shape d \<Longrightarrow> (u, v) \<in> (causes d)\<^sup>+ \<Longrightarrow> u \<in> set (dg_nodes d) \<and> v \<in> set (dg_nodes d)"
proof -
  assume sh: "dag_shape d" and t: "(u, v) \<in> (causes d)\<^sup>+"
  have "causes d \<subseteq> set (dg_nodes d) \<times> set (dg_nodes d)"
    using edges_within [OF sh] by (auto simp: causes_def)
  then have "(causes d)\<^sup>+ \<subseteq> set (dg_nodes d) \<times> set (dg_nodes d)" by (rule trancl_subset_Sigma)
  with t show ?thesis by blast
qed

lemma acyclic_causes: "dag_inv d \<Longrightarrow> acyclic (causes d)"
proof -
  assume inv: "dag_inv d"
  have "(u, u) \<notin> (causes d)\<^sup>+" for u
  proof
    assume u: "(u, u) \<in> (causes d)\<^sup>+"
    with inv causes_known obtain i where "i < length (dg_nodes d)" "u = dg_nodes d ! i"
      by (metis dag_inv_def in_set_conv_nth)
    with u inv causes_trancl show False by (auto simp: dag_inv_def acyclic_def)
  qed
  then show ?thesis by (simp add: acyclic_def)
qed

lemma index_of_Some: "index_of h d = Some i \<Longrightarrow> i < length (dg_nodes d) \<and> dg_nodes d ! i = h"
  using position_SomeD by (fastforce simp: index_of_def)

lemma index_of_None: "index_of h d = None \<longleftrightarrow> h \<notin> set (dg_nodes d)"
  by (auto simp: index_of_def position_None)

lemma is_ancestor_exact:
  assumes "dag_inv d"
  shows "is_ancestor u v d = (Ok ((u, v) \<in> (causes d)\<^sup>+), d)"
proof -
  have sh: "dag_shape d" using assms by (simp add: dag_inv_def)
  show ?thesis
  proof (cases "index_of u d")
    case None
    then have "(u, v) \<notin> (causes d)\<^sup>+" using causes_known [OF sh] by (auto simp: index_of_None)
    with None show ?thesis by (simp add: is_ancestor_def)
  next
    case (Some i)
    note i = this index_of_Some [OF this]
    show ?thesis
    proof (cases "index_of v d")
      case None
      then have "(u, v) \<notin> (causes d)\<^sup>+" using causes_known [OF sh] by (auto simp: index_of_None)
      with None i show ?thesis by (simp add: is_ancestor_def)
    next
      case (Some j)
      with i index_of_Some [OF this] is_ancestor_idx_exact [OF assms, of i j] causes_trancl [OF sh, of i j]
      show ?thesis by (auto simp: is_ancestor_def)
    qed
  qed
qed

section \<open>Insertion\<close>

lemma intern_None:
  assumes "dag_inv d" "h \<notin> set (dg_nodes d)" "length (dg_nodes d) < 128"
  defines "d' \<equiv> d\<lparr>dg_nodes := dg_nodes d @ [h], dg_parents := dg_parents d @ [[]]\<rparr>"
  shows "dag_inv d' \<and> causes d' = causes d \<and> edges d' = edges d"
proof -
  have sh: "dag_shape d" using assms(1) by (simp add: dag_inv_def)
  then have len: "length (dg_parents d) = length (dg_nodes d)" by (simp add: dag_shape_def)
  have e: "edges d' = edges d" by (auto simp: edges_def d'_def nth_append less_Suc_eq split: if_splits)
  have "dag_shape d'" using sh assms(2,3) by (force simp: dag_shape_def d'_def)
  moreover have "causes d' = causes d"
    unfolding causes_def e using edges_within [OF sh]
    by (intro image_cong) (auto simp: d'_def nth_append)
  ultimately show ?thesis using assms(1) e by (simp add: dag_inv_def)
qed

lemma intern_cases:
  assumes "dag_inv d"
  obtains (overflow) "intern h d = (Err DagOverflow, d)" "h \<notin> set (dg_nodes d)" "128 \<le> length (dg_nodes d)"
  | (ok) i d' where "intern h d = (Ok i, d')" "dag_inv d'" "causes d' = causes d"
      "i < length (dg_nodes d')" "dg_nodes d' ! i = h" "set (dg_nodes d') = insert h (set (dg_nodes d))"
      "h \<in> set (dg_nodes d) \<or> length (dg_nodes d) < 128"
      "\<And>j. j < length (dg_nodes d) \<Longrightarrow> j < length (dg_nodes d') \<and> dg_nodes d' ! j = dg_nodes d ! j"
proof (cases "index_of h d")
  case (Some i)
  then have "h \<in> set (dg_nodes d)" using index_of_Some [OF Some] by auto
  with Some index_of_Some [OF Some] ok [of i d] assms show ?thesis by (auto simp: intern_def)
next
  case None
  then have new: "h \<notin> set (dg_nodes d)" by (simp add: index_of_None)
  show ?thesis
  proof (cases "128 \<le> length (dg_nodes d)")
    case True
    with None new overflow show ?thesis by (simp add: intern_def MAX_NODES_def)
  next
    case False
    with None new intern_None [OF assms new] ok [of "length (dg_nodes d)"] show ?thesis
      by (simp add: intern_def MAX_NODES_def nth_append)
  qed
qed

text \<open>The specification of an insertion: the known hashes and the relation between them.\<close>

definition spec_insert ::
  "bytes \<Rightarrow> bytes \<Rightarrow> bytes set \<times> (bytes \<times> bytes) set \<Rightarrow> (unit, dag_error) outcome \<times> bytes set \<times> (bytes \<times> bytes) set" where
  "spec_insert p c = (\<lambda>(V, E).
     if p = c then (Err Cyclic, V, E)
     else if p \<notin> V \<and> 128 \<le> card V then (Err DagOverflow, V, E)
     else if c \<notin> V \<and> 128 \<le> card (insert p V) then (Err DagOverflow, insert p V, E)
     else
       let V = insert c (insert p V) in
       if (c, p) \<in> E\<^sup>+ then (Err Cyclic, V, E)
       else if (p, c) \<in> E then (Ok (), V, E)
       else if 8 \<le> card {q. (q, c) \<in> E} then (Err DagOverflow, V, E)
       else (Ok (), V, insert (p, c) E))"

definition abs_dag :: "dag \<Rightarrow> bytes set \<times> (bytes \<times> bytes) set" where
  "abs_dag d = (set (dg_nodes d), causes d)"

lemma indegree:
  assumes sh: "dag_shape d" and c: "c < length (dg_nodes d)"
  shows "card {q. (q, dg_nodes d ! c) \<in> causes d} = length (dg_parents d ! c)"
proof -
  have row: "dg_parents d ! c \<in> set (dg_parents d)" using sh c by (simp add: dag_shape_def)
  then have r: "distinct (dg_parents d ! c)" "set (dg_parents d ! c) \<subseteq> {..<length (dg_nodes d)}"
    using sh by (auto simp: dag_shape_def)
  have "{q. (q, dg_nodes d ! c) \<in> causes d} = (!) (dg_nodes d) ` set (dg_parents d ! c)"
  proof (rule set_eqI)
    fix q
    show "q \<in> {q. (q, dg_nodes d ! c) \<in> causes d} \<longleftrightarrow> q \<in> (!) (dg_nodes d) ` set (dg_parents d ! c)"
    proof
      assume "q \<in> {q. (q, dg_nodes d ! c) \<in> causes d}"
      then have q: "(q, dg_nodes d ! c) \<in> causes d" by simp
      then obtain p c' where e: "(p, c') \<in> edges d" "q = dg_nodes d ! p" by (auto simp: causes_def)
      then have p: "p < length (dg_nodes d)" using edges_within [OF sh] by blast
      with causes_mem [OF sh p c] e(2) q show "q \<in> (!) (dg_nodes d) ` set (dg_parents d ! c)" by (auto simp: edges_def)
    next
      assume "q \<in> (!) (dg_nodes d) ` set (dg_parents d ! c)"
      then obtain p where p: "p \<in> set (dg_parents d ! c)" "q = dg_nodes d ! p" by blast
      moreover have "(p, c) \<in> edges d" using p(1) c sh by (simp add: edges_def dag_shape_def)
      ultimately show "q \<in> {q. (q, dg_nodes d ! c) \<in> causes d}" by (force simp: causes_def)
    qed
  qed
  moreover have "inj_on ((!) (dg_nodes d)) (set (dg_parents d ! c))"
    using sh r(2) by (intro inj_on_nth) (auto simp: dag_shape_def)
  ultimately show ?thesis using r(1) by (simp add: card_image distinct_card)
qed

lemma add_parent:
  assumes inv: "dag_inv d" and pc: "p < length (dg_nodes d)" "c < length (dg_nodes d)"
    and new: "p \<notin> set (dg_parents d ! c)" "length (dg_parents d ! c) < 8" "p \<noteq> c" "(c, p) \<notin> (edges d)\<^sup>+"
  defines "d' \<equiv> d\<lparr>dg_parents := (dg_parents d)[c := dg_parents d ! c @ [p]]\<rparr>"
  shows "dag_inv d' \<and> causes d' = insert (dg_nodes d ! p, dg_nodes d ! c) (causes d) \<and> dg_nodes d' = dg_nodes d"
proof -
  have sh: "dag_shape d" using inv by (simp add: dag_inv_def)
  have len: "c < length (dg_parents d)" using sh pc by (simp add: dag_shape_def)
  then have row: "dg_parents d ! c \<in> set (dg_parents d)" by simp
  have e: "edges d' = insert (p, c) (edges d)"
    using len by (auto simp: edges_def d'_def nth_list_update split: if_splits)
  have "set (dg_parents d') \<subseteq> insert (dg_parents d ! c @ [p]) (set (dg_parents d))"
    by (simp add: d'_def set_update_subset_insert)
  moreover have "distinct (dg_parents d ! c @ [p])" "length (dg_parents d ! c @ [p]) \<le> 8"
    "set (dg_parents d ! c @ [p]) \<subseteq> {..<length (dg_nodes d)}"
    using sh row pc new by (auto simp: dag_shape_def)
  ultimately have "\<forall>r\<in>set (dg_parents d'). distinct r \<and> length r \<le> 8 \<and> set r \<subseteq> {..<length (dg_nodes d)}"
    using sh unfolding dag_shape_def by blast
  then have "dag_shape d'" using sh by (simp add: dag_shape_def d'_def)
  moreover have "acyclic (edges d')"
    using inv new(3,4) by (auto simp: e dag_inv_def acyclic_insert rtrancl_eq_or_trancl)
  moreover have "causes d' = insert (dg_nodes d ! p, dg_nodes d ! c) (causes d)"
    by (simp add: causes_def e) (simp add: d'_def)
  ultimately show ?thesis by (simp add: dag_inv_def d'_def)
qed

lemma dag_insert_spec:
  assumes inv: "dag_inv d"
  shows "dag_inv (snd (dag_insert p c d))
    \<and> (fst (dag_insert p c d), abs_dag (snd (dag_insert p c d))) = spec_insert p c (abs_dag d)"
proof (cases "p = c")
  case ne: False
  have card: "dag_inv x \<Longrightarrow> card (set (dg_nodes x)) = length (dg_nodes x)" for x
    by (simp add: dag_inv_def dag_shape_def distinct_card)
  from inv show ?thesis
  proof (cases rule: intern_cases [where h = p])
    case overflow
    with ne card [OF inv] inv show ?thesis by (simp add: dag_insert_def spec_insert_def abs_dag_def)
  next
    case (ok i d1)
    note one = this
    from ok(2) show ?thesis
    proof (cases rule: intern_cases [where h = c])
      case overflow
      with one ne card [OF inv] card [OF one(2)] show ?thesis
        by (auto simp: dag_insert_def spec_insert_def abs_dag_def)
    next
      case (ok j d2)
      note two = this
      have nodes: "set (dg_nodes d2) = insert c (insert p (set (dg_nodes d)))" "causes d2 = causes d"
        using one two by simp_all
      have i: "i < length (dg_nodes d2)" "dg_nodes d2 ! i = p" using one two by auto
      have sh: "dag_shape d2" using two(2) by (simp add: dag_inv_def)
      then have len: "length (dg_parents d2) = length (dg_nodes d2)" by (simp add: dag_shape_def)
      have room: "p \<in> set (dg_nodes d) \<or> card (set (dg_nodes d)) < 128"
        "c \<in> insert p (set (dg_nodes d)) \<or> card (insert p (set (dg_nodes d))) < 128"
        using one(6,7) two(7) card [OF inv] card [OF one(2)] by auto
      have closes: "(j, i) \<in> (edges d2)\<^sup>+ \<longleftrightarrow> (c, p) \<in> (causes d)\<^sup>+"
        using causes_trancl [OF sh two(4) i(1)] two(5) i(2) nodes(2) by simp
      have known: "i \<in> set (dg_parents d2 ! j) \<longleftrightarrow> (p, c) \<in> causes d"
        using causes_mem [OF sh i(1) two(4)] two(4,5) i(2) nodes(2) len by (simp add: edges_def)
      have degree: "card {q. (q, c) \<in> causes d} = length (dg_parents d2 ! j)"
        using indegree [OF sh two(4)] two(5) nodes(2) by simp
      have search: "is_ancestor_idx j i d2 = (Ok ((c, p) \<in> (causes d)\<^sup>+) :: (bool, dag_error) outcome, d2)"
        using is_ancestor_idx_exact [OF two(2,4) i(1)] closes by simp
      have run: "dag_insert p c d = (if (c, p) \<in> (causes d)\<^sup>+ then (Err Cyclic, d2)
          else if (p, c) \<in> causes d then (Ok (), d2)
          else if 8 \<le> length (dg_parents d2 ! j) then (Err DagOverflow, d2)
          else (Ok (), d2\<lparr>dg_parents := (dg_parents d2)[j := dg_parents d2 ! j @ [i]]\<rparr>))"
        using ne one(1) two(1) search known by (simp add: dag_insert_def DAG_MAX_PARENTS_def)
      have spec: "spec_insert p c (abs_dag d) = (if (c, p) \<in> (causes d)\<^sup>+ then (Err Cyclic, abs_dag d2)
          else if (p, c) \<in> causes d then (Ok (), abs_dag d2)
          else if 8 \<le> length (dg_parents d2 ! j) then (Err DagOverflow, abs_dag d2)
          else (Ok (), set (dg_nodes d2), insert (p, c) (causes d2)))"
        using ne room degree nodes by (auto simp: spec_insert_def abs_dag_def Let_def)
      show ?thesis
      proof (cases "(c, p) \<notin> (causes d)\<^sup>+ \<and> (p, c) \<notin> causes d \<and> length (dg_parents d2 ! j) < 8")
        case True
        have "i \<noteq> j" using ne i two(5) by auto
        with True add_parent [OF two(2) i(1) two(4)] known closes i(2) two(5)
        show ?thesis unfolding run spec by (auto simp: abs_dag_def)
      next
        case False
        with two(2) show ?thesis unfolding run spec by auto
      qed
    qed
  qed
qed (simp add: dag_insert_def spec_insert_def inv abs_dag_def)

definition dag_step :: "bytes \<times> bytes \<Rightarrow> dag \<Rightarrow> dag" where
  "dag_step e d = snd (dag_insert (fst e) (snd e) d)"

interpretation dags: guarded_machine dag_new dag_step dag_inv
proof unfold_locales
  show "dag_inv dag_new"
    by (auto simp: dag_inv_def dag_shape_def dag_new_def dag_sizes edges_def acyclic_def)
qed (simp add: dag_step_def dag_insert_spec)

section \<open>The audit without a clock\<close>

datatype historical_error =
    NotDescendantOfAnchor | DescendantOfRevocation | AnchorNotFound
  | HsMalformedKey | HsBadCaSignature | HsUntrustedCa | HsCertExpired | HsCertTooLongLived
  | HsRoleAgentApprover | HsRoleAgentExecutor | HsRoleApproverExecutor | HsApproverNoQuorum

record audit_context =
  au_get_anchor :: "bytes \<Rightarrow> bytes option"
  au_get_revoke_hash :: "bytes \<Rightarrow> bytes option"
  au_validate_cert_no_clock :: "bytes \<Rightarrow> (unit, historical_error) outcome"

definition historical_validity ::
  "bytes \<Rightarrow> bytes \<Rightarrow> bytes \<Rightarrow> audit_context \<Rightarrow> dag \<Rightarrow> (unit, historical_error) outcome \<times> dag" where
  "historical_validity env_hash sender sender_cert ctx d =
     then_state (au_validate_cert_no_clock ctx sender_cert, d) (\<lambda>_ d.
     then_state (ok_or AnchorNotFound (au_get_anchor ctx sender), d) (\<lambda>anchor_hash d.
     then_state (is_ancestor anchor_hash env_hash d) (\<lambda>after_anchor d.
       if \<not> after_anchor then (Err NotDescendantOfAnchor, d)
       else case au_get_revoke_hash ctx sender of
         None \<Rightarrow> (Ok (), d)
       | Some revoke_hash \<Rightarrow>
         then_state (is_ancestor revoke_hash env_hash d) (\<lambda>after_revoke d.
           if after_revoke then (Err DescendantOfRevocation, d) else (Ok (), d)))))"

section \<open>Properties\<close>

text \<open>
  C18: On every graph built by insertions the causal relation is acyclic, and an insertion
  implements the specification on the set of known hashes and the relation between them: it
  refuses an edge exactly when it would close a cycle, when a ninth parent or a 129th node
  would be needed, and otherwise adds exactly that edge.
\<close>

theorem dag_insert_refines_relation:
  "acyclic (snd (abs_dag (fold dag_step es dag_new)))
   \<and> (fst (dag_insert p c (fold dag_step es dag_new)), abs_dag (snd (dag_insert p c (fold dag_step es dag_new))))
     = spec_insert p c (abs_dag (fold dag_step es dag_new))"
  using dag_insert_spec [OF dags.inv_run [of es], of p c] acyclic_causes [OF dags.inv_run [of es]]
  by (simp add: abs_dag_def)

text \<open>
  C13: The breadth-first search decides ancestry: on every graph built by insertions it never
  panics, answers whether the first hash reaches the second by a nonempty chain of causal
  edges, and leaves the graph, visited marks included, as it was.
\<close>

theorem dag_search_decides_ancestry:
  "is_ancestor u v (fold dag_step es dag_new)
     = (Ok ((u, v) \<in> (snd (abs_dag (fold dag_step es dag_new)))\<^sup>+), fold dag_step es dag_new)"
  by (simp add: is_ancestor_exact [OF dags.inv_run] abs_dag_def)

text \<open>
  The audit without a clock accepts an envelope exactly when the certificate passes the
  structural check, the sender has an anchor the envelope descends from, and the envelope
  does not descend from a revocation of the sender.
\<close>

theorem historical_validity_exact:
  "fst (historical_validity h sender cert ctx (fold dag_step es dag_new)) = Ok () \<longleftrightarrow>
     au_validate_cert_no_clock ctx cert = Ok ()
     \<and> (\<exists>a. au_get_anchor ctx sender = Some a \<and> (a, h) \<in> (snd (abs_dag (fold dag_step es dag_new)))\<^sup>+)
     \<and> (case au_get_revoke_hash ctx sender of None \<Rightarrow> True
          | Some r \<Rightarrow> (r, h) \<notin> (snd (abs_dag (fold dag_step es dag_new)))\<^sup>+)"
  by (cases "au_validate_cert_no_clock ctx cert"; cases "au_get_anchor ctx sender";
      cases "au_get_revoke_hash ctx sender")
    (simp_all add: historical_validity_def abs_dag_def is_ancestor_exact [OF dags.inv_run])

end
