(* ===== verification/Reassembly.thy ===== *)
theory Reassembly
  imports Replay
begin

text \<open>
  Fragment accounting and node admission (src/src/transport/reassembly.rs). The two constant
  parameters of the code's type are arguments. The bytes of a fragment are a 64-bit word; indices,
  totals and the stored byte counts (u16 and usize) are natural numbers, and a sum of bytes
  beyond 64 bits panics, as does the u8 count of active contexts beyond 255. The abstract
  view of a peer is a map from message ids to the set of fragments received.
\<close>

unbundle bit_operations_syntax

section \<open>Constants\<close>

definition REASM_MAX_MESSAGE :: nat where "REASM_MAX_MESSAGE = 1048576"
definition REASM_MAX_HEADER :: nat where "REASM_MAX_HEADER = 512"
definition MAX_BODY_LEN :: nat where "MAX_BODY_LEN = REASM_MAX_MESSAGE - REASM_MAX_HEADER"
definition CONTEXTS_PER_PEER :: nat where "CONTEXTS_PER_PEER = 8"
definition MEMORY_PER_PEER :: nat where "MEMORY_PER_PEER = 8388608"
definition SESSIONS_PER_NODE :: nat where "SESSIONS_PER_NODE = 512"
definition MEMORY_PER_NODE :: nat where "MEMORY_PER_NODE = 268435456"
definition INCOMPLETE_TIMEOUT_MS :: u64 where "INCOMPLETE_TIMEOUT_MS = 30000"

datatype peer_event = Complete | Partial | Duplicate | MessageDropped
datatype node_event = Admitted | NodeRefused

section \<open>One peer\<close>

record frag_context =
  fc_msg_id :: u64
  fc_total :: nat
  fc_received :: nat
  fc_bytes :: nat
  fc_updated_ms :: u64
  fc_in_use :: bool
  fc_seen :: "u64 list"

definition frag_context_new :: frag_context where
  "frag_context_new =
     \<lparr>fc_msg_id = 0, fc_total = 0, fc_received = 0, fc_bytes = 0, fc_updated_ms = 0,
      fc_in_use = False, fc_seen = replicate 16 0\<rparr>"

record peer_reassembler =
  pr_contexts :: "frag_context list"
  pr_active :: nat
  pr_bytes_used :: nat

definition peer_reassembler_new :: "nat \<Rightarrow> peer_reassembler" where
  "peer_reassembler_new max_contexts =
     \<lparr>pr_contexts = replicate max_contexts frag_context_new, pr_active = 0, pr_bytes_used = 0\<rparr>"

definition free_context :: "nat \<Rightarrow> peer_reassembler \<Rightarrow> peer_reassembler" where
  "free_context idx s =
     (let c = pr_contexts s ! idx in
      if fc_in_use c then
        s\<lparr>pr_bytes_used := pr_bytes_used s - fc_bytes c,
          pr_contexts := (pr_contexts s)[idx := c\<lparr>fc_in_use := False\<rparr>],
          pr_active := pr_active s - 1\<rparr>
      else s)"

text \<open>The second half of ingest: the fragment into the context found or created.\<close>

definition ingest_into ::
  "u64 \<Rightarrow> nat \<Rightarrow> nat \<Rightarrow> u64 \<Rightarrow> peer_reassembler \<Rightarrow> (peer_event, 'e) outcome \<times> peer_reassembler" where
  "ingest_into now_ms idx index frag_bytes s =
     (let c = pr_contexts s ! idx; word = index div 64; b = push_bit (index mod 64) 1 in
      if word \<ge> length (fc_seen c) then (Panic, s)
      else if fc_seen c ! word AND b \<noteq> 0 then (Ok Duplicate, s)
      else if fc_bytes c + unat frag_bytes \<ge> 2 ^ 64 then (Panic, s)
      else if fc_bytes c + unat frag_bytes > REASM_MAX_MESSAGE then (Ok MessageDropped, free_context idx s)
      else if pr_bytes_used s + unat frag_bytes \<ge> 2 ^ 64 then (Panic, s)
      else if pr_bytes_used s + unat frag_bytes > MEMORY_PER_PEER then (Ok MessageDropped, free_context idx s)
      else
        let c' = c\<lparr>fc_seen := (fc_seen c)[word := fc_seen c ! word OR b], fc_received := fc_received c + 1,
                   fc_bytes := fc_bytes c + unat frag_bytes, fc_updated_ms := now_ms\<rparr>;
            s' = s\<lparr>pr_contexts := (pr_contexts s)[idx := c'], pr_bytes_used := pr_bytes_used s + unat frag_bytes\<rparr>
        in if fc_received c' \<ge> fc_total c' then (Ok Complete, free_context idx s') else (Ok Partial, s'))"

definition ingest ::
  "nat \<Rightarrow> u64 \<Rightarrow> u64 \<Rightarrow> nat \<Rightarrow> nat \<Rightarrow> u64 \<Rightarrow> peer_reassembler \<Rightarrow> (peer_event, 'e) outcome \<times> peer_reassembler" where
  "ingest max_fragments now_ms msg_id index frag_total frag_bytes s =
     (if frag_total = 0 \<or> index \<ge> frag_total \<or> frag_total > max_fragments then (Ok MessageDropped, s)
      else case position (\<lambda>c. fc_in_use c \<and> fc_msg_id c = msg_id) (pr_contexts s) of
        Some idx \<Rightarrow>
          if fc_total (pr_contexts s ! idx) \<noteq> frag_total then (Ok MessageDropped, free_context idx s)
          else ingest_into now_ms idx index frag_bytes s
      | None \<Rightarrow>
        (case position (\<lambda>c. \<not> fc_in_use c) (pr_contexts s) of
           None \<Rightarrow> (Ok MessageDropped, s)
         | Some idx \<Rightarrow>
           if pr_active s \<ge> 255 then (Panic, s)
           else ingest_into now_ms idx index frag_bytes
             (s\<lparr>pr_contexts := (pr_contexts s)[idx :=
                  \<lparr>fc_msg_id = msg_id, fc_total = frag_total, fc_received = 0, fc_bytes = 0,
                   fc_updated_ms = now_ms, fc_in_use = True, fc_seen = replicate 16 0\<rparr>],
                pr_active := pr_active s + 1\<rparr>)))"

definition evict_at :: "u64 \<Rightarrow> nat \<Rightarrow> peer_reassembler \<Rightarrow> peer_reassembler" where
  "evict_at now_ms i s =
     (let c = pr_contexts s ! i in
      if fc_in_use c then
        if now_ms - fc_updated_ms c \<ge> INCOMPLETE_TIMEOUT_MS then free_context i s else s
      else s)"

definition evict_expired :: "nat \<Rightarrow> u64 \<Rightarrow> peer_reassembler \<Rightarrow> peer_reassembler" where
  "evict_expired max_contexts now_ms s = fold (evict_at now_ms) [0..<max_contexts] s"

section \<open>The node\<close>

record node_capacity =
  nc_sessions :: nat
  nc_bytes :: u64

definition node_capacity_new :: node_capacity where
  "node_capacity_new = \<lparr>nc_sessions = 0, nc_bytes = 0\<rparr>"

definition try_admit_session :: "node_capacity \<Rightarrow> node_event \<times> node_capacity" where
  "try_admit_session n =
     (if nc_sessions n \<ge> SESSIONS_PER_NODE then (NodeRefused, n)
      else (Admitted, n\<lparr>nc_sessions := nc_sessions n + 1\<rparr>))"

definition release_session :: "node_capacity \<Rightarrow> node_capacity" where
  "release_session n = n\<lparr>nc_sessions := nc_sessions n - 1\<rparr>"

definition within_memory :: "u64 \<Rightarrow> node_capacity \<Rightarrow> (bool, 'e) outcome" where
  "within_memory additional n =
     and_then (checked_add (nc_bytes n) additional) (\<lambda>b. Ok (unat b \<le> MEMORY_PER_NODE))"

definition add_bytes :: "u64 \<Rightarrow> node_capacity \<Rightarrow> node_capacity" where
  "add_bytes n c = c\<lparr>nc_bytes := (if unat (nc_bytes c) + unat n < 2 ^ 64 then nc_bytes c + n else - 1)\<rparr>"

definition release_bytes :: "u64 \<Rightarrow> node_capacity \<Rightarrow> node_capacity" where
  "release_bytes n c = c\<lparr>nc_bytes := saturating_sub (nc_bytes c) n\<rparr>"

section \<open>The fragment map\<close>

definition ids :: "frag_context \<Rightarrow> nat set" where
  "ids c = {i. i < 1024 \<and> wbit (fc_seen c) i}"

definition view :: "frag_context \<Rightarrow> nat \<times> nat set \<times> nat" where
  "view c = (fc_total c, ids c, fc_bytes c)"

definition holds :: "u64 \<Rightarrow> frag_context \<Rightarrow> bool" where
  "holds m c \<longleftrightarrow> fc_in_use c \<and> fc_msg_id c = m"

definition frags :: "peer_reassembler \<Rightarrow> u64 \<Rightarrow> (nat \<times> nat set \<times> nat) option" where
  "frags s m = (case position (holds m) (pr_contexts s) of None \<Rightarrow> None | Some i \<Rightarrow> Some (view (pr_contexts s ! i)))"

definition used :: "peer_reassembler \<Rightarrow> nat set" where
  "used s = {i. i < length (pr_contexts s) \<and> fc_in_use (pr_contexts s ! i)}"

text \<open>Every context in use is an incomplete message, and the counters agree with the contexts.\<close>

definition context_ok :: "nat \<Rightarrow> frag_context \<Rightarrow> bool" where
  "context_ok mf c \<longleftrightarrow> length (fc_seen c) = 16 \<and> fc_received c = card (ids c)
     \<and> ids c \<subseteq> {..<fc_total c} \<and> fc_total c \<le> mf \<and> fc_bytes c \<le> REASM_MAX_MESSAGE"

definition peer_ok :: "nat \<Rightarrow> nat \<Rightarrow> peer_reassembler \<Rightarrow> bool" where
  "peer_ok mc mf s \<longleftrightarrow> length (pr_contexts s) = mc
     \<and> (\<forall>i\<in>used s. context_ok mf (pr_contexts s ! i))
     \<and> inj_on (\<lambda>i. fc_msg_id (pr_contexts s ! i)) (used s)
     \<and> pr_active s = card (used s) \<and> pr_bytes_used s = (\<Sum>i\<in>used s. fc_bytes (pr_contexts s ! i))"

definition peer_inv :: "nat \<Rightarrow> nat \<Rightarrow> peer_reassembler \<Rightarrow> bool" where
  "peer_inv mc mf s \<longleftrightarrow> peer_ok mc mf s \<and> (\<forall>i\<in>used s. ids (pr_contexts s ! i) \<noteq> {..<fc_total (pr_contexts s ! i)})
     \<and> pr_bytes_used s \<le> MEMORY_PER_PEER"

lemma finite_used [simp]: "finite (used s)" by (simp add: used_def)

lemma finite_ids [simp]: "finite (ids c)" by (simp add: ids_def)

lemma used_update:
  "i < length (pr_contexts s) \<Longrightarrow>
     used (s\<lparr>pr_contexts := (pr_contexts s)[i := c]\<rparr>) = (if fc_in_use c then insert i (used s) else used s - {i})"
  by (auto simp: used_def nth_list_update split: if_splits)

lemma used_other [simp]:
  "used (s\<lparr>pr_active := n\<rparr>) = used s" "used (s\<lparr>pr_bytes_used := b\<rparr>) = used s"
  by (simp_all add: used_def)

lemma frags_other [simp]:
  "frags (s\<lparr>pr_active := n\<rparr>) = frags s" "frags (s\<lparr>pr_bytes_used := b\<rparr>) = frags s"
  by (simp_all add: frags_def fun_eq_iff split: option.split)

lemma frags_Some:
  assumes "inj_on (\<lambda>i. fc_msg_id (pr_contexts s ! i)) (used s)"
  shows "frags s m = Some v \<longleftrightarrow> (\<exists>i\<in>used s. fc_msg_id (pr_contexts s ! i) = m \<and> v = view (pr_contexts s ! i))"
proof
  assume "frags s m = Some v"
  then obtain i where "position (holds m) (pr_contexts s) = Some i" "v = view (pr_contexts s ! i)"
    by (auto simp: frags_def split: option.splits)
  with position_SomeD [OF this(1)]
  show "\<exists>i\<in>used s. fc_msg_id (pr_contexts s ! i) = m \<and> v = view (pr_contexts s ! i)"
    by (auto simp: holds_def used_def)
next
  assume "\<exists>i\<in>used s. fc_msg_id (pr_contexts s ! i) = m \<and> v = view (pr_contexts s ! i)"
  then obtain i where i: "i \<in> used s" "fc_msg_id (pr_contexts s ! i) = m" "v = view (pr_contexts s ! i)" by blast
  then have "holds m (pr_contexts s ! i)" "pr_contexts s ! i \<in> set (pr_contexts s)" by (simp_all add: holds_def used_def)
  then have "position (holds m) (pr_contexts s) \<noteq> None" unfolding position_None by blast
  then obtain j where j: "position (holds m) (pr_contexts s) = Some j" by blast
  with position_SomeD [OF j] have "j \<in> used s" "fc_msg_id (pr_contexts s ! j) = m" by (auto simp: holds_def used_def)
  with i assms have "j = i" by (auto simp: inj_on_def)
  with i j show "frags s m = Some v" by (simp add: frags_def)
qed

lemma frags_None:
  assumes "inj_on (\<lambda>i. fc_msg_id (pr_contexts s ! i)) (used s)"
  shows "frags s m = None \<longleftrightarrow> (\<forall>i\<in>used s. fc_msg_id (pr_contexts s ! i) \<noteq> m)"
  using frags_Some [OF assms, of m] by (metis not_None_eq)

lemma position_holds:
  assumes "inj_on (\<lambda>i. fc_msg_id (pr_contexts s ! i)) (used s)" "i \<in> used s"
  shows "position (holds (fc_msg_id (pr_contexts s ! i))) (pr_contexts s) = Some i"
proof (rule position_SomeI)
  show "i < length (pr_contexts s)" "holds (fc_msg_id (pr_contexts s ! i)) (pr_contexts s ! i)"
    using assms(2) by (simp_all add: used_def holds_def)
  fix j
  assume j: "j < i"
  show "\<not> holds (fc_msg_id (pr_contexts s ! i)) (pr_contexts s ! j)"
  proof
    assume "holds (fc_msg_id (pr_contexts s ! i)) (pr_contexts s ! j)"
    then have "j \<in> used s" "fc_msg_id (pr_contexts s ! j) = fc_msg_id (pr_contexts s ! i)"
      using j assms(2) by (simp_all add: holds_def used_def)
    then have "j = i" using assms by (simp add: inj_on_def)
    with j show False by simp
  qed
qed

text \<open>A bit of the seen array.\<close>

lemma ids_set:
  assumes "length (fc_seen c) = 16" "i < 1024"
  shows "ids (c\<lparr>fc_seen := (fc_seen c)[i div 64 := fc_seen c ! (i div 64) OR push_bit (i mod 64) 1]\<rparr>) = insert i (ids c)"
  using wbit_set [OF assms] assms(2) by (auto simp: ids_def)

lemma seen_test:
  assumes "i < 1024"
  shows "fc_seen c ! (i div 64) AND push_bit (i mod 64) 1 \<noteq> 0 \<longleftrightarrow> i \<in> ids c"
  using mask_test [of "i mod 64" "fc_seen c ! (i div 64)"] assms by (simp add: ids_def wbit_def)

text \<open>Freeing a context removes its message.\<close>

lemma free_context_ok:
  assumes "peer_ok mc mf s" "i \<in> used s"
  shows "peer_ok mc mf (free_context i s)"
    and "frags (free_context i s) = (frags s)(fc_msg_id (pr_contexts s ! i) := None)"
    and "used (free_context i s) = used s - {i}"
    and "pr_bytes_used (free_context i s) = pr_bytes_used s - fc_bytes (pr_contexts s ! i)"
    and "\<And>j. j \<noteq> i \<Longrightarrow> pr_contexts (free_context i s) ! j = pr_contexts s ! j"
proof -
  let ?c = "pr_contexts s ! i"
  have i: "i < length (pr_contexts s)" "fc_in_use ?c" using assms(2) by (auto simp: used_def)
  have inj: "inj_on (\<lambda>i. fc_msg_id (pr_contexts s ! i)) (used s)" using assms(1) by (simp add: peer_ok_def)
  have ctx: "pr_contexts (free_context i s) = (pr_contexts s)[i := ?c\<lparr>fc_in_use := False\<rparr>]"
    using i by (simp add: free_context_def Let_def)
  show u: "used (free_context i s) = used s - {i}"
    using i by (auto simp: used_def ctx nth_list_update)
  show other: "pr_contexts (free_context i s) ! j = pr_contexts s ! j" if "j \<noteq> i" for j
    using that by (simp add: ctx)
  show b: "pr_bytes_used (free_context i s) = pr_bytes_used s - fc_bytes ?c"
    using i by (simp add: free_context_def Let_def)
  have inj': "inj_on (\<lambda>j. fc_msg_id (pr_contexts (free_context i s) ! j)) (used (free_context i s))"
    using inj other unfolding u inj_on_def by (metis DiffD1 DiffD2 singletonI)
  have "(\<Sum>j\<in>used s - {i}. fc_bytes (pr_contexts (free_context i s) ! j)) = (\<Sum>j\<in>used s - {i}. fc_bytes (pr_contexts s ! j))"
    by (rule sum.cong) (auto simp: other)
  then have "pr_bytes_used (free_context i s) = (\<Sum>j\<in>used (free_context i s). fc_bytes (pr_contexts (free_context i s) ! j))"
    using assms by (simp add: u b peer_ok_def sum_diff1_nat)
  moreover have "pr_active (free_context i s) = pr_active s - 1"
    using i by (simp add: free_context_def Let_def)
  then have "pr_active (free_context i s) = card (used (free_context i s))"
    using assms by (simp add: u peer_ok_def)
  ultimately show "peer_ok mc mf (free_context i s)"
    using assms(1) inj' other unfolding peer_ok_def by (auto simp: u) (simp add: ctx)
  show "frags (free_context i s) = (frags s)(fc_msg_id ?c := None)"
  proof (rule ext, rule option_eqI)
    fix m v
    have "frags (free_context i s) m = Some v \<longleftrightarrow>
        (\<exists>j\<in>used s - {i}. fc_msg_id (pr_contexts s ! j) = m \<and> v = view (pr_contexts s ! j))"
      unfolding frags_Some [OF inj'] u by (auto simp: other)
    also have "\<dots> \<longleftrightarrow> m \<noteq> fc_msg_id ?c \<and> (\<exists>j\<in>used s. fc_msg_id (pr_contexts s ! j) = m \<and> v = view (pr_contexts s ! j))"
      using inj assms(2) by (auto simp: inj_on_def)
    finally show "frags (free_context i s) m = Some v \<longleftrightarrow> ((frags s)(fc_msg_id ?c := None)) m = Some v"
      unfolding frags_Some [OF inj, symmetric] by simp
  qed
qed

text \<open>Writing a context, into its own slot or a free one, writes its message.\<close>

lemma put_context_ok:
  assumes ok: "peer_ok mc mf s" and i: "i < length (pr_contexts s)"
    and c: "fc_in_use c" "context_ok mf c"
    and own: "i \<in> used s \<Longrightarrow> fc_msg_id (pr_contexts s ! i) = fc_msg_id c"
    and free: "i \<notin> used s \<Longrightarrow> frags s (fc_msg_id c) = None"
  defines "s' \<equiv> s\<lparr>pr_contexts := (pr_contexts s)[i := c], pr_active := card (insert i (used s)),
      pr_bytes_used := (\<Sum>j\<in>used s - {i}. fc_bytes (pr_contexts s ! j)) + fc_bytes c\<rparr>"
  shows "peer_ok mc mf s'" and "frags s' = (frags s)(fc_msg_id c \<mapsto> view c)" and "used s' = insert i (used s)"
proof -
  have inj: "inj_on (\<lambda>i. fc_msg_id (pr_contexts s ! i)) (used s)" using ok by (simp add: peer_ok_def)
  have at: "pr_contexts s' ! i = c" and other: "\<And>j. j \<noteq> i \<Longrightarrow> pr_contexts s' ! j = pr_contexts s ! j"
    using i by (simp_all add: s'_def)
  show u: "used s' = insert i (used s)"
    using i c by (auto simp: used_def s'_def nth_list_update split: if_splits)
  have new: "fc_msg_id (pr_contexts s ! j) \<noteq> fc_msg_id c" if "j \<in> used s" "j \<noteq> i" for j
  proof (cases "i \<in> used s")
    case True
    with own inj that show ?thesis unfolding inj_on_def by metis
  next
    case False
    with free frags_None [OF inj] that show ?thesis by auto
  qed
  have inj': "inj_on (\<lambda>j. fc_msg_id (pr_contexts s' ! j)) (used s')"
    unfolding u inj_on_def
  proof (intro ballI impI)
    fix x y
    assume "x \<in> insert i (used s)" "y \<in> insert i (used s)"
      "fc_msg_id (pr_contexts s' ! x) = fc_msg_id (pr_contexts s' ! y)"
    then show "x = y"
      using new inj by (cases "x = i"; cases "y = i") (auto simp: at other inj_on_def dest: sym)
  qed
  have "(\<Sum>j\<in>used s - {i}. fc_bytes (pr_contexts s' ! j)) = (\<Sum>j\<in>used s - {i}. fc_bytes (pr_contexts s ! j))"
    by (rule sum.cong) (auto simp: other)
  then have "pr_bytes_used s' = (\<Sum>j\<in>used s'. fc_bytes (pr_contexts s' ! j))"
    by (simp add: u sum.insert_remove at) (simp add: s'_def)
  moreover have "\<forall>j\<in>used s'. context_ok mf (pr_contexts s' ! j)"
    using ok c unfolding u peer_ok_def by (metis at insert_iff other)
  moreover have "length (pr_contexts s') = mc" "pr_active s' = card (used s')"
    using ok unfolding u by (simp_all add: s'_def peer_ok_def)
  ultimately show "peer_ok mc mf s'" using inj' by (simp add: peer_ok_def)
  show "frags s' = (frags s)(fc_msg_id c \<mapsto> view c)"
  proof (rule ext, rule option_eqI)
    fix m v
    have "frags s' m = Some v \<longleftrightarrow> m = fc_msg_id c \<and> v = view c
        \<or> (\<exists>j\<in>used s - {i}. fc_msg_id (pr_contexts s ! j) = m \<and> v = view (pr_contexts s ! j))"
    proof -
      have "(\<exists>j\<in>insert i (used s). P j) \<longleftrightarrow> P i \<or> (\<exists>j\<in>used s - {i}. P j)" for P by blast
      moreover have "(\<exists>j\<in>used s - {i}. fc_msg_id (pr_contexts s' ! j) = m \<and> v = view (pr_contexts s' ! j))
          \<longleftrightarrow> (\<exists>j\<in>used s - {i}. fc_msg_id (pr_contexts s ! j) = m \<and> v = view (pr_contexts s ! j))"
        by (rule bex_cong) (auto simp: other)
      ultimately show ?thesis unfolding frags_Some [OF inj'] u by (auto simp: at)
    qed
    also have "(\<exists>j\<in>used s - {i}. fc_msg_id (pr_contexts s ! j) = m \<and> v = view (pr_contexts s ! j))
        \<longleftrightarrow> m \<noteq> fc_msg_id c \<and> frags s m = Some v"
      unfolding frags_Some [OF inj] using new own by auto
    finally show "frags s' m = Some v \<longleftrightarrow> ((frags s)(fc_msg_id c \<mapsto> view c)) m = Some v" by auto
  qed
qed

section \<open>What ingest promises\<close>

type_synonym frag_map = "u64 \<Rightarrow> (nat \<times> nat set \<times> nat) option"

definition held_bytes :: "frag_map \<Rightarrow> nat" where
  "held_bytes M = (\<Sum>m\<in>dom M. snd (snd (the (M m))))"

definition spec_fragment :: "u64 \<Rightarrow> nat \<Rightarrow> nat \<Rightarrow> nat \<times> nat set \<times> nat \<Rightarrow> frag_map \<Rightarrow> peer_event \<times> frag_map" where
  "spec_fragment m i n = (\<lambda>(t, I, b) M.
     if i \<in> I then (Duplicate, M)
     else if b + n > REASM_MAX_MESSAGE \<or> held_bytes M + n > MEMORY_PER_PEER then (MessageDropped, M(m := None))
     else if insert i I = {..<t} then (Complete, M(m := None))
     else (Partial, M(m \<mapsto> (t, insert i I, b + n))))"

definition spec_ingest :: "nat \<Rightarrow> nat \<Rightarrow> u64 \<Rightarrow> nat \<Rightarrow> nat \<Rightarrow> nat \<Rightarrow> frag_map \<Rightarrow> peer_event \<times> frag_map" where
  "spec_ingest mc mf m i t n M =
     (if t = 0 \<or> i \<ge> t \<or> t > mf then (MessageDropped, M)
      else case M m of
        Some v \<Rightarrow> if fst v \<noteq> t then (MessageDropped, M(m := None)) else spec_fragment m i n v M
      | None \<Rightarrow> if card (dom M) \<ge> mc then (MessageDropped, M) else spec_fragment m i n (t, {}, 0) M)"

text \<open>A fragment of a held message whose bytes take the message's count beyond 64 bits.\<close>

definition spec_overflows :: "nat \<Rightarrow> u64 \<Rightarrow> nat \<Rightarrow> nat \<Rightarrow> nat \<Rightarrow> frag_map \<Rightarrow> bool" where
  "spec_overflows mf m i t n M \<longleftrightarrow> i < t \<and> t \<le> mf
     \<and> (case M m of None \<Rightarrow> False | Some (t', I, b) \<Rightarrow> t' = t \<and> i \<notin> I \<and> 2 ^ 64 \<le> b + n)"

lemma peer_counts:
  assumes "peer_ok mc mf s"
  shows "held_bytes (frags s) = pr_bytes_used s" "card (dom (frags s)) = card (used s)"
proof -
  let ?m = "\<lambda>i. fc_msg_id (pr_contexts s ! i)"
  have inj: "inj_on ?m (used s)" using assms by (simp add: peer_ok_def)
  have at: "frags s (?m i) = Some (view (pr_contexts s ! i))" if "i \<in> used s" for i
    using frags_Some [OF inj] that by blast
  have dom: "dom (frags s) = ?m ` used s" using frags_None [OF inj] by (auto simp: dom_def image_iff)
  show "card (dom (frags s)) = card (used s)" unfolding dom by (rule card_image [OF inj])
  have "held_bytes (frags s) = (\<Sum>i\<in>used s. snd (snd (the (frags s (?m i)))))"
    unfolding held_bytes_def dom by (rule sum.reindex_cong [OF inj]) simp_all
  also have "\<dots> = (\<Sum>i\<in>used s. fc_bytes (pr_contexts s ! i))"
    by (rule sum.cong) (simp_all add: at view_def)
  finally show "held_bytes (frags s) = pr_bytes_used s" using assms by (simp add: peer_ok_def)
qed

lemma free_context_inv:
  assumes "peer_ok mc mf s" "i \<in> used s" "pr_bytes_used s \<le> MEMORY_PER_PEER"
    and "\<And>j. j \<in> used s \<Longrightarrow> j \<noteq> i \<Longrightarrow> ids (pr_contexts s ! j) \<noteq> {..<fc_total (pr_contexts s ! j)}"
  shows "peer_inv mc mf (free_context i s)"
  using free_context_ok [OF assms(1,2)] assms(3,4) by (simp add: peer_inv_def)

lemma card_full: "A \<subseteq> {..<n} \<Longrightarrow> n \<le> card A \<longleftrightarrow> A = {..<n}" for n :: nat
  using card_seteq [of "{..<n}" A] by auto

lemma ingest_into_ok:
  assumes inv: "peer_inv mc mf s" and idx: "idx \<in> used s" and mf: "mf \<le> 1024"
    and index: "index < fc_total (pr_contexts s ! idx)"
    and small: "index \<in> ids (pr_contexts s ! idx) \<or> fc_bytes (pr_contexts s ! idx) + unat n < 2 ^ 64"
  shows "\<exists>ev s'. (ingest_into now idx index n s :: (peer_event, 'e) outcome \<times> peer_reassembler) = (Ok ev, s')
    \<and> peer_inv mc mf s'
    \<and> (ev, frags s') = spec_fragment (fc_msg_id (pr_contexts s ! idx)) index (unat n) (view (pr_contexts s ! idx)) (frags s)"
proof -
  let ?c = "pr_contexts s ! idx"
  have ok: "peer_ok mc mf s" and room: "pr_bytes_used s \<le> MEMORY_PER_PEER"
    and part: "\<And>j. j \<in> used s \<Longrightarrow> ids (pr_contexts s ! j) \<noteq> {..<fc_total (pr_contexts s ! j)}"
    using inv by (auto simp: peer_inv_def)
  have c: "context_ok mf ?c" "fc_in_use ?c" "idx < length (pr_contexts s)"
    using ok idx by (auto simp: peer_ok_def used_def)
  then have seen: "length (fc_seen ?c) = 16" and i: "index < 1024" using index mf by (auto simp: context_ok_def)
  have word: "index div 64 < 16" using i by simp
  have held: "held_bytes (frags s) = pr_bytes_used s" by (rule peer_counts [OF ok])
  have test: "fc_seen ?c ! (index div 64) AND 2 ^ (index mod 64) = 0 \<longleftrightarrow> index \<notin> ids ?c"
    using seen_test [OF i, of ?c] by auto
  have sum: "pr_bytes_used s + unat n < 2 ^ 64" if "fc_bytes ?c + unat n \<le> REASM_MAX_MESSAGE"
    using that room by (simp add: REASM_MAX_MESSAGE_def MEMORY_PER_PEER_def)
  note base = ingest_into_def Let_def test spec_fragment_def view_def held seen
  show ?thesis
  proof (cases "index \<in> ids ?c \<or> fc_bytes ?c + unat n > REASM_MAX_MESSAGE \<or> pr_bytes_used s + unat n > MEMORY_PER_PEER")
    case True
    with word inv free_context_inv [OF ok idx room] part free_context_ok(2) [OF ok idx] small sum show ?thesis
      by (cases "index \<in> ids ?c"; cases "fc_bytes ?c + unat n \<le> REASM_MAX_MESSAGE") (auto simp: base)
  next
    case False
    define c' where "c' = ?c\<lparr>fc_seen := (fc_seen ?c)[index div 64 := fc_seen ?c ! (index div 64) OR push_bit (index mod 64) 1],
      fc_received := fc_received ?c + 1, fc_bytes := fc_bytes ?c + unat n, fc_updated_ms := now\<rparr>"
    define s' where "s' = s\<lparr>pr_contexts := (pr_contexts s)[idx := c'], pr_bytes_used := pr_bytes_used s + unat n\<rparr>"
    have ids': "ids c' = insert index (ids ?c)"
      using ids_set [OF seen i] by (simp add: c'_def ids_def)
    have c'_ok: "context_ok mf c'" using c(1) False index seen unfolding context_ok_def ids' by (simp add: c'_def)
    have "pr_bytes_used s = (\<Sum>j\<in>used s - {idx}. fc_bytes (pr_contexts s ! j)) + fc_bytes ?c"
      using ok idx sum.remove [of "used s" idx "\<lambda>j. fc_bytes (pr_contexts s ! j)"] by (simp add: peer_ok_def)
    then have s': "s' = s\<lparr>pr_contexts := (pr_contexts s)[idx := c'], pr_active := card (insert idx (used s)),
        pr_bytes_used := (\<Sum>j\<in>used s - {idx}. fc_bytes (pr_contexts s ! j)) + fc_bytes c'\<rparr>"
      using ok idx by (simp add: s'_def c'_def peer_ok_def insert_absorb)
    have same: "fc_msg_id c' = fc_msg_id ?c" "fc_total c' = fc_total ?c" "fc_in_use c'" using c(2) by (simp_all add: c'_def)
    note put = put_context_ok [OF ok c(3) same(3) c'_ok, folded s']
    have ok': "peer_ok mc mf s'" "frags s' = (frags s)(fc_msg_id ?c \<mapsto> view c')" "used s' = used s"
      using put idx same by (auto simp: insert_absorb)
    have at: "pr_contexts s' ! idx = c'" and other: "\<And>j. j \<noteq> idx \<Longrightarrow> pr_contexts s' ! j = pr_contexts s ! j"
      using c(3) by (simp_all add: s'_def)
    have room': "pr_bytes_used s' \<le> MEMORY_PER_PEER" using False by (simp add: s'_def)
    have full: "fc_total c' \<le> fc_received c' \<longleftrightarrow> insert index (ids ?c) = {..<fc_total ?c}"
    proof -
      have "fc_received c' = card (insert index (ids ?c))" using c'_ok ids' by (simp add: context_ok_def)
      moreover have "insert index (ids ?c) \<subseteq> {..<fc_total ?c}" using c(1) index by (simp add: context_ok_def)
      ultimately show ?thesis using card_full [of "insert index (ids ?c)" "fc_total ?c"] same(2) by simp
    qed
    have run: "(ingest_into now idx index n s :: (peer_event, 'e) outcome \<times> peer_reassembler)
        = (if fc_total c' \<le> fc_received c' then (Ok Complete, free_context idx s') else (Ok Partial, s'))"
      using False word small sum by (simp add: base c'_def s'_def)
    show ?thesis
    proof (cases "insert index (ids ?c) = {..<fc_total ?c}")
      case True
      have "peer_inv mc mf (free_context idx s')"
        using free_context_inv [OF ok'(1) _ room'] idx ok'(3) part other by auto
      moreover have "frags (free_context idx s') = (frags s)(fc_msg_id ?c := None)"
        using free_context_ok(2) [OF ok'(1)] idx ok' at same by simp
      ultimately show ?thesis using True False full run by (simp add: spec_fragment_def view_def held)
    next
      case partial: False
      have "peer_inv mc mf s'"
        unfolding peer_inv_def ok'(3)
      proof (intro conjI ballI)
        fix j
        assume "j \<in> used s"
        then show "ids (pr_contexts s' ! j) \<noteq> {..<fc_total (pr_contexts s' ! j)}"
          using part partial ids' same(2) by (cases "j = idx") (simp_all add: at other)
      qed (rule ok'(1), rule room')
      moreover have "view c' = (fc_total ?c, insert index (ids ?c), fc_bytes ?c + unat n)"
        by (simp add: view_def ids') (simp add: c'_def)
      ultimately show ?thesis using partial False full run ok'(2) by (simp add: spec_fragment_def view_def held)
    qed
  qed
qed

lemma ingest_into_overflow:
  assumes inv: "peer_inv mc mf s" and idx: "idx \<in> used s" and mf: "mf \<le> 1024"
    and index: "index < fc_total (pr_contexts s ! idx)"
    and big: "index \<notin> ids (pr_contexts s ! idx)" "2 ^ 64 \<le> fc_bytes (pr_contexts s ! idx) + unat n"
  shows "(ingest_into now idx index n s :: (peer_event, 'e) outcome \<times> peer_reassembler) = (Panic, s)"
proof -
  have "context_ok mf (pr_contexts s ! idx)" using inv idx by (auto simp: peer_inv_def peer_ok_def)
  then have "length (fc_seen (pr_contexts s ! idx)) = 16" "index < 1024" using index mf by (auto simp: context_ok_def)
  then show ?thesis
    using seen_test [OF \<open>index < 1024\<close>, of "pr_contexts s ! idx"] big by (auto simp: ingest_into_def Let_def)
qed

lemma held_bytes_new: "M m = None \<Longrightarrow> finite (dom M) \<Longrightarrow> held_bytes (M(m \<mapsto> (t, {}, 0))) = held_bytes M"
  by (simp add: held_bytes_def domIff) (rule sum.cong, auto)

lemma ingest_ok:
  assumes inv: "peer_inv mc mf s" and mc: "mc \<le> 255" and mf: "mf \<le> 1024"
    and small: "\<not> spec_overflows mf m i t (unat n) (frags s)"
  shows "\<exists>ev s'. (ingest mf now m i t n s :: (peer_event, 'e) outcome \<times> peer_reassembler) = (Ok ev, s')
    \<and> peer_inv mc mf s' \<and> (ev, frags s') = spec_ingest mc mf m i t (unat n) (frags s)"
proof (cases "t = 0 \<or> i \<ge> t \<or> t > mf")
  case False
  have ok: "peer_ok mc mf s" using inv by (simp add: peer_inv_def)
  then have inj: "inj_on (\<lambda>i. fc_msg_id (pr_contexts s ! i)) (used s)" by (simp add: peer_ok_def)
  have pos: "position (\<lambda>c. fc_in_use c \<and> fc_msg_id c = m) (pr_contexts s) = position (holds m) (pr_contexts s)"
    by (simp add: holds_def [abs_def])
  show ?thesis
  proof (cases "position (holds m) (pr_contexts s)")
    case (Some idx)
    then have idx: "idx \<in> used s" "fc_msg_id (pr_contexts s ! idx) = m"
      using position_SomeD by (fastforce simp: holds_def used_def)+
    have v: "frags s m = Some (view (pr_contexts s ! idx))" using Some by (simp add: frags_def)
    show ?thesis
    proof (cases "fc_total (pr_contexts s ! idx) = t")
      case True
      with False have "i < fc_total (pr_contexts s ! idx)" by simp
      moreover have "i \<in> ids (pr_contexts s ! idx) \<or> fc_bytes (pr_contexts s ! idx) + unat n < 2 ^ 64"
        using small False True v by (auto simp: spec_overflows_def view_def)
      ultimately obtain ev s' where
        "(ingest_into now idx i n s :: (peer_event, 'e) outcome \<times> peer_reassembler) = (Ok ev, s')" "peer_inv mc mf s'"
        "(ev, frags s') = spec_fragment m i (unat n) (view (pr_contexts s ! idx)) (frags s)"
        using ingest_into_ok [OF inv idx(1) mf, of i n now] idx(2) by blast
      with True False Some v show ?thesis by (simp add: ingest_def spec_ingest_def pos view_def)
    next
      case other: False
      have "peer_inv mc mf (free_context idx s)"
        using free_context_inv [OF ok idx(1)] inv by (auto simp: peer_inv_def)
      with other False Some v idx free_context_ok(2) [OF ok idx(1)] show ?thesis
        by (simp add: ingest_def spec_ingest_def pos view_def)
    qed
  next
    case None
    have none: "frags s m = None" using None by (simp add: frags_def)
    show ?thesis
    proof (cases "position (\<lambda>c. \<not> fc_in_use c) (pr_contexts s)")
      case full: None
      then have "used s = {..<mc}" using ok by (auto simp: position_None used_def peer_ok_def)
      then have "card (dom (frags s)) = mc" using peer_counts(2) [OF ok] by simp
      with None full none False inv show ?thesis by (simp add: ingest_def spec_ingest_def pos)
    next
      case (Some idx)
      have slot: "idx < length (pr_contexts s)" "idx \<notin> used s" using position_SomeD [OF Some] by (auto simp: used_def)
      have "card (insert idx (used s)) \<le> card {..<mc}"
        using slot ok by (intro card_mono) (auto simp: used_def peer_ok_def)
      then have few: "card (used s) < mc" using slot by simp
      define c where "c = \<lparr>fc_msg_id = m, fc_total = t, fc_received = 0, fc_bytes = 0, fc_updated_ms = now,
        fc_in_use = True, fc_seen = replicate 16 0\<rparr>"
      define s1 where "s1 = s\<lparr>pr_contexts := (pr_contexts s)[idx := c], pr_active := pr_active s + 1\<rparr>"
      have no_ids: "ids c = {}" by (auto simp: ids_def c_def wbit_zero)
      have c_ok: "context_ok mf c" using False no_ids by (simp add: context_ok_def) (simp add: c_def)
      have s1: "s1 = s\<lparr>pr_contexts := (pr_contexts s)[idx := c], pr_active := card (insert idx (used s)),
          pr_bytes_used := (\<Sum>j\<in>used s - {idx}. fc_bytes (pr_contexts s ! j)) + fc_bytes c\<rparr>"
        using ok slot by (simp add: s1_def c_def peer_ok_def)
      have "fc_in_use c" "fc_msg_id c = m" "fc_total c = t" by (simp_all add: c_def)
      note c = this and put = put_context_ok [OF ok slot(1) \<open>fc_in_use c\<close> c_ok, folded s1]
      have put: "peer_ok mc mf s1" "frags s1 = (frags s)(m \<mapsto> view c)" "used s1 = insert idx (used s)"
        using put slot none c by auto
      have at: "pr_contexts s1 ! idx = c" and other: "\<And>j. j \<noteq> idx \<Longrightarrow> pr_contexts s1 ! j = pr_contexts s ! j"
        using slot by (simp_all add: s1_def)
      have "peer_inv mc mf s1"
        unfolding peer_inv_def put(3)
      proof (intro conjI ballI)
        show "pr_bytes_used s1 \<le> MEMORY_PER_PEER" using inv by (simp add: s1_def peer_inv_def)
        fix j
        assume "j \<in> insert idx (used s)"
        then show "ids (pr_contexts s1 ! j) \<noteq> {..<fc_total (pr_contexts s1 ! j)}"
          using inv False no_ids c(3) by (cases "j = idx") (auto simp: at other peer_inv_def)
      qed (rule put(1))
      moreover have "i < fc_total (pr_contexts s1 ! idx)" using at c(3) False by simp
      ultimately obtain ev s' where
        run: "(ingest_into now idx i n s1 :: (peer_event, 'e) outcome \<times> peer_reassembler) = (Ok ev, s')" "peer_inv mc mf s'"
        "(ev, frags s') = spec_fragment m i (unat n) (t, {}, 0) ((frags s)(m \<mapsto> (t, {}, 0)))"
        using ingest_into_ok [of mc mf s1 idx i n now] mf put at c no_ids unsigned_less [of n] by (auto simp: view_def c_def)
      have "finite (dom (frags s))"
        using peer_counts(2) [OF ok] few frags_None [OF inj] by (metis (no_types, lifting) finite_used finite_subset
            finite_imageI domIff image_eqI subsetI)
      then have "spec_fragment m i (unat n) (t, {}, 0) ((frags s)(m \<mapsto> (t, {}, 0))) = spec_fragment m i (unat n) (t, {}, 0) (frags s)"
        using none held_bytes_new [of "frags s" m t] by (auto simp: spec_fragment_def fun_eq_iff)
      moreover have "(ingest mf now m i t n s :: (peer_event, 'e) outcome \<times> peer_reassembler) = ingest_into now idx i n s1"
        using False None Some few mc ok by (simp add: ingest_def pos s1_def c_def peer_ok_def)
      ultimately show ?thesis
        using run none few False peer_counts(2) [OF ok] by (simp add: spec_ingest_def)
    qed
  qed
qed (use inv in \<open>simp add: ingest_def spec_ingest_def\<close>)

lemma ingest_overflow:
  assumes inv: "peer_inv mc mf s" and mf: "mf \<le> 1024" and big: "spec_overflows mf m i t (unat n) (frags s)"
  shows "(ingest mf now m i t n s :: (peer_event, 'e) outcome \<times> peer_reassembler) = (Panic, s)"
proof -
  from big obtain idx where idx: "position (holds m) (pr_contexts s) = Some idx"
    by (auto simp: spec_overflows_def frags_def split: option.splits)
  then have used: "idx \<in> used s" using position_SomeD by (fastforce simp: holds_def used_def)
  from big idx have c: "i < t" "t \<le> mf" "fc_total (pr_contexts s ! idx) = t" "i \<notin> ids (pr_contexts s ! idx)"
    "2 ^ 64 \<le> fc_bytes (pr_contexts s ! idx) + unat n" by (auto simp: spec_overflows_def frags_def view_def)
  have "position (\<lambda>c. fc_in_use c \<and> fc_msg_id c = m) (pr_contexts s) = Some idx" using idx by (simp add: holds_def [abs_def])
  with c ingest_into_overflow [OF inv used mf _ c(4,5)] show ?thesis by (simp add: ingest_def)
qed

section \<open>Eviction\<close>

definition overdue_context :: "u64 \<Rightarrow> frag_context \<Rightarrow> bool" where
  "overdue_context now c \<longleftrightarrow> now - fc_updated_ms c \<ge> INCOMPLETE_TIMEOUT_MS"

lemma evict_prefix:
  assumes "peer_inv mc mf s"
  shows "k \<le> mc \<Longrightarrow> peer_inv mc mf (fold (evict_at now) [0..<k] s)
    \<and> used (fold (evict_at now) [0..<k] s) = {i \<in> used s. i < k \<longrightarrow> \<not> overdue_context now (pr_contexts s ! i)}
    \<and> (\<forall>i\<in>used (fold (evict_at now) [0..<k] s). pr_contexts (fold (evict_at now) [0..<k] s) ! i = pr_contexts s ! i)"
proof (induction k)
  case 0
  with assms show ?case by simp
next
  case (Suc k)
  define s1 where "s1 = fold (evict_at now) [0..<k] s"
  have inv: "peer_inv mc mf s1" and u: "used s1 = {i \<in> used s. i < k \<longrightarrow> \<not> overdue_context now (pr_contexts s ! i)}"
    and same: "\<forall>i\<in>used s1. pr_contexts s1 ! i = pr_contexts s ! i" using Suc by (simp_all add: s1_def)
  have ok: "peer_ok mc mf s1" using inv by (simp add: peer_inv_def)
  have k: "k \<in> used s1 \<longleftrightarrow> fc_in_use (pr_contexts s1 ! k)"
    using Suc.prems ok by (simp add: used_def peer_ok_def)
  have step: "fold (evict_at now) [0..<Suc k] s = evict_at now k s1" by (simp add: s1_def)
  show ?case
  proof (cases "k \<in> used s1 \<and> overdue_context now (pr_contexts s ! k)")
    case True
    then have "evict_at now k s1 = free_context k s1"
      using k same by (simp add: evict_at_def overdue_context_def Let_def)
    moreover have "peer_inv mc mf (free_context k s1)"
      using free_context_inv [OF ok, of k] inv True by (auto simp: peer_inv_def)
    moreover have "used (free_context k s1) = {i \<in> used s. i < Suc k \<longrightarrow> \<not> overdue_context now (pr_contexts s ! i)}"
      using free_context_ok(3) [OF ok, of k] True u by (auto simp: less_Suc_eq)
    moreover have "\<forall>i\<in>used (free_context k s1). pr_contexts (free_context k s1) ! i = pr_contexts s ! i"
      using free_context_ok(3,5) [OF ok, of k] True same by auto
    ultimately show ?thesis unfolding step by simp
  next
    case False
    then have "evict_at now k s1 = s1"
      using k same by (auto simp: evict_at_def overdue_context_def Let_def)
    with False inv u same show ?thesis unfolding step by (auto simp: less_Suc_eq)
  qed
qed

lemma evict_expired_ok:
  assumes "peer_inv mc mf s"
  shows "peer_inv mc mf (evict_expired mc now s)"
    and "used (evict_expired mc now s) = {i \<in> used s. \<not> overdue_context now (pr_contexts s ! i)}"
proof -
  have "used s \<subseteq> {..<mc}" using assms by (auto simp: used_def peer_inv_def peer_ok_def)
  then show "peer_inv mc mf (evict_expired mc now s)"
    "used (evict_expired mc now s) = {i \<in> used s. \<not> overdue_context now (pr_contexts s ! i)}"
    using evict_prefix [OF assms, of mc now] by (auto simp: evict_expired_def)
qed

section \<open>Runs\<close>

datatype reassembly_op = RIngest u64 u64 nat nat u64 | REvict u64

fun reassembly_step :: "nat \<Rightarrow> nat \<Rightarrow> reassembly_op \<Rightarrow> peer_reassembler \<Rightarrow> peer_reassembler" where
  "reassembly_step mc mf (RIngest now m i t n) s = snd (ingest mf now m i t n s :: (peer_event, unit) outcome \<times> _)"
| "reassembly_step mc mf (REvict now) s = evict_expired mc now s"

lemma reassembly_step_inv:
  "mc \<le> 255 \<Longrightarrow> mf \<le> 1024 \<Longrightarrow> peer_inv mc mf s \<Longrightarrow> peer_inv mc mf (reassembly_step mc mf op s)"
proof (cases op)
  case (RIngest now m i t n)
  assume *: "mc \<le> 255" "mf \<le> 1024" "peer_inv mc mf s"
  show ?thesis
  proof (cases "spec_overflows mf m i t (unat n) (frags s)")
    case True
    with ingest_overflow [OF *(3,2) True, of now, where ?'e = unit] RIngest *(3) show ?thesis by simp
  next
    case False
    with ingest_ok [OF *(3,1,2) False, of now, where ?'e = unit] RIngest show ?thesis by auto
  qed
qed (simp add: evict_expired_ok)

lemma peer_inv_new: "peer_inv mc mf (peer_reassembler_new mc)"
proof -
  have "used (peer_reassembler_new mc) = {}"
    by (auto simp: used_def peer_reassembler_new_def frag_context_new_def)
  then show ?thesis by (simp add: peer_inv_def peer_ok_def) (simp add: peer_reassembler_new_def)
qed

interpretation reassembly: guarded_machine "peer_reassembler_new (min mc 255)"
    "reassembly_step (min mc 255) (min mf 1024)" "peer_inv (min mc 255) (min mf 1024)" for mc mf
  by unfold_locales (simp_all add: peer_inv_new reassembly_step_inv)

definition reassembly_run :: "nat \<Rightarrow> nat \<Rightarrow> reassembly_op list \<Rightarrow> peer_reassembler" where
  "reassembly_run mc mf ops = fold (reassembly_step mc mf) ops (peer_reassembler_new mc)"

section \<open>Properties\<close>

text \<open>
  C16: Reassembly implements the map from messages to the set of their received fragments:
  after any run of fragments and evictions, a fragment panics exactly when its bytes take the
  count of a held message beyond 64 bits, and every other fragment is refused, counted as a
  duplicate, accepted or completes its message exactly as the specification on that map says; in
  particular a message is complete exactly when every index below its total has arrived, and
  the counts of bytes and contexts are those of the map. A step of the run that panics leaves the
  state, as the process ends there.
\<close>

theorem reassembly_refines_fragment_sets:
  assumes "mc \<le> 255" "mf \<le> 1024"
  shows "let s = reassembly_run mc mf ops;
      r = (ingest mf now m i t n s :: (peer_event, 'e) outcome \<times> peer_reassembler)
    in (if spec_overflows mf m i t (unat n) (frags s) then r = (Panic, s)
        else fst r = Ok (fst (spec_ingest mc mf m i t (unat n) (frags s)))
          \<and> frags (snd r) = snd (spec_ingest mc mf m i t (unat n) (frags s)))
      \<and> pr_bytes_used s = held_bytes (frags s) \<and> pr_active s = card (dom (frags s))"
proof -
  let ?s = "reassembly_run mc mf ops"
  have inv: "peer_inv mc mf ?s"
    using reassembly.inv_run [where mc = mc and mf = mf and ops = ops] assms by (simp add: reassembly_run_def min_absorb1)
  then have ok: "peer_ok mc mf ?s" by (simp add: peer_inv_def)
  have counts: "pr_bytes_used ?s = held_bytes (frags ?s)" "pr_active ?s = card (dom (frags ?s))"
    using peer_counts [OF ok] ok by (simp_all add: peer_ok_def)
  show ?thesis
  proof (cases "spec_overflows mf m i t (unat n) (frags ?s)")
    case True
    then show ?thesis using ingest_overflow [OF inv assms(2) True, of now, where ?'e = 'e] counts by (simp add: Let_def)
  next
    case False
    from ingest_ok [OF inv assms(1,2) False, of now] obtain ev s' where
      r: "(ingest mf now m i t n ?s :: (peer_event, 'e) outcome \<times> peer_reassembler) = (Ok ev, s')"
        "(ev, frags s') = spec_ingest mc mf m i t (unat n) (frags ?s)" by blast
    with False counts show ?thesis by (simp add: Let_def flip: r(2))
  qed
qed

lemma no_contexts: "frags (peer_reassembler_new n) = (\<lambda>_. None)"
proof -
  have "position (holds m) (replicate k frag_context_new) = None" for m k
    by (simp add: position_None holds_def frag_context_new_def)
  then show ?thesis by (simp add: frags_def peer_reassembler_new_def fun_eq_iff)
qed

lemma first_fragment:
  "frags (reassembly_run 8 64 [RIngest 9 5 0 2 100]) = [5 \<mapsto> (2, {0}, 100)]"
  "fst (ingest 64 9 5 0 2 100 (reassembly_run 8 64 []) :: (peer_event, unit) outcome \<times> peer_reassembler) = Ok Partial"
proof -
  have "(1 :: nat) \<in> {..<2}" "(1 :: nat) \<notin> {0}" by simp_all
  then have "{0} \<noteq> {..<2 :: nat}" by metis
  then have "spec_ingest 8 64 5 0 2 100 (\<lambda>_. None) = (Partial, [5 \<mapsto> (2, {0}, 100)])"
    by (simp add: spec_ingest_def spec_fragment_def held_bytes_def REASM_MAX_MESSAGE_def MEMORY_PER_PEER_def)
  with ingest_ok [OF peer_inv_new [of 8 64], of 5 0 2 100 9, where ?'e = unit]
  show "frags (reassembly_run 8 64 [RIngest 9 5 0 2 100]) = [5 \<mapsto> (2, {0}, 100)]"
    "fst (ingest 64 9 5 0 2 100 (reassembly_run 8 64 []) :: (peer_event, unit) outcome \<times> peer_reassembler) = Ok Partial"
    by (auto simp: no_contexts spec_overflows_def reassembly_run_def)
qed

text \<open>After a first fragment of 100 bytes a second of ten completes the message, and one of 2^64 - 1 panics.\<close>

lemma reassembly_refines_fragment_sets_witness:
  "fst (ingest 64 9 5 1 2 10 (reassembly_run 8 64 [RIngest 9 5 0 2 100]) :: (peer_event, unit) outcome \<times> peer_reassembler)
      = Ok Complete
   \<and> fst (ingest 64 9 5 1 2 (- 1) (reassembly_run 8 64 [RIngest 9 5 0 2 100]) :: (peer_event, unit) outcome \<times> peer_reassembler)
      = Panic"
proof -
  have "insert 1 {0} = {..<2 :: nat}" by (simp add: numeral_2_eq_2 lessThan_Suc)
  then have "spec_ingest 8 64 5 1 2 10 [5 \<mapsto> (2, {0}, 100)] = (Complete, (\<lambda>_. None))"
    by (auto simp: spec_ingest_def spec_fragment_def held_bytes_def REASM_MAX_MESSAGE_def MEMORY_PER_PEER_def)
  moreover have "unat (- 1 :: u64) = 2 ^ 64 - 1" by (simp add: unsigned_minus_1_eq_mask mask_eq_exp_minus_1)
  ultimately show ?thesis
    using reassembly_refines_fragment_sets [of 8 64 "[RIngest 9 5 0 2 100]" 9 5 1 2 10, where ?'e = unit]
      reassembly_refines_fragment_sets [of 8 64 "[RIngest 9 5 0 2 100]" 9 5 1 2 "- 1", where ?'e = unit]
    by (simp add: Let_def first_fragment spec_overflows_def)
qed

end
