(* ===== verification/Sync.thy ===== *)
theory Sync
  imports Prelude
begin

text \<open>
  Admission of history requests (src/src/transport/sync.rs): the sliding rate window and the
  table of windows per peer, the response builder and the bounded walk over parents. An
  output buffer is a byte list of fixed length; a write past its end is a panic. The array of
  tracked peers is the list of its used part.
\<close>

section \<open>Constants and errors\<close>

definition MAX_RESPONSE_ENVELOPES :: nat where "MAX_RESPONSE_ENVELOPES = 64"
definition MAX_RESPONSE_BYTES :: nat where "MAX_RESPONSE_BYTES = 1048576"
definition RESPONSE_HEADER :: nat where "RESPONSE_HEADER = 34"
definition WALK_MAX_DEPTH :: nat where "WALK_MAX_DEPTH = 128"
definition WALK_MAX_TOTAL :: nat where "WALK_MAX_TOTAL = 4096"
definition RATE_WINDOW_MS :: u64 where "RATE_WINDOW_MS = 10000"
definition SERVE_BUDGET :: nat where "SERVE_BUDGET = 8"
definition ISSUE_BUDGET :: nat where "ISSUE_BUDGET = 4"
definition MAX_TRACKED_PEERS :: nat where "MAX_TRACKED_PEERS = 64"

lemmas sync_sizes = MAX_RESPONSE_ENVELOPES_def MAX_RESPONSE_BYTES_def RESPONSE_HEADER_def WALK_MAX_DEPTH_def
  WALK_MAX_TOTAL_def SERVE_BUDGET_def ISSUE_BUDGET_def MAX_TRACKED_PEERS_def

datatype sync_error =
  SyncNoSession | SyncNotMember | SyncRevoked | RateLimited | WalkExhausted | BadEnvelope | BufferTooSmall

section \<open>Rate windows\<close>

record rate_window =
  ra_stamps :: "u64 list"
  ra_budget :: nat
  ra_next :: nat

definition rate_window_new :: "nat \<Rightarrow> rate_window" where
  "rate_window_new budget = \<lparr>ra_stamps = replicate SERVE_BUDGET 0, ra_budget = budget, ra_next = 0\<rparr>"

definition stamp_inside :: "u64 \<Rightarrow> u64 \<Rightarrow> u64 \<Rightarrow> bool" where
  "stamp_inside window_ms now_ms s \<longleftrightarrow> s \<noteq> 0 \<and> now_ms \<ge> s \<and> now_ms - s < window_ms"

definition rate_admit :: "u64 \<Rightarrow> u64 \<Rightarrow> rate_window \<Rightarrow> (bool, 'e) outcome \<times> rate_window" where
  "rate_admit window_ms now_ms w =
     (if ra_budget w > length (ra_stamps w) then (Panic, w)
      else
        let inside = length (filter (stamp_inside window_ms now_ms) (take (ra_budget w) (ra_stamps w))) in
        if inside \<ge> ra_budget w then (Ok False, w)
        else (Ok True, w\<lparr>ra_stamps := (ra_stamps w)[ra_next w := now_ms],
                         ra_next := (ra_next w + 1) mod ra_budget w\<rparr>))"

record rate_table =
  rt_peers :: "bytes list"
  rt_windows :: "rate_window list"

definition rate_table_new :: "nat \<Rightarrow> rate_table" where
  "rate_table_new budget =
     \<lparr>rt_peers = [], rt_windows = map (\<lambda>_. rate_window_new budget) [0..<MAX_TRACKED_PEERS]\<rparr>"

definition table_window_admit :: "nat \<Rightarrow> u64 \<Rightarrow> u64 \<Rightarrow> rate_table \<Rightarrow> (bool, 'e) outcome \<times> rate_table" where
  "table_window_admit i window_ms now_ms t =
     (let (r, w) = rate_admit window_ms now_ms (rt_windows t ! i) in (r, t\<lparr>rt_windows := (rt_windows t)[i := w]\<rparr>))"

definition rate_table_admit :: "bytes \<Rightarrow> u64 \<Rightarrow> u64 \<Rightarrow> rate_table \<Rightarrow> (bool, 'e) outcome \<times> rate_table" where
  "rate_table_admit peer window_ms now_ms t =
     (case position (\<lambda>p. p = peer) (rt_peers t) of
        Some i \<Rightarrow> table_window_admit i window_ms now_ms t
      | None \<Rightarrow>
        if length (rt_peers t) \<ge> MAX_TRACKED_PEERS then (Ok False, t)
        else
          let t = t\<lparr>rt_peers := rt_peers t @ [peer]\<rparr>
          in table_window_admit (length (rt_peers t) - 1) window_ms now_ms t)"

section \<open>The response\<close>

record serve_item =
  si_hash :: bytes
  si_wire :: bytes

record build_result =
  br_count :: nat
  br_truncated :: bool
  br_bytes_written :: nat

text \<open>A write of a slice into the buffer at a position.\<close>

definition put_at :: "nat \<Rightarrow> bytes \<Rightarrow> bytes \<Rightarrow> (bytes, 'e) outcome" where
  "put_at pos bs out =
     (if pos + length bs \<le> length out then Ok (take pos out @ bs @ drop (pos + length bs) out) else Panic)"

fun build_loop ::
  "bytes list \<Rightarrow> serve_item list \<Rightarrow> nat \<Rightarrow> nat \<Rightarrow> bytes \<Rightarrow> (nat \<times> nat \<times> bool \<times> bytes, 'e) outcome" where
  "build_loop have_hashes [] pos cnt out = Ok (pos, cnt, False, out)"
| "build_loop have_hashes (item # items) pos cnt out =
     (if list_ex (\<lambda>h. h = si_hash item) have_hashes then build_loop have_hashes items pos cnt out
      else
        let need = length (si_wire item) in
        if cnt \<ge> MAX_RESPONSE_ENVELOPES \<or> pos + need + 1 > MAX_RESPONSE_BYTES then Ok (pos, cnt, True, out)
        else and_then (put_at pos (si_wire item) out) (\<lambda>out.
          build_loop have_hashes items (pos + need) (cnt + 1) out))"

definition build_response ::
  "bytes \<Rightarrow> serve_item list \<Rightarrow> bytes list \<Rightarrow> bytes \<Rightarrow> (build_result \<times> bytes, 'e) outcome" where
  "build_response channel_id items have_hashes out =
     (if length out < RESPONSE_HEADER
      then Ok (\<lparr>br_count = 0, br_truncated = False, br_bytes_written = 0\<rparr>, out)
      else
        and_then (put_at 1 channel_id (out[0 := 1])) (\<lambda>out.
        and_then (build_loop have_hashes items RESPONSE_HEADER 0 out) (\<lambda>(pos, cnt, truncated, out).
          Ok (\<lparr>br_count = cnt, br_truncated = truncated, br_bytes_written = pos\<rparr>,
              out[33 := word_of_nat cnt]))))"

section \<open>The walk\<close>

record walk_queue =
  wq_queue :: "bytes list"
  wq_visited :: "bytes list"
  wq_depth :: nat
  wq_unresolved :: "bytes list"

definition walk_new :: "bytes \<Rightarrow> walk_queue" where
  "walk_new root = \<lparr>wq_queue = [root], wq_visited = [root], wq_depth = 0, wq_unresolved = []\<rparr>"

definition walk_push :: "bytes \<Rightarrow> walk_queue \<Rightarrow> (unit, sync_error) outcome \<times> walk_queue" where
  "walk_push hash q =
     (if length (wq_visited q) \<ge> WALK_MAX_TOTAL then (Err WalkExhausted, q)
      else if list_ex (\<lambda>v. v = hash) (wq_visited q) then (Ok (), q)
      else (Ok (), q\<lparr>wq_visited := wq_visited q @ [hash], wq_queue := wq_queue q @ [hash]\<rparr>))"

definition walk_next :: "walk_queue \<Rightarrow> bytes option \<times> walk_queue" where
  "walk_next q =
     (if wq_depth q \<ge> WALK_MAX_DEPTH then (None, q)
      else case wq_queue q of
        [] \<Rightarrow> (None, q)
      | h # rest \<Rightarrow> (Some h, q\<lparr>wq_queue := rest, wq_depth := wq_depth q + 1\<rparr>))"

definition walk_record :: "bytes \<Rightarrow> bool \<Rightarrow> walk_queue \<Rightarrow> walk_queue" where
  "walk_record hash resolved q =
     (if \<not> resolved \<and> hash \<notin> set (wq_unresolved q) then q\<lparr>wq_unresolved := wq_unresolved q @ [hash]\<rparr> else q)"

section \<open>The rate limit\<close>

text \<open>
  After the times A were accepted, in order, the ring holds the last of them, one per budget
  slot.
\<close>

definition ring_holds :: "nat \<Rightarrow> u64 list \<Rightarrow> rate_window \<Rightarrow> bool" where
  "ring_holds b A w \<longleftrightarrow> ra_budget w = b \<and> length (ra_stamps w) = 8 \<and> ra_next w = length A mod b
     \<and> (\<forall>k<length A. k + b \<ge> length A \<longrightarrow> ra_stamps w ! (k mod b) = A ! k)
     \<and> (\<forall>j<b. j \<ge> length A \<longrightarrow> ra_stamps w ! j = 0)"

lemma ring_new: "ring_holds b [] (rate_window_new b)" if "b \<le> 8"
  using that by (auto simp: ring_holds_def rate_window_new_def SERVE_BUDGET_def)

lemma residue_in_window: "0 < b \<Longrightarrow> j < b \<Longrightarrow> \<exists>k. m \<le> k \<and> k < m + b \<and> k mod b = j" for j :: nat
proof (cases "m mod b \<le> j")
  case True
  assume "0 < b" "j < b"
  moreover have "m = b * (m div b) + m mod b" "m mod b < b" using \<open>0 < b\<close> by simp_all
  ultimately have "m \<le> b * (m div b) + j" "b * (m div b) + j < m + b" using True by linarith+
  then show ?thesis using \<open>j < b\<close> by (intro exI [of _ "b * (m div b) + j"]) simp
next
  case False
  assume "0 < b" "j < b"
  moreover have "m = b * (m div b) + m mod b" "m mod b < b" using \<open>0 < b\<close> by simp_all
  ultimately have "m \<le> b * (m div b) + b + j" "b * (m div b) + b + j < m + b" using False by linarith+
  moreover have "b * (m div b) + b + j = j + b * Suc (m div b)" by simp
  then have "(b * (m div b) + b + j) mod b = j" using \<open>j < b\<close> by (simp only: mod_mult_self2 mod_less)
  ultimately show ?thesis by blast
qed

lemma sub_mono_word: "a \<le> a' \<Longrightarrow> a' \<le> now \<Longrightarrow> now - a' \<le> now - a" for a :: "'w::len word"
  by (simp add: word_le_nat_alt unat_sub_if')

lemma ring_slots:
  assumes b: "0 < b" "b \<le> 8" and r: "ring_holds b A w" and sorted: "sorted A"
    and now: "\<forall>a\<in>set A. 0 < a \<and> a \<le> now"
  shows "(\<forall>j<b. stamp_inside win now (ra_stamps w ! j)) \<longleftrightarrow>
    b \<le> length A \<and> now - A ! (length A - b) < win"
proof
  assume all: "\<forall>j<b. stamp_inside win now (ra_stamps w ! j)"
  have "b \<le> length A"
  proof (rule ccontr)
    assume "\<not> b \<le> length A"
    then have "ra_stamps w ! length A = 0" "length A < b" using r by (auto simp: ring_holds_def)
    with all show False by (auto simp: stamp_inside_def)
  qed
  moreover have "ra_stamps w ! ((length A - b) mod b) = A ! (length A - b)"
    using r b calculation by (auto simp: ring_holds_def)
  moreover have "(length A - b) mod b < b" using b by simp
  ultimately show "b \<le> length A \<and> now - A ! (length A - b) < win" using all by (metis stamp_inside_def)
next
  assume h: "b \<le> length A \<and> now - A ! (length A - b) < win"
  show "\<forall>j<b. stamp_inside win now (ra_stamps w ! j)"
  proof (intro allI impI)
    fix j
    assume "j < b"
    from residue_in_window [OF b(1) this, of "length A - b"] h obtain k where
      k: "length A - b \<le> k" "k < length A" "k mod b = j" by auto
    then have "ra_stamps w ! j = A ! k" using r by (auto simp: ring_holds_def)
    moreover have "0 < A ! k" "A ! k \<le> now" using now k by simp_all
    moreover have "now - A ! k \<le> now - A ! (length A - b)"
      using sorted k \<open>A ! k \<le> now\<close> by (intro sub_mono_word sorted_nth_mono) auto
    ultimately show "stamp_inside win now (ra_stamps w ! j)" using h by (auto simp: stamp_inside_def)
  qed
qed

lemma inside_all: "b \<le> length xs \<Longrightarrow> b \<le> length (filter P (take b xs)) \<longleftrightarrow> (\<forall>j<b. P (xs ! j))"
proof -
  assume b: "b \<le> length xs"
  have "b \<le> length (filter P (take b xs)) \<longleftrightarrow> filter P (take b xs) = take b xs"
    using b length_filter_le [of P "take b xs"] filter_id_conv [of P "take b xs"]
    by (metis length_filter_less length_take linorder_not_le min_absorb2 order_refl)
  also have "\<dots> \<longleftrightarrow> (\<forall>j<b. P (xs ! j))"
  proof -
    have "set (take b xs) = (!) xs ` {..<b}" using b by (simp add: nth_image lessThan_atLeast0)
    then show ?thesis by (auto simp: filter_id_conv)
  qed
  finally show ?thesis .
qed

text \<open>The limiter's specification, on the accepted times alone.\<close>

definition budget_free :: "nat \<Rightarrow> u64 \<Rightarrow> u64 list \<Rightarrow> u64 \<Rightarrow> bool" where
  "budget_free b win A now \<longleftrightarrow> length A < b \<or> now - A ! (length A - b) \<ge> win"

primrec rate_spec :: "nat \<Rightarrow> u64 \<Rightarrow> u64 list \<Rightarrow> u64 list \<Rightarrow> bool list" where
  "rate_spec b win A [] = []"
| "rate_spec b win A (t # ts) =
     budget_free b win A t # rate_spec b win (if budget_free b win A t then A @ [t] else A) ts"

primrec rate_run :: "u64 \<Rightarrow> u64 list \<Rightarrow> rate_window \<Rightarrow> (bool, 'e) outcome list" where
  "rate_run win [] w = []"
| "rate_run win (t # ts) w = fst (rate_admit win t w) # rate_run win ts (snd (rate_admit win t w :: (bool, 'e) outcome \<times> _))"

lemma rate_admit_step:
  assumes b: "0 < b" "b \<le> 8" and r: "ring_holds b A w" and "sorted A" "\<forall>a\<in>set A. 0 < a \<and> a \<le> now"
  shows "\<exists>w'. (rate_admit win now w :: (bool, 'e) outcome \<times> rate_window) = (Ok (budget_free b win A now), w')
    \<and> ring_holds b (if budget_free b win A now then A @ [now] else A) w'"
proof -
  have w: "ra_budget w = b" "length (ra_stamps w) = 8" "ra_next w = length A mod b" using r by (simp_all add: ring_holds_def)
  have full: "b \<le> length (filter (stamp_inside win now) (take b (ra_stamps w))) \<longleftrightarrow> \<not> budget_free b win A now"
    using inside_all [of b "ra_stamps w" "stamp_inside win now"] ring_slots [OF assms, of win] w b
    by (auto simp: budget_free_def)
  show ?thesis
  proof (cases "budget_free b win A now")
    case False
    with full w b r show ?thesis by (simp add: rate_admit_def)
  next
    case True
    let ?w = "w\<lparr>ra_stamps := (ra_stamps w)[length A mod b := now], ra_next := (length A mod b + 1) mod b\<rparr>"
    have other: "k mod b \<noteq> length A mod b" if "k < length A" "length (A @ [now]) \<le> k + b" for k
    proof
      assume "k mod b = length A mod b"
      then have "b dvd length A - k" using that(1) by (metis mod_eq_dvd_iff_nat less_imp_le)
      with that b show False by (auto dest: dvd_imp_le)
    qed
    have slot: "length A mod b < 8" using b by (meson less_le_trans mod_less_divisor)
    have "ring_holds b (A @ [now]) ?w"
      unfolding ring_holds_def
    proof (intro conjI allI impI)
      fix k
      assume k: "k < length (A @ [now])" "length (A @ [now]) \<le> k + b"
      show "ra_stamps ?w ! (k mod b) = (A @ [now]) ! k"
      proof (cases "k = length A")
        case True
        with slot w show ?thesis by simp
      next
        case False
        with k have "k < length A" by simp
        with other [OF this k(2)] r k show ?thesis by (auto simp: ring_holds_def nth_append)
      qed
    next
      fix j
      assume j: "j < b" "length (A @ [now]) \<le> j"
      then have "length A mod b = length A" "length A \<noteq> j" by simp_all
      with j r show "ra_stamps ?w ! j = 0" by (simp add: ring_holds_def)
    qed (use w in \<open>simp_all add: mod_Suc_eq\<close>)
    with True full w b show ?thesis by (simp add: rate_admit_def)
  qed
qed

lemma rate_run_spec:
  assumes b: "0 < b" "b \<le> 8"
  shows "ring_holds b A w \<Longrightarrow> sorted (A @ ts) \<Longrightarrow> \<forall>a\<in>set (A @ ts). 0 < a \<Longrightarrow>
    rate_run win ts w = map Ok (rate_spec b win A ts)"
proof (induction ts arbitrary: A w)
  case (Cons t ts)
  have "sorted A" "\<forall>a\<in>set A. 0 < a \<and> a \<le> t" using Cons.prems by (auto simp: sorted_append)
  from rate_admit_step [OF b Cons.prems(1) this, of win] obtain w' where
    "rate_admit win t w = (Ok (budget_free b win A t) :: (bool, 'a) outcome, w')"
    "ring_holds b (if budget_free b win A t then A @ [t] else A) w'" by blast
  with Cons.IH [OF this(2)] Cons.prems show ?case by (auto simp: sorted_append)
qed simp

section \<open>What the response holds\<close>

definition fresh_items :: "bytes list \<Rightarrow> serve_item list \<Rightarrow> serve_item list" where
  "fresh_items have_hashes items = filter (\<lambda>i. si_hash i \<notin> set have_hashes) items"

definition wires :: "serve_item list \<Rightarrow> bytes" where
  "wires items = concat (map si_wire items)"

lemma wires_simps [simp]:
  "wires [] = []" "wires (i # is) = si_wire i @ wires is" "wires (is @ js) = wires is @ wires js"
  by (simp_all add: wires_def)

text \<open>The items served are a prefix of the fresh ones, cut where a bound would be passed.\<close>

definition cut_at :: "nat \<Rightarrow> nat \<Rightarrow> serve_item list \<Rightarrow> serve_item list \<Rightarrow> bool" where
  "cut_at pos cnt served rest \<longleftrightarrow> cnt + length served \<le> 64 \<and> pos + length (wires served) < 1048576
     \<and> (case rest of [] \<Rightarrow> True
        | i # _ \<Rightarrow> cnt + length served = 64 \<or> pos + length (wires served) + length (si_wire i) \<ge> 1048576)"

lemma put_at_ok:
  "pos + length bs \<le> length out \<Longrightarrow> \<exists>out'. put_at pos bs out = Ok out' \<and> length out' = length out
     \<and> take (pos + length bs) out' = take pos out @ bs \<and> (\<forall>k. k \<ge> pos + length bs \<longrightarrow> drop k out' = drop k out)"
  by (auto simp: put_at_def)

lemma build_loop_ok:
  "1048576 \<le> length out \<Longrightarrow> pos < 1048576 \<Longrightarrow> cnt \<le> 64 \<Longrightarrow>
   \<exists>served rest out'. (build_loop have_hashes items pos cnt out :: (nat \<times> nat \<times> bool \<times> bytes, 'e) outcome)
       = Ok (pos + length (wires served), cnt + length served, rest \<noteq> [], out')
     \<and> fresh_items have_hashes items = served @ rest \<and> cut_at pos cnt served rest
     \<and> length out' = length out \<and> take (pos + length (wires served)) out' = take pos out @ wires served"
proof (induction have_hashes items pos cnt out rule: build_loop.induct)
  case (1 have_hashes pos cnt out)
  then show ?case by (auto simp: fresh_items_def cut_at_def)
next
  case (2 have_hashes item items pos cnt out)
  show ?case
  proof (cases "si_hash item \<in> set have_hashes")
    case True
    then have "list_ex (\<lambda>h. h = si_hash item) have_hashes" by (auto simp: list_ex_iff)
    with 2 True show ?thesis by (simp add: fresh_items_def)
  next
    case False
    then have new: "\<not> list_ex (\<lambda>h. h = si_hash item) have_hashes" by (auto simp: list_ex_iff)
    have fresh: "fresh_items have_hashes (item # items) = item # fresh_items have_hashes items"
      using False by (simp add: fresh_items_def)
    show ?thesis
    proof (cases "cnt \<ge> 64 \<or> pos + length (si_wire item) + 1 > 1048576")
      case True
      then have "build_loop have_hashes (item # items) pos cnt out = (Ok (pos, cnt, True, out) :: (_, 'e) outcome)"
        using new by (simp add: sync_sizes Let_def)
      moreover have "cut_at pos cnt [] (item # fresh_items have_hashes items)"
        using True "2.prems" by (auto simp: cut_at_def)
      ultimately show ?thesis using fresh
        by (intro exI [of _ "[]"] exI [of _ "item # fresh_items have_hashes items"] exI [of _ out]) simp
    next
      case room: False
      with "2.prems" put_at_ok [of pos "si_wire item" out] obtain out1 where
        w: "(put_at pos (si_wire item) out :: (bytes, 'e) outcome) = Ok out1" "length out1 = length out"
          "take (pos + length (si_wire item)) out1 = take pos out @ si_wire item"
        by (auto simp: put_at_def)
      have "1048576 \<le> length out1" "pos + length (si_wire item) < 1048576" "cnt + 1 \<le> 64"
        using "2.prems" w room by auto
      from "2.IH"(2) [OF new refl _ this] room obtain served rest out' where
        ih: "(build_loop have_hashes items (pos + length (si_wire item)) (cnt + 1) out1 :: (_, 'e) outcome)
          = Ok (pos + length (si_wire item) + length (wires served), cnt + 1 + length served, rest \<noteq> [], out')"
        "fresh_items have_hashes items = served @ rest" "cut_at (pos + length (si_wire item)) (cnt + 1) served rest"
        "length out' = length out1"
        "take (pos + length (si_wire item) + length (wires served)) out' = take (pos + length (si_wire item)) out1 @ wires served"
        by (auto simp: sync_sizes)
      have "build_loop have_hashes (item # items) pos cnt out
          = (Ok (pos + length (wires (item # served)), cnt + length (item # served), rest \<noteq> [], out') :: (_, 'e) outcome)"
        using new room w(1) ih(1) by (simp add: sync_sizes Let_def)
      moreover have "cut_at pos cnt (item # served) rest"
        using ih(3) by (auto simp: cut_at_def add.assoc split: list.splits)
      ultimately show ?thesis
        using fresh ih w by (intro exI [of _ "item # served"] exI [of _ rest] exI [of _ out']) (simp add: add.assoc)
    qed
  qed
qed

section \<open>What the walk visits\<close>

datatype walk_op = WPush bytes | WNext | WRecord bytes bool

fun walk_step :: "walk_op \<Rightarrow> walk_queue \<times> bytes list \<Rightarrow> walk_queue \<times> bytes list" where
  "walk_step (WPush h) (q, popped) = (snd (walk_push h q), popped)"
| "walk_step WNext (q, popped) =
     (case walk_next q of (None, q') \<Rightarrow> (q', popped) | (Some h, q') \<Rightarrow> (q', popped @ [h]))"
| "walk_step (WRecord h r) (q, popped) = (walk_record h r q, popped)"

definition walk_inv :: "walk_queue \<times> bytes list \<Rightarrow> bool" where
  "walk_inv = (\<lambda>(q, popped). wq_visited q = popped @ wq_queue q \<and> distinct (wq_visited q)
     \<and> length (wq_visited q) \<le> 4096 \<and> wq_depth q = length popped \<and> length popped \<le> 128
     \<and> distinct (wq_unresolved q))"

lemma walk_step_inv: "walk_inv s \<Longrightarrow> walk_inv (walk_step op s)"
proof (cases s)
  case (Pair q popped)
  assume "walk_inv s"
  with Pair show ?thesis
    by (cases op; cases "wq_queue q")
      (auto simp: walk_inv_def walk_push_def walk_next_def walk_record_def sync_sizes list_ex_iff)
qed

interpretation walks: guarded_machine "(walk_new root, [])" walk_step walk_inv for root
  by unfold_locales (simp add: walk_inv_def walk_new_def, rule walk_step_inv)

section \<open>Properties\<close>

text \<open>
  C24: The rate limit is exact: for requests at positive, nondecreasing times, a window with a
  budget of one to eight admits a request exactly when fewer than the budget were admitted
  less than the window's length before it.
\<close>

theorem rate_limit_exact:
  assumes "0 < b" "b \<le> 8" "sorted ts" "list_all (\<lambda>t. 0 < t) ts"
  shows "rate_run win ts (rate_window_new b) = map Ok (rate_spec b win [] ts)"
  using rate_run_spec [OF assms(1,2) ring_new [OF assms(2)], of ts] assms by (simp add: list_all_iff)

lemma rate_limit_exact_witness:
  "rate_run 10 [1, 2, 3, 11, 12, 12] (rate_window_new 2) = (map Ok [True, True, False, True, True, False] :: (bool, unit) outcome list)"
proof -
  have "rate_spec 2 10 [] [1, 2, 3, 11, 12, 12] = [True, True, False, True, True, False]"
    by (simp add: budget_free_def word_le_nat_alt)
  moreover have "rate_run 10 [1, 2, 3, 11, 12, 12] (rate_window_new 2)
      = (map Ok (rate_spec 2 10 [] [1, 2, 3, 11, 12, 12]) :: (bool, unit) outcome list)"
    by (rule rate_limit_exact) simp_all
  ultimately show ?thesis by (simp only:)
qed

text \<open>
  A response holds a prefix of the items the peer lacks, after the header with the version,
  the channel and the count, cut exactly where the sixty-fifth item or the response bound
  would be passed, and it is marked truncated exactly when an item was left out.
\<close>

theorem build_response_exact:
  assumes "1048576 \<le> length out" "length channel = 32"
  shows "\<exists>served rest res out'. (build_response channel items have_hashes out :: (_, 'e) outcome) = Ok (res, out')
    \<and> fresh_items have_hashes items = served @ rest \<and> cut_at 34 0 served rest
    \<and> br_count res = length served \<and> br_truncated res = (rest \<noteq> [])
    \<and> br_bytes_written res = 34 + length (wires served)
    \<and> take (br_bytes_written res) out' = 1 # channel @ word_of_nat (length served) # wires served"
proof -
  define out1 where "out1 = take 1 (out[0 := 1]) @ channel @ drop 33 (out[0 := 1])"
  have w: "put_at 1 channel (out[0 := 1]) = (Ok out1 :: (bytes, 'e) outcome)" "length out1 = length out"
    using assms by (simp_all add: put_at_def out1_def)
  have head: "take 33 out1 = 1 # channel" using assms by (cases out) (simp_all add: out1_def)
  obtain served rest out2 where
    l: "(build_loop have_hashes items 34 0 out1 :: (_, 'e) outcome)
      = Ok (34 + length (wires served), length served, rest \<noteq> [], out2)"
      "fresh_items have_hashes items = served @ rest" "cut_at 34 0 served rest" "length out2 = length out1"
      "take (34 + length (wires served)) out2 = take 34 out1 @ wires served"
    using build_loop_ok [of out1 34 0 have_hashes items] assms w(2) by auto
  have "take 34 out1 = 1 # channel @ [out1 ! 33]"
    using head take_Suc_conv_app_nth [of 33 out1] w(2) assms by simp
  then have t: "take (34 + length (wires served)) out2 = 1 # channel @ out1 ! 33 # wires served" using l(5) by simp
  have "take (34 + length (wires served)) (out2[33 := c]) = (take (34 + length (wires served)) out2)[33 := c]" for c
    by (simp add: take_update_swap)
  also have "\<dots>c = 1 # channel @ c # wires served" for c
    using assms(2) by (simp add: t list_update_append)
  finally show ?thesis
    using assms w l by (simp add: build_response_def RESPONSE_HEADER_def) blast
qed

lemma build_response_exact_witness:
  "\<exists>res out'. build_response (replicate 32 7) [\<lparr>si_hash = [1], si_wire = [5, 6]\<rparr>] [] (replicate 1048576 0) = (Ok (res, out') :: (_, unit) outcome)
    \<and> br_count res = 1 \<and> take 36 out' = 1 # replicate 32 7 @ [1, 5, 6]"
proof -
  have len: "1048576 \<le> length (replicate 1048576 (0 :: u8))" "length (replicate 32 (7 :: u8)) = 32"
    by (simp_all only: length_replicate order_refl)
  from build_response_exact [OF len, of "[\<lparr>si_hash = [1], si_wire = [5, 6]\<rparr>]" "[]", where ?'e = unit]
  obtain served rest res out' where r: "build_response (replicate 32 7) [\<lparr>si_hash = [1], si_wire = [5, 6]\<rparr>] [] (replicate 1048576 0) = (Ok (res, out') :: (_, unit) outcome)"
    "fresh_items [] [\<lparr>si_hash = [1], si_wire = [5, 6]\<rparr>] = served @ rest" "cut_at 34 0 served rest"
    "br_count res = length served" "br_bytes_written res = 34 + length (wires served)"
    "take (br_bytes_written res) out' = 1 # replicate 32 7 @ word_of_nat (length served) # wires served"
    by blast
  have "served = [\<lparr>si_hash = [1], si_wire = [5, 6]\<rparr>]"
    using r(2,3) by (cases served) (auto simp: fresh_items_def cut_at_def)
  with r(4-6) have "br_count res = 1" "take 36 out' = 1 # replicate 32 7 @ [1, 5, 6]" by simp_all
  with r(1) show ?thesis by blast
qed

text \<open>
  C25: The walk ends and visits nothing twice: whatever is pushed and recorded, the hashes it
  yields are pairwise different and at most 128, and at most 4096 hashes are ever queued.
\<close>

theorem walk_yields_bounded:
  "distinct (snd (fold walk_step ops (walk_new root, []))) \<and> length (snd (fold walk_step ops (walk_new root, []))) \<le> 128
   \<and> length (wq_visited (fst (fold walk_step ops (walk_new root, [])))) \<le> 4096"
  using walks.inv_run [of ops root] by (auto simp: walk_inv_def)

end
