(* ===== verification/Relay.thy ===== *)
theory Relay
  imports Prelude "HOL-Library.Multiset"
begin

text \<open>
  The mesh relay: route and registration frames and the routing table
  (src/src/transport/relay.rs), the store-and-forward post office
  (src/src/transport/relay_store.rs) and the endpoint map with the datagram classifier
  (src/src/relay_serve.rs). A packet's body is the used part of its array. The contract of the post office is a
  locale over the multiset of the packets it holds.
\<close>

section \<open>Frames\<close>

definition MSG_RELAY_ROUTE :: u8 where "MSG_RELAY_ROUTE = 5"
definition MSG_RELAY_REGISTRATION :: u8 where "MSG_RELAY_REGISTRATION = 6"
definition DOMAIN_RELAY_REGISTRATION :: u8 where "DOMAIN_RELAY_REGISTRATION = 7"
definition LEN_RELAY_ROUTE :: nat where "LEN_RELAY_ROUTE = 20"
definition LEN_RELAY_REGISTRATION :: nat where "LEN_RELAY_REGISTRATION = 124"
definition RELAY_LEN_SIG :: nat where "RELAY_LEN_SIG = 64"
definition LEN_PADDING :: nat where "LEN_PADDING = 16"
definition MAX_RELAY_TABLE :: nat where "MAX_RELAY_TABLE = 4096"
definition TIMESTAMP_SKEW :: u64 where "TIMESTAMP_SKEW = 300"
definition MAX_EXPIRY :: u64 where "MAX_EXPIRY = 86400"

lemmas relay_sizes = MSG_RELAY_ROUTE_def MSG_RELAY_REGISTRATION_def LEN_RELAY_ROUTE_def
  LEN_RELAY_REGISTRATION_def RELAY_LEN_SIG_def LEN_PADDING_def

datatype relay_error =
  RelayWrongType | NonZeroReserved | RelayTrailingBytes | RelayTruncated | ExpiryTooLong | StaleRoute | UnknownRecipient

record relay_route =
  rr_sender_index :: u32
  rr_recipient_index :: u32
  rr_timestamp :: u64

definition parse_relay_route :: "bytes \<Rightarrow> (relay_route, relay_error) outcome" where
  "parse_relay_route buf =
     (if length buf \<noteq> LEN_RELAY_ROUTE then Err RelayTruncated
      else if buf ! 0 \<noteq> MSG_RELAY_ROUTE then Err RelayWrongType
      else if buf ! 1 \<noteq> 0 \<or> buf ! 2 \<noteq> 0 \<or> buf ! 3 \<noteq> 0 then Err NonZeroReserved
      else Ok \<lparr>rr_sender_index = from_be_bytes (take 4 (drop 4 buf)),
               rr_recipient_index = from_be_bytes (take 4 (drop 8 buf)),
               rr_timestamp = from_be_bytes (take 8 (drop 12 buf))\<rparr>)"

definition encode_relay_route :: "relay_route \<Rightarrow> bytes" where
  "encode_relay_route r = [MSG_RELAY_ROUTE, 0, 0, 0] @ to_be_bytes (rr_sender_index r)
     @ to_be_bytes (rr_recipient_index r) @ to_be_bytes (rr_timestamp r)"

record relay_registration =
  rg_relay_index :: u32
  rg_client_index :: u32
  rg_timestamp :: u64
  rg_overlay_addr :: bytes
  rg_expiry :: u64
  rg_sig :: bytes
  rg_tbs_len :: nat

definition parse_relay_registration :: "bytes \<Rightarrow> (relay_registration, relay_error) outcome" where
  "parse_relay_registration buf =
     (if length buf \<noteq> LEN_RELAY_REGISTRATION then Err RelayTruncated
      else if buf ! 0 \<noteq> MSG_RELAY_REGISTRATION then Err RelayWrongType
      else if buf ! 1 \<noteq> 0 \<or> buf ! 2 \<noteq> 0 \<or> buf ! 3 \<noteq> 0 then Err NonZeroReserved
      else
        let expiry = from_be_bytes (take 8 (drop 36 buf)) in
        if expiry > MAX_EXPIRY then Err ExpiryTooLong
        else Ok \<lparr>rg_relay_index = from_be_bytes (take 4 (drop 4 buf)),
                 rg_client_index = from_be_bytes (take 4 (drop 8 buf)),
                 rg_timestamp = from_be_bytes (take 8 (drop 12 buf)),
                 rg_overlay_addr = take 16 (drop 20 buf), rg_expiry = expiry,
                 rg_sig = take 64 (drop 44 buf),
                 rg_tbs_len = LEN_RELAY_REGISTRATION - RELAY_LEN_SIG - LEN_PADDING\<rparr>)"

definition registration_tbs :: "relay_registration \<Rightarrow> bytes \<Rightarrow> (bytes, 'e) outcome" where
  "registration_tbs r buf = subslice buf 0 (rg_tbs_len r)"

section \<open>The routing table\<close>

record relay_entry =
  re_overlay_addr :: bytes
  re_relay_index :: u32
  re_client_index :: u32
  re_expiry :: u64

type_synonym relay_table = "relay_entry list"

definition relay_insert :: "relay_entry \<Rightarrow> relay_table \<Rightarrow> bool \<times> relay_table" where
  "relay_insert entry t =
     (case position (\<lambda>e. re_overlay_addr e = re_overlay_addr entry) t of
        Some i \<Rightarrow> (True, t[i := entry])
      | None \<Rightarrow> if length t \<ge> MAX_RELAY_TABLE then (False, t) else (True, t @ [entry]))"

definition relay_lookup :: "bytes \<Rightarrow> relay_table \<Rightarrow> relay_entry option" where
  "relay_lookup overlay_addr t = find (\<lambda>e. re_overlay_addr e = overlay_addr) t"

definition relay_prune :: "u64 \<Rightarrow> relay_table \<Rightarrow> relay_table" where
  "relay_prune now t = filter (\<lambda>e. re_expiry e > now) t"

definition forward_packet :: "relay_table \<Rightarrow> relay_route \<Rightarrow> bytes \<Rightarrow> u64 \<Rightarrow> (bytes, relay_error) outcome" where
  "forward_packet t route packet now =
     and_then (checked_add now TIMESTAMP_SKEW) (\<lambda>latest.
       if rr_timestamp route > latest then Err StaleRoute
       else and_then (checked_add (rr_timestamp route) TIMESTAMP_SKEW) (\<lambda>limit.
         if limit < now then Err StaleRoute
         else if list_ex (\<lambda>e. re_client_index e = rr_recipient_index route) t then Ok packet
         else Err UnknownRecipient))"

section \<open>The post office\<close>

definition RELAY_MAX_BODY :: nat where "RELAY_MAX_BODY = 2048"
definition MAX_PER_RECIPIENT :: nat where "MAX_PER_RECIPIENT = 64"
definition MAX_BYTES_PER_RECIPIENT :: nat where "MAX_BYTES_PER_RECIPIENT = 4194304"
definition TTL_MS :: u64 where "TTL_MS = 120000"
definition MAX_STORED :: nat where "MAX_STORED = 1024"

datatype store_error = BodyTooLarge | RecipientQuota | RelayStoreFull

record stored_packet =
  sp_in_use :: bool
  sp_sender_index :: u32
  sp_recipient_addr :: bytes
  sp_body :: bytes
  sp_stored_at_ms :: u64

definition stored_packet_default :: stored_packet where
  "stored_packet_default = \<lparr>sp_in_use = False, sp_sender_index = 0, sp_recipient_addr = replicate 16 0,
     sp_body = [], sp_stored_at_ms = 0\<rparr>"

record store =
  st_packets :: "stored_packet list"
  st_count :: nat
  st_refused_quota :: nat

definition store_new :: store where
  "store_new = \<lparr>st_packets = replicate MAX_STORED stored_packet_default, st_count = 0, st_refused_quota = 0\<rparr>"

definition store_reset :: "store \<Rightarrow> store" where
  "store_reset s = s\<lparr>st_packets := map (\<lambda>p. p\<lparr>sp_in_use := False\<rparr>) (st_packets s), st_count := 0, st_refused_quota := 0\<rparr>"

definition packet_expired :: "u64 \<Rightarrow> stored_packet \<Rightarrow> bool" where
  "packet_expired now_ms p \<longleftrightarrow> now_ms \<ge> sp_stored_at_ms p \<and> now_ms - sp_stored_at_ms p \<ge> TTL_MS"

primrec purge_loop :: "u64 \<Rightarrow> stored_packet list \<Rightarrow> stored_packet list \<times> nat" where
  "purge_loop now_ms [] = ([], 0)"
| "purge_loop now_ms (p # ps) =
     (let (ps', purged) = purge_loop now_ms ps in
      if \<not> sp_in_use p then (p # ps', purged)
      else if packet_expired now_ms p then (p\<lparr>sp_in_use := False\<rparr> # ps', purged + 1)
      else (p # ps', purged))"

definition purge_expired :: "u64 \<Rightarrow> store \<Rightarrow> nat \<times> store" where
  "purge_expired now_ms s =
     (let (ps, purged) = purge_loop now_ms (st_packets s)
      in (purged, s\<lparr>st_packets := ps, st_count := st_count s - purged\<rparr>))"

definition waits_for :: "bytes \<Rightarrow> stored_packet \<Rightarrow> bool" where
  "waits_for addr p \<longleftrightarrow> sp_in_use p \<and> sp_recipient_addr p = addr"

definition store_packet ::
  "bytes \<Rightarrow> u32 \<Rightarrow> bytes \<Rightarrow> u64 \<Rightarrow> store \<Rightarrow> (unit, store_error) outcome \<times> store" where
  "store_packet recipient_addr sender_index body now_ms s =
     (if length body > RELAY_MAX_BODY then (Err BodyTooLarge, s)
      else
        let s = snd (purge_expired now_ms s);
            refused = s\<lparr>st_refused_quota := st_refused_quota s + 1\<rparr>
        in if st_count s \<ge> MAX_STORED then (Err RelayStoreFull, refused)
        else
          let own = filter (waits_for recipient_addr) (st_packets s);
              recip_bytes = sum_list (map (\<lambda>p. length (sp_body p)) own)
          in if length own \<ge> MAX_PER_RECIPIENT \<or> recip_bytes + length body > MAX_BYTES_PER_RECIPIENT
          then (Err RecipientQuota, refused)
          else case position (\<lambda>p. \<not> sp_in_use p) (st_packets s) of
            None \<Rightarrow> (Err RelayStoreFull, refused)
          | Some i \<Rightarrow>
            (Ok (), s\<lparr>st_packets := (st_packets s)[i :=
                \<lparr>sp_in_use = True, sp_sender_index = sender_index, sp_recipient_addr = recipient_addr,
                 sp_body = body, sp_stored_at_ms = now_ms\<rparr>],
              st_count := st_count s + 1\<rparr>))"

primrec best_loop :: "stored_packet list \<Rightarrow> bytes \<Rightarrow> nat \<Rightarrow> nat option \<Rightarrow> stored_packet list \<Rightarrow> nat option" where
  "best_loop all addr i best [] = best"
| "best_loop all addr i best (p # ps) =
     best_loop all addr (Suc i)
       (if \<not> waits_for addr p then best
        else case best of
          None \<Rightarrow> Some i
        | Some b \<Rightarrow>
          if sp_stored_at_ms p > sp_stored_at_ms (all ! b) then best
          else if sp_stored_at_ms p = sp_stored_at_ms (all ! b) \<and> i > b then best
          else Some i) ps"

definition drain_packet :: "bytes \<Rightarrow> u64 \<Rightarrow> store \<Rightarrow> stored_packet option \<times> store" where
  "drain_packet recipient_addr now_ms s =
     (let s = snd (purge_expired now_ms s) in
      case best_loop (st_packets s) recipient_addr 0 None (st_packets s) of
        None \<Rightarrow> (None, s)
      | Some idx \<Rightarrow>
        let p = st_packets s ! idx in
        (Some p, s\<lparr>st_packets := (st_packets s)[idx := p\<lparr>sp_in_use := False\<rparr>], st_count := st_count s - 1\<rparr>))"

definition drain_next :: "bytes \<Rightarrow> u64 \<Rightarrow> store \<Rightarrow> (u32 \<times> bytes) option \<times> store" where
  "drain_next recipient_addr now_ms s =
     (let (p, s) = drain_packet recipient_addr now_ms s
      in (map_option (\<lambda>p. (sp_sender_index p, sp_body p)) p, s))"

section \<open>Endpoints and the classifier\<close>

definition MAX_SA_LEN :: nat where "MAX_SA_LEN = 28"
definition MAX_ENDPOINTS :: nat where "MAX_ENDPOINTS = 128"
definition MAX_DRAIN_BATCH :: nat where "MAX_DRAIN_BATCH = MAX_PER_RECIPIENT"
definition SERVE_MSG_RELAY_ROUTE :: u8 where "SERVE_MSG_RELAY_ROUTE = 0x10"
definition SERVE_MSG_RELAY_REGISTRATION :: u8 where "SERVE_MSG_RELAY_REGISTRATION = 0x11"
definition MSG_HANDSHAKE_INIT :: u8 where "MSG_HANDSHAKE_INIT = 1"
definition MSG_HANDSHAKE_RESP :: u8 where "MSG_HANDSHAKE_RESP = 2"
definition MSG_HANDSHAKE_DATA :: u8 where "MSG_HANDSHAKE_DATA = 3"

datatype serve_result = ToHandshake | Forwarded | Stored | Registered | Drained | Dropped

record endpoint =
  ep_addr :: bytes
  ep_addr_len :: u8
  ep_active :: bool

type_synonym endpoint_map = "endpoint option list"

definition endpoint_map_new :: endpoint_map where
  "endpoint_map_new = replicate MAX_ENDPOINTS None"

definition endpoint_put :: "nat \<Rightarrow> bytes \<Rightarrow> u8 \<Rightarrow> endpoint_map \<Rightarrow> (bool, 'e) outcome \<times> endpoint_map" where
  "endpoint_put index addr addr_len m =
     (if index \<ge> MAX_ENDPOINTS \<or> unat addr_len > MAX_SA_LEN then (Ok False, m)
      else case subslice addr 0 (unat addr_len) of
        Ok a \<Rightarrow> (Ok True, m[index := Some \<lparr>ep_addr = a @ replicate (MAX_SA_LEN - length a) 0,
                                            ep_addr_len = addr_len, ep_active = True\<rparr>])
      | _ \<Rightarrow> (Panic, m))"

definition endpoint_get :: "nat \<Rightarrow> endpoint_map \<Rightarrow> endpoint option" where
  "endpoint_get index m =
     (if index \<ge> MAX_ENDPOINTS then None
      else case m ! index of Some e \<Rightarrow> if ep_active e then Some e else None | None \<Rightarrow> None)"

definition endpoint_remove :: "nat \<Rightarrow> endpoint_map \<Rightarrow> bool \<times> endpoint_map" where
  "endpoint_remove index m =
     (if index \<ge> MAX_ENDPOINTS then (False, m)
      else if m ! index \<noteq> None then (True, m[index := None]) else (False, m))"

definition classify_datagram :: "bytes \<Rightarrow> serve_result" where
  "classify_datagram dgram =
     (case dgram of [] \<Rightarrow> Dropped
      | b # _ \<Rightarrow>
        if b = MSG_HANDSHAKE_INIT \<or> b = MSG_HANDSHAKE_RESP \<or> b = MSG_HANDSHAKE_DATA then ToHandshake
        else if b = SERVE_MSG_RELAY_ROUTE then Forwarded
        else if b = SERVE_MSG_RELAY_REGISTRATION then Registered
        else Dropped)"

definition classify_route :: "endpoint_map \<Rightarrow> nat \<Rightarrow> serve_result" where
  "classify_route endpoints recipient_index =
     (if endpoint_get recipient_index endpoints \<noteq> None then Forwarded else Stored)"

section \<open>The route codec\<close>

lemma route_split:
  assumes "length (b :: bytes) = 20" "b ! 0 = 5" "b ! 1 = 0" "b ! 2 = 0" "b ! 3 = 0"
  shows "b = [5, 0, 0, 0] @ take 4 (drop 4 b) @ take 4 (drop 8 b) @ take 8 (drop 12 b)"
proof -
  have "take 4 b = [b ! 0, b ! 1, b ! 2, b ! 3]"
    using assms(1) by (intro nth_equalityI) (auto simp: less_Suc_eq numeral_eq_Suc)
  then have "b = [5, 0, 0, 0] @ drop 4 b" using assms by (metis append_take_drop_id)
  moreover have "drop 4 b = take 4 (drop 4 b) @ take 4 (drop 8 b) @ take 8 (drop 12 b)"
    using assms(1) append_take_drop_id [of 4 "drop 4 b"] append_take_drop_id [of 4 "drop 8 b"] by simp
  ultimately show ?thesis by simp
qed

interpretation route_format: message_format parse_relay_route encode_relay_route "\<lambda>_. True"
proof
  fix b m
  show "parse_relay_route b = Ok m \<longleftrightarrow> True \<and> b = encode_relay_route m"
  proof
    assume p: "parse_relay_route b = Ok m"
    then have "length b = 20" "b ! 0 = 5" "b ! 1 = 0" "b ! 2 = 0" "b ! 3 = 0"
      and m: "m = \<lparr>rr_sender_index = from_be_bytes (take 4 (drop 4 b)),
        rr_recipient_index = from_be_bytes (take 4 (drop 8 b)), rr_timestamp = from_be_bytes (take 8 (drop 12 b))\<rparr>"
      by (auto simp: parse_relay_route_def relay_sizes guard_Ok)
    then show "True \<and> b = encode_relay_route m"
      using route_split [of b] by (simp add: encode_relay_route_def relay_sizes to_from_be_u32 to_from_be_u64)
  next
    assume "True \<and> b = encode_relay_route m"
    then show "parse_relay_route b = Ok m"
      by (simp add: parse_relay_route_def encode_relay_route_def relay_sizes)
  qed
qed

section \<open>The contract of the post office\<close>

text \<open>
  Taking the next item of a key drops the dead ones and removes the oldest live item of that
  key, or reports that there is none.
\<close>

locale post_office =
  fixes inv :: "'s \<Rightarrow> bool"
    and live :: "'s \<Rightarrow> 'p multiset"
    and take_next :: "'k \<Rightarrow> 't \<Rightarrow> 's \<Rightarrow> 'p option \<times> 's"
    and dead :: "'t \<Rightarrow> 'p \<Rightarrow> bool"
    and for_key :: "'k \<Rightarrow> 'p \<Rightarrow> bool"
    and age :: "'p \<Rightarrow> nat"
  assumes take_inv: "inv s \<Longrightarrow> inv (snd (take_next k t s))"
    and take_None: "inv s \<Longrightarrow> take_next k t s = (None, s') \<Longrightarrow>
      live s' = {#p \<in># live s. \<not> dead t p#} \<and> {#p \<in># live s'. for_key k p#} = {#}"
    and take_Some: "inv s \<Longrightarrow> take_next k t s = (Some p, s') \<Longrightarrow>
      p \<in># live s \<and> \<not> dead t p \<and> for_key k p \<and> live s' = {#q \<in># live s. \<not> dead t q#} - {#p#}
      \<and> (\<forall>q. q \<in># live s \<longrightarrow> \<not> dead t q \<longrightarrow> for_key k q \<longrightarrow> age p \<le> age q)"
begin

primrec take_all :: "'k \<Rightarrow> 't \<Rightarrow> nat \<Rightarrow> 's \<Rightarrow> 'p list \<times> 's" where
  "take_all k t 0 s = ([], s)"
| "take_all k t (Suc n) s =
     (case take_next k t s of
        (None, s') \<Rightarrow> ([], s')
      | (Some p, s') \<Rightarrow> let (ps, s'') = take_all k t n s' in (p # ps, s''))"

lemma take_all_delivers:
  assumes "inv s" "size {#p \<in># live s. for_key k p \<and> \<not> dead t p#} < n"
  shows "mset (fst (take_all k t n s)) = {#p \<in># live s. for_key k p \<and> \<not> dead t p#}
    \<and> sorted (map age (fst (take_all k t n s)))
    \<and> live (snd (take_all k t n s)) = {#p \<in># live s. \<not> for_key k p \<and> \<not> dead t p#}"
  using assms
proof (induction n arbitrary: s)
  case (Suc n)
  obtain r s' where t: "take_next k t s = (r, s')" by fastforce
  show ?case
  proof (cases r)
    case None
    from take_None [OF Suc.prems(1) t [unfolded None]]
    have l: "live s' = {#p \<in># live s. \<not> dead t p#}" and e: "{#p \<in># live s'. for_key k p#} = {#}" by simp_all
    then have none: "{#p \<in># live s. for_key k p \<and> \<not> dead t p#} = {#}" by (auto simp: filter_filter_mset conj_commute)
    have "\<not> for_key k p" if "p \<in># live s" "\<not> dead t p" for p
    proof
      assume "for_key k p"
      with that have "p \<in># {#p \<in># live s. for_key k p \<and> \<not> dead t p#}" by simp
      with none show False by auto
    qed
    then have "{#p \<in># live s. \<not> dead t p#} = {#p \<in># live s. \<not> for_key k p \<and> \<not> dead t p#}"
      by (intro filter_mset_cong) auto
    with t None l none show ?thesis by simp
  next
    case (Some p)
    note p = take_Some [OF Suc.prems(1) t [unfolded Some]]
    have inv': "inv s'" using take_inv [OF Suc.prems(1), of k t] t by simp
    let ?M = "{#q \<in># live s. for_key k q \<and> \<not> dead t q#}"
    have pM: "p \<in># ?M" using p by simp
    have M': "{#q \<in># live s'. for_key k q \<and> \<not> dead t q#} = ?M - {#p#}"
      using p by (simp add: filter_diff_mset filter_filter_mset conj_ac)
    have N': "{#q \<in># live s'. \<not> for_key k q \<and> \<not> dead t q#} = {#q \<in># live s. \<not> for_key k q \<and> \<not> dead t q#}"
      using p by (simp add: filter_diff_mset filter_filter_mset conj_ac)
    have "size (?M - {#p#}) < n" using Suc.prems(2) size_Diff1_less [OF pM] by linarith
    with Suc.IH [OF inv'] M' N' have ih: "mset (fst (take_all k t n s')) = ?M - {#p#}"
      "sorted (map age (fst (take_all k t n s')))"
      "live (snd (take_all k t n s')) = {#q \<in># live s. \<not> for_key k q \<and> \<not> dead t q#}" by simp_all
    have "age p \<le> age q" if "q \<in> set (fst (take_all k t n s'))" for q
    proof -
      have "q \<in># ?M" using that ih(1) by (metis in_diffD set_mset_mset)
      with p show ?thesis by auto
    qed
    with ih pM t Some show ?thesis by (auto simp: split_beta Let_def)
  qed
qed simp

end

section \<open>The slots implement the contract\<close>

definition held :: "store \<Rightarrow> stored_packet multiset" where
  "held s = {#p \<in># mset (st_packets s). sp_in_use p#}"

definition store_inv :: "store \<Rightarrow> bool" where
  "store_inv s \<longleftrightarrow> length (st_packets s) = 1024 \<and> st_count s = size (held s)
     \<and> (\<forall>p\<in>#held s. length (sp_body p) \<le> 2048)
     \<and> (\<forall>a. size {#p \<in># held s. sp_recipient_addr p = a#} \<le> 64)"

lemma held_update:
  assumes "i < length (st_packets s)"
  shows "held (s\<lparr>st_packets := (st_packets s)[i := p], st_count := c\<rparr>)
    = held s - (if sp_in_use (st_packets s ! i) then {#st_packets s ! i#} else {#}) + (if sp_in_use p then {#p#} else {#})"
proof -
  have "st_packets s ! i \<in># mset (st_packets s)" using assms by simp
  then show ?thesis using assms by (auto simp: held_def mset_update filter_diff_mset)
qed

lemma held_other [simp]: "held (s\<lparr>st_refused_quota := n\<rparr>) = held s"
  by (simp add: held_def)

lemma purge_loop_ok:
  "{#p \<in># mset (fst (purge_loop now ps)). sp_in_use p#} = {#p \<in># mset ps. sp_in_use p \<and> \<not> packet_expired now p#}
   \<and> snd (purge_loop now ps) = size {#p \<in># mset ps. sp_in_use p \<and> packet_expired now p#}
   \<and> length (fst (purge_loop now ps)) = length ps"
  by (induction ps) (auto simp: split_beta Let_def)

lemma purge_expired_ok:
  assumes "store_inv s"
  shows "store_inv (snd (purge_expired now s))"
    and "held (snd (purge_expired now s)) = {#p \<in># held s. \<not> packet_expired now p#}"
proof -
  let ?s = "snd (purge_expired now s)"
  have pk: "st_packets ?s = fst (purge_loop now (st_packets s))"
    "st_count ?s = st_count s - snd (purge_loop now (st_packets s))"
    by (simp_all add: purge_expired_def split_beta)
  show h: "held ?s = {#p \<in># held s. \<not> packet_expired now p#}"
    using purge_loop_ok [of now "st_packets s"] by (simp add: held_def pk filter_filter_mset)
  have "size (held s) = size {#p \<in># held s. packet_expired now p#} + size {#p \<in># held s. \<not> packet_expired now p#}"
    by (metis multiset_partition size_union)
  then have "st_count ?s = size (held ?s)"
    using assms purge_loop_ok [of now "st_packets s"] unfolding h
    by (simp add: pk store_inv_def held_def filter_filter_mset)
  moreover have "size {#p \<in># held ?s. sp_recipient_addr p = a#} \<le> 64" for a
  proof -
    have "{#p \<in># held ?s. sp_recipient_addr p = a#} \<subseteq># {#p \<in># held s. sp_recipient_addr p = a#}"
      unfolding h by (intro multiset_filter_mono) simp
    then have "size {#p \<in># held ?s. sp_recipient_addr p = a#} \<le> size {#p \<in># held s. sp_recipient_addr p = a#}"
      by (rule size_mset_mono)
    also have "\<dots> \<le> 64" using assms by (simp add: store_inv_def)
    finally show ?thesis .
  qed
  ultimately show "store_inv ?s"
    using assms purge_loop_ok [of now "st_packets s"] by (auto simp: store_inv_def h pk)
qed

lemma best_loop_ok:
  "all = pre @ ps \<Longrightarrow> i = length pre \<Longrightarrow>
   (case best of None \<Rightarrow> \<forall>p\<in>set pre. \<not> waits_for a p
    | Some b \<Rightarrow> b < i \<and> waits_for a (all ! b) \<and> (\<forall>p\<in>set pre. waits_for a p \<longrightarrow> sp_stored_at_ms (all ! b) \<le> sp_stored_at_ms p)) \<Longrightarrow>
   (case best_loop all a i best ps of None \<Rightarrow> \<forall>p\<in>set all. \<not> waits_for a p
    | Some b \<Rightarrow> b < length all \<and> waits_for a (all ! b) \<and> (\<forall>p\<in>set all. waits_for a p \<longrightarrow> sp_stored_at_ms (all ! b) \<le> sp_stored_at_ms p))"
proof (induction ps arbitrary: pre i best)
  case (Cons p ps)
  have p: "all ! i = p" using Cons.prems by simp
  show ?case
    unfolding best_loop.simps
    by (rule Cons.IH [of "pre @ [p]"])
      (use Cons.prems p in \<open>auto simp: not_less less_Suc_eq split: option.splits\<close>)
qed (simp split: option.splits)

lemma drain_packet_cases:
  assumes "store_inv s" and s1_def: "s1 = snd (purge_expired now s)"
  shows "case drain_packet a now s of
      (None, s') \<Rightarrow> s' = s1 \<and> {#p \<in># held s1. sp_recipient_addr p = a#} = {#}
    | (Some p, s') \<Rightarrow> p \<in># held s1 \<and> sp_recipient_addr p = a \<and> held s' = held s1 - {#p#} \<and> store_inv s'
        \<and> (\<forall>q\<in>#held s1. sp_recipient_addr q = a \<longrightarrow> sp_stored_at_ms p \<le> sp_stored_at_ms q)"
proof -
  have inv: "store_inv s1" using purge_expired_ok(1) [OF assms(1)] by (simp add: s1_def)
  have held: "p \<in># held s1 \<longleftrightarrow> p \<in> set (st_packets s1) \<and> sp_in_use p" for p by (auto simp: held_def)
  note best = best_loop_ok [where all = "st_packets s1" and pre = "[]" and ps = "st_packets s1" and i = 0 and best = None and a = a]
  show ?thesis
  proof (cases "best_loop (st_packets s1) a 0 None (st_packets s1)")
    case None
    with best have "\<And>p. p \<in># held s1 \<Longrightarrow> sp_recipient_addr p \<noteq> a" by (auto simp: held waits_for_def)
    then have "{#p \<in># held s1. sp_recipient_addr p = a#} = {#}" by (simp add: filter_mset_False [symmetric] cong: filter_mset_cong)
    with None show ?thesis by (simp add: drain_packet_def s1_def [symmetric])
  next
    case (Some i)
    let ?p = "st_packets s1 ! i"
    let ?s' = "s1\<lparr>st_packets := (st_packets s1)[i := ?p\<lparr>sp_in_use := False\<rparr>], st_count := st_count s1 - 1\<rparr>"
    from best Some have i: "i < length (st_packets s1)" "sp_in_use ?p" "sp_recipient_addr ?p = a"
      and least: "\<And>q. q \<in># held s1 \<Longrightarrow> sp_recipient_addr q = a \<Longrightarrow> sp_stored_at_ms ?p \<le> sp_stored_at_ms q"
      by (auto simp: waits_for_def held)
    have mem: "?p \<in># held s1" using i by (simp add: held)
    have h: "held ?s' = held s1 - {#?p#}" using held_update [OF i(1)] i(2) by simp
    have "size {#q \<in># held ?s'. sp_recipient_addr q = b#} \<le> 64" for b
    proof -
      have "{#q \<in># held ?s'. sp_recipient_addr q = b#} \<subseteq># {#q \<in># held s1. sp_recipient_addr q = b#}"
        unfolding h by (simp add: multiset_filter_mono)
      then have "size {#q \<in># held ?s'. sp_recipient_addr q = b#} \<le> size {#q \<in># held s1. sp_recipient_addr q = b#}"
        by (rule size_mset_mono)
      also have "\<dots> \<le> 64" using inv by (simp add: store_inv_def)
      finally show ?thesis .
    qed
    moreover have "st_count ?s' = size (held ?s')"
      using inv mem unfolding h by (simp add: store_inv_def size_Diff_singleton)
    ultimately have "store_inv ?s'"
      using inv unfolding store_inv_def h by (auto dest: in_diffD)
    with Some i mem h least show ?thesis
      by (simp add: drain_packet_def s1_def [symmetric] Let_def)
  qed
qed

interpretation relay_office: post_office store_inv held drain_packet packet_expired
    "\<lambda>a p. sp_recipient_addr p = a" "\<lambda>p. unat (sp_stored_at_ms p)"
proof
  fix s s' a now p
  assume inv: "store_inv s"
  note c = drain_packet_cases [OF inv refl, where a = a and now = now] and purge = purge_expired_ok [OF inv, of now]
  show "store_inv (snd (drain_packet a now s))"
    using c purge by (auto split: prod.splits option.splits)
  show "drain_packet a now s = (None, s') \<Longrightarrow>
      held s' = {#p \<in># held s. \<not> packet_expired now p#} \<and> {#p \<in># held s'. sp_recipient_addr p = a#} = {#}"
    using c purge by simp
  show "drain_packet a now s = (Some p, s') \<Longrightarrow>
      p \<in># held s \<and> \<not> packet_expired now p \<and> sp_recipient_addr p = a
      \<and> held s' = {#q \<in># held s. \<not> packet_expired now q#} - {#p#}
      \<and> (\<forall>q. q \<in># held s \<longrightarrow> \<not> packet_expired now q \<longrightarrow> sp_recipient_addr q = a \<longrightarrow>
          unat (sp_stored_at_ms p) \<le> unat (sp_stored_at_ms q))"
    using c purge by (simp add: word_le_nat_alt)
qed

text \<open>What storing promises: the recipient's quota, then room, on the unexpired packets.\<close>

definition spec_store ::
  "bytes \<Rightarrow> u32 \<Rightarrow> bytes \<Rightarrow> u64 \<Rightarrow> stored_packet multiset \<Rightarrow> (unit, store_error) outcome \<times> stored_packet multiset" where
  "spec_store a sender body now M =
     (if length body > 2048 then (Err BodyTooLarge, M)
      else
        let L = {#p \<in># M. \<not> packet_expired now p#} in
        if size L \<ge> 1024 then (Err RelayStoreFull, L)
        else if size {#p \<in># L. sp_recipient_addr p = a#} \<ge> 64 then (Err RecipientQuota, L)
        else (Ok (), add_mset \<lparr>sp_in_use = True, sp_sender_index = sender, sp_recipient_addr = a,
                               sp_body = body, sp_stored_at_ms = now\<rparr> L))"

lemma own_bytes:
  assumes "store_inv s" "length (filter (waits_for a) (st_packets s)) < 64" "length body \<le> 2048"
  shows "sum_list (map (\<lambda>p. length (sp_body p)) (filter (waits_for a) (st_packets s))) + length body \<le> 4194304"
proof -
  have "sum_list (map (\<lambda>p. length (sp_body p)) ps) \<le> length ps * 2048"
    if "\<forall>p\<in>set ps. length (sp_body p) \<le> 2048" for ps using that by (induction ps) auto
  moreover have "\<forall>p\<in>set (filter (waits_for a) (st_packets s)). length (sp_body p) \<le> 2048"
    using assms(1) by (auto simp: store_inv_def held_def waits_for_def)
  ultimately have "sum_list (map (\<lambda>p. length (sp_body p)) (filter (waits_for a) (st_packets s)))
      \<le> length (filter (waits_for a) (st_packets s)) * 2048" by blast
  with assms show ?thesis by simp
qed

lemma store_packet_spec:
  assumes inv: "store_inv s"
  shows "store_inv (snd (store_packet a sender body now s))
    \<and> (fst (store_packet a sender body now s), held (snd (store_packet a sender body now s)))
      = spec_store a sender body now (held s)"
proof (cases "length body > 2048")
  case False
  define s1 where "s1 = snd (purge_expired now s)"
  define q where "q = \<lparr>sp_in_use = True, sp_sender_index = sender, sp_recipient_addr = a,
                       sp_body = body, sp_stored_at_ms = now\<rparr>"
  have inv1: "store_inv s1" and h1: "held s1 = {#p \<in># held s. \<not> packet_expired now p#}"
    using purge_expired_ok [OF inv, of now] by (simp_all add: s1_def)
  have own: "length (filter (waits_for a) (st_packets s1)) = size {#p \<in># held s1. sp_recipient_addr p = a#}"
    by (simp add: held_def filter_filter_mset waits_for_def [abs_def] conj_commute flip: size_mset)
  have cnt: "st_count s1 = size (held s1)" using inv1 by (simp add: store_inv_def)
  have ref: "store_inv (s1\<lparr>st_refused_quota := n\<rparr>)" for n using inv1 by (simp add: store_inv_def)
  note base = store_packet_def spec_store_def RELAY_MAX_BODY_def MAX_STORED_def MAX_PER_RECIPIENT_def
    MAX_BYTES_PER_RECIPIENT_def s1_def [symmetric] h1 [symmetric] own cnt Let_def q_def [symmetric]
  show ?thesis
  proof (cases "size (held s1) \<ge> 1024 \<or> size {#p \<in># held s1. sp_recipient_addr p = a#} \<ge> 64")
    case True
    with False ref show ?thesis by (auto simp: base)
  next
    case room: False
    then have bytes_ok: "\<not> 4194304 < sum_list (map (\<lambda>p. length (sp_body p)) (filter (waits_for a) (st_packets s1))) + length body"
      using own_bytes [OF inv1, of a body] own False by simp
    have "\<exists>p\<in>set (st_packets s1). \<not> sp_in_use p"
    proof (rule ccontr)
      assume "\<not> ?thesis"
      then have "filter sp_in_use (st_packets s1) = st_packets s1" by (simp add: filter_True)
      then have "held s1 = mset (st_packets s1)" by (simp add: held_def flip: mset_filter)
      with room inv1 show False by (simp add: store_inv_def)
    qed
    then obtain i where i: "position (\<lambda>p. \<not> sp_in_use p) (st_packets s1) = Some i"
      by (metis not_None_eq position_None)
    let ?s' = "s1\<lparr>st_packets := (st_packets s1)[i := q], st_count := st_count s1 + 1\<rparr>"
    have h: "held ?s' = add_mset q (held s1)"
      using held_update [where s = s1 and i = i and p = q and c = "st_count s1 + 1"] position_SomeD [OF i] by (simp add: q_def)
    have "store_inv ?s'"
      using inv1 room False unfolding store_inv_def h by (auto simp: q_def)
    with i h room bytes_ok False show ?thesis by (simp add: base)
  qed
qed (use inv in \<open>simp add: store_packet_def spec_store_def RELAY_MAX_BODY_def\<close>)

datatype store_op = PStore bytes u32 bytes u64 | PDrain bytes u64 | PPurge u64 | PReset

fun store_step :: "store_op \<Rightarrow> store \<Rightarrow> store" where
  "store_step (PStore a sender body now) s = snd (store_packet a sender body now s)"
| "store_step (PDrain a now) s = snd (drain_next a now s)"
| "store_step (PPurge now) s = snd (purge_expired now s)"
| "store_step PReset s = store_reset s"

lemma store_reset_inv: "store_inv s \<Longrightarrow> store_inv (store_reset s)"
proof -
  have "held (store_reset s) = {#}" by (auto simp: held_def store_reset_def)
  then show "store_inv s \<Longrightarrow> store_inv (store_reset s)" by (simp add: store_inv_def) (simp add: store_reset_def)
qed

lemma drain_next_drain [simp]: "snd (drain_next a now s) = snd (drain_packet a now s)"
  by (simp add: drain_next_def split_beta)

interpretation stores: guarded_machine store_new store_step store_inv
proof unfold_locales
  have "held store_new = {#}"
    by (simp add: held_def store_new_def stored_packet_default_def)
  then show "store_inv store_new" by (simp add: store_inv_def) (simp add: store_new_def MAX_STORED_def)
  fix op s
  assume "store_inv s"
  then show "store_inv (store_step op s)"
    by (cases op) (simp_all add: store_packet_spec purge_expired_ok store_reset_inv relay_office.take_inv)
qed

section \<open>The routing table is a bounded map\<close>

definition routes :: "relay_table \<Rightarrow> bytes \<Rightarrow> relay_entry option" where
  "routes t = map_of (map (\<lambda>e. (re_overlay_addr e, e)) t)"

definition routes_inv :: "relay_table \<Rightarrow> bool" where
  "routes_inv t \<longleftrightarrow> distinct (map re_overlay_addr t) \<and> length t \<le> 4096"

lemma relay_lookup_routes: "relay_lookup a t = routes t a"
  by (induction t) (simp_all add: relay_lookup_def routes_def)

lemma routes_Some:
  "distinct (map re_overlay_addr t) \<Longrightarrow> routes t a = Some e \<longleftrightarrow> e \<in> set t \<and> re_overlay_addr e = a"
  by (auto simp: routes_def o_def map_of_eq_Some_iff)

lemma relay_insert_map:
  assumes "routes_inv t"
  shows "routes_inv (snd (relay_insert e t))
    \<and> fst (relay_insert e t) = (re_overlay_addr e \<in> dom (routes t) \<or> card (dom (routes t)) < 4096)
    \<and> routes (snd (relay_insert e t)) =
       (if fst (relay_insert e t) then (routes t)(re_overlay_addr e \<mapsto> e) else routes t)"
proof -
  have d: "distinct (map re_overlay_addr t)" using assms by (simp add: routes_inv_def)
  have dom: "dom (routes t) = set (map re_overlay_addr t)"
    by (simp add: routes_def dom_map_of_conv_image_fst image_image)
  have card: "card (re_overlay_addr ` set t) = length t" using distinct_card [OF d] by simp
  show ?thesis
  proof (cases "position (\<lambda>x. re_overlay_addr x = re_overlay_addr e) t")
    case None
    then have new: "re_overlay_addr e \<notin> set (map re_overlay_addr t)" by (auto simp: position_None)
    then have "routes (t @ [e]) = (routes t)(re_overlay_addr e \<mapsto> e)"
      using dom by (auto simp: routes_def map_add_def fun_eq_iff split: option.split)
    with None new assms d show ?thesis
      by (auto simp: relay_insert_def routes_inv_def dom card MAX_RELAY_TABLE_def)
  next
    case (Some i)
    note i = position_SomeD [OF Some]
    have only: "j = i" if "j < length t" "re_overlay_addr (t ! j) = re_overlay_addr e" for j
      using nth_eq_iff_index_eq [OF d, of j i] i that by simp
    have keys: "map re_overlay_addr (t[i := e]) = map re_overlay_addr t"
      using i by (metis list_update_id map_update)
    then have d': "distinct (map re_overlay_addr (t[i := e]))" using d by simp
    have mem: "x \<in> set (t[i := e]) \<longleftrightarrow> x = e \<or> x \<in> set t \<and> re_overlay_addr x \<noteq> re_overlay_addr e" for x
    proof -
      have "x \<in> set (t[i := e]) \<longleftrightarrow> x = e \<or> (\<exists>j. j < length t \<and> j \<noteq> i \<and> x = t ! j)"
        using i by (auto simp: in_set_conv_nth nth_list_update)
      moreover have "(\<exists>j. j < length t \<and> j \<noteq> i \<and> x = t ! j) \<longleftrightarrow> x \<in> set t \<and> re_overlay_addr x \<noteq> re_overlay_addr e"
        using i only by (auto simp: in_set_conv_nth)
      ultimately show ?thesis by blast
    qed
    have "routes (t[i := e]) = (routes t)(re_overlay_addr e \<mapsto> e)"
    proof (rule ext, rule option_eqI)
      fix a v
      show "routes (t[i := e]) a = Some v \<longleftrightarrow> ((routes t)(re_overlay_addr e \<mapsto> e)) a = Some v"
        using routes_Some [OF d', of a v] routes_Some [OF d, of a v] mem by auto
    qed
    moreover have "re_overlay_addr e \<in> dom (routes t)" using i unfolding dom by (metis in_set_conv_nth length_map nth_map)
    ultimately show ?thesis using Some assms keys by (simp add: relay_insert_def routes_inv_def)
  qed
qed

section \<open>Properties\<close>


text \<open>
  C27: Storing implements the specification on the multiset of packets held: after dropping
  the expired ones, a body over the limit, a full office and a recipient's 65th packet are
  refused, in that order, and otherwise exactly the new packet is added.
\<close>

theorem store_refines_multiset:
  "(fst (store_packet a sender body now (fold store_step ops store_new)),
    held (snd (store_packet a sender body now (fold store_step ops store_new))))
   = spec_store a sender body now (held (fold store_step ops store_new))"
  using store_packet_spec [OF stores.inv_run [of ops]] by blast

text \<open>The route frame has exactly one encoding per message.\<close>

theorem relay_route_codec_exact: "parse_relay_route b = Ok r \<longleftrightarrow> b = encode_relay_route r"
  using route_format.parse_Ok_iff by simp

end
