(* ===== verification/Evidence.thy ===== *)
theory Evidence
  imports Codec
begin

text \<open>
  The receiver's verdict on a claim (src/src/transport/evidence.rs) and the approval view
  (src/src/transport/render.rs). The caller's closures are functions of a record; a span and a
  claim are the code's parsed views. The lemmas relate the loop over the packed references
  to the list of the spans they cite.
\<close>

section \<open>Classes and ceilings\<close>

datatype evidence_class = DirectObservation | ExpertTestimony | Documentation | Inference

definition class_of :: "u8 \<Rightarrow> evidence_class" where
  "class_of method_id =
     (if 1 \<le> method_id \<and> method_id \<le> 4 then DirectObservation
      else if method_id = 5 \<or> method_id = 6 then Documentation
      else if method_id = 7 then ExpertTestimony
      else Inference)"

fun ceiling_q8 :: "evidence_class \<Rightarrow> u8" where
  "ceiling_q8 DirectObservation = 242"
| "ceiling_q8 ExpertTestimony = 216"
| "ceiling_q8 Documentation = 191"
| "ceiling_q8 Inference = 165"

definition is_volatile :: "u8 \<Rightarrow> bool" where "is_volatile volatility \<longleftrightarrow> volatility \<noteq> 2"

definition effective_confidence :: "u8 \<Rightarrow> u8 \<Rightarrow> u8" where
  "effective_confidence stated_q8 strongest_ceiling_q8 = min stated_q8 strongest_ceiling_q8"

definition MAX_UTTERANCE_CLAIMS :: nat where "MAX_UTTERANCE_CLAIMS = 32"
definition MAX_UTTERANCE_SPANS :: nat where "MAX_UTTERANCE_SPANS = 64"

definition check_bounds :: "nat \<Rightarrow> nat \<Rightarrow> bool" where
  "check_bounds claim_count span_count \<longleftrightarrow> claim_count \<le> MAX_UTTERANCE_CLAIMS \<and> span_count \<le> MAX_UTTERANCE_SPANS"

section \<open>Claims and spans\<close>

datatype role = NoRole | ExecutorRole
datatype origin_state = Effect | Absent | NonEffect

record resolve_context =
  rc_role_of :: "bytes \<Rightarrow> role"
  rc_resolve_origin :: "bytes \<Rightarrow> origin_state"
  rc_is_superseded :: "bytes \<Rightarrow> bytes \<Rightarrow> bytes \<Rightarrow> bool"

record resolution_record =
  rn_cited :: nat
  rn_inline_spans :: nat
  rn_supportable :: nat
  rn_subject_matched :: nat
  rn_superseded :: nat
  rn_unresolved :: nat
  rn_non_effect :: nat

definition resolution_record_default :: resolution_record where
  "resolution_record_default = \<lparr>rn_cited = 0, rn_inline_spans = 0, rn_supportable = 0, rn_subject_matched = 0,
     rn_superseded = 0, rn_unresolved = 0, rn_non_effect = 0\<rparr>"

record supported =
  su_effective_q8 :: u8
  su_pending_stronger :: bool
  su_record :: resolution_record

datatype claim_state = Supported supported | Unresolved resolution_record | Unsupported resolution_record

record ev_span =
  ev_span_id :: bytes
  ev_tbs :: bytes
  ev_sig :: bytes
  ev_executor :: bytes
  ev_resource_id :: bytes
  ev_origin :: bytes
  ev_volatility :: u8
  ev_method_id :: u8

record ev_claim =
  ec_span_ids :: bytes
  ec_span_count :: nat
  ec_subject :: bytes
  ec_confidence_q8 :: u8

definition match_span :: "ev_span list \<Rightarrow> bytes \<Rightarrow> ev_span option" where
  "match_span spans span_id = find (\<lambda>s. ev_span_id s = span_id) spans"

definition span_supportable :: "crypto \<Rightarrow> resolve_context \<Rightarrow> ev_span \<Rightarrow> bool" where
  "span_supportable cr ctx span \<longleftrightarrow>
     verify_signed cr DOMAIN_SPAN (ev_tbs span) (ev_sig span) (ev_executor span)
     \<and> rc_role_of ctx (ev_executor span) = ExecutorRole"

record resolve_acc =
  ac_rec :: resolution_record
  ac_strongest :: u8
  ac_unresolved :: bool

text \<open>The body of the loop for a cited span that is inline.\<close>

definition resolve_span ::
  "crypto \<Rightarrow> resolve_context \<Rightarrow> ev_claim \<Rightarrow> bytes \<Rightarrow> ev_span \<Rightarrow> resolve_acc \<Rightarrow> resolve_acc" where
  "resolve_span cr ctx claim claim_envelope span acc =
     (let r = ac_rec acc; r = r\<lparr>rn_inline_spans := rn_inline_spans r + 1\<rparr> in
      if \<not> span_supportable cr ctx span then acc\<lparr>ac_rec := r\<rparr>
      else let r = r\<lparr>rn_supportable := rn_supportable r + 1\<rparr> in
      if ev_resource_id span \<noteq> ec_subject claim then acc\<lparr>ac_rec := r\<rparr>
      else let r = r\<lparr>rn_subject_matched := rn_subject_matched r + 1\<rparr> in
      case rc_resolve_origin ctx (ev_origin span) of
        Effect \<Rightarrow>
          if is_volatile (ev_volatility span)
             \<and> rc_is_superseded ctx (ev_resource_id span) (ev_origin span) claim_envelope
          then acc\<lparr>ac_rec := r\<lparr>rn_superseded := rn_superseded r + 1\<rparr>\<rparr>
          else
            let ceil = ceiling_q8 (class_of (ev_method_id span))
            in acc\<lparr>ac_rec := r, ac_strongest := (if ceil > ac_strongest acc then ceil else ac_strongest acc)\<rparr>
      | Absent \<Rightarrow> acc\<lparr>ac_rec := r\<lparr>rn_unresolved := rn_unresolved r + 1\<rparr>, ac_unresolved := True\<rparr>
      | NonEffect \<Rightarrow> acc\<lparr>ac_rec := r\<lparr>rn_non_effect := rn_non_effect r + 1\<rparr>\<rparr>)"

definition count_cited :: "resolve_acc \<Rightarrow> resolve_acc" where
  "count_cited acc = acc\<lparr>ac_rec := (ac_rec acc)\<lparr>rn_cited := rn_cited (ac_rec acc) + 1\<rparr>\<rparr>"

text \<open>The loop from index i with n iterations left.\<close>

primrec claim_loop ::
  "crypto \<Rightarrow> resolve_context \<Rightarrow> ev_claim \<Rightarrow> ev_span list \<Rightarrow> bytes \<Rightarrow> nat \<Rightarrow> nat \<Rightarrow> resolve_acc \<Rightarrow> resolve_acc" where
  "claim_loop cr ctx claim spans claim_envelope 0 i acc = acc"
| "claim_loop cr ctx claim spans claim_envelope (Suc n) i acc =
     (let acc = count_cited acc; start = i * LEN_SPAN_REF; stop = start + LEN_SPAN_REF in
      if stop > length (ec_span_ids claim) then acc
      else case match_span spans (take LEN_SPAN_REF (drop start (ec_span_ids claim))) of
        None \<Rightarrow> claim_loop cr ctx claim spans claim_envelope n (i + 1) acc
      | Some span \<Rightarrow>
        claim_loop cr ctx claim spans claim_envelope n (i + 1)
          (resolve_span cr ctx claim claim_envelope span acc))"

definition resolve_claim ::
  "crypto \<Rightarrow> resolve_context \<Rightarrow> ev_claim \<Rightarrow> ev_span list \<Rightarrow> bytes \<Rightarrow> claim_state" where
  "resolve_claim cr ctx claim spans claim_envelope =
     (let acc = claim_loop cr ctx claim spans claim_envelope (ec_span_count claim) 0
            \<lparr>ac_rec = resolution_record_default, ac_strongest = 0, ac_unresolved = False\<rparr> in
      if ac_strongest acc > 0 then
        Supported \<lparr>su_effective_q8 = effective_confidence (ec_confidence_q8 claim) (ac_strongest acc),
                   su_pending_stronger = ac_unresolved acc, su_record = ac_rec acc\<rparr>
      else if ac_unresolved acc then Unresolved (ac_rec acc)
      else Unsupported (ac_rec acc))"

section \<open>The approval view\<close>

definition RATIONALE_UNTRUSTED_LABEL :: string where
  "RATIONALE_UNTRUSTED_LABEL = ''untrusted, agent-authored''"

record rationale =
  ra_text :: bytes
  ra_untrusted_label :: string

record approval_view =
  av_resource_id :: bytes
  av_action :: bytes
  av_action_digest :: bytes
  av_rationale :: "rationale option"

definition render_approval :: "crypto \<Rightarrow> bytes \<Rightarrow> bytes \<Rightarrow> bytes option \<Rightarrow> approval_view" where
  "render_approval cr canonical_resource_id action rat =
     \<lparr>av_resource_id = canonical_resource_id, av_action = action, av_action_digest = blake2s cr action,
      av_rationale = map_option (\<lambda>r. \<lparr>ra_text = r, ra_untrusted_label = RATIONALE_UNTRUSTED_LABEL\<rparr>) rat\<rparr>"

section \<open>The spans a claim cites\<close>

definition reference :: "ev_claim \<Rightarrow> nat \<Rightarrow> bytes" where
  "reference claim i = take LEN_SPAN_REF (drop (i * LEN_SPAN_REF) (ec_span_ids claim))"

text \<open>The references that fit in the packed bytes, and the inline spans they name.\<close>

definition whole_refs :: "ev_claim \<Rightarrow> nat" where
  "whole_refs claim = min (ec_span_count claim) (length (ec_span_ids claim) div LEN_SPAN_REF)"

definition cited_spans :: "ev_claim \<Rightarrow> ev_span list \<Rightarrow> ev_span list" where
  "cited_spans claim spans = List.map_filter (\<lambda>i. match_span spans (reference claim i)) [0..<whole_refs claim]"

definition on_subject :: "crypto \<Rightarrow> resolve_context \<Rightarrow> ev_claim \<Rightarrow> ev_span \<Rightarrow> bool" where
  "on_subject cr ctx claim s \<longleftrightarrow> span_supportable cr ctx s \<and> ev_resource_id s = ec_subject claim"

definition stale_span :: "resolve_context \<Rightarrow> bytes \<Rightarrow> ev_span \<Rightarrow> bool" where
  "stale_span ctx env s \<longleftrightarrow> is_volatile (ev_volatility s) \<and> rc_is_superseded ctx (ev_resource_id s) (ev_origin s) env"

definition supports :: "crypto \<Rightarrow> resolve_context \<Rightarrow> ev_claim \<Rightarrow> bytes \<Rightarrow> ev_span \<Rightarrow> bool" where
  "supports cr ctx claim env s \<longleftrightarrow>
     on_subject cr ctx claim s \<and> rc_resolve_origin ctx (ev_origin s) = Effect \<and> \<not> stale_span ctx env s"

definition awaits :: "crypto \<Rightarrow> resolve_context \<Rightarrow> ev_claim \<Rightarrow> ev_span \<Rightarrow> bool" where
  "awaits cr ctx claim s \<longleftrightarrow> on_subject cr ctx claim s \<and> rc_resolve_origin ctx (ev_origin s) = Absent"

abbreviation ceiling_of :: "ev_span \<Rightarrow> u8" where
  "ceiling_of s \<equiv> ceiling_q8 (class_of (ev_method_id s))"

text \<open>What the loop adds to its accumulator for c references, of which cs are the inline spans.\<close>

definition tally ::
  "crypto \<Rightarrow> resolve_context \<Rightarrow> ev_claim \<Rightarrow> bytes \<Rightarrow> nat \<Rightarrow> ev_span list \<Rightarrow> resolve_acc \<Rightarrow> resolve_acc" where
  "tally cr ctx claim env c cs acc =
     (let r = ac_rec acc; on = filter (on_subject cr ctx claim) cs in
      \<lparr>ac_rec = \<lparr>rn_cited = rn_cited r + c, rn_inline_spans = rn_inline_spans r + length cs,
         rn_supportable = rn_supportable r + length (filter (span_supportable cr ctx) cs),
         rn_subject_matched = rn_subject_matched r + length on,
         rn_superseded = rn_superseded r + length (filter (\<lambda>s. rc_resolve_origin ctx (ev_origin s) = Effect \<and> stale_span ctx env s) on),
         rn_unresolved = rn_unresolved r + length (filter (awaits cr ctx claim) cs),
         rn_non_effect = rn_non_effect r + length (filter (\<lambda>s. rc_resolve_origin ctx (ev_origin s) = NonEffect) on)\<rparr>,
       ac_strongest = fold max (map ceiling_of (filter (supports cr ctx claim env) cs)) (ac_strongest acc),
       ac_unresolved = (ac_unresolved acc \<or> list_ex (awaits cr ctx claim) cs)\<rparr>)"

lemma tally_Nil: "tally cr ctx claim env 0 [] acc = acc"
  by (simp add: tally_def Let_def)

lemma tally_tally: "tally cr ctx claim env c' cs' (tally cr ctx claim env c cs acc) = tally cr ctx claim env (c + c') (cs @ cs') acc"
  by (simp add: tally_def Let_def)

lemma count_cited_tally: "count_cited acc = tally cr ctx claim env 1 [] acc"
  by (simp add: count_cited_def tally_def Let_def)

lemma resolve_span_tally: "resolve_span cr ctx claim env s acc = tally cr ctx claim env 0 [s] acc"
proof (cases "on_subject cr ctx claim s")
  case True
  then show ?thesis
    by (cases "rc_resolve_origin ctx (ev_origin s)")
      (auto simp: resolve_span_def tally_def Let_def on_subject_def supports_def awaits_def stale_span_def max_def)
next
  case False
  then show ?thesis
    by (auto simp: resolve_span_def tally_def Let_def on_subject_def supports_def awaits_def)
qed

lemma resolve_loop_tally:
  "i \<le> length (ec_span_ids claim) div LEN_SPAN_REF \<Longrightarrow>
   claim_loop cr ctx claim spans env n i acc
     = tally cr ctx claim env (min n (Suc (length (ec_span_ids claim) div LEN_SPAN_REF) - i))
         (List.map_filter (\<lambda>i. match_span spans (reference claim i)) [i..<min (i + n) (length (ec_span_ids claim) div LEN_SPAN_REF)]) acc"
proof (induction n arbitrary: i acc)
  case (Suc n)
  define L where "L = length (ec_span_ids claim) div LEN_SPAN_REF"
  have fits: "i * LEN_SPAN_REF + LEN_SPAN_REF \<le> length (ec_span_ids claim) \<longleftrightarrow> i < L"
    by (simp add: L_def LEN_SPAN_REF_def) linarith
  show ?case
  proof (cases "i < L")
    case False
    then have "i = L" using Suc.prems by (simp add: L_def)
    then show ?thesis using fits by (simp add: Let_def L_def [symmetric] count_cited_tally [of _ cr ctx claim env])
  next
    case True
    then have le: "Suc i \<le> L" by simp
    let ?ms = "\<lambda>j. List.map_filter (\<lambda>i. match_span spans (reference claim i)) [j..<min (i + Suc n) L]"
    have range: "[i..<min (i + Suc n) L] = i # [Suc i..<min (Suc i + n) L]" using True by (simp add: upt_conv_Cons)
    have step: "claim_loop cr ctx claim spans env (Suc n) i acc
        = claim_loop cr ctx claim spans env n (Suc i)
            (tally cr ctx claim env 1 (case match_span spans (reference claim i) of None \<Rightarrow> [] | Some s \<Rightarrow> [s]) acc)"
      using True fits by (simp add: Let_def reference_def [symmetric] count_cited_tally [of _ cr ctx claim env]
          resolve_span_tally tally_tally split: option.split)
    have cnt: "1 + min n (Suc L - Suc i) = min (Suc n) (Suc L - i)" using True by simp
    show ?thesis
      unfolding step Suc.IH [of "Suc i", folded L_def, OF le] tally_tally cnt L_def [symmetric]
      unfolding range by (simp add: map_filter_simps split: option.split)
  qed
qed (simp add: tally_Nil)

section \<open>Property\<close>

definition verdict :: "crypto \<Rightarrow> resolve_context \<Rightarrow> ev_claim \<Rightarrow> ev_span list \<Rightarrow> bytes \<Rightarrow> claim_state" where
  "verdict cr ctx claim spans env =
     (let cs = cited_spans claim spans;
          start = \<lparr>ac_rec = resolution_record_default, ac_strongest = 0, ac_unresolved = False\<rparr>;
          rec = ac_rec (tally cr ctx claim env (min (ec_span_count claim) (Suc (length (ec_span_ids claim) div LEN_SPAN_REF))) cs start);
          pending = list_ex (awaits cr ctx claim) cs
      in if list_ex (supports cr ctx claim env) cs
         then Supported \<lparr>su_effective_q8 = min (ec_confidence_q8 claim) (Max (ceiling_of ` {s \<in> set cs. supports cr ctx claim env s})),
                         su_pending_stronger = pending, su_record = rec\<rparr>
         else if pending then Unresolved rec else Unsupported rec)"

lemma ceiling_pos: "0 < ceiling_q8 c"
  by (cases c) simp_all

lemma fold_max_ceilings:
  "fold max (map ceiling_of xs) 0 = (if xs = [] then 0 else Max (ceiling_of ` set xs))"
proof (cases xs)
  case (Cons x ys)
  have "fold max (map ceiling_of xs) 0 = Max (set (0 # map ceiling_of xs))" by (simp only: Max.set_eq_fold)
  also have "\<dots> = max 0 (Max (ceiling_of ` set xs))" using Cons by simp
  also have "\<dots> = Max (ceiling_of ` set xs)" by (simp add: max_absorb2)
  finally show ?thesis using Cons by simp
qed simp

text \<open>
  C28: The receiver decides alone: the loop's verdict is that of the definition over the spans a
  claim cites by a whole reference and carries inline. A claim is supported exactly when one
  of them is signed by an executor, is on the claim's subject, originates in an effect and is
  not a superseded volatile one; the confidence is then the stated one capped by the highest
  ceiling of those spans' methods; else it is unresolved exactly when such a span awaits its
  origin.
\<close>

theorem resolve_claim_exact:
  "resolve_claim cr ctx claim spans env = verdict cr ctx claim spans env"
proof -
  let ?cs = "cited_spans claim spans"
  let ?start = "\<lparr>ac_rec = resolution_record_default, ac_strongest = 0, ac_unresolved = False\<rparr>"
  let ?acc = "tally cr ctx claim env (min (ec_span_count claim) (Suc (length (ec_span_ids claim) div LEN_SPAN_REF))) ?cs ?start"
  have loop: "claim_loop cr ctx claim spans env (ec_span_count claim) 0 ?start = ?acc"
    using resolve_loop_tally [of 0 claim cr ctx spans env "ec_span_count claim" ?start]
    by (simp add: cited_spans_def whole_refs_def)
  let ?S = "filter (supports cr ctx claim env) ?cs"
  have strong: "ac_strongest ?acc = (if ?S = [] then 0 else Max (ceiling_of ` set ?S))"
    using fold_max_ceilings [of ?S] by (simp add: tally_def Let_def)
  have pos: "0 < Max (ceiling_of ` set ?S)" if "?S \<noteq> []"
  proof -
    have "Max (ceiling_of ` set ?S) \<in> ceiling_of ` set ?S" using that by (intro Max_in) (auto simp del: set_filter)
    then show ?thesis using ceiling_pos by auto
  qed
  have ex: "list_ex (supports cr ctx claim env) ?cs \<longleftrightarrow> ?S \<noteq> []" by (auto simp: list_ex_iff filter_empty_conv)
  have un: "ac_unresolved ?acc = list_ex (awaits cr ctx claim) ?cs" by (simp add: tally_def Let_def)
  show ?thesis
  proof (cases "?S = []")
    case True
    with strong un ex show ?thesis
      by (simp add: resolve_claim_def verdict_def loop Let_def effective_confidence_def)
  next
    case False
    with strong un ex pos show ?thesis
      by (simp add: resolve_claim_def verdict_def loop Let_def effective_confidence_def)
  qed
qed

end
