(* ===== verification/RustText.thy ===== *)
theory RustText
  imports Prelude
begin

text \<open>
  What the sources use of the text functions of the Rust standard library, over the bytes of
  a text: the UTF-8 validation of core::str (with the lossy decoding that replaces a maximal
  invalid part by U+FFFD), the Unicode white space that trim removes, the search for a
  substring, the decimal notation of unsigned integers in both directions and the pairs of
  hexadecimal digits. A text literal is the list of its character codes.
\<close>

unbundle bit_operations_syntax

section \<open>Literals and search\<close>

definition ascii :: "string \<Rightarrow> bytes" where
  "ascii s = map of_char s"

text \<open>The first position at which a pattern occurs (windows(n).position and str::find).\<close>

fun find_sub :: "bytes \<Rightarrow> bytes \<Rightarrow> nat option" where
  "find_sub needle [] = (if needle = [] then Some 0 else None)"
| "find_sub needle (b # bs) =
     (if take (length needle) (b # bs) = needle then Some 0 else map_option Suc (find_sub needle bs))"

lemma find_sub_SomeD:
  "find_sub needle bs = Some i \<Longrightarrow> i + length needle \<le> length bs \<and> take (length needle) (drop i bs) = needle"
proof (induction bs arbitrary: i)
  case (Cons b bs)
  have len: "take (length needle) xs = needle \<Longrightarrow> length needle \<le> length xs" for xs :: bytes
    by (metis length_take min.cobounded1)
  show ?case
  proof (cases "take (length needle) (b # bs) = needle")
    case True
    with Cons.prems len [OF True] show ?thesis by auto
  next
    case False
    with Cons.prems obtain j where "find_sub needle bs = Some j" "i = Suc j" by auto
    with Cons.IH show ?thesis by simp
  qed
qed (simp split: if_splits)

lemma find_sub_append: "find_sub needle bs = Some i \<Longrightarrow> find_sub needle (bs @ rest) = Some i"
proof (induction bs arbitrary: i)
  case Nil
  then show ?case by (cases rest) (simp_all split: if_splits)
next
  case (Cons b bs)
  have "length needle \<le> length (b # bs)" using find_sub_SomeD [OF Cons.prems] by simp
  then have "take (length needle) ((b # bs) @ rest) = take (length needle) (b # bs)"
    by (simp only: take_append) simp
  with Cons show ?case by (auto split: if_splits)
qed

definition starts_with :: "bytes \<Rightarrow> bytes \<Rightarrow> bool" where
  "starts_with prefix bs \<longleftrightarrow> take (length prefix) bs = prefix"

definition strip_prefix :: "bytes \<Rightarrow> bytes \<Rightarrow> bytes option" where
  "strip_prefix prefix bs = (if starts_with prefix bs then Some (drop (length prefix) bs) else None)"

definition to_ascii_lowercase :: "u8 \<Rightarrow> u8" where
  "to_ascii_lowercase b = (if 65 \<le> b \<and> b \<le> 90 then b + 32 else b)"

section \<open>UTF-8\<close>

definition between :: "u8 \<Rightarrow> u8 \<Rightarrow> u8 \<Rightarrow> bool" where
  "between lo hi b \<longleftrightarrow> lo \<le> b \<and> b \<le> hi"

fun next_in :: "u8 \<Rightarrow> u8 \<Rightarrow> nat \<Rightarrow> bytes \<Rightarrow> bool" where
  "next_in lo hi i bs = (i < length bs \<and> between lo hi (bs ! i))"

text \<open>Whether the text starts with a character, and the length of it or of the invalid part.\<close>

definition utf8_step :: "bytes \<Rightarrow> bool \<times> nat" where
  "utf8_step bs =
     (let b = hd bs in
      if b < 0x80 then (True, 1)
      else if between 0xC2 0xDF b then
        (if next_in 0x80 0xBF 1 bs then (True, 2) else (False, 1))
      else if between 0xE0 0xEF b then
        let lo = (if b = 0xE0 then 0xA0 else 0x80); hi = (if b = 0xED then 0x9F else 0xBF) in
        if \<not> next_in lo hi 1 bs then (False, 1)
        else if \<not> next_in 0x80 0xBF 2 bs then (False, 2) else (True, 3)
      else if between 0xF0 0xF4 b then
        let lo = (if b = 0xF0 then 0x90 else 0x80); hi = (if b = 0xF4 then 0x8F else 0xBF) in
        if \<not> next_in lo hi 1 bs then (False, 1)
        else if \<not> next_in 0x80 0xBF 2 bs then (False, 2)
        else if \<not> next_in 0x80 0xBF 3 bs then (False, 3) else (True, 4)
      else (False, 1))"

lemma utf8_step_shrinks: "bs \<noteq> [] \<Longrightarrow> (ok, n) = utf8_step bs \<Longrightarrow> length bs - n < length bs"
  by (auto simp: utf8_step_def Let_def split: if_splits)

function from_utf8 :: "bytes \<Rightarrow> bool" where
  "from_utf8 bs =
     (if bs = [] then True
      else let (ok, n) = utf8_step bs in ok \<and> from_utf8 (drop n bs))"
  by auto
termination
  by (relation "measure length") (simp_all, metis utf8_step_shrinks)

function from_utf8_lossy :: "bytes \<Rightarrow> bytes" where
  "from_utf8_lossy bs =
     (if bs = [] then []
      else let (ok, n) = utf8_step bs in
        (if ok then take n bs else [0xEF, 0xBF, 0xBD]) @ from_utf8_lossy (drop n bs))"
  by auto
termination
  by (relation "measure length") (simp_all, metis utf8_step_shrinks)

declare from_utf8.simps [simp del] from_utf8_lossy.simps [simp del]

lemma from_utf8_lossy_valid: "from_utf8 bs \<Longrightarrow> from_utf8_lossy bs = bs"
proof (induction bs rule: from_utf8.induct)
  case (1 bs)
  obtain ok n where st: "utf8_step bs = (ok, n)" by fastforce
  show ?case
  proof (cases "bs = []")
    case False
    with 1(2) st have "ok" "from_utf8 (drop n bs)" by (simp_all add: from_utf8.simps [of bs])
    with 1(1) [OF False st [symmetric] refl] False st show ?thesis
      by (subst from_utf8_lossy.simps) simp
  qed (simp add: from_utf8_lossy.simps)
qed

lemma from_utf8_ascii: "list_all (\<lambda>b. b < 0x80) bs \<Longrightarrow> from_utf8 bs"
  by (induction bs) (subst from_utf8.simps, simp add: utf8_step_def)+

section \<open>White space\<close>

text \<open>The encodings of the characters with the property White_Space.\<close>

definition white_spaces :: "bytes list" where
  "white_spaces = [[9], [10], [11], [12], [13], [32], [0xC2, 0x85], [0xC2, 0xA0], [0xE1, 0x9A, 0x80],
     [0xE2, 0x80, 0x80], [0xE2, 0x80, 0x81], [0xE2, 0x80, 0x82], [0xE2, 0x80, 0x83], [0xE2, 0x80, 0x84],
     [0xE2, 0x80, 0x85], [0xE2, 0x80, 0x86], [0xE2, 0x80, 0x87], [0xE2, 0x80, 0x88], [0xE2, 0x80, 0x89],
     [0xE2, 0x80, 0x8A], [0xE2, 0x80, 0xA8], [0xE2, 0x80, 0xA9], [0xE2, 0x80, 0xAF], [0xE2, 0x81, 0x9F],
     [0xE3, 0x80, 0x80]]"

text \<open>
  One character is removed as long as there is one: no text has more of them than bytes.
  Every encoding starts with a byte that is no continuation byte, so that in valid UTF-8 a
  suffix equal to an encoding is the last character.
\<close>

primrec strip_start :: "nat \<Rightarrow> bytes \<Rightarrow> bytes" where
  "strip_start 0 bs = bs"
| "strip_start (Suc n) bs =
     (case find (\<lambda>w. starts_with w bs) white_spaces of
        None \<Rightarrow> bs | Some w \<Rightarrow> strip_start n (drop (length w) bs))"

definition trim_start :: "bytes \<Rightarrow> bytes" where
  "trim_start bs = strip_start (length bs) bs"

definition ends_with :: "bytes \<Rightarrow> bytes \<Rightarrow> bool" where
  "ends_with suffix bs \<longleftrightarrow> length suffix \<le> length bs \<and> drop (length bs - length suffix) bs = suffix"

primrec strip_end :: "nat \<Rightarrow> bytes \<Rightarrow> bytes" where
  "strip_end 0 bs = bs"
| "strip_end (Suc n) bs =
     (case find (\<lambda>w. ends_with w bs) white_spaces of
        None \<Rightarrow> bs | Some w \<Rightarrow> strip_end n (take (length bs - length w) bs))"

definition trim_end :: "bytes \<Rightarrow> bytes" where
  "trim_end bs = strip_end (length bs) bs"

definition trim :: "bytes \<Rightarrow> bytes" where
  "trim bs = trim_end (trim_start bs)"

section \<open>Decimal numbers\<close>

definition is_ascii_digit :: "u8 \<Rightarrow> bool" where
  "is_ascii_digit b \<longleftrightarrow> 48 \<le> b \<and> b \<le> 57"

definition digits_value :: "bytes \<Rightarrow> nat" where
  "digits_value bs = foldl (\<lambda>n b. n * 10 + unat (b - 48)) 0 bs"

text \<open>str::parse of a 64-bit unsigned integer: an optional plus sign and digits, in range.\<close>

definition parse_u64 :: "bytes \<Rightarrow> nat option" where
  "parse_u64 bs =
     (let ds = (if bs \<noteq> [] \<and> hd bs = 43 then tl bs else bs) in
      if ds = [] \<or> \<not> list_all is_ascii_digit ds \<or> digits_value ds \<ge> 2 ^ 64 then None
      else Some (digits_value ds))"

fun to_decimal :: "nat \<Rightarrow> bytes" where
  "to_decimal n = (if n < 10 then [48 + word_of_nat n] else to_decimal (n div 10) @ [48 + word_of_nat (n mod 10)])"

declare to_decimal.simps [simp del]

lemma digit_facts:
  assumes "n < 10"
  shows "is_ascii_digit (48 + word_of_nat n)" "unat ((48 + word_of_nat n :: u8) - 48) = n"
proof -
  have u: "unat (word_of_nat n :: u8) = n" using assms by (simp add: unat_word_of_nat)
  show "unat ((48 + word_of_nat n :: u8) - 48) = n" using u by simp
  have "unat (48 + word_of_nat n :: u8) = 48 + n" using u assms by (simp add: unat_word_ariths)
  then show "is_ascii_digit (48 + word_of_nat n)" using assms
    by (simp add: is_ascii_digit_def word_le_nat_alt)
qed

lemma to_decimal_digits: "to_decimal n \<noteq> [] \<and> list_all is_ascii_digit (to_decimal n) \<and> digits_value (to_decimal n) = n"
proof (induction n rule: to_decimal.induct)
  case (1 n)
  then show ?case
    using digit_facts [of n] digit_facts [of "n mod 10"]
    by (cases "n < 10") (simp_all add: to_decimal.simps [of n] digits_value_def del: add_diff_cancel_left')
qed

text \<open>What format prints, parse reads back.\<close>

lemma parse_to_decimal: "n < 2 ^ 64 \<Longrightarrow> parse_u64 (to_decimal n) = Some n"
proof -
  assume n: "n < 2 ^ 64"
  have "hd (to_decimal n) \<noteq> 43"
    using to_decimal_digits [of n] by (cases "to_decimal n") (auto simp: is_ascii_digit_def)
  then show ?thesis using to_decimal_digits [of n] n by (auto simp: parse_u64_def)
qed

section \<open>Hexadecimal digits\<close>

definition hex_val :: "u8 \<Rightarrow> u8 option" where
  "hex_val b =
     (if 48 \<le> b \<and> b \<le> 57 then Some (b - 48)
      else if 97 \<le> b \<and> b \<le> 102 then Some (b - 97 + 10)
      else if 65 \<le> b \<and> b \<le> 70 then Some (b - 65 + 10)
      else None)"

text \<open>The bytes that pairs of digits denote.\<close>

fun decode_hex :: "bytes \<Rightarrow> bytes option" where
  "decode_hex (hi # lo # rest) =
     (case (hex_val hi, hex_val lo, decode_hex rest) of
        (Some h, Some l, Some bs) \<Rightarrow> Some ((push_bit 4 h OR l) # bs)
      | _ \<Rightarrow> None)"
| "decode_hex [] = Some []"
| "decode_hex [d] = None"

end
