(* ===== verification/Listener.thy ===== *)
theory Listener
  imports RustText
begin

text \<open>
  The registry of listening endpoints (src/src/transport/listener.rs) and the conformance
  trace ring (src/src/transport/grant_trace.rs). The registry's array with its count is the
  list of its used part, so that the swap with the last entry is swap_remove; the ring's
  array is the list of its used part and its u32 sequence panics at the end of its range.
  What the operating system answers to a bind, a receive and a question for the address is an argument.
\<close>

unbundle bit_operations_syntax

section \<open>The registry\<close>

definition LISTEN_MAX_ENDPOINTS :: nat where "LISTEN_MAX_ENDPOINTS = 8"

datatype listen_error = EndpointBusy | FamilyMismatch | BindRefused | SocketFailed | RecvFailed


record listen_endpoint =
  le_addr :: bytes
  le_port :: u16

type_synonym registry = "listen_endpoint list"

definition same_endpoint :: "bytes \<Rightarrow> u16 \<Rightarrow> listen_endpoint \<Rightarrow> bool" where
  "same_endpoint addr port e \<longleftrightarrow> le_port e = port \<and> le_addr e = addr"

definition owns :: "bytes \<Rightarrow> u16 \<Rightarrow> registry \<Rightarrow> bool" where
  "owns addr port r \<longleftrightarrow> list_ex (same_endpoint addr port) r"

definition registry_claim :: "bytes \<Rightarrow> u16 \<Rightarrow> registry \<Rightarrow> (unit, listen_error) outcome \<times> registry" where
  "registry_claim addr port r =
     (if owns addr port r then (Err EndpointBusy, r)
      else if length r \<ge> LISTEN_MAX_ENDPOINTS then (Err EndpointBusy, r)
      else if length addr > 16 then (Panic, r)
      else (Ok (), r @ [\<lparr>le_addr = addr, le_port = port\<rparr>]))"

definition registry_release :: "bytes \<Rightarrow> u16 \<Rightarrow> registry \<Rightarrow> registry" where
  "registry_release addr port r =
     (case position (same_endpoint addr port) r of None \<Rightarrow> r | Some i \<Rightarrow> swap_remove i r)"

section \<open>The listener\<close>

datatype family = Ipv4 | Ipv6

text \<open>A bound socket is known by the text it was bound to.\<close>

record listener =
  ln_socket :: bytes
  ln_family :: family

definition bind_addr :: "bytes \<Rightarrow> u16 \<Rightarrow> family \<Rightarrow> bytes" where
  "bind_addr addr port fam =
     (case fam of
        Ipv4 \<Rightarrow> addr @ ascii '':'' @ to_decimal (unat port)
      | Ipv6 \<Rightarrow> ascii ''['' @ addr @ ascii '']:'' @ to_decimal (unat port))"

definition open_bind :: "(bytes \<Rightarrow> bool) \<Rightarrow> bytes \<Rightarrow> u16 \<Rightarrow> family \<Rightarrow> (listener, listen_error) outcome" where
  "open_bind binds addr port fam =
     (if binds (bind_addr addr port fam)
      then Ok \<lparr>ln_socket = bind_addr addr port fam, ln_family = fam\<rparr> else Err BindRefused)"

text \<open>A datagram longer than the buffer is cut.\<close>

definition listener_recv :: "bytes option \<Rightarrow> bytes \<Rightarrow> (nat, listen_error) outcome \<times> bytes" where
  "listener_recv ans buf =
     (case ans of
        None \<Rightarrow> (Err RecvFailed, buf)
      | Some pkt \<Rightarrow> let n = min (length pkt) (length buf) in (Ok n, take n pkt @ drop n buf))"

definition listener_recv_from :: "(bytes \<times> bytes) option \<Rightarrow> bytes \<Rightarrow> (nat \<times> bytes, listen_error) outcome \<times> bytes" where
  "listener_recv_from ans buf =
     (case listener_recv (map_option fst ans) buf of
        (Ok n, buf') \<Rightarrow> (Ok (n, case ans of Some (_, src) \<Rightarrow> src | None \<Rightarrow> []), buf')
      | (Err e, buf') \<Rightarrow> (Err e, buf')
      | (Panic, buf') \<Rightarrow> (Panic, buf'))"

definition listener_local_addr :: "'a option \<Rightarrow> ('a, listen_error) outcome" where
  "listener_local_addr ans = ok_or SocketFailed ans"

section \<open>The trace ring\<close>

datatype tag =
    ReceiveIntent | RejectResourceConflict | BeginVerify | VerifyCheck | CommitConsumed11 | EffectStart
  | EffectReturn | MarkPublished | RecordExecutingWitness | RecoverMarkPublished | EffectRefused
  | PublishOutcome | MarkPublishedFailed | PruneTempWritten | PruneTempSynced | PruneRenamed
  | PruneReopened | ExpirePending | TraceOverflow

definition NO_PC :: u8 where "NO_PC = 0xFF"
definition TRACE_CAP :: nat where "TRACE_CAP = 256"

record trace_event =
  te_tag :: tag
  te_pc :: u8
  te_id :: u64
  te_id2 :: u64
  te_now_ms :: u64
  te_seq :: nat

definition fingerprint :: "bytes \<Rightarrow> u64" where
  "fingerprint bs = fold (\<lambda>b h. (h XOR ucast b) * 0x100000001b3) bs 0xcbf29ce484222325"

record trace_ring =
  tr_events :: "trace_event list"
  tr_seq_next :: nat
  tr_overflow_count :: nat

definition trace_new :: trace_ring where
  "trace_new = \<lparr>tr_events = [], tr_seq_next = 0, tr_overflow_count = 0\<rparr>"

definition emit2 :: "tag \<Rightarrow> u8 \<Rightarrow> bytes \<Rightarrow> bytes \<Rightarrow> u64 \<Rightarrow> trace_ring \<Rightarrow> (unit, 'e) outcome \<times> trace_ring" where
  "emit2 tag pc id_bytes id2_bytes now_ms t =
     (if length (tr_events t) = TRACE_CAP then
        if tr_overflow_count t = 0 then
          if tr_seq_next t + 1 \<ge> 2 ^ 32 then (Panic, t)
          else (Ok (), t\<lparr>tr_events := (tr_events t)[TRACE_CAP - 1 :=
                   \<lparr>te_tag = TraceOverflow, te_pc = NO_PC, te_id = 0, te_id2 = 0, te_now_ms = now_ms,
                    te_seq = tr_seq_next t\<rparr>],
                 tr_seq_next := tr_seq_next t + 1, tr_overflow_count := tr_overflow_count t + 1\<rparr>)
        else (Ok (), t\<lparr>tr_overflow_count := tr_overflow_count t + 1\<rparr>)
      else if tr_seq_next t + 1 \<ge> 2 ^ 32 then (Panic, t)
      else (Ok (), t\<lparr>tr_events := tr_events t @
               [\<lparr>te_tag = tag, te_pc = pc, te_id = fingerprint id_bytes,
                 te_id2 = (if id2_bytes = [] then 0 else fingerprint id2_bytes),
                 te_now_ms = now_ms, te_seq = tr_seq_next t\<rparr>],
             tr_seq_next := tr_seq_next t + 1\<rparr>))"

definition emit :: "tag \<Rightarrow> u8 \<Rightarrow> bytes \<Rightarrow> u64 \<Rightarrow> trace_ring \<Rightarrow> (unit, 'e) outcome \<times> trace_ring" where
  "emit tag pc id_bytes now_ms t = emit2 tag pc id_bytes [] now_ms t"

definition trace_reset :: "trace_ring \<Rightarrow> trace_ring" where
  "trace_reset t = t\<lparr>tr_events := [], tr_seq_next := 0, tr_overflow_count := 0\<rparr>"

section \<open>The registry is a bounded set\<close>

definition endpoints :: "registry \<Rightarrow> (bytes \<times> u16) set" where
  "endpoints r = (\<lambda>e. (le_addr e, le_port e)) ` set r"

definition registry_inv :: "registry \<Rightarrow> bool" where
  "registry_inv r \<longleftrightarrow> distinct r \<and> length r \<le> 8"

lemma owns_endpoints: "owns addr port r \<longleftrightarrow> (addr, port) \<in> endpoints r"
  by (auto simp: owns_def endpoints_def same_endpoint_def list_ex_iff)

lemma same_endpoint_iff: "same_endpoint addr port e \<longleftrightarrow> e = \<lparr>le_addr = addr, le_port = port\<rparr>"
  by (cases e) (auto simp: same_endpoint_def)

lemma endpoints_card: "registry_inv r \<Longrightarrow> card (endpoints r) = length r"
  unfolding endpoints_def registry_inv_def
  by (subst card_image) (auto simp: inj_on_def distinct_card)

lemma registry_claim_set:
  assumes "registry_inv r"
  shows "registry_inv (snd (registry_claim addr port r))
    \<and> (fst (registry_claim addr port r), endpoints (snd (registry_claim addr port r)))
      = (if (addr, port) \<in> endpoints r \<or> card (endpoints r) \<ge> 8 then (Err EndpointBusy, endpoints r)
         else if length addr > 16 then (Panic, endpoints r)
         else (Ok (), insert (addr, port) (endpoints r)))"
proof -
  have "\<lparr>le_addr = addr, le_port = port\<rparr> \<notin> set r" if "(addr, port) \<notin> endpoints r"
    using that by (force simp: endpoints_def)
  then show ?thesis
    using assms endpoints_card [OF assms]
    by (auto simp: registry_claim_def owns_endpoints LISTEN_MAX_ENDPOINTS_def registry_inv_def)
      (auto simp: endpoints_def)
qed

lemma registry_release_set:
  assumes "registry_inv r"
  shows "registry_inv (registry_release addr port r) \<and> endpoints (registry_release addr port r) = endpoints r - {(addr, port)}"
proof (cases "position (same_endpoint addr port) r")
  case None
  then have "(addr, port) \<notin> endpoints r" by (auto simp: position_None endpoints_def same_endpoint_def)
  with None assms show ?thesis by (simp add: registry_release_def)
next
  case (Some i)
  note i = position_SomeD [OF Some]
  then have e: "r ! i = \<lparr>le_addr = addr, le_port = port\<rparr>" by (simp add: same_endpoint_iff)
  have d: "distinct r" using assms by (simp add: registry_inv_def)
  have "mset (swap_remove i r) = mset (remove1 (r ! i) r)" using i by (simp add: mset_swap_remove)
  then have st: "set (swap_remove i r) = set r - {r ! i}" using d by (metis set_mset_mset set_remove1_eq)
  have "distinct (swap_remove i r)" using distinct_map_swap_remove [of i r id] i d by simp
  then have "registry_inv (swap_remove i r)" using assms i by (auto simp: registry_inv_def)
  moreover have "endpoints (swap_remove i r) = endpoints r - {(addr, port)}"
    unfolding endpoints_def st e by force
  ultimately show ?thesis using Some by (simp add: registry_release_def)
qed

datatype registry_op = Claim bytes u16 | Release bytes u16

fun registry_step :: "registry_op \<Rightarrow> registry \<Rightarrow> registry" where
  "registry_step (Claim a p) r = snd (registry_claim a p r)"
| "registry_step (Release a p) r = registry_release a p r"

interpretation registries: guarded_machine "[]" registry_step registry_inv
proof unfold_locales
  show "registry_inv []" by (simp add: registry_inv_def)
  fix r op
  assume "registry_inv r"
  then show "registry_inv (registry_step op r)"
    by (cases op) (simp_all add: registry_claim_set registry_release_set)
qed

section \<open>The ring keeps the first events\<close>

record emission =
  em_tag :: tag
  em_pc :: u8
  em_id :: bytes
  em_id2 :: bytes
  em_now :: u64

definition event_of :: "nat \<Rightarrow> emission \<Rightarrow> trace_event" where
  "event_of i e = \<lparr>te_tag = em_tag e, te_pc = em_pc e, te_id = fingerprint (em_id e),
     te_id2 = (if em_id2 e = [] then 0 else fingerprint (em_id2 e)), te_now_ms = em_now e, te_seq = i\<rparr>"

definition emit_step :: "emission \<Rightarrow> trace_ring \<Rightarrow> trace_ring" where
  "emit_step e t = snd (emit2 (em_tag e) (em_pc e) (em_id e) (em_id2 e) (em_now e) t :: (unit, unit) outcome \<times> trace_ring)"

definition marker :: "u64 \<Rightarrow> trace_event" where
  "marker now = \<lparr>te_tag = TraceOverflow, te_pc = NO_PC, te_id = 0, te_id2 = 0, te_now_ms = now, te_seq = 256\<rparr>"

lemma emit_step_room:
  "length evs < 256 \<Longrightarrow> emit_step e \<lparr>tr_events = evs, tr_seq_next = length evs, tr_overflow_count = n\<rparr>
     = \<lparr>tr_events = evs @ [event_of (length evs) e], tr_seq_next = Suc (length evs), tr_overflow_count = n\<rparr>"
  by (simp add: emit_step_def emit2_def TRACE_CAP_def event_of_def)

lemma emit_step_mark:
  "length evs = 256 \<Longrightarrow> emit_step e \<lparr>tr_events = evs, tr_seq_next = 256, tr_overflow_count = 0\<rparr>
     = \<lparr>tr_events = evs[255 := marker (em_now e)], tr_seq_next = 257, tr_overflow_count = 1\<rparr>"
  by (simp add: emit_step_def emit2_def TRACE_CAP_def marker_def)

lemma emit_step_count:
  "length evs = 256 \<Longrightarrow> emit_step e \<lparr>tr_events = evs, tr_seq_next = s, tr_overflow_count = Suc n\<rparr>
     = \<lparr>tr_events = evs, tr_seq_next = s, tr_overflow_count = Suc (Suc n)\<rparr>"
  by (simp add: emit_step_def emit2_def TRACE_CAP_def)

definition numbered :: "emission list \<Rightarrow> trace_event list" where
  "numbered es = map (\<lambda>i. event_of i (es ! i)) [0..<length es]"

lemma length_numbered [simp]: "length (numbered es) = length es"
  by (simp add: numbered_def)

lemma numbered_snoc: "numbered (es @ [e]) = numbered es @ [event_of (length es) e]"
  by (simp add: numbered_def nth_append)

lemma trace_prefix:
  "length es \<le> 256 \<Longrightarrow> fold emit_step es trace_new =
     \<lparr>tr_events = numbered es, tr_seq_next = length es, tr_overflow_count = 0\<rparr>"
proof (induction es rule: rev_induct)
  case Nil
  then show ?case by (simp add: trace_new_def numbered_def)
next
  case (snoc e es)
  then show ?case using emit_step_room [of "numbered es" e 0] by (simp add: numbered_snoc)
qed

lemma trace_over:
  assumes "length es = 256"
  shows "fold emit_step (es @ e # rest) trace_new =
     \<lparr>tr_events = (numbered es)[255 := marker (em_now e)],
      tr_seq_next = 257, tr_overflow_count = Suc (length rest)\<rparr>"
proof (induction rest rule: rev_induct)
  case Nil
  then show ?case
    using trace_prefix [of es] emit_step_mark [of "numbered es" e] assms by simp
next
  case (snoc x rest)
  have "fold emit_step (es @ e # rest @ [x]) trace_new = emit_step x (fold emit_step (es @ e # rest) trace_new)" by simp
  then show ?case
    using emit_step_count [of "(numbered es)[255 := marker (em_now e)]" x 257 "length rest"] assms
    by (simp only: snoc) simp
qed

section \<open>Properties\<close>

text \<open>
  On every run the registry is a set of at most eight endpoints: a claim of an endpoint
  already owned or of a ninth one is refused, any other adds exactly that endpoint (or panics
  on an address of more than 16 bytes), and a release removes exactly its endpoint.
\<close>

theorem registry_refines_set:
  "(fst (registry_claim addr port (fold registry_step ops [])),
    endpoints (snd (registry_claim addr port (fold registry_step ops []))))
     = (let S = endpoints (fold registry_step ops []) in
        if (addr, port) \<in> S \<or> card S \<ge> 8 then (Err EndpointBusy, S)
        else if length addr > 16 then (Panic, S) else (Ok (), insert (addr, port) S))
   \<and> endpoints (registry_release addr port (fold registry_step ops []))
     = endpoints (fold registry_step ops []) - {(addr, port)}"
  using registry_claim_set [OF registries.inv_run [of ops]] registry_release_set [OF registries.inv_run [of ops]]
  by (simp add: Let_def)

text \<open>
  The ring never panics from a fresh start and keeps the first 256 events with their
  sequence numbers; the event after them overwrites the last one by a single overflow
  marker, and later ones are only counted.
\<close>

theorem trace_keeps_first:
  "fold emit_step es trace_new =
     (if length es \<le> 256
      then \<lparr>tr_events = numbered es, tr_seq_next = length es, tr_overflow_count = 0\<rparr>
      else \<lparr>tr_events = (numbered (take 256 es))[255 := marker (em_now (es ! 256))],
            tr_seq_next = 257, tr_overflow_count = length es - 256\<rparr>)"
proof (cases "length es \<le> 256")
  case False
  then have "es = take 256 es @ es ! 256 # drop 257 es"
    using id_take_nth_drop [of 256 es] by simp
  moreover have "length (take 256 es) = 256" using False by simp
  ultimately show ?thesis
    using trace_over [of "take 256 es" "es ! 256" "drop 257 es"] False by simp
qed (simp add: trace_prefix)

end
