(* ===== verification/HttpParse.thy ===== *)
theory HttpParse
  imports RustText
begin

text \<open>
  The strict parser of HTTP requests on the control plane (src/src/http_parse.rs): the
  search for the end of the head, the request line, the loop over the header fields with its
  guards against request smuggling, and the offsets of the accepted request. The properties
  compare it with the request read line by line.
\<close>

definition HEADER_CAP :: nat where "HEADER_CAP = 8192"
definition BODY_CAP :: nat where "BODY_CAP = 64 * 1024"

datatype bad =
    MalformedLine | BadHttpVersion | BadMethod | TransferEncoding | LengthRequired | ConflictingLength
  | ObsFold | SpaceBeforeColon | DoubleSP | ControlInTarget

datatype http_error = Incomplete | HeadersTooLarge | BodyTooLarge | BadHttp bad

datatype http_method = Get | Post

record http_request =
  rq_method :: http_method
  rq_target_start :: nat
  rq_target_end :: nat
  rq_query_start :: "nat option"
  rq_content_length :: nat
  rq_body_start :: nat

definition CRLF :: bytes where "CRLF = [13, 10]"
definition SP :: u8 where "SP = 32"
definition COLON :: u8 where "COLON = 58"

section \<open>Header fields\<close>

definition length_value :: "bytes \<Rightarrow> nat option" where
  "length_value value = (if from_utf8 value then parse_u64 (trim value) else None)"

definition http_field :: "bytes \<Rightarrow> nat option \<Rightarrow> (nat option, http_error) outcome" where
  "http_field field content_length =
     (if field ! 0 = SP \<or> field ! 0 = 9 then Err (BadHttp ObsFold)
      else and_then (ok_or (BadHttp MalformedLine) (position (\<lambda>b. b = COLON) field)) (\<lambda>colon.
        if colon > 0 \<and> field ! (colon - 1) = SP then Err (BadHttp SpaceBeforeColon)
        else
          let name = take colon field; value = drop (colon + 1) field in
          if name = ascii ''Content-Length'' then
            and_then (ok_or (BadHttp LengthRequired) (length_value value)) (\<lambda>v.
              case content_length of
                Some prev \<Rightarrow> if prev \<noteq> v then Err (BadHttp ConflictingLength) else Ok (Some v)
              | None \<Rightarrow> Ok (Some v))
          else if name = ascii ''Transfer-Encoding'' then Err (BadHttp TransferEncoding)
          else Ok content_length))"

definition field_end :: "bytes \<Rightarrow> nat \<Rightarrow> nat" where
  "field_end raw h = (case find_sub CRLF (drop h raw) of Some i \<Rightarrow> h + i | None \<Rightarrow> length raw)"

function http_headers :: "bytes \<Rightarrow> nat \<Rightarrow> nat option \<Rightarrow> (nat option, http_error) outcome" where
  "http_headers raw h content_length =
     (if h < length raw then
        let e = field_end raw h; field = take (e - h) (drop h raw) in
        if field = [] then Ok content_length
        else and_then (http_field field content_length) (http_headers raw (e + 2))
      else Ok content_length)"
  by auto
termination
  by (relation "measure (\<lambda>(raw, h, _). length raw - h)")
    (auto simp: field_end_def split: option.splits)

declare http_headers.simps [simp del]

section \<open>The request\<close>

definition http_line :: "bytes \<Rightarrow> (http_method \<times> nat \<times> bytes, http_error) outcome" where
  "http_line line =
     and_then (ok_or (BadHttp MalformedLine) (position (\<lambda>b. b = SP) line)) (\<lambda>sp1.
     if length (filter (\<lambda>b. b = SP) line) \<noteq> 2 then Err (BadHttp DoubleSP)
     else
       let rest = drop (sp1 + 1) line in
       and_then (ok_or (BadHttp MalformedLine) (position (\<lambda>b. b = SP) rest)) (\<lambda>sp2.
       let target = take sp2 (drop (sp1 + 1) line); version = drop (sp2 + 1) rest in
       if version \<noteq> ascii ''HTTP/1.1'' then Err (BadHttp BadHttpVersion)
       else and_then
         (if take sp1 line = ascii ''GET'' then Ok Get
          else if take sp1 line = ascii ''POST'' then Ok Post
          else Err (BadHttp BadMethod)) (\<lambda>method.
       if list_ex (\<lambda>b. b < 0x21) target then Err (BadHttp ControlInTarget)
       else Ok (method, sp1, target))))"

definition http_parse :: "bytes \<Rightarrow> (http_request, http_error) outcome" where
  "http_parse buf =
     (case find_sub (CRLF @ CRLF) buf of
        None \<Rightarrow> if length buf > HEADER_CAP then Err HeadersTooLarge else Err Incomplete
      | Some head_end \<Rightarrow>
          let head = take head_end buf;
              line_end = (case find_sub CRLF head of Some i \<Rightarrow> i | None \<Rightarrow> length head) in
          and_then (http_line (take line_end head)) (\<lambda>(method, sp1, target).
          let headers_raw = (if line_end + 2 \<le> length head then drop (line_end + 2) head else drop (length head) head) in
          and_then (http_headers headers_raw 0 None) (\<lambda>declared.
          let content_length = (case declared of Some v \<Rightarrow> v | None \<Rightarrow> 0) in
          if method = Post \<and> content_length = 0 then Err (BadHttp LengthRequired)
          else if content_length > BODY_CAP then Err BodyTooLarge
          else
            let target_abs = sp1 + 1;
                q_rel = position (\<lambda>b. b = 63) target;
                tgt_end_rel = (case q_rel of Some q \<Rightarrow> q | None \<Rightarrow> length target) in
            Ok \<lparr>rq_method = method, rq_target_start = target_abs, rq_target_end = target_abs + tgt_end_rel,
                rq_query_start = map_option (\<lambda>q. target_abs + q + 1) q_rel,
                rq_content_length = content_length, rq_body_start = head_end + 4\<rparr>)))"

section \<open>The request read line by line\<close>

function split_crlf :: "bytes \<Rightarrow> bytes list" where
  "split_crlf bs =
     (case find_sub CRLF bs of None \<Rightarrow> [bs] | Some i \<Rightarrow> take i bs # split_crlf (drop (i + 2) bs))"
  by auto
termination
  by (relation "measure length") (auto simp: CRLF_def dest!: find_sub_SomeD)

declare split_crlf.simps [simp del]

definition header_fields :: "bytes \<Rightarrow> bytes list" where
  "header_fields head = takeWhile (\<lambda>f. f \<noteq> []) (tl (split_crlf head))"

definition field_name :: "bytes \<Rightarrow> bytes" where
  "field_name f = takeWhile (\<lambda>b. b \<noteq> COLON) f"

definition field_value :: "bytes \<Rightarrow> bytes" where
  "field_value f = drop (length (field_name f) + 1) f"

definition declares_length :: "bytes \<Rightarrow> bool" where
  "declares_length f \<longleftrightarrow> field_name f = ascii ''Content-Length''"

definition field_ok :: "bytes \<Rightarrow> bool" where
  "field_ok f \<longleftrightarrow> f ! 0 \<noteq> SP \<and> f ! 0 \<noteq> 9 \<and> COLON \<in> set f
     \<and> (field_name f = [] \<or> last (field_name f) \<noteq> SP)
     \<and> field_name f \<noteq> ascii ''Transfer-Encoding''
     \<and> (declares_length f \<longrightarrow> length_value (field_value f) \<noteq> None)"

definition declared_lengths :: "bytes list \<Rightarrow> nat list" where
  "declared_lengths fs = map (\<lambda>f. the (length_value (field_value f))) (filter declares_length fs)"

fun method_name :: "http_method \<Rightarrow> bytes" where
  "method_name Get = ascii ''GET''"
| "method_name Post = ascii ''POST''"

lemma position_takeWhile:
  "position P xs = (if \<exists>x\<in>set xs. P x then Some (length (takeWhile (\<lambda>x. \<not> P x) xs)) else None)"
  by (induction xs) auto

lemma http_field_Ok:
  "http_field f cl = Ok cl' \<longleftrightarrow> field_ok f \<and>
     (if declares_length f
      then (case cl of None \<Rightarrow> True | Some n \<Rightarrow> length_value (field_value f) = Some n) \<and> cl' = length_value (field_value f)
      else cl' = cl)"
proof (cases "COLON \<in> set f")
  case False
  then show ?thesis by (simp add: http_field_def field_ok_def position_takeWhile)
next
  case True
  have pos: "position (\<lambda>b. b = COLON) f = Some (length (field_name f))"
    using True by (auto simp: position_takeWhile field_name_def)
  have tk: "take (length (field_name f)) f = field_name f"
    unfolding field_name_def by (metis takeWhile_eq_take)
  have lst: "field_name f \<noteq> [] \<Longrightarrow> f ! (length (field_name f) - 1) = last (field_name f)"
    by (metis diff_less last_conv_nth length_greater_0_conv nth_take tk zero_less_one)
  show ?thesis
    using True lst
    by (auto simp: http_field_def field_ok_def pos tk field_value_def declares_length_def Let_def ascii_def
        split: option.splits if_splits)
qed

primrec fields_length :: "bytes list \<Rightarrow> nat option \<Rightarrow> (nat option, http_error) outcome" where
  "fields_length [] cl = Ok cl"
| "fields_length (f # fs) cl = and_then (http_field f cl) (fields_length fs)"

lemma http_headers_fields:
  "http_headers raw h cl = fields_length (takeWhile (\<lambda>f. f \<noteq> []) (split_crlf (drop h raw))) cl"
proof (induction raw h cl rule: http_headers.induct)
  case (1 raw h cl)
  show ?case
  proof (cases "h < length raw")
    case False
    then show ?thesis by (simp add: http_headers.simps [of raw h] split_crlf.simps [of "[]"] CRLF_def)
  next
    case True
    show ?thesis
    proof (cases "find_sub CRLF (drop h raw)")
      case None
      then have e: "field_end raw h = length raw" by (simp add: field_end_def)
      have nil: "http_headers raw (Suc (Suc (length raw))) = fields_length []"
        by (rule ext) (simp add: http_headers.simps)
      show ?thesis
        using True None by (simp add: http_headers.simps [of raw h] e split_crlf.simps [of "drop h raw"] nil)
    next
      case (Some i)
      then have e: "field_end raw h = h + i" by (simp add: field_end_def)
      have split: "split_crlf (drop h raw) = take i (drop h raw) # split_crlf (drop (h + i + 2) raw)"
        using Some by (subst split_crlf.simps) (simp add: add.commute add.left_commute)
      show ?thesis
      proof (cases "take i (drop h raw) = []")
        case True
        with \<open>h < length raw\<close> show ?thesis by (simp add: http_headers.simps [of raw h] e split)
      next
        case False
        then have "http_headers raw (h + i + 2)
            = fields_length (takeWhile (\<lambda>f. f \<noteq> []) (split_crlf (drop (h + i + 2) raw)))"
          using 1 [OF True refl refl] e by (intro ext) simp
        with False \<open>h < length raw\<close> show ?thesis by (simp add: http_headers.simps [of raw h] e split)
      qed
    qed
  qed
qed

lemma fields_length_Ok:
  "fields_length fs cl = Ok cl' \<longleftrightarrow> list_all field_ok fs
     \<and> (let ns = (case cl of None \<Rightarrow> [] | Some n \<Rightarrow> [n]) @ declared_lengths fs
        in list_all (\<lambda>n. n = hd ns) ns \<and> cl' = (if ns = [] then None else Some (hd ns)))"
proof (induction fs arbitrary: cl)
  case Nil
  then show ?case by (auto simp: declared_lengths_def split: option.splits)
next
  case (Cons f fs)
  show ?case
    by (cases cl; cases "length_value (field_value f)")
      (auto simp: http_field_Ok Cons.IH declared_lengths_def Let_def field_ok_def split: if_splits)
qed

section \<open>The request line\<close>

lemma http_line_Ok:
  "http_line line = Ok (m, n, t) \<longleftrightarrow>
     line = method_name m @ SP # t @ SP # ascii ''HTTP/1.1'' \<and> n = length (method_name m)
     \<and> list_all (\<lambda>b. 0x21 \<le> b) t" (is "?L \<longleftrightarrow> ?R")
proof
  have names: "SP \<notin> set (method_name m)" for m by (cases m) (simp_all add: SP_def ascii_def)
  have ver: "SP \<notin> set (ascii ''HTTP/1.1'')" by (simp add: SP_def ascii_def)
  {
    assume ?R
    then have line: "line = method_name m @ SP # t @ SP # ascii ''HTTP/1.1''" and n: "n = length (method_name m)"
      and t: "list_all (\<lambda>b. 0x21 \<le> b) t" by simp_all
    have nt: "SP \<notin> set t" using t by (auto simp: list_all_iff SP_def)
    have free: "filter (\<lambda>b. b = SP) xs = []" if "SP \<notin> set xs" for xs using that by (auto simp: filter_empty_conv)
    have pos: "position (\<lambda>b. b = SP) (xs @ SP # ys) = Some (length xs)" if "SP \<notin> set xs" for xs ys
      using that by (induction xs) auto
    have ctl: "\<not> list_ex (\<lambda>b. b < 0x21) t" using t by (auto simp: list_all_iff list_ex_iff not_less)
    show ?L
      by (simp add: http_line_def line n pos names nt free ver ctl Let_def del: if_split)
        (cases m; simp add: ascii_def)
  next
    assume L: ?L
    then obtain sp1 sp2 where sp1: "position (\<lambda>b. b = SP) line = Some sp1"
      and sp2: "position (\<lambda>b. b = SP) (drop (sp1 + 1) line) = Some sp2"
      and v: "drop (sp2 + 1) (drop (sp1 + 1) line) = ascii ''HTTP/1.1''"
      and m: "take sp1 line = method_name m" and n: "n = sp1"
      and t: "t = take sp2 (drop (sp1 + 1) line)" "list_all (\<lambda>b. 0x21 \<le> b) t"
      by (auto simp: http_line_def Let_def list_all_iff list_ex_iff not_less split: if_splits)
    note p1 = position_SomeD [OF sp1] and p2 = position_SomeD [OF sp2]
    have "line = take sp1 line @ SP # drop (sp1 + 1) line"
      using id_take_nth_drop [of sp1 line] p1 by simp
    moreover have "drop (sp1 + 1) line = t @ SP # ascii ''HTTP/1.1''"
      using id_take_nth_drop [of sp2 "drop (sp1 + 1) line"] p2 v unfolding t(1) by (metis Suc_eq_plus1)
    moreover have "n = length (method_name m)" using m n p1 by (metis length_take less_imp_le min.absorb2)
    ultimately show ?R using m t(2) by simp
  }
qed

definition first_line :: "bytes \<Rightarrow> bytes" where
  "first_line head = hd (split_crlf head)"

definition request_ok :: "bytes \<Rightarrow> nat \<Rightarrow> http_method \<Rightarrow> bytes \<Rightarrow> bool" where
  "request_ok head n m target \<longleftrightarrow>
     first_line head = method_name m @ SP # target @ SP # ascii ''HTTP/1.1''
     \<and> list_all (\<lambda>b. 0x21 \<le> b) target
     \<and> list_all field_ok (header_fields head)
     \<and> list_all (\<lambda>k. k = n) (declared_lengths (header_fields head))
     \<and> (declared_lengths (header_fields head) = [] \<longrightarrow> n = 0)
     \<and> n \<le> 65536 \<and> (m = Post \<longrightarrow> 0 < n)"

definition request_of :: "nat \<Rightarrow> nat \<Rightarrow> http_method \<Rightarrow> bytes \<Rightarrow> http_request" where
  "request_of head_end n m target =
     (let start = length (method_name m) + 1; path = takeWhile (\<lambda>b. b \<noteq> 63) target in
      \<lparr>rq_method = m, rq_target_start = start, rq_target_end = start + length path,
       rq_query_start = (if 63 \<in> set target then Some (start + length path + 1) else None),
       rq_content_length = n, rq_body_start = head_end + 4\<rparr>)"

lemma http_parse_iff:
  "http_parse buf = Ok r \<longleftrightarrow>
     (\<exists>i n m target. find_sub (CRLF @ CRLF) buf = Some i \<and> request_ok (take i buf) n m target
        \<and> r = request_of i n m target)"
proof (cases "find_sub (CRLF @ CRLF) buf")
  case None
  then show ?thesis by (simp add: http_parse_def)
next
  case (Some i)
  define head where "head = take i buf"
  define le where "le = (case find_sub CRLF head of Some i \<Rightarrow> i | None \<Rightarrow> length head)"
  have fst: "take le head = first_line head"
    by (subst first_line_def, subst split_crlf.simps) (simp add: le_def split: option.split)
  define raw where "raw = (if le + 2 \<le> length head then drop (le + 2) head else drop (length head) head)"
  have hs: "http_headers raw 0 None = fields_length (header_fields head) None"
  proof (cases "find_sub CRLF head")
    case None
    then show ?thesis
      by (simp add: raw_def le_def header_fields_def split_crlf.simps [of head] http_headers.simps)
  next
    case (Some j)
    then have "j + 2 \<le> length head" using find_sub_SomeD [OF Some] by (simp add: CRLF_def)
    with Some show ?thesis
      by (simp add: raw_def le_def header_fields_def split_crlf.simps [of head] http_headers_fields)
  qed
  have q: "position (\<lambda>b. b = 63) t = (if 63 \<in> set t then Some (length (takeWhile (\<lambda>b. b \<noteq> 63) t)) else None)" for t :: bytes
    by (auto simp: position_takeWhile)
  have qn: "63 \<notin> set t \<Longrightarrow> takeWhile (\<lambda>b. b \<noteq> 63) t = t" for t :: bytes by (simp add: takeWhile_eq_all_conv) metis
  define finish where "finish m sp1 t cl =
     (let content_length = (case cl of Some v \<Rightarrow> v | None \<Rightarrow> 0) in
      if m = Post \<and> content_length = 0 then Err (BadHttp LengthRequired)
      else if content_length > BODY_CAP then Err BodyTooLarge
      else
        let target_abs = sp1 + 1; q_rel = position (\<lambda>b. b = 63) t;
            tgt_end_rel = (case q_rel of Some q \<Rightarrow> q | None \<Rightarrow> length t) in
        Ok \<lparr>rq_method = m, rq_target_start = target_abs, rq_target_end = target_abs + tgt_end_rel,
            rq_query_start = map_option (\<lambda>q. target_abs + q + 1) q_rel,
            rq_content_length = content_length, rq_body_start = i + 4\<rparr> :: (http_request, http_error) outcome)"
    for m sp1 and t :: bytes and cl
  have "http_parse buf = and_then (http_line (first_line head)) (\<lambda>(m, sp1, t).
          and_then (fields_length (header_fields head) None) (finish m sp1 t))"
    unfolding http_parse_def Some option.case Let_def head_def [symmetric]
    unfolding le_def [symmetric] fst raw_def [symmetric] hs finish_def Let_def by (rule refl)
  then have "http_parse buf = Ok r \<longleftrightarrow>
     (\<exists>m sp1 t cl. http_line (first_line head) = Ok (m, sp1, t)
        \<and> fields_length (header_fields head) None = Ok cl \<and> finish m sp1 t cl = Ok r)"
    by auto
  also have "\<dots> \<longleftrightarrow> (\<exists>m t n. request_ok head n m t \<and> r = request_of i n m t)"
  proof -
    have "(\<exists>sp1 cl. http_line (first_line head) = Ok (m, sp1, t)
        \<and> fields_length (header_fields head) None = Ok cl \<and> finish m sp1 t cl = Ok r)
      \<longleftrightarrow> (\<exists>n. request_ok head n m t \<and> r = request_of i n m t)" for m t
      by (cases "declared_lengths (header_fields head)"; cases "63 \<in> set t")
        (auto simp: http_line_Ok fields_length_Ok request_ok_def request_of_def finish_def BODY_CAP_def Let_def q qn guard_Ok)
    then show ?thesis by blast
  qed
  finally show ?thesis using Some by (auto simp: head_def)
qed

section \<open>Lengths that agree only as numbers\<close>

text \<open>
  The contract of the parser and the test on repeated lengths ask for fields that are equal byte by
  byte. The code compares the numbers they read as, so that one length may be written in two ways.
\<close>

definition two_spellings :: bytes where
  "two_spellings = ascii ''POST / HTTP/1.1'' @ CRLF @ ascii ''Content-Length:3'' @ CRLF
     @ ascii ''Content-Length:03'' @ CRLF @ CRLF @ ascii ''abc''"

lemma length_spelled: "length_value (ascii ''3'') = Some 3" "length_value (ascii ''03'') = Some 3"
  by (simp_all add: length_value_def ascii_def from_utf8_ascii parse_u64_def is_ascii_digit_def digits_value_def
      trim_def trim_start_def trim_end_def white_spaces_def starts_with_def ends_with_def)

lemma two_spellings_fields:
  "find_sub (CRLF @ CRLF) two_spellings = Some 52"
  "split_crlf (take 52 two_spellings) = [ascii ''POST / HTTP/1.1'', ascii ''Content-Length:3'', ascii ''Content-Length:03'']"
  by (simp_all add: two_spellings_def CRLF_def ascii_def split_crlf.simps)

lemma two_spellings_accepted: "http_parse two_spellings = Ok (request_of 52 3 Post (ascii ''/''))"
proof -
  have "field_name (ascii ''Content-Length:3'') = ascii ''Content-Length''"
    "field_name (ascii ''Content-Length:03'') = ascii ''Content-Length''"
    "field_value (ascii ''Content-Length:3'') = ascii ''3''" "field_value (ascii ''Content-Length:03'') = ascii ''03''"
    by (simp_all add: field_name_def field_value_def ascii_def COLON_def)
  then have "request_ok (take 52 two_spellings) 3 Post (ascii ''/'')"
    by (simp add: request_ok_def first_line_def header_fields_def two_spellings_fields declared_lengths_def field_ok_def
        declares_length_def length_spelled)
      (simp add: ascii_def SP_def COLON_def)
  then show ?thesis unfolding http_parse_iff using two_spellings_fields(1) by blast
qed

section \<open>Properties\<close>

text \<open>
  C29: The parser accepts exactly the requests that read, line by line, as an exact request line
  and well-formed fields without a Transfer-Encoding, whose declared lengths all agree as
  numbers (their bytes may differ) and are at most 64 KiB, with a positive one for POST; the
  request it returns is the one read, with the same offsets.
\<close>

theorem http_parse_exact:
  "http_parse buf = Ok r \<longleftrightarrow>
     (\<exists>i n m target. find_sub (CRLF @ CRLF) buf = Some i \<and> request_ok (take i buf) n m target
        \<and> r = request_of i n m target)"
  by (rule http_parse_iff)

text \<open>
  The parser is incremental: without the end of the head it asks for more, or refuses a head
  of more than 8 KiB; with it, the bytes that follow never change its answer.
\<close>

theorem http_parse_incremental:
  "case find_sub (CRLF @ CRLF) buf of
     None \<Rightarrow> http_parse buf = Err (if length buf > 8192 then HeadersTooLarge else Incomplete)
   | Some i \<Rightarrow> http_parse (buf @ rest) = http_parse buf"
proof (cases "find_sub (CRLF @ CRLF) buf")
  case None
  then show ?thesis by (simp add: http_parse_def HEADER_CAP_def)
next
  case (Some i)
  then have "i \<le> length buf" using find_sub_SomeD [OF Some] by simp
  with Some find_sub_append [OF Some, of rest] show ?thesis by (simp add: http_parse_def)
qed

end
