(* ===== verification/Token.thy ===== *)
theory Token
  imports RustText Resolver
begin

text \<open>
  The bearer token of the control plane (src/src/transport/token.rs): its hexadecimal form,
  the comparison that visits every byte, and its file. The random source and the file system
  are arguments: the bytes drawn, whether the file opens and accepts the write, and the bytes
  a read returns. The lemmas on hexadecimal digits serve the control interface as well.
\<close>

unbundle bit_operations_syntax

definition TOKEN_BYTES :: nat where "TOKEN_BYTES = 32"
definition TOKEN_HEX_LEN :: nat where "TOKEN_HEX_LEN = 64"

datatype token_error = DiskError

definition token_hex :: "bytes \<Rightarrow> bytes" where
  "token_hex token = hex_bytes token"

definition token_verify :: "bytes \<Rightarrow> bytes \<Rightarrow> bool" where
  "token_verify provided expected =
     (if length provided \<noteq> TOKEN_HEX_LEN then False
      else fold (\<lambda>i diff. diff OR (provided ! i XOR expected ! i)) [0..<TOKEN_HEX_LEN] 0 = 0)"

text \<open>
  Saving opens the file (which truncates it) and writes; a write that fails leaves some prefix.
  The arguments are whether the open succeeds and how many bytes reach a file whose write fails.
\<close>

definition token_save ::
  "bool \<Rightarrow> nat option \<Rightarrow> bytes \<Rightarrow> bytes option \<Rightarrow> (unit, token_error) outcome \<times> bytes option" where
  "token_save opens short token file =
     (if \<not> opens then (Err DiskError, file)
      else case short of
        None \<Rightarrow> (Ok (), Some (token_hex token))
      | Some n \<Rightarrow> (Err DiskError, Some (take n (token_hex token))))"

definition token_load :: "bytes option \<Rightarrow> bytes option" where
  "token_load file =
     (case file of
        None \<Rightarrow> None
      | Some data \<Rightarrow> if length data \<noteq> TOKEN_HEX_LEN then None else decode_hex data)"

section \<open>Hexadecimal digits\<close>

lemma and_15: "b AND 15 = take_bit 4 (b :: u8)"
  by (simp add: take_bit_eq_mask mask_eq_exp_minus_1)

lemma nibble_iff: "(h :: u8) < 16 \<longleftrightarrow> take_bit 4 h = h"
  using less_mask_eq [of h 4] and_mask_less_size [of 4 h] by (auto simp: take_bit_eq_mask word_size)

lemma nibbles: "h < 16 \<and> l < 16 \<and> b = push_bit 4 h OR l \<longleftrightarrow> h = drop_bit 4 b \<and> l = (b :: u8) AND 15"
  unfolding nibble_iff and_15
proof
  assume *: "take_bit 4 h = h \<and> take_bit 4 l = l \<and> b = push_bit 4 h OR l"
  then have hi: "bit h n \<Longrightarrow> n < 4" "bit l n \<Longrightarrow> n < 4" for n by (metis bit_take_bit_iff)+
  have "h = drop_bit 4 (push_bit 4 h OR l)" by (rule bit_eqI) (use hi in \<open>fastforce simp: bit_simps\<close>)
  moreover have "l = take_bit 4 (push_bit 4 h OR l)" by (rule bit_eqI) (use hi in \<open>fastforce simp: bit_simps\<close>)
  ultimately show "h = drop_bit 4 b \<and> l = take_bit 4 b" using * by simp
next
  assume "h = drop_bit 4 b \<and> l = take_bit 4 b"
  then show "take_bit 4 h = h \<and> take_bit 4 l = l \<and> b = push_bit 4 h OR l"
    using bit_imp_le_length [of b] by (fastforce simp: bit_eq_iff bit_simps)
qed

lemma all_nibble:
  assumes "list_all (\<lambda>n. P (word_of_nat n)) [0..<16]" "(h :: u8) < 16"
  shows "P h"
proof -
  have "unat h \<in> set [0..<16]" using assms(2) by (simp add: word_less_nat_alt)
  with assms(1) have "P (word_of_nat (unat h))" unfolding list_all_iff by blast
  then show ?thesis by simp
qed

lemma lower_cases: "to_ascii_lowercase c = d \<Longrightarrow> c = d \<or> 97 \<le> d \<and> c = d - 32"
  by (auto simp: to_ascii_lowercase_def word_le_nat_alt unat_word_ariths split: if_splits)

lemma hex_val_digit: "d < 16 \<Longrightarrow> hex_val (hex_digit d) = Some d \<and> (97 \<le> hex_digit d \<longrightarrow> hex_val (hex_digit d - 32) = Some d)"
  by (rule all_nibble [where P = "\<lambda>d. hex_val (hex_digit d) = Some d \<and> (97 \<le> hex_digit d \<longrightarrow> hex_val (hex_digit d - 32) = Some d)"]) code_simp

lemma hex_val_range: "hex_val c = Some d \<Longrightarrow> d < 16 \<and> to_ascii_lowercase c = hex_digit d"
proof -
  assume *: "hex_val c = Some d"
  then have "48 \<le> unat c \<and> unat c \<le> 57 \<or> 97 \<le> unat c \<and> unat c \<le> 102 \<or> 65 \<le> unat c \<and> unat c \<le> 70"
    by (auto simp: hex_val_def word_le_nat_alt split: if_splits)
  then have "unat c \<in> set ([48..<58] @ [97..<103] @ [65..<71])"
    by (auto simp del: upt_rec_numeral upt_conv_Cons_Cons)
  moreover have "list_all (\<lambda>n. case hex_val (word_of_nat n) of None \<Rightarrow> False
      | Some d \<Rightarrow> d < 16 \<and> to_ascii_lowercase (word_of_nat n) = hex_digit d) ([48..<58] @ [97..<103] @ [65..<71])"
    by code_simp
  ultimately have "case hex_val (word_of_nat (unat c)) of None \<Rightarrow> False
      | Some d \<Rightarrow> d < 16 \<and> to_ascii_lowercase (word_of_nat (unat c)) = hex_digit d"
    unfolding list_all_iff by blast
  with * show ?thesis by simp
qed

lemma hex_val_Some: "hex_val c = Some d \<longleftrightarrow> d < 16 \<and> to_ascii_lowercase c = hex_digit d"
  using hex_val_range hex_val_digit [of d] lower_cases [of c "hex_digit d"] by auto

text \<open>Pairs of digits decode to the bytes whose lowercase notation they are.\<close>

lemma decode_hex_Some: "decode_hex h = Some bs \<longleftrightarrow> map to_ascii_lowercase h = hex_bytes bs"
proof (induction h arbitrary: bs rule: decode_hex.induct)
  case (1 hi lo rest)
  show ?case
  proof (cases bs)
    case (Cons b cs)
    have "decode_hex (hi # lo # rest) = Some bs \<longleftrightarrow>
        (\<exists>h l. hex_val hi = Some h \<and> hex_val lo = Some l \<and> b = push_bit 4 h OR l) \<and> decode_hex rest = Some cs"
      by (auto simp: Cons split: option.splits)
    also have "(\<exists>h l. hex_val hi = Some h \<and> hex_val lo = Some l \<and> b = push_bit 4 h OR l) \<longleftrightarrow>
        (\<exists>h l. (h < 16 \<and> l < 16 \<and> b = push_bit 4 h OR l)
          \<and> to_ascii_lowercase hi = hex_digit h \<and> to_ascii_lowercase lo = hex_digit l)"
      unfolding hex_val_Some by blast
    also have "\<dots> \<longleftrightarrow> to_ascii_lowercase hi = hex_digit (drop_bit 4 b) \<and> to_ascii_lowercase lo = hex_digit (b AND 15)"
      unfolding nibbles by blast
    finally show ?thesis using 1 by (simp add: Cons hex_bytes_def)
  qed (auto simp: hex_bytes_def split: option.splits)
next
  case 2
  then show ?case by (cases bs) (auto simp: hex_bytes_def)
next
  case (3 d)
  then show ?case by (cases bs) (auto simp: hex_bytes_def)
qed

lemma length_hex_bytes: "length (hex_bytes bs) = 2 * length bs"
  by (induction bs) (simp_all add: hex_bytes_def)

lemma lowercase_hex_bytes: "map to_ascii_lowercase (hex_bytes bs) = hex_bytes bs"
proof -
  have "list_all (\<lambda>n. to_ascii_lowercase (hex_digit (word_of_nat n)) = hex_digit (word_of_nat n)) [0..<16]" by code_simp
  then have "to_ascii_lowercase (hex_digit d) = hex_digit d" if "d < 16" for d by (rule all_nibble [OF _ that])
  moreover have "drop_bit 4 b < 16" "b AND 15 < 16" for b :: u8
    using nibbles [of "drop_bit 4 b" "b AND 15" b] by simp_all
  ultimately show ?thesis by (induction bs) (simp_all add: hex_bytes_def)
qed

section \<open>Comparison\<close>

lemma fold_diff_zero: "fold (\<lambda>i d. d OR f i) xs d = 0 \<longleftrightarrow> d = (0 :: u8) \<and> (\<forall>i\<in>set xs. f i = 0)"
  by (induction xs arbitrary: d) (auto simp: or_eq_0_iff)

lemma xor_zero: "a XOR b = 0 \<longleftrightarrow> a = (b :: u8)"
  by (auto simp: bit_eq_iff bit_xor_iff)

lemma token_verify_exact:
  assumes "length expected = 64"
  shows "token_verify provided expected \<longleftrightarrow> provided = expected"
proof -
  have "(\<forall>i\<in>set [0..<64]. provided ! i XOR expected ! i = 0) \<longleftrightarrow> provided = expected" if "length provided = 64"
    using assms that by (auto simp: xor_zero list_eq_iff_nth_eq)
  then show ?thesis
    using assms by (auto simp: token_verify_def TOKEN_HEX_LEN_def fold_diff_zero simp del: set_upt)
qed

section \<open>Property\<close>

text \<open>
  A file loads exactly as the token whose hexadecimal form it holds, in either letter case:
  a saved token loads back and is the only text the comparison accepts, and a file that is
  absent, torn or corrupt loads as no token.
\<close>

theorem token_file_exact:
  "token_load file = Some t \<longleftrightarrow> length t = 32 \<and> map_option (map to_ascii_lowercase) file = Some (token_hex t)"
proof (cases "file")
  case (Some data)
  have "length data = 64 \<longleftrightarrow> length t = 32" if "map to_ascii_lowercase data = hex_bytes t"
    using arg_cong [OF that, of length] by (auto simp: length_hex_bytes)
  then show ?thesis using Some by (auto simp: token_load_def TOKEN_HEX_LEN_def decode_hex_Some token_hex_def)
qed (simp add: token_load_def)

end
