(* ===== verification/ControlApi.thy ===== *)
theory ControlApi
  imports RustText Token Dispatch
begin

text \<open>
  The control interface (src/src/control_api.rs): the classes of wire rejections with their
  counters, the event ring with its cursor, the errors and their HTTP statuses, the flat JSON
  reader, the parsers of ids and cursors, the admission of an intent over HTTP through the
  same resolver as the wire path, and the bodies of the metrics and event routes. A text is
  its list of UTF-8 bytes; the counters of 64 bits are natural numbers that panic at the end
  of their range.
\<close>

definition RING_CAP :: nat where "RING_CAP = 256"
definition ID_HEX_LEN :: nat where "ID_HEX_LEN = 64"
definition BODY_MAX :: nat where "BODY_MAX = 4096"
definition SUBJ_HEX_LEN :: nat where "SUBJ_HEX_LEN = 64"

section \<open>Rejection classes\<close>

datatype reject_class =
    RejBinding | RejTransport | RejParse | VBadVersion | VBadEnvelopeBinding | VBadSignature
  | VMalformedKey | VBadApproverCert | VBadSubjectCert | VApproverRevoked | VApproverOutOfScope
  | VSubjectRevoked | VSubjectOutOfScope | VWrongExecutor | VWrongSubject | VNoMatchingIntent
  | VWrongResource | VActionDigestMismatch | VExpired | VAlreadyConsumed | VWrongBodyType
  | VSeqWindowStale | VEquivocation | VUnknownParents | VBadControlBody | DBadEnvelope | DBadBody
  | DUnsupportedBody | DNoPendingIntent | DUnknownSender | DActionTooLarge | DDiskError
  | RMalformedCanonical | RSetFull | RAliasPoolFull | RDuplicateEntry | RUnknownResource
  | RAmbiguousResource | RForeignExecutor | RBufferTooSmall | RIntentTableFull | RIntentDuplicateId
  | RIntentResourceHeld | RIntentNotPending | HandshakeFull

definition reject_names :: "bytes list" where
  "reject_names = map ascii
     [''binding'', ''transport'', ''parse'', ''v_bad_version'', ''v_bad_envelope_binding'',
      ''v_bad_signature'', ''v_malformed_key'', ''v_bad_approver_cert'', ''v_bad_subject_cert'',
      ''v_approver_revoked'', ''v_approver_out_of_scope'', ''v_subject_revoked'',
      ''v_subject_out_of_scope'', ''v_wrong_executor'', ''v_wrong_subject'',
      ''v_no_matching_intent'', ''v_wrong_resource'', ''v_action_digest_mismatch'', ''v_expired'',
      ''v_already_consumed'', ''v_wrong_body_type'', ''v_seq_window_stale'', ''v_equivocation'',
      ''v_unknown_parents'', ''v_bad_control_body'', ''d_bad_envelope'', ''d_bad_body'',
      ''d_unsupported_body'', ''d_no_pending_intent'', ''d_unknown_sender'', ''d_action_too_large'',
      ''d_disk_error'', ''r_malformed_canonical'', ''r_set_full'', ''r_alias_pool_full'',
      ''r_duplicate_entry'', ''r_unknown_resource'', ''r_ambiguous_resource'',
      ''r_foreign_executor'', ''r_buffer_too_small'', ''r_intent_table_full'',
      ''r_intent_duplicate_id'', ''r_intent_resource_held'', ''r_intent_not_pending'',
      ''handshake_full'']"

definition REJECT_COUNT :: nat where "REJECT_COUNT = length reject_names"

fun reject_index :: "reject_class \<Rightarrow> nat" where
  "reject_index RejBinding = 0"
| "reject_index RejTransport = 1"
| "reject_index RejParse = 2"
| "reject_index VBadVersion = 3"
| "reject_index VBadEnvelopeBinding = 4"
| "reject_index VBadSignature = 5"
| "reject_index VMalformedKey = 6"
| "reject_index VBadApproverCert = 7"
| "reject_index VBadSubjectCert = 8"
| "reject_index VApproverRevoked = 9"
| "reject_index VApproverOutOfScope = 10"
| "reject_index VSubjectRevoked = 11"
| "reject_index VSubjectOutOfScope = 12"
| "reject_index VWrongExecutor = 13"
| "reject_index VWrongSubject = 14"
| "reject_index VNoMatchingIntent = 15"
| "reject_index VWrongResource = 16"
| "reject_index VActionDigestMismatch = 17"
| "reject_index VExpired = 18"
| "reject_index VAlreadyConsumed = 19"
| "reject_index VWrongBodyType = 20"
| "reject_index VSeqWindowStale = 21"
| "reject_index VEquivocation = 22"
| "reject_index VUnknownParents = 23"
| "reject_index VBadControlBody = 24"
| "reject_index DBadEnvelope = 25"
| "reject_index DBadBody = 26"
| "reject_index DUnsupportedBody = 27"
| "reject_index DNoPendingIntent = 28"
| "reject_index DUnknownSender = 29"
| "reject_index DActionTooLarge = 30"
| "reject_index DDiskError = 31"
| "reject_index RMalformedCanonical = 32"
| "reject_index RSetFull = 33"
| "reject_index RAliasPoolFull = 34"
| "reject_index RDuplicateEntry = 35"
| "reject_index RUnknownResource = 36"
| "reject_index RAmbiguousResource = 37"
| "reject_index RForeignExecutor = 38"
| "reject_index RBufferTooSmall = 39"
| "reject_index RIntentTableFull = 40"
| "reject_index RIntentDuplicateId = 41"
| "reject_index RIntentResourceHeld = 42"
| "reject_index RIntentNotPending = 43"
| "reject_index HandshakeFull = 44"

fun class_of_verify :: "verify_error \<Rightarrow> reject_class" where
  "class_of_verify BadVersion = VBadVersion"
| "class_of_verify BadEnvelopeBinding = VBadEnvelopeBinding"
| "class_of_verify BadSignature = VBadSignature"
| "class_of_verify MalformedKey = VMalformedKey"
| "class_of_verify BadApproverCert = VBadApproverCert"
| "class_of_verify BadSubjectCert = VBadSubjectCert"
| "class_of_verify ApproverRevoked = VApproverRevoked"
| "class_of_verify ApproverOutOfScope = VApproverOutOfScope"
| "class_of_verify SubjectRevoked = VSubjectRevoked"
| "class_of_verify SubjectOutOfScope = VSubjectOutOfScope"
| "class_of_verify WrongExecutor = VWrongExecutor"
| "class_of_verify WrongSubject = VWrongSubject"
| "class_of_verify NoMatchingIntent = VNoMatchingIntent"
| "class_of_verify WrongResource = VWrongResource"
| "class_of_verify ActionDigestMismatch = VActionDigestMismatch"
| "class_of_verify GrantExpired = VExpired"
| "class_of_verify AlreadyConsumed = VAlreadyConsumed"
| "class_of_verify WrongBodyType = VWrongBodyType"
| "class_of_verify SeqWindowStale = VSeqWindowStale"
| "class_of_verify Equivocation = VEquivocation"
| "class_of_verify UnknownParents = VUnknownParents"
| "class_of_verify BadControlBody = VBadControlBody"

fun class_of_intent :: "intent_error \<Rightarrow> reject_class" where
  "class_of_intent TableFull = RIntentTableFull"
| "class_of_intent DuplicateIntentId = RIntentDuplicateId"
| "class_of_intent ResourceHeld = RIntentResourceHeld"
| "class_of_intent NotPending = RIntentNotPending"

fun class_of_resolve :: "resolve_error \<Rightarrow> reject_class" where
  "class_of_resolve MalformedCanonical = RMalformedCanonical"
| "class_of_resolve SetFull = RSetFull"
| "class_of_resolve AliasPoolFull = RAliasPoolFull"
| "class_of_resolve DuplicateEntry = RDuplicateEntry"
| "class_of_resolve UnknownResource = RUnknownResource"
| "class_of_resolve AmbiguousResource = RAmbiguousResource"
| "class_of_resolve ForeignExecutor = RForeignExecutor"
| "class_of_resolve BufferTooSmall = RBufferTooSmall"
| "class_of_resolve (IntentRefused ie) = class_of_intent ie"

fun class_of_dispatch :: "dispatch_error \<Rightarrow> reject_class" where
  "class_of_dispatch BadEnvelope = DBadEnvelope"
| "class_of_dispatch BadBody = DBadBody"
| "class_of_dispatch UnsupportedBody = DUnsupportedBody"
| "class_of_dispatch NoPendingIntent = DNoPendingIntent"
| "class_of_dispatch UnknownSender = DUnknownSender"
| "class_of_dispatch ActionTooLarge = DActionTooLarge"
| "class_of_dispatch DispatchDiskError = DDiskError"
| "class_of_dispatch (VerifyFailed ve) = class_of_verify ve"
| "class_of_dispatch (ResolveFailed re) = class_of_resolve re"

definition reject_name :: "reject_class \<Rightarrow> bytes" where
  "reject_name c = reject_names ! reject_index c"

section \<open>Counters\<close>

text \<open>An increment of a 64-bit counter panics at the end of the range.\<close>

definition count_up :: "nat \<Rightarrow> nat \<Rightarrow> (nat, 'e) outcome" where
  "count_up n k = (if n + k < 2 ^ 64 then Ok (n + k) else Panic)"

record wire_counters =
  wc_admissions_total :: nat
  wc_handshake_released_total :: nat
  wc_rejects :: "nat list"

definition wire_counters_new :: wire_counters where
  "wire_counters_new =
     \<lparr>wc_admissions_total = 0, wc_handshake_released_total = 0, wc_rejects = replicate REJECT_COUNT 0\<rparr>"

definition bump :: "reject_class \<Rightarrow> wire_counters \<Rightarrow> (unit, 'e) outcome \<times> wire_counters" where
  "bump c w =
     (case count_up (wc_rejects w ! reject_index c) 1 of
        Ok n \<Rightarrow> (Ok (), w\<lparr>wc_rejects := (wc_rejects w)[reject_index c := n]\<rparr>)
      | Err e \<Rightarrow> (Err e, w)
      | Panic \<Rightarrow> (Panic, w))"

definition reject_sum :: "wire_counters \<Rightarrow> (nat, 'e) outcome" where
  "reject_sum w = fold (\<lambda>n acc. and_then acc (\<lambda>s. count_up s n)) (wc_rejects w) (Ok 0)"

section \<open>Events\<close>

datatype event_tag =
  EvIntentAdmitted | EvIntentExpired | EvGrantExecuted | EvEffectRefused | EvRefusalApplied | EvControlApplied

fun tag_name :: "event_tag \<Rightarrow> bytes" where
  "tag_name EvIntentAdmitted = ascii ''intent_admitted''"
| "tag_name EvIntentExpired = ascii ''intent_expired''"
| "tag_name EvGrantExecuted = ascii ''grant_executed''"
| "tag_name EvEffectRefused = ascii ''effect_refused''"
| "tag_name EvRefusalApplied = ascii ''refusal_applied''"
| "tag_name EvControlApplied = ascii ''control_applied''"

record event_ring =
  er_events :: "(nat \<times> event_tag) list"
  er_next_seq :: nat

definition ring_new :: event_ring where
  "ring_new = \<lparr>er_events = [], er_next_seq = 1\<rparr>"

definition publish :: "event_tag \<Rightarrow> event_ring \<Rightarrow> (unit, 'e) outcome \<times> event_ring" where
  "publish tag r =
     (case count_up (er_next_seq r) 1 of
        Ok n \<Rightarrow>
          (Ok (), \<lparr>er_events = (if length (er_events r) = RING_CAP then drop 1 (er_events r) else er_events r)
                     @ [(er_next_seq r, tag)], er_next_seq = n\<rparr>)
      | Err e \<Rightarrow> (Err e, r)
      | Panic \<Rightarrow> (Panic, r))"

definition ring_since :: "nat \<Rightarrow> event_ring \<Rightarrow> (nat \<times> event_tag) list" where
  "ring_since since r =
     (let n = (case position (\<lambda>e. fst e > since) (er_events r) of Some i \<Rightarrow> i | None \<Rightarrow> length (er_events r))
      in drop n (er_events r))"

section \<open>Errors\<close>

datatype api_error =
    BadRequest | NotFound | MethodNotAllowed | UnsupportedMediaType | UnprocessableIntent
  | ApiResolve resolve_error | ApiIntent intent_error

fun api_of_resolve :: "resolve_error \<Rightarrow> api_error" where
  "api_of_resolve (IntentRefused ie) = ApiIntent ie"
| "api_of_resolve other = ApiResolve other"

fun api_status :: "api_error \<Rightarrow> nat" where
  "api_status BadRequest = 400"
| "api_status (ApiIntent NotPending) = 400"
| "api_status NotFound = 404"
| "api_status MethodNotAllowed = 405"
| "api_status UnsupportedMediaType = 415"
| "api_status UnprocessableIntent = 422"
| "api_status (ApiResolve e) = 422"
| "api_status (ApiIntent ResourceHeld) = 409"
| "api_status (ApiIntent TableFull) = 503"
| "api_status (ApiIntent DuplicateIntentId) = 202"

datatype intent_outcome = Accepted | AcceptedIdempotent

record metrics =
  mt_admitted_total :: nat

section \<open>Reading requests\<close>

definition QUOTE :: u8 where "QUOTE = 34"

definition flat_json_get :: "bytes \<Rightarrow> bytes \<Rightarrow> bytes option" where
  "flat_json_get body key =
     (let needle = [QUOTE] @ key @ [QUOTE] in
      case find_sub needle body of None \<Rightarrow> None | Some at \<Rightarrow>
        (case strip_prefix [58] (trim_start (drop (at + length needle) body)) of None \<Rightarrow> None | Some rest \<Rightarrow>
          (case strip_prefix [QUOTE] (trim_start rest) of None \<Rightarrow> None | Some rest \<Rightarrow>
            (case position (\<lambda>b. b = QUOTE) rest of None \<Rightarrow> None | Some end \<Rightarrow> Some (take end rest)))))"

definition is_hex :: "bytes \<Rightarrow> bool" where
  "is_hex s \<longleftrightarrow> s \<noteq> [] \<and>
     list_all (\<lambda>b. is_ascii_digit b \<or> between 97 102 b \<or> between 65 70 b) s"

definition parse_id_hex :: "bytes \<Rightarrow> (bytes, api_error) outcome" where
  "parse_id_hex hex =
     (if length hex \<noteq> ID_HEX_LEN \<or> \<not> is_hex hex then Err BadRequest
      else ok_or BadRequest (decode_hex hex))"

definition parse_since :: "bytes \<Rightarrow> (nat, api_error) outcome" where
  "parse_since target =
     (if target = [] \<or> \<not> list_all is_ascii_digit target then Err BadRequest
      else ok_or BadRequest (parse_u64 target))"

section \<open>Operations\<close>

record api_state =
  as_intents :: intent_table
  as_metrics :: metrics
  as_ring :: event_ring

text \<open>The fields of an intent request that pass the checks of its shape: the id and the resource.\<close>

definition intent_request :: "bytes \<Rightarrow> (bytes \<times> bytes, api_error) outcome" where
  "intent_request body =
     (if length body > BODY_MAX then Err BadRequest
      else
        and_then (ok_or BadRequest (flat_json_get body (ascii ''id''))) (\<lambda>id.
        and_then (ok_or BadRequest (flat_json_get body (ascii ''resource''))) (\<lambda>resource.
        and_then (ok_or BadRequest (flat_json_get body (ascii ''action''))) (\<lambda>action.
        if action = [] \<or> length action > unat MAX_ACTION then Err BadRequest
        else
          and_then (ok_or BadRequest (flat_json_get body (ascii ''rationale''))) (\<lambda>_.
          and_then (ok_or BadRequest (flat_json_get body (ascii ''subject''))) (\<lambda>subject.
          if length subject \<noteq> SUBJ_HEX_LEN \<or> \<not> is_hex subject then Err BadRequest
          else
            and_then (parse_id_hex id) (\<lambda>id_bytes. Ok (take LEN_INTENT_ID id_bytes, resource))))))))"

definition post_intent ::
  "bytes \<Rightarrow> resolver \<Rightarrow> u64 \<Rightarrow> api_state \<Rightarrow> (intent_outcome, api_error) outcome \<times> api_state" where
  "post_intent body rs now_ms s =
     (case intent_request body of
        Err e \<Rightarrow> (Err e, s)
      | Panic \<Rightarrow> (Panic, s)
      | Ok (intent_id, resource) \<Rightarrow>
          let (res, t) = resolve_and_admit rs intent_id resource now_ms (as_intents s);
              s = s\<lparr>as_intents := t\<rparr>
          in case res of
               Ok _ \<Rightarrow>
                 (case count_up (mt_admitted_total (as_metrics s)) 1 of
                    Ok n \<Rightarrow>
                      (case publish EvIntentAdmitted (as_ring s) of
                         (Ok _, r) \<Rightarrow> (Ok Accepted, s\<lparr>as_metrics := \<lparr>mt_admitted_total = n\<rparr>, as_ring := r\<rparr>)
                       | (Err e, r) \<Rightarrow> (Err e, s\<lparr>as_metrics := \<lparr>mt_admitted_total = n\<rparr>, as_ring := r\<rparr>)
                       | (Panic, r) \<Rightarrow> (Panic, s\<lparr>as_metrics := \<lparr>mt_admitted_total = n\<rparr>, as_ring := r\<rparr>))
                  | Err e \<Rightarrow> (Err e, s)
                  | Panic \<Rightarrow> (Panic, s))
             | Err (IntentRefused DuplicateIntentId) \<Rightarrow> (Ok AcceptedIdempotent, s)
             | Err e \<Rightarrow> (Err (api_of_resolve e), s)
             | Panic \<Rightarrow> (Panic, s))"

fun state_name :: "intent_state \<Rightarrow> bytes" where
  "state_name Pending = ascii ''pending''"
| "state_name Executing = ascii ''executing''"
| "state_name Rejected = ascii ''rejected''"
| "state_name Expired = ascii ''expired''"

definition get_intent_state :: "bytes \<Rightarrow> intent_table \<Rightarrow> (bytes, api_error) outcome" where
  "get_intent_state id_bytes t =
     and_then (ok_or NotFound (find (\<lambda>e. e_intent_id e = take LEN_INTENT_ID id_bytes) (entries t)))
       (\<lambda>e. Ok (state_name (e_state e)))"

section \<open>Bodies\<close>

definition metric_line :: "bytes \<Rightarrow> nat \<Rightarrow> bytes" where
  "metric_line name val = name @ [32] @ to_decimal val @ [10]"

definition metrics_body :: "nat \<Rightarrow> nat \<Rightarrow> nat \<Rightarrow> nat \<Rightarrow> wire_counters \<Rightarrow> nat \<Rightarrow> nat \<Rightarrow> nat \<Rightarrow> bytes" where
  "metrics_body admitted_total ctl_requests ctl_auth_refused ctl_timeouts wire ledger_inserts
     ledger_storefull hs_slots_used =
     concat (map (\<lambda>(name, val). metric_line (ascii name) val)
       [(''bolina_intents_admitted_total'', admitted_total),
        (''bolina_ctl_requests_total'', ctl_requests),
        (''bolina_ctl_auth_refused_total'', ctl_auth_refused),
        (''bolina_ctl_timeouts_total'', ctl_timeouts),
        (''bolina_wire_admissions_total'', wc_admissions_total wire),
        (''bolina_ledger_inserts_total'', ledger_inserts),
        (''bolina_ledger_storefull_total'', ledger_storefull),
        (''bolina_handshake_released_total'', wc_handshake_released_total wire),
        (''bolina_handshake_slots_used'', hs_slots_used)])
     @ concat (map (\<lambda>i. metric_line
         (ascii ''bolina_wire_rejects_total{class='' @ [QUOTE] @ reject_names ! i @ [QUOTE] @ ascii ''}'')
         (wc_rejects wire ! i)) [0..<REJECT_COUNT])"

definition events_sse_body :: "event_ring \<Rightarrow> nat \<Rightarrow> bytes" where
  "events_sse_body r since =
     concat (map (\<lambda>(seq, tag). ascii ''event: '' @ tag_name tag @ [10] @ ascii ''data: '' @ to_decimal seq @ [10, 10])
       (ring_since since r))"

section \<open>The classes are told apart\<close>

definition all_classes :: "reject_class list" where
  "all_classes =
     [RejBinding, RejTransport, RejParse, VBadVersion, VBadEnvelopeBinding, VBadSignature, VMalformedKey,
      VBadApproverCert, VBadSubjectCert, VApproverRevoked, VApproverOutOfScope, VSubjectRevoked,
      VSubjectOutOfScope, VWrongExecutor, VWrongSubject, VNoMatchingIntent, VWrongResource,
      VActionDigestMismatch, VExpired, VAlreadyConsumed, VWrongBodyType, VSeqWindowStale, VEquivocation,
      VUnknownParents, VBadControlBody, DBadEnvelope, DBadBody, DUnsupportedBody, DNoPendingIntent,
      DUnknownSender, DActionTooLarge, DDiskError, RMalformedCanonical, RSetFull, RAliasPoolFull,
      RDuplicateEntry, RUnknownResource, RAmbiguousResource, RForeignExecutor, RBufferTooSmall,
      RIntentTableFull, RIntentDuplicateId, RIntentResourceHeld, RIntentNotPending, HandshakeFull]"

lemma class_of_index: "all_classes ! reject_index c = c"
  by (cases c) (simp_all add: all_classes_def)

lemma reject_index_inject: "reject_index c = reject_index d \<longleftrightarrow> c = d"
  by (metis class_of_index)

lemma reject_count: "REJECT_COUNT = 45"
  by (simp add: REJECT_COUNT_def reject_names_def)

lemma reject_index_less: "reject_index c < 45"
  by (cases c) simp_all

section \<open>Events\<close>

definition publish_step :: "event_tag \<Rightarrow> event_ring \<Rightarrow> event_ring" where
  "publish_step tag r = snd (publish tag r :: (unit, unit) outcome \<times> event_ring)"

definition numbered_tags :: "event_tag list \<Rightarrow> (nat \<times> event_tag) list" where
  "numbered_tags tags = map (\<lambda>i. (Suc i, tags ! i)) [0..<length tags]"

lemma length_numbered_tags [simp]: "length (numbered_tags tags) = length tags"
  by (simp add: numbered_tags_def)

lemma numbered_tags_snoc: "numbered_tags (tags @ [t]) = numbered_tags tags @ [(Suc (length tags), t)]"
  by (simp add: numbered_tags_def nth_append)

lemma publish_numbered:
  assumes "length tags < 2 ^ 64 - 2"
  shows "publish_step t \<lparr>er_events = drop (length tags - 256) (numbered_tags tags), er_next_seq = Suc (length tags)\<rparr>
    = \<lparr>er_events = drop (Suc (length tags) - 256) (numbered_tags tags @ [(Suc (length tags), t)]),
       er_next_seq = Suc (Suc (length tags))\<rparr>"
proof (cases "length tags < 256")
  case False
  then have "Suc (length tags - 256) = Suc (length tags) - 256" by simp
  with False assms show ?thesis
    by (simp add: publish_step_def publish_def count_up_def RING_CAP_def)
qed (use assms in \<open>simp add: publish_step_def publish_def count_up_def RING_CAP_def\<close>)

lemma ring_run:
  "length tags \<le> 2 ^ 64 - 2 \<Longrightarrow> fold publish_step tags ring_new =
     \<lparr>er_events = drop (length tags - 256) (numbered_tags tags), er_next_seq = Suc (length tags)\<rparr>"
proof (induction tags rule: rev_induct)
  case Nil
  then show ?case by (simp add: ring_new_def numbered_tags_def)
next
  case (snoc t tags)
  then show ?case using publish_numbered [of tags t] by (simp add: numbered_tags_snoc)
qed

lemma position_drop_numbered:
  fixes m :: nat and tags :: "event_tag list"
  shows "drop (case position (\<lambda>e. k < fst e) (drop m (numbered_tags tags)) of Some i \<Rightarrow> i | None \<Rightarrow> length (drop m (numbered_tags tags)))
     (drop m (numbered_tags tags)) = drop (max m k) (numbered_tags tags)"
proof -
  let ?xs = "drop m (numbered_tags tags)"
  have nth: "fst (?xs ! i) = Suc (m + i)" if "i < length ?xs" for i
    using that by (simp add: numbered_tags_def less_diff_conv add.commute)
  show ?thesis
  proof (cases "position (\<lambda>e. k < fst e) ?xs")
    case None
    then have "\<not> k < fst (?xs ! (length ?xs - 1))" if "?xs \<noteq> []"
      using that unfolding position_None by (metis nth_mem diff_less length_greater_0_conv zero_less_one)
    then have "length (numbered_tags tags) \<le> max m k" using nth [of "length ?xs - 1"] by (cases "?xs = []") auto
    with None show ?thesis by simp
  next
    case (Some i)
    note i = position_SomeD [OF Some]
    have "k < Suc (m + i)" using i nth [of i] by simp
    moreover have "i = 0 \<or> m + i \<le> k" using i nth [of "i - 1"] by (cases i) auto
    ultimately have "m + i = max m k" by linarith
    with Some show ?thesis by (simp add: add.commute)
  qed
qed

lemma decode_hex_digits:
  "decode_hex h = Some b \<Longrightarrow> list_all (\<lambda>b. is_ascii_digit b \<or> between 97 102 b \<or> between 65 70 b) h"
  by (induction h arbitrary: b rule: decode_hex.induct)
    (auto simp: hex_val_def is_ascii_digit_def between_def split: option.splits if_splits)

section \<open>Admission over HTTP\<close>

definition http_status :: "(intent_outcome, api_error) outcome \<Rightarrow> nat" where
  "http_status r = (case r of Ok _ \<Rightarrow> 202 | Err e \<Rightarrow> api_status e | Panic \<Rightarrow> 0)"

definition spec_post ::
  "(bytes \<Rightarrow> (bytes, resolve_error) outcome) \<Rightarrow> bytes \<Rightarrow> (bytes \<Rightarrow> (bytes \<times> intent_state) option) \<Rightarrow>
   nat \<times> nat \<times> (bytes \<Rightarrow> (bytes \<times> intent_state) option)" where
  "spec_post lookup body m =
     (case intent_request body of
        Ok (iid, res) \<Rightarrow>
          (case lookup res of
             Ok c \<Rightarrow>
               if \<exists>r'. m r' = Some (iid, Pending) then (202, 0, m)
               else if c \<in> dom m then (409, 0, m)
               else if card (dom m) \<ge> 256 then (503, 0, m)
               else (202, 1, m(c \<mapsto> (iid, Pending)))
           | _ \<Rightarrow> (422, 0, m))
      | _ \<Rightarrow> (400, 0, m))"

lemma intent_request_cases: "intent_request body = Err e \<Longrightarrow> e = BadRequest" "intent_request body \<noteq> Panic"
  by (auto simp: intent_request_def parse_id_hex_def and_then_eq_Err ok_or_def split: if_splits option.splits)

section \<open>Properties\<close>

text \<open>
  The cursor over the event ring: after any publications the events after a cursor are
  exactly those published with a larger sequence number among the last 256, in order, numbered
  from 1 without gaps.
\<close>

theorem event_cursor_exact:
  assumes "length tags \<le> 2 ^ 64 - 2"
  shows "ring_since k (fold publish_step tags ring_new) = drop (max k (length tags - 256)) (numbered_tags tags)"
  using position_drop_numbered [where k = k and m = "length tags - 256" and tags = tags]
  by (simp only: ring_run [OF assms] ring_since_def Let_def event_ring.simps max.commute)

theorem event_cursor_exact_witness:
  "ring_since 1 (fold publish_step [EvIntentAdmitted, EvGrantExecuted, EvEffectRefused] ring_new)
     = [(2, EvGrantExecuted), (3, EvEffectRefused)]"
  using event_cursor_exact [of "[EvIntentAdmitted, EvGrantExecuted, EvEffectRefused]" 1]
  by (simp add: numbered_tags_def)

text \<open>
  The id parser accepts exactly the 64-digit notations of 32-byte ids, in either letter case.
\<close>

theorem parse_id_hex_exact:
  "parse_id_hex h = Ok b \<longleftrightarrow> length b = 32 \<and> map to_ascii_lowercase h = hex_bytes b"
proof -
  have "is_hex h" if "decode_hex h = Some b" "h \<noteq> []" using that decode_hex_digits [of h] by (auto simp: is_hex_def)
  moreover have "length h = 64 \<longleftrightarrow> length b = 32" if "map to_ascii_lowercase h = hex_bytes b"
    using arg_cong [OF that, of length] by (auto simp: length_hex_bytes)
  ultimately show ?thesis
    by (cases "h = []") (auto simp: parse_id_hex_def ID_HEX_LEN_def decode_hex_Some)
qed

text \<open>
  C30: Admission over HTTP implements the same lock map as the wire path: on every reachable
  resolver and table the request is answered 400 for its shape, 422 for a resource that does
  not resolve, 409 for a held resource, 503 for a full table and 202 otherwise; the resource is
  locked and the admission counted exactly when the intent is new.
\<close>

theorem post_intent_refines_lock_map:
  assumes "mt_admitted_total (as_metrics s) < 2 ^ 64 - 1" "er_next_seq (as_ring s) < 2 ^ 64 - 1"
    and "as_intents s = fold intent_step tops table_new"
  shows "(let r = fold resolver_step rops (resolver_new cr pk); (res, s') = post_intent body r now s
     in (http_status res, mt_admitted_total (as_metrics s') - mt_admitted_total (as_metrics s), locks (as_intents s')))
   = spec_post (resolve (fold resolver_step rops (resolver_new cr pk))) body (locks (as_intents s))"
proof (cases "intent_request body")
  case (Ok req)
  obtain iid res where req: "req = (iid, res)" by fastforce
  define rs where "rs = fold resolver_step rops (resolver_new cr pk)"
  have inv: "resolver_inv rs" "intent_inv (as_intents s)"
    unfolding rs_def assms(3) by (rule resolvers.inv_run intents.inv_run)+
  obtain out t where ra: "resolve_and_admit rs iid res now (as_intents s) = (out, t)" by fastforce
  note adm = resolve_and_admit_locks [OF inv, of iid res now, unfolded ra Let_def prod.case]
  have len: "length c \<le> MAX_RESOURCE" if "resolve rs res = Ok c" for c
    using resolve_Ok [OF inv(1) that] canonical_form_length [of c] by (simp add: resolver_sizes MAX_RESOURCE_def)
  have err: "e \<in> {UnknownResource, AmbiguousResource, ForeignExecutor}" if "resolve rs res = Err e" for e
    using that by (auto simp: resolve_eq [OF inv(1)] split: list.splits if_splits)
  show ?thesis
    using adm assms(1,2) resolve_no_Panic [OF inv(1), of res] len err
    by (cases "resolve rs res")
      (auto simp: rs_def [symmetric] post_intent_def spec_post_def Ok req ra http_status_def Let_def count_up_def
        publish_def spec_admit_def MAX_PENDING_def split: if_splits)
qed (use intent_request_cases [of body] in \<open>auto simp: post_intent_def spec_post_def http_status_def\<close>)

theorem post_intent_refines_lock_map_witness:
  "(let (res, s') = post_intent (ascii ''{}'') (resolver_new toy_crypto (replicate 32 0)) 7
        \<lparr>as_intents = table_new, as_metrics = \<lparr>mt_admitted_total = 5\<rparr>, as_ring = ring_new\<rparr>
    in (http_status res, mt_admitted_total (as_metrics s') - 5, locks (as_intents s')))
   = (400, 0, Map.empty)"
proof -
  let ?s = "\<lparr>as_intents = table_new, as_metrics = \<lparr>mt_admitted_total = 5\<rparr>, as_ring = ring_new\<rparr>"
  have "locks table_new = Map.empty" by (simp add: locks_def table_new_def)
  moreover have "intent_request (ascii ''{}'') = Err BadRequest"
    by (simp add: intent_request_def BODY_MAX_def flat_json_get_def ascii_def QUOTE_def)
  ultimately show ?thesis
    using post_intent_refines_lock_map [of ?s "[]" "[]" toy_crypto "replicate 32 0" "ascii ''{}''" 7]
    by (simp add: ring_new_def spec_post_def Let_def)
qed

end
