(* ===== verification/Keys.thy ===== *)
theory Keys
  imports Token
begin

text \<open>
  The key material of a node (src/src/keys.rs): loading or generating the transport secret,
  its public key, the signing key, the certificate and the CA keys in label order. The files
  are a map from the names the code uses to contents; the answers of the file system (whether
  the directory can be made, a file read, a write completed and protected) and the drawn
  random seeds are arguments. A signing key is its 32-byte seed, which is what its to_bytes
  returns.
\<close>

definition MAX_CAS :: nat where "MAX_CAS = 8"
definition MAX_CERT :: nat where "MAX_CERT = 1024"
definition KEY_LEN :: nat where "KEY_LEN = 32"

datatype keys_error = DataDirUnwritable | KeyFileCorrupt | PubMismatch | CertTooLarge | KeysDiskError

record keys =
  ks_secret_static :: bytes
  ks_pub_static :: bytes
  ks_sig_key :: bytes
  ks_cert :: bytes
  ks_ca_pubs :: "bytes list"

definition keys_sig_pub :: "crypto \<Rightarrow> keys \<Rightarrow> bytes" where
  "keys_sig_pub cr k = ed_public cr (ks_sig_key k)"

definition keys_fingerprint :: "crypto \<Rightarrow> bytes \<Rightarrow> bytes" where
  "keys_fingerprint cr pubkey = executor_fp cr pubkey"

section \<open>Files\<close>

datatype key_file = SecretKey | StaticPub | SigKey | CertBin | CaPub nat

type_synonym key_disk = "key_file \<Rightarrow> bytes option"

datatype read_result = Found bytes | Missing | ReadFails

text \<open>A failing write leaves some content; a write may succeed and its protection fail.\<close>

datatype write_result = Written | Leaves "bytes option" | ModeFails

record key_io =
  io_dir_ok :: bool
  io_readable :: "key_file \<Rightarrow> bool"
  io_write :: "key_file \<Rightarrow> write_result"

definition sound_io :: key_io where
  "sound_io = \<lparr>io_dir_ok = True, io_readable = (\<lambda>_. True), io_write = (\<lambda>_. Written)\<rparr>"

definition read_path :: "key_io \<Rightarrow> key_disk \<Rightarrow> key_file \<Rightarrow> read_result" where
  "read_path io disk p =
     (if \<not> io_readable io p then ReadFails
      else case disk p of None \<Rightarrow> Missing | Some b \<Rightarrow> Found b)"

definition read_key_file :: "key_io \<Rightarrow> key_file \<Rightarrow> nat \<Rightarrow> key_disk \<Rightarrow> (bytes option, keys_error) outcome" where
  "read_key_file io p expect disk =
     (case read_path io disk p of
        Found bs \<Rightarrow> if length bs \<noteq> expect then Err KeyFileCorrupt else Ok (Some bs)
      | Missing \<Rightarrow> Ok None
      | ReadFails \<Rightarrow> Err KeysDiskError)"

definition write_private :: "key_io \<Rightarrow> key_file \<Rightarrow> bytes \<Rightarrow> key_disk \<Rightarrow> (unit, keys_error) outcome \<times> key_disk" where
  "write_private io p bs disk =
     (case io_write io p of
        Written \<Rightarrow> (Ok (), disk(p \<mapsto> bs))
      | Leaves left \<Rightarrow> (Err KeysDiskError, disk(p := left))
      | ModeFails \<Rightarrow> (Err KeysDiskError, disk(p \<mapsto> bs)))"

definition ensure_dir :: "key_io \<Rightarrow> (unit, keys_error) outcome" where
  "ensure_dir io = (if io_dir_ok io then Ok () else Err DataDirUnwritable)"

definition timing_safe_eq :: "bytes \<Rightarrow> bytes \<Rightarrow> bool" where
  "timing_safe_eq a b =
     (if length a \<noteq> length b then False
      else fold (\<lambda>(x, y) diff. or diff (xor x y)) (zip a b) 0 = 0)"

section \<open>Loading\<close>

text \<open>A key file is read, or the drawn bytes are written to it and used.\<close>

definition load_key :: "key_io \<Rightarrow> key_file \<Rightarrow> bytes \<Rightarrow> key_disk \<Rightarrow> (bytes, keys_error) outcome \<times> key_disk" where
  "load_key io p drawn disk =
     (case read_key_file io p KEY_LEN disk of
        Ok (Some bs) \<Rightarrow> (Ok bs, disk)
      | Ok None \<Rightarrow> then_state (write_private io p drawn disk) (\<lambda>_ disk. (Ok drawn, disk))
      | Err e \<Rightarrow> (Err e, disk)
      | Panic \<Rightarrow> (Panic, disk))"

definition check_pub :: "key_io \<Rightarrow> bytes \<Rightarrow> key_disk \<Rightarrow> (unit, keys_error) outcome \<times> key_disk" where
  "check_pub io pub_static disk =
     (case read_key_file io StaticPub KEY_LEN disk of
        Ok (Some stored) \<Rightarrow>
          if \<not> timing_safe_eq stored pub_static then (Err PubMismatch, disk) else (Ok (), disk)
      | Ok None \<Rightarrow> write_private io StaticPub pub_static disk
      | Err e \<Rightarrow> (Err e, disk)
      | Panic \<Rightarrow> (Panic, disk))"

definition load_cert :: "key_io \<Rightarrow> key_disk \<Rightarrow> (bytes, keys_error) outcome" where
  "load_cert io disk =
     (case read_path io disk CertBin of
        Found c \<Rightarrow> if length c > MAX_CERT then Err CertTooLarge else Ok c
      | Missing \<Rightarrow> Ok []
      | ReadFails \<Rightarrow> Err KeysDiskError)"

text \<open>The labels from i on, n of them: the first missing one ends the list.\<close>

fun load_cas :: "nat \<Rightarrow> nat \<Rightarrow> key_io \<Rightarrow> key_disk \<Rightarrow> (bytes list, keys_error) outcome" where
  "load_cas 0 i io disk = Ok []"
| "load_cas (Suc n) i io disk =
     (case read_path io disk (CaPub i) of
        Found b \<Rightarrow>
          if length b \<noteq> KEY_LEN then Err KeyFileCorrupt
          else and_then (load_cas n (i + 1) io disk) (\<lambda>ks. Ok (b # ks))
      | Missing \<Rightarrow> Ok []
      | ReadFails \<Rightarrow> Err KeysDiskError)"

definition load_or_generate ::
  "crypto \<Rightarrow> key_io \<Rightarrow> bytes \<Rightarrow> bytes \<Rightarrow> key_disk \<Rightarrow> (keys, keys_error) outcome \<times> key_disk" where
  "load_or_generate cr io secret_draw sig_draw disk =
     (case ensure_dir io of
        Err e \<Rightarrow> (Err e, disk)
      | Panic \<Rightarrow> (Panic, disk)
      | Ok _ \<Rightarrow>
          then_state (load_key io SecretKey secret_draw disk) (\<lambda>secret_static disk.
          let pub_static = x25519 cr secret_static (x25519_base cr) in
          then_state (check_pub io pub_static disk) (\<lambda>_ disk.
          then_state (load_key io SigKey sig_draw disk) (\<lambda>sig_key disk.
          (and_then (load_cert io disk) (\<lambda>cert.
           and_then (load_cas MAX_CAS 0 io disk) (\<lambda>ca_pubs.
           Ok \<lparr>ks_secret_static = secret_static, ks_pub_static = pub_static, ks_sig_key = sig_key,
               ks_cert = cert, ks_ca_pubs = ca_pubs\<rparr>)), disk)))))"

section \<open>No file is ever replaced\<close>

lemma write_private_extends: "disk p = None \<Longrightarrow> disk \<subseteq>\<^sub>m snd (write_private io p bs disk)"
  by (auto simp: write_private_def map_le_def split: write_result.split)

lemma read_key_file_missing: "read_key_file io p n disk = Ok None \<Longrightarrow> disk p = None"
  by (auto simp: read_key_file_def read_path_def split: option.splits if_splits)

lemma load_key_extends: "disk \<subseteq>\<^sub>m snd (load_key io p drawn disk)"
proof (cases "read_key_file io p KEY_LEN disk")
  case (Ok r)
  then show ?thesis
    using write_private_extends [of disk p io drawn] read_key_file_missing [of io p KEY_LEN disk]
    by (cases r; cases "fst (write_private io p drawn disk)"; cases "write_private io p drawn disk")
      (auto simp: load_key_def)
qed (simp_all add: load_key_def)

lemma check_pub_extends: "disk \<subseteq>\<^sub>m snd (check_pub io pub disk)"
  using write_private_extends [of disk StaticPub io pub] read_key_file_missing [of io StaticPub KEY_LEN disk]
  by (auto simp: check_pub_def split: outcome.split option.split)

lemma then_state_extends:
  "d \<subseteq>\<^sub>m snd r \<Longrightarrow> (\<And>x d'. d' \<subseteq>\<^sub>m snd (f x d')) \<Longrightarrow> d \<subseteq>\<^sub>m snd (then_state r f)"
  by (cases "(r, f)" rule: then_state.cases) (auto intro: map_le_trans)

section \<open>What a successful load leaves\<close>

lemma timing_safe_eq_iff: "timing_safe_eq a b \<longleftrightarrow> a = b"
proof -
  have "fold (\<lambda>(x, y) diff. or diff (xor x y)) zs d = 0 \<longleftrightarrow> d = 0 \<and> (\<forall>(x, y)\<in>set zs. x = y)" for zs and d :: u8
    by (induction zs arbitrary: d) (auto simp: or_eq_0_iff xor_zero)
  then have "timing_safe_eq a b \<longleftrightarrow> length a = length b \<and> (\<forall>(x, y)\<in>set (zip a b). x = y)"
    by (simp add: timing_safe_eq_def)
  moreover have "length a = length b \<Longrightarrow> (\<forall>(x, y)\<in>set (zip a b). x = y) \<longleftrightarrow> a = b"
    by (induction a b rule: list_induct2) auto
  ultimately show ?thesis by auto
qed

lemma read_key_file_found: "read_key_file io p n disk = Ok (Some b) \<Longrightarrow> disk p = Some b \<and> length b = n"
  by (auto simp: read_key_file_def read_path_def split: option.splits if_splits)

lemma write_private_Ok: "write_private io p b disk = (Ok u, disk') \<Longrightarrow> disk' = disk(p \<mapsto> b)"
  by (auto simp: write_private_def split: write_result.splits)

lemma load_key_Ok:
  "load_key io p drawn disk = (Ok k, disk') \<Longrightarrow> length drawn = 32 \<Longrightarrow> disk' p = Some k \<and> length k = 32"
  by (auto simp: load_key_def then_state_eq_Ok KEY_LEN_def dest!: read_key_file_found write_private_Ok
      split: outcome.splits option.splits)

lemma check_pub_Ok:
  "check_pub io pub disk = (Ok u, disk') \<Longrightarrow> disk' StaticPub = Some pub"
  by (auto simp: check_pub_def timing_safe_eq_iff dest!: read_key_file_found write_private_Ok
      split: outcome.splits option.splits if_splits)

lemma read_path_sound: "read_path io disk p \<noteq> ReadFails \<Longrightarrow> read_path sound_io disk p = read_path io disk p"
  by (auto simp: read_path_def sound_io_def split: if_splits)

lemma load_cert_sound: "load_cert io disk = Ok c \<Longrightarrow> load_cert sound_io disk = Ok c"
  using read_path_sound [of io disk CertBin]
  by (cases "read_path io disk CertBin") (auto simp: load_cert_def)

lemma load_cas_sound: "load_cas n i io disk = Ok ks \<Longrightarrow> load_cas n i sound_io disk = Ok ks"
proof (induction n arbitrary: i ks)
  case (Suc n)
  then show ?case
    using read_path_sound [of io disk "CaPub i"]
    by (cases "read_path io disk (CaPub i)") (auto split: if_splits)
qed simp

lemma load_key_sound: "disk p = Some k \<Longrightarrow> length k = 32 \<Longrightarrow> load_key sound_io p drawn disk = (Ok k, disk)"
  by (simp add: load_key_def read_key_file_def read_path_def sound_io_def KEY_LEN_def)

lemma check_pub_sound: "disk StaticPub = Some pub \<Longrightarrow> length pub = 32 \<Longrightarrow> check_pub sound_io pub disk = (Ok (), disk)"
  by (simp add: check_pub_def read_key_file_def read_path_def sound_io_def KEY_LEN_def timing_safe_eq_iff)

section \<open>Properties\<close>

text \<open>
  Whatever the file system answers and whatever the loading ends with, no file that exists
  is changed: corrupt, mismatched or unreadable key material is never silently regenerated.
\<close>

theorem key_files_never_replaced: "disk \<subseteq>\<^sub>m snd (load_or_generate cr io secret_draw sig_draw disk)"
  by (auto simp: load_or_generate_def Let_def split: outcome.split
      intro!: then_state_extends load_key_extends check_pub_extends)

text \<open>
  C33: A node keeps its identity: after a first start that succeeds, over whatever files it found,
  a restart on a sound disk returns byte for byte the same keys and writes nothing, whatever
  it would draw. The hypotheses state the fixed sizes of the drawn seeds and of an X25519 result.
\<close>

theorem keys_reload_identical:
  assumes "length secret_draw = 32" "length sig_draw = 32" "\<And>k. length k = 32 \<Longrightarrow> length (x25519 cr k (x25519_base cr)) = 32"
    and "load_or_generate cr io secret_draw sig_draw disk = (Ok k, disk')"
  shows "load_or_generate cr sound_io secret_draw' sig_draw' disk' = (Ok k, disk')"
proof -
  from assms(4) obtain secret d1 d2 sk cert cas where
    s: "load_key io SecretKey secret_draw disk = (Ok secret, d1)"
    and p: "check_pub io (x25519 cr secret (x25519_base cr)) d1 = (Ok (), d2)"
    and g: "load_key io SigKey sig_draw d2 = (Ok sk, disk')"
    and c: "load_cert io disk' = Ok cert" and a: "load_cas MAX_CAS 0 io disk' = Ok cas"
    and k: "k = \<lparr>ks_secret_static = secret, ks_pub_static = x25519 cr secret (x25519_base cr), ks_sig_key = sk,
                 ks_cert = cert, ks_ca_pubs = cas\<rparr>"
    by (auto simp: load_or_generate_def Let_def then_state_eq_Ok split: outcome.splits)
  note le = load_key_extends [of d2 io SigKey sig_draw] check_pub_extends [of d1 io "x25519 cr secret (x25519_base cr)"]
  have "disk' SecretKey = Some secret" "length secret = 32"
    using load_key_Ok [OF s assms(1)] le by (auto simp: p g map_le_def dom_def)
  moreover have "disk' StaticPub = Some (x25519 cr secret (x25519_base cr))"
    using check_pub_Ok [OF p] le(1) by (auto simp: g map_le_def dom_def)
  moreover have "disk' SigKey = Some sk" "length sk = 32" using load_key_Ok [OF g assms(2)] by simp_all
  moreover have "ensure_dir sound_io = Ok ()" by (simp add: ensure_dir_def sound_io_def)
  ultimately show ?thesis
    using load_cert_sound [OF c] load_cas_sound [OF a] assms(3)
    by (simp add: load_or_generate_def load_key_sound check_pub_sound k)
qed

lemma first_start:
  "\<exists>k disk. load_or_generate toy_crypto sound_io (replicate 32 1) (replicate 32 2) Map.empty = (Ok k, disk)
     \<and> ks_secret_static k = replicate 32 1"
  by (simp add: load_or_generate_def ensure_dir_def sound_io_def load_key_def check_pub_def load_cert_def
      read_key_file_def read_path_def write_private_def MAX_CAS_def eval_nat_numeral Let_def)

theorem keys_reload_identical_witness:
  "case load_or_generate toy_crypto sound_io (replicate 32 1) (replicate 32 2) Map.empty of
     (Ok k, disk) \<Rightarrow> load_or_generate toy_crypto sound_io (replicate 32 3) (replicate 32 4) disk = (Ok k, disk)
       \<and> ks_secret_static k = replicate 32 1
   | _ \<Rightarrow> False"
proof -
  have "length (x25519 toy_crypto k (x25519_base toy_crypto)) = 32" if "length k = 32" for k
    using that by (simp add: toy_crypto_def)
  then show ?thesis
    using first_start keys_reload_identical [of "replicate 32 1" "replicate 32 2" toy_crypto sound_io Map.empty]
    by fastforce
qed

end
