(* ===== verification/Ca.thy ===== *)
theory Ca
  imports Codec Token
begin

text \<open>
  The offline certificate authority (src/src/ca.rs): making CA keys, issuing a certificate,
  listing, showing and revoking. The files are a map from the names the code uses; the
  answers of the file system, the clock and the drawn seeds are arguments. The property
  shows that what is issued is not in the format the node reads.
\<close>

definition CA_DOMAIN_CERT :: u8 where "CA_DOMAIN_CERT = 0x01"
definition CA_KEY_LEN :: nat where "CA_KEY_LEN = 32"
definition CA_MAX_LIFETIME_MS :: u64 where "CA_MAX_LIFETIME_MS = 30 * 24 * 3600 * 1000"

datatype ca_error = BadRole | BadTtl | BadCount | NoCaKeys | TtlOverCap | CertUnreadable | CaDirUnwritable

definition serial_of :: "crypto \<Rightarrow> bytes \<Rightarrow> bytes" where
  "serial_of cr tbs = hex_bytes (take 16 (blake2s cr tbs))"

section \<open>Files\<close>

datatype ca_file = CaSigFile nat | CaPubFile nat | IssuedFile bytes

type_synonym ca_disk = "ca_file \<Rightarrow> bytes option"

record ca_io =
  ci_dir_ok :: bool
  ci_readable :: "ca_file \<Rightarrow> bool"
  ci_write :: "ca_file \<Rightarrow> bytes option option"  \<comment> \<open>None when the write completes, else what it leaves\<close>

definition ca_read :: "ca_io \<Rightarrow> ca_file \<Rightarrow> ca_disk \<Rightarrow> bytes option" where
  "ca_read io p disk = (if ci_readable io p then disk p else None)"

definition ca_write :: "ca_io \<Rightarrow> ca_file \<Rightarrow> bytes \<Rightarrow> ca_disk \<Rightarrow> (unit, ca_error) outcome \<times> ca_disk" where
  "ca_write io p bs disk =
     (case ci_write io p of
        None \<Rightarrow> (Ok (), disk(p \<mapsto> bs))
      | Some left \<Rightarrow> (Err CaDirUnwritable, disk(p := left)))"

section \<open>Making the keys\<close>

text \<open>A failure to protect the private key file is ignored.\<close>

fun init_keys :: "crypto \<Rightarrow> ca_io \<Rightarrow> nat \<Rightarrow> bytes list \<Rightarrow> ca_disk \<Rightarrow> (unit, ca_error) outcome \<times> ca_disk" where
  "init_keys cr io i [] disk = (Ok (), disk)"
| "init_keys cr io i (seed # seeds) disk =
     then_state (ca_write io (CaSigFile i) seed disk) (\<lambda>_ disk.
     then_state (ca_write io (CaPubFile i) (ed_public cr seed) disk) (\<lambda>_ disk.
     init_keys cr io (i + 1) seeds disk))"

text \<open>One seed is drawn for each key: the list of the drawn seeds is as long as the count.\<close>

definition ca_init :: "crypto \<Rightarrow> ca_io \<Rightarrow> bytes list \<Rightarrow> ca_disk \<Rightarrow> (unit, ca_error) outcome \<times> ca_disk" where
  "ca_init cr io seeds disk =
     (if length seeds = 0 \<or> length seeds > 8 then (Err BadCount, disk)
      else if \<not> ci_dir_ok io then (Err CaDirUnwritable, disk)
      else init_keys cr io 0 seeds disk)"

section \<open>Issuing\<close>

record issue_req =
  iq_role :: bytes
  iq_subject :: bytes
  iq_scopes :: "bytes list"
  iq_ttl_ms :: u64

definition role_byte_of :: "bytes \<Rightarrow> (u8, ca_error) outcome" where
  "role_byte_of role =
     (if role = ascii ''agent'' then Ok 1
      else if role = ascii ''executor'' then Ok 2
      else if role = ascii ''approver'' then Ok 3
      else Err BadRole)"

text \<open>The keys found from label i on, n of them; a file of another size is skipped.\<close>

fun load_ca_keys :: "nat \<Rightarrow> nat \<Rightarrow> ca_io \<Rightarrow> ca_disk \<Rightarrow> (bytes list, ca_error) outcome" where
  "load_ca_keys 0 i io disk = Ok []"
| "load_ca_keys (Suc n) i io disk =
     (if disk (CaSigFile i) \<noteq> None \<and> disk (CaPubFile i) \<noteq> None then
        and_then (ok_or NoCaKeys (ca_read io (CaSigFile i) disk)) (\<lambda>sig_bytes.
        and_then (ok_or NoCaKeys (ca_read io (CaPubFile i) disk)) (\<lambda>pub_bytes.
        and_then (load_ca_keys n (i + 1) io disk) (\<lambda>ks.
        Ok (if length sig_bytes = CA_KEY_LEN \<and> length pub_bytes = CA_KEY_LEN then sig_bytes # ks else ks))))
      else load_ca_keys n (i + 1) io disk)"

definition issue_tbs :: "u8 \<Rightarrow> u64 \<Rightarrow> u64 \<Rightarrow> issue_req \<Rightarrow> bytes" where
  "issue_tbs role_byte now_ms expiry_ms req =
     [3] @ [role_byte] @ replicate 32 0 @ replicate 32 0 @ to_be_bytes now_ms @ to_be_bytes expiry_ms
     @ to_be_bytes (word_of_nat (length (iq_subject req)) :: u16) @ iq_subject req
     @ [word_of_nat (length (iq_scopes req))] @ concat (iq_scopes req)"

definition ca_issue ::
  "crypto \<Rightarrow> ca_io \<Rightarrow> u64 \<Rightarrow> issue_req \<Rightarrow> ca_disk \<Rightarrow> (bytes, ca_error) outcome \<times> ca_disk" where
  "ca_issue cr io now_ms req disk =
     (case role_byte_of (iq_role req) of
        Err e \<Rightarrow> (Err e, disk)
      | Panic \<Rightarrow> (Panic, disk)
      | Ok role_byte \<Rightarrow>
          if iq_ttl_ms req = 0 then (Err BadTtl, disk)
          else if (role_byte = 3 \<or> role_byte = 2) \<and> iq_ttl_ms req > CA_MAX_LIFETIME_MS
          then (Err TtlOverCap, disk)
          else
            case load_ca_keys 8 0 io disk of
              Err e \<Rightarrow> (Err e, disk)
            | Panic \<Rightarrow> (Panic, disk)
            | Ok signers \<Rightarrow>
                if length signers < 2 then (Err NoCaKeys, disk)
                else
                  case checked_add now_ms (iq_ttl_ms req) of
                    Err e \<Rightarrow> (Err e, disk)
                  | Panic \<Rightarrow> (Panic, disk)
                  | Ok expiry_ms \<Rightarrow>
                      let tbs = issue_tbs role_byte now_ms expiry_ms req;
                          serial_hex = serial_of cr tbs;
                          cert = tbs @ concat (map (\<lambda>k. ed_sign cr k ([CA_DOMAIN_CERT] @ tbs)) signers)
                      in if \<not> ci_dir_ok io then (Err CaDirUnwritable, disk)
                         else then_state (ca_write io (IssuedFile serial_hex) cert disk)
                                (\<lambda>_ disk. (Ok serial_hex, disk)))"

section \<open>Listing, showing, revoking\<close>

text \<open>
  The directory is absent, unreadable, or a list of entries of which any may fail to be read.
\<close>

datatype dir_listing = NoDir | DirFails | Entries "bytes option list"

primrec strip_suffixes :: "nat \<Rightarrow> bytes \<Rightarrow> bytes \<Rightarrow> bytes" where
  "strip_suffixes 0 suffix name = name"
| "strip_suffixes (Suc n) suffix name =
     (if ends_with suffix name then strip_suffixes n suffix (take (length name - length suffix) name) else name)"

primrec list_entries :: "bytes option list \<Rightarrow> (bytes list, ca_error) outcome" where
  "list_entries [] = Ok []"
| "list_entries (entry # rest) =
     (case entry of
        None \<Rightarrow> Err CertUnreadable
      | Some name \<Rightarrow>
          and_then (list_entries rest) (\<lambda>serials.
          Ok (if ends_with (ascii ''.bin'') name
              then strip_suffixes (length name) (ascii ''.bin'') name # serials else serials)))"

definition ca_list :: "dir_listing \<Rightarrow> (bytes list, ca_error) outcome" where
  "ca_list dir =
     (case dir of NoDir \<Rightarrow> Ok [] | DirFails \<Rightarrow> Err CertUnreadable | Entries es \<Rightarrow> list_entries es)"

definition ca_show :: "ca_io \<Rightarrow> bytes \<Rightarrow> ca_disk \<Rightarrow> (bytes, ca_error) outcome" where
  "ca_show io serial disk = ok_or CertUnreadable (ca_read io (IssuedFile serial) disk)"

definition ca_revoke :: "ca_io \<Rightarrow> bytes \<Rightarrow> u64 option \<Rightarrow> ca_disk \<Rightarrow> (bytes, ca_error) outcome" where
  "ca_revoke io serial subject_expiry_ms disk =
     and_then (ca_show io serial disk) (\<lambda>cert_bytes.
     and_then (subslice cert_bytes 0 32) (\<lambda>subject.
     Ok ([7] @ [2] @ subject @ (case subject_expiry_ms of Some expiry \<Rightarrow> to_be_bytes expiry | None \<Rightarrow> []))))"

section \<open>What is issued\<close>

lemma length_issue_tbs:
  "list_all (\<lambda>s. length s = 8) (iq_scopes req) \<Longrightarrow>
     length (issue_tbs r now expiry req) = 85 + length (iq_subject req) + 8 * length (iq_scopes req)"
proof -
  assume "list_all (\<lambda>s. length s = 8) (iq_scopes req)"
  moreover have "list_all (\<lambda>s. length s = 8) ss \<Longrightarrow> length (concat ss) = 8 * length ss" for ss :: "bytes list"
    by (induction ss) simp_all
  ultimately have "length (concat (iq_scopes req)) = 8 * length (iq_scopes req)" by blast
  then show ?thesis by (simp add: issue_tbs_def)
qed

lemma issued_no_cert:
  assumes req: "length (iq_subject req) < 65536" "length (iq_scopes req) < 256" "list_all (\<lambda>s. length s = 8) (iq_scopes req)"
    and sigs: "length sigs = 64 * n"
  shows "\<not> is_ok (parse_cert (issue_tbs r now expiry req @ sigs))"
proof
  assume "is_ok (parse_cert (issue_tbs r now expiry req @ sigs))"
  then obtain c where "parse_cert (issue_tbs r now expiry req @ sigs) = Ok c"
    by (cases "parse_cert (issue_tbs r now expiry req @ sigs)") simp_all
  then have wf: "wf_cert c" and enc: "issue_tbs r now expiry req @ sigs = encode_cert c"
    by (simp_all add: cert_format.parse_Ok_iff)
  note len = arg_cong [OF enc, of length]
  have key: "length (ce_sig_pubkey c) = 32" "length (ce_kex_pubkey c) = 32"
    using wf by (simp_all add: wf_cert_def codec_limits codec_lens)
  define P where "P = [3] @ [r] @ replicate 32 0 @ replicate 32 0 @ to_be_bytes now @ to_be_bytes expiry"
  define Q where "Q = [ce_version c] @ [ce_role_bits c] @ ce_sig_pubkey c @ ce_kex_pubkey c
    @ to_be_bytes (ce_not_before c) @ to_be_bytes (ce_not_after c)"
  have "length P = length Q" by (simp add: P_def Q_def key)
  moreover have "P @ to_be_bytes (word_of_nat (length (iq_subject req)) :: u16) @ iq_subject req
      @ [word_of_nat (length (iq_scopes req))] @ concat (iq_scopes req) @ sigs
    = Q @ to_be_bytes (word_of_nat (length (ce_name c)) :: u16) @ ce_name c
      @ [ce_scope_count c] @ ce_scope_ids c @ [ce_ca_sig_count c] @ ce_ca_sigs c"
    using enc unfolding issue_tbs_def encode_cert_def push_field16_def P_def Q_def by (simp only: append_assoc)
  ultimately have rest: "to_be_bytes (word_of_nat (length (iq_subject req)) :: u16) @ iq_subject req
      @ [word_of_nat (length (iq_scopes req))] @ concat (iq_scopes req) @ sigs
    = to_be_bytes (word_of_nat (length (ce_name c)) :: u16) @ ce_name c
      @ [ce_scope_count c] @ ce_scope_ids c @ [ce_ca_sig_count c] @ ce_ca_sigs c"
    by (metis append_eq_append_conv)
  then have "to_be_bytes (word_of_nat (length (iq_subject req)) :: u16) = to_be_bytes (word_of_nat (length (ce_name c)) :: u16)"
    by (subst (asm) append_eq_append_conv) simp_all
  then have "(word_of_nat (length (iq_subject req)) :: u16) = word_of_nat (length (ce_name c))" by (metis from_to_be_u16)
  then have "unat (word_of_nat (length (iq_subject req)) :: u16) = unat (word_of_nat (length (ce_name c)) :: u16)" by simp
  moreover have "length (ce_name c) < 65536" using wf by (simp add: wf_cert_def codec_limits)
  ultimately have name: "length (ce_name c) = length (iq_subject req)" using req(1) by (simp add: unat_word_of_nat)
  with rest have "word_of_nat (length (iq_scopes req)) = ce_scope_count c"
    by (simp add: append_eq_append_conv)
  then have "unat (ce_scope_count c) = length (iq_scopes req)" using req(2) unat_word_of_nat [of "length (iq_scopes req)", where 'w = 8] by auto
  then have "length (encode_cert c) = 86 + length (iq_subject req) + 8 * length (iq_scopes req) + 96 * unat (ce_ca_sig_count c)"
    using wf name by (simp add: wf_cert_def encode_cert_def push_field16_def codec_limits codec_lens)
  with len have "64 * n = 1 + 96 * unat (ce_ca_sig_count c)" using length_issue_tbs [OF req(3)] sigs by simp
  then show False by presburger
qed

lemma ca_issue_Ok:
  "ca_issue cr io now req disk = (Ok serial, disk') \<Longrightarrow>
     \<exists>r expiry signers. disk' (IssuedFile serial) = Some (issue_tbs r now expiry req
        @ concat (map (\<lambda>k. ed_sign cr k ([CA_DOMAIN_CERT] @ issue_tbs r now expiry req)) signers))"
  by (auto simp: ca_issue_def ca_write_def Let_def then_state_eq_Ok split: outcome.splits if_splits option.splits) blast+

section \<open>Property\<close>

text \<open>
  No certificate the authority issues is one: whatever the request with scopes of 8 bytes, a
  subject below 64 KiB and fewer than 256 scopes, the file it writes is rejected by the
  certificate parser, because the signatures follow the signed part without their count and
  without the keys they belong to. The last hypothesis is the fixed size of an Ed25519 signature.
\<close>

theorem issued_certs_never_parse:
  assumes "length (iq_subject req) < 65536" "length (iq_scopes req) < 256"
    and "list_all (\<lambda>s. length s = 8) (iq_scopes req)"
    and "\<And>k m. length (ed_sign cr k m) = 64"
    and "ca_issue cr io now req disk = (Ok serial, disk')"
  shows "case disk' (IssuedFile serial) of None \<Rightarrow> False | Some file \<Rightarrow> \<not> is_ok (parse_cert file)"
proof -
  have "length (concat (map (ed_sign' :: bytes \<Rightarrow> bytes) ks)) = 64 * length ks"
    if "\<And>k. length (ed_sign' k) = 64" for ed_sign' ks
    using that by (induction ks) simp_all
  then show ?thesis
    using ca_issue_Ok [OF assms(5)] issued_no_cert [OF assms(1-3)] assms(4) by fastforce
qed

definition sample_ca :: ca_disk where
  "sample_ca = [CaSigFile 0 \<mapsto> replicate 32 1, CaPubFile 0 \<mapsto> replicate 32 1,
     CaSigFile 1 \<mapsto> replicate 32 2, CaPubFile 1 \<mapsto> replicate 32 2]"

definition sound_ca_io :: ca_io where
  "sound_ca_io = \<lparr>ci_dir_ok = True, ci_readable = (\<lambda>_. True), ci_write = (\<lambda>_. None)\<rparr>"

definition sample_req :: issue_req where
  "sample_req = \<lparr>iq_role = ascii ''agent'', iq_subject = ascii ''bob'', iq_scopes = [replicate 8 7], iq_ttl_ms = 50\<rparr>"

lemma sample_issue: "is_ok (fst (ca_issue toy_crypto sound_ca_io 1000 sample_req sample_ca))"
proof -
  have "load_ca_keys 8 0 sound_ca_io sample_ca = Ok [replicate 32 1, replicate 32 2]"
    by (simp add: eval_nat_numeral sound_ca_io_def sample_ca_def ca_read_def CA_KEY_LEN_def)
  then show ?thesis
    by (simp add: ca_issue_def sample_req_def role_byte_of_def ascii_def checked_add_def sound_ca_io_def ca_write_def Let_def)
qed

theorem issued_certs_never_parse_witness:
  "case ca_issue toy_crypto sound_ca_io 1000 sample_req sample_ca of
     (Ok serial, disk') \<Rightarrow> (case disk' (IssuedFile serial) of None \<Rightarrow> False | Some file \<Rightarrow> \<not> is_ok (parse_cert file))
   | _ \<Rightarrow> False"
proof -
  obtain r disk' where "ca_issue toy_crypto sound_ca_io 1000 sample_req sample_ca = (r, disk')" by fastforce
  then obtain serial where out: "ca_issue toy_crypto sound_ca_io 1000 sample_req sample_ca = (Ok serial, disk')"
    using sample_issue by (cases r) simp_all
  have "length (ed_sign toy_crypto k m) = 64" for k m by (simp add: toy_crypto_def)
  then have "case disk' (IssuedFile serial) of None \<Rightarrow> False | Some file \<Rightarrow> \<not> is_ok (parse_cert file)"
    by (intro issued_certs_never_parse [OF _ _ _ _ out]) (simp_all add: sample_req_def ascii_def)
  then show ?thesis by (simp add: out)
qed

end
