(* ===== verification/Control.thy ===== *)
theory Control
  imports RustText
begin

text \<open>
  The HTTP front door (src/src/control.rs): connections with their state machine, the table
  of clients and the tick that accepts and advances them. The sockets are arguments: what a
  read returns, how much of a write is taken, what accept returns. Times are milliseconds of a
  monotonic clock; the error texts are the constructors of one type.
\<close>

definition CONN_TIMEOUT_MS :: nat where "CONN_TIMEOUT_MS = 5000"
definition SLOWLORIS_SIZE :: nat where "SLOWLORIS_SIZE = 1024"
definition MAX_CLIENTS :: nat where "MAX_CLIENTS = 8"

datatype conn_state = ReadingHeaders | ReadingBody | Writing | Closing

datatype ctl_error =
  DeadlineExceeded | SlowlorisGuard | ReadFailed | InvalidUtf8 | InvalidContentLength | WriteFailed | AcceptFailed

record connection =
  cn_state :: conn_state
  cn_buf :: bytes
  cn_deadline :: nat
  cn_content_length :: "nat option"
  cn_sent :: bytes  \<comment> \<open>what the stream has taken\<close>

definition conn_new :: "nat \<Rightarrow> connection" where
  "conn_new now =
     \<lparr>cn_state = ReadingHeaders, cn_buf = [], cn_deadline = now + CONN_TIMEOUT_MS,
      cn_content_length = None, cn_sent = []\<rparr>"

section \<open>The declared length\<close>

text \<open>The lines of a text, without their endings (str::lines).\<close>

definition strip_cr :: "bytes \<Rightarrow> bytes" where
  "strip_cr l = (if l \<noteq> [] \<and> last l = 13 then butlast l else l)"

function text_lines :: "bytes \<Rightarrow> bytes list" where
  "text_lines bs =
     (if bs = [] then []
      else case position (\<lambda>b. b = 10) bs of
        None \<Rightarrow> [bs]
      | Some i \<Rightarrow> strip_cr (take i bs) # text_lines (drop (i + 1) bs))"
  by auto
termination
  by (relation "measure length") auto

declare text_lines.simps [simp del]

text \<open>
  The code lowers the whole line; no character outside ASCII lowers to one of the letters of
  the prefix, so the test is on the first 15 bytes.
\<close>

definition is_length_line :: "bytes \<Rightarrow> bool" where
  "is_length_line l \<longleftrightarrow> map to_ascii_lowercase (take 15 l) = ascii ''content-length:''"

definition parse_content_length :: "bytes \<Rightarrow> (nat option, ctl_error) outcome" where
  "parse_content_length headers =
     (if \<not> from_utf8 headers then Err InvalidUtf8
      else case find is_length_line (text_lines headers) of
        None \<Rightarrow> Ok None
      | Some l \<Rightarrow>
          and_then (ok_or InvalidContentLength (parse_u64 (trim (drop 15 l)))) (\<lambda>len. Ok (Some len)))"

section \<open>Reading and writing\<close>

datatype read_event = Bytes bytes | WouldBlock | ReadError

definition CRLF2 :: bytes where "CRLF2 = [13, 10, 13, 10]"

definition read_headers :: "connection \<Rightarrow> (unit, ctl_error) outcome \<times> connection" where
  "read_headers c =
     (if cn_state c = ReadingHeaders \<and> length (cn_buf c) \<ge> SLOWLORIS_SIZE \<and> find_sub [13, 10] (cn_buf c) = None
      then (Err SlowlorisGuard, c)
      else if cn_state c = ReadingHeaders then
        (case find_sub CRLF2 (cn_buf c) of
           None \<Rightarrow> (Ok (), c)
         | Some pos \<Rightarrow>
             let headers_end = pos + 4 in
             case parse_content_length (take headers_end (cn_buf c)) of
               Err e \<Rightarrow> (Err e, c)
             | Panic \<Rightarrow> (Panic, c)
             | Ok content_length \<Rightarrow>
                 let c = c\<lparr>cn_content_length := content_length\<rparr> in
                 case content_length of
                   None \<Rightarrow> (Ok (), c\<lparr>cn_state := Writing\<rparr>)
                 | Some len \<Rightarrow>
                     if headers_end + len \<ge> 2 ^ 64 then (Panic, c)
                     else if length (cn_buf c) < headers_end + len then (Ok (), c\<lparr>cn_state := ReadingBody\<rparr>)
                     else (Ok (), c\<lparr>cn_state := Writing\<rparr>))
      else (Ok (), c))"

definition poll_readable :: "nat \<Rightarrow> read_event \<Rightarrow> connection \<Rightarrow> (unit, ctl_error) outcome \<times> connection" where
  "poll_readable now ev c =
     (if now > cn_deadline c then (Err DeadlineExceeded, c)
      else case ev of
        Bytes bs \<Rightarrow>
          if bs = [] then (Ok (), c\<lparr>cn_state := Closing\<rparr>)
          else read_headers (c\<lparr>cn_buf := cn_buf c @ bs\<rparr>)
      | WouldBlock \<Rightarrow> (Ok (), c)
      | ReadError \<Rightarrow> (Err ReadFailed, c))"

definition status_text :: "nat \<Rightarrow> bytes" where
  "status_text status =
     (if status = 200 then ascii ''OK''
      else if status = 400 then ascii ''Bad Request''
      else if status = 403 then ascii ''Forbidden''
      else if status = 404 then ascii ''Not Found''
      else if status = 500 then ascii ''Internal Server Error''
      else if status = 501 then ascii ''Not Implemented''
      else if status = 503 then ascii ''Service Unavailable''
      else ascii ''Unknown'')"

definition response_head :: "nat \<Rightarrow> bytes \<Rightarrow> bytes" where
  "response_head status body =
     ascii ''HTTP/1.1 '' @ to_decimal status @ [32] @ status_text status @ [13, 10]
     @ ascii ''Content-Length: '' @ to_decimal (length body) @ [13, 10]
     @ ascii ''Connection: close'' @ [13, 10, 13, 10]"

text \<open>The argument is the number of bytes the stream takes before a write fails, None when it never does.\<close>

definition write_http_response ::
  "nat option \<Rightarrow> nat \<Rightarrow> bytes \<Rightarrow> connection \<Rightarrow> (unit, ctl_error) outcome \<times> connection" where
  "write_http_response takes status body c =
     (case takes of
        None \<Rightarrow> (Ok (), c\<lparr>cn_sent := cn_sent c @ response_head status body @ body, cn_state := Closing\<rparr>)
      | Some n \<Rightarrow> (Err WriteFailed, c\<lparr>cn_sent := cn_sent c @ take n (response_head status body @ body)\<rparr>))"

section \<open>The table of clients\<close>

datatype accept_event = NoConnection | AcceptError | Connected bool "nat option"
  \<comment> \<open>a connection: whether it can be made non-blocking, and how its writes end\<close>

definition accept_client ::
  "nat \<Rightarrow> accept_event \<Rightarrow> connection list \<Rightarrow> (unit, ctl_error) outcome \<times> connection list" where
  "accept_client now ev clients =
     (case ev of
        NoConnection \<Rightarrow> (Ok (), clients)
      | AcceptError \<Rightarrow> (Err AcceptFailed, clients)
      | Connected nonblocking takes \<Rightarrow>
          if length clients \<ge> MAX_CLIENTS then
            (fst (write_http_response takes 503 (ascii ''table full'') (conn_new now)), clients)
          else if \<not> nonblocking then (Err AcceptFailed, clients)
          else (Ok (), clients @ [conn_new now]))"

text \<open>Advancing the clients from index i on, each with what its read returns: the clients and the
  indices to remove.\<close>

fun advance_clients ::
  "nat \<Rightarrow> (nat \<Rightarrow> read_event) \<Rightarrow> nat \<Rightarrow> connection list \<Rightarrow> (connection list \<times> nat list, ctl_error) outcome" where
  "advance_clients now evs i [] = Ok ([], [])"
| "advance_clients now evs i (c # cs) =
     (case poll_readable now (evs i) c of
        (Panic, c') \<Rightarrow> Panic
      | (r, c') \<Rightarrow>
          and_then (advance_clients now evs (i + 1) cs) (\<lambda>(cs', to_remove).
          Ok (c' # cs', if r = Ok () \<and> cn_state c' \<noteq> Closing then to_remove else i # to_remove)))"

definition remove_at :: "nat \<Rightarrow> 'a list \<Rightarrow> 'a list" where
  "remove_at i xs = take i xs @ drop (i + 1) xs"

definition poll_tick ::
  "nat \<Rightarrow> accept_event \<Rightarrow> (nat \<Rightarrow> read_event) \<Rightarrow> connection list \<Rightarrow> (unit, ctl_error) outcome \<times> connection list" where
  "poll_tick now acc evs clients =
     then_state (accept_client now acc clients) (\<lambda>_ clients.
       case advance_clients now evs 0 clients of
         Ok (clients', to_remove) \<Rightarrow> (Ok (), fold remove_at (rev to_remove) clients')
       | Err e \<Rightarrow> (Err e, clients)
       | Panic \<Rightarrow> (Panic, clients))"

section \<open>What a tick leaves\<close>

text \<open>The clients a pass keeps: those whose read succeeds and does not close them.\<close>

definition survives :: "nat \<Rightarrow> read_event \<Rightarrow> connection \<Rightarrow> connection option" where
  "survives now ev c =
     (case poll_readable now ev c of
        (Ok _, c') \<Rightarrow> if cn_state c' = Closing then None else Some c'
      | _ \<Rightarrow> None)"

definition panics :: "nat \<Rightarrow> read_event \<Rightarrow> connection \<Rightarrow> bool" where
  "panics now ev c \<longleftrightarrow> fst (poll_readable now ev c) = Panic"

fun survivors :: "nat \<Rightarrow> (nat \<Rightarrow> read_event) \<Rightarrow> nat \<Rightarrow> connection list \<Rightarrow> connection list" where
  "survivors now evs i [] = []"
| "survivors now evs i (c # cs) =
     (case survives now (evs i) c of None \<Rightarrow> [] | Some c' \<Rightarrow> [c']) @ survivors now evs (i + 1) cs"

fun any_panics :: "nat \<Rightarrow> (nat \<Rightarrow> read_event) \<Rightarrow> nat \<Rightarrow> connection list \<Rightarrow> bool" where
  "any_panics now evs i [] \<longleftrightarrow> False"
| "any_panics now evs i (c # cs) \<longleftrightarrow> panics now (evs i) c \<or> any_panics now evs (i + 1) cs"

lemma advance_clients_eq:
  "if any_panics now evs i cs then advance_clients now evs i cs = Panic
   else \<exists>cs' rm. advance_clients now evs i cs = Ok (cs', rm)
     \<and> (\<forall>pre. length pre = i \<longrightarrow> fold remove_at (rev rm) (pre @ cs') = pre @ survivors now evs i cs)"
proof (induction cs arbitrary: i)
  case (Cons c cs)
  obtain r c' where p: "poll_readable now (evs i) c = (r, c')" by fastforce
  show ?case
  proof (cases "r = Panic \<or> any_panics now evs (i + 1) cs")
    case True
    then show ?thesis using Cons.IH [of "i + 1"] by (cases r) (auto simp: p panics_def)
  next
    case False
    then obtain cs' rm where adv: "advance_clients now evs (i + 1) cs = Ok (cs', rm)"
      and rem: "\<And>pre. length pre = i + 1 \<Longrightarrow> fold remove_at (rev rm) (pre @ cs') = pre @ survivors now evs (i + 1) cs"
      using Cons.IH [of "i + 1"] by auto
    have rem': "fold remove_at (rev rm) (pre @ c' # cs') = pre @ c' # survivors now evs (i + 1) cs" if "length pre = i" for pre
      using rem [of "pre @ [c']"] that by simp
    show ?thesis
      using False adv rem' by (cases r) (auto simp: p panics_def survives_def remove_at_def)
  qed
qed simp

lemma poll_tick_eq:
  "poll_tick now acc evs clients =
     (case accept_client now acc clients of
        (Ok _, cs) \<Rightarrow> if any_panics now evs 0 cs then (Panic, cs) else (Ok (), survivors now evs 0 cs)
      | (Err e, cs) \<Rightarrow> (Err e, cs)
      | (Panic, cs) \<Rightarrow> (Panic, cs))"
proof (cases "accept_client now acc clients")
  case (Pair r cs)
  then show ?thesis
    using advance_clients_eq [of now evs 0 cs] by (cases r) (auto simp: poll_tick_def)
qed

section \<open>What a connection knows\<close>

text \<open>
  The headers are incomplete while they are read, and bounded until a line ends; a request
  is handed over only when its head is complete and, with a declared length, so is its body.
\<close>

definition head_end :: "connection \<Rightarrow> nat option" where
  "head_end c = find_sub CRLF2 (cn_buf c)"

definition conn_inv :: "connection \<Rightarrow> bool" where
  "conn_inv c =
     (case cn_state c of
        ReadingHeaders \<Rightarrow> head_end c = None \<and> (find_sub [13, 10] (cn_buf c) = None \<longrightarrow> length (cn_buf c) < 1024)
      | ReadingBody \<Rightarrow> head_end c \<noteq> None
          \<and> parse_content_length (take (the (head_end c) + 4) (cn_buf c)) = Ok (cn_content_length c) \<and> cn_content_length c \<noteq> None
      | Writing \<Rightarrow> head_end c \<noteq> None
          \<and> parse_content_length (take (the (head_end c) + 4) (cn_buf c)) = Ok (cn_content_length c)
          \<and> (case cn_content_length c of None \<Rightarrow> True | Some n \<Rightarrow> the (head_end c) + 4 + n \<le> length (cn_buf c))
      | Closing \<Rightarrow> True)"

lemma head_end_append:
  assumes "find_sub CRLF2 buf = Some i"
  shows "find_sub CRLF2 (buf @ bs) = Some i" "i + 4 - length buf = 0"
  using find_sub_append [OF assms] find_sub_SomeD [OF assms] by (simp_all add: CRLF2_def)

lemma poll_keeps_inv:
  assumes "conn_inv c" "poll_readable now ev c = (Ok u, c')"
  shows "conn_inv c'"
proof (cases "cn_state c")
  case ReadingHeaders
  then show ?thesis
    using assms
    by (auto simp: poll_readable_def read_headers_def conn_inv_def head_end_def SLOWLORIS_SIZE_def Let_def not_le
        split: read_event.splits if_splits option.splits outcome.splits)
next
  case ReadingBody
  then show ?thesis
    using assms
    by (auto simp: poll_readable_def read_headers_def conn_inv_def head_end_def head_end_append
        split: read_event.splits if_splits)
next
  case Writing
  then show ?thesis
    using assms
    by (auto simp: poll_readable_def read_headers_def conn_inv_def head_end_def head_end_append
        split: read_event.splits if_splits option.splits)
next
  case Closing
  then show ?thesis
    using assms by (auto simp: poll_readable_def read_headers_def conn_inv_def split: read_event.splits if_splits)
qed

lemma write_keeps_inv: "conn_inv c \<Longrightarrow> write_http_response takes status body c = (Ok u, c') \<Longrightarrow> conn_inv c'"
  by (auto simp: write_http_response_def conn_inv_def split: option.splits)

lemma conn_new_inv: "conn_inv (conn_new now)"
  by (simp add: conn_new_def conn_inv_def head_end_def CRLF2_def)

section \<open>The table over time\<close>

datatype control_op = Tick nat accept_event "nat \<Rightarrow> read_event" | Respond nat "nat option" nat bytes

fun control_step :: "control_op \<Rightarrow> connection list \<Rightarrow> connection list" where
  "control_step (Tick now acc evs) cs = snd (poll_tick now acc evs cs)"
| "control_step (Respond i takes status body) cs =
     (if i < length cs then cs[i := snd (write_http_response takes status body (cs ! i))] else cs)"

definition clients_inv :: "connection list \<Rightarrow> bool" where
  "clients_inv cs \<longleftrightarrow> length cs \<le> 8 \<and> list_all conn_inv cs"

lemma survivors_inv: "list_all conn_inv cs \<Longrightarrow> list_all conn_inv (survivors now evs i cs)"
  by (induction cs arbitrary: i)
    (auto simp: survives_def dest: poll_keeps_inv split: option.splits prod.splits outcome.splits if_splits)

lemma length_survivors: "length (survivors now evs i cs) \<le> length cs"
  by (induction cs arbitrary: i) (auto split: option.splits simp: le_SucI)

lemma accept_client_inv: "clients_inv cs \<Longrightarrow> clients_inv (snd (accept_client now acc cs))"
  by (auto simp: accept_client_def clients_inv_def MAX_CLIENTS_def conn_new_inv split: accept_event.split)

lemma poll_tick_inv: "clients_inv cs \<Longrightarrow> clients_inv (snd (poll_tick now acc evs cs))"
  using accept_client_inv [of cs now acc]
  by (auto simp: poll_tick_eq clients_inv_def survivors_inv intro: le_trans [OF length_survivors]
      split: prod.splits outcome.splits)

lemma write_http_response_inv: "conn_inv c \<Longrightarrow> conn_inv (snd (write_http_response takes status body c))"
  by (auto simp: write_http_response_def conn_inv_def head_end_def split: option.split conn_state.split)

interpretation clients: guarded_machine "[]" control_step clients_inv
proof unfold_locales
  show "clients_inv []" by (simp add: clients_inv_def)
  fix cs op
  assume "clients_inv cs"
  then show "clients_inv (control_step op cs)"
    by (cases op) (simp_all add: poll_tick_inv, auto simp: clients_inv_def list_all_length nth_list_update write_http_response_inv)
qed

section \<open>Two defects\<close>

text \<open>
  A declared length of 2^64 - 1 overflows the addition of the head's length, and the checked
  arithmetic of the release profile turns the request of any client into a panic.
\<close>

definition overflow_request :: bytes where
  "overflow_request = ascii ''GET / HTTP/1.1'' @ [13, 10] @ ascii ''Content-Length: 18446744073709551615'' @ CRLF2"

lemma overflow_line: "text_lines overflow_request = [ascii ''GET / HTTP/1.1'', ascii ''Content-Length: 18446744073709551615'', []]"
  by (simp add: overflow_request_def ascii_def CRLF2_def text_lines.simps strip_cr_def)

lemma overflow_length: "parse_content_length overflow_request = Ok (Some (2 ^ 64 - 1))"
proof -
  have "from_utf8 overflow_request" by (rule from_utf8_ascii) (simp add: overflow_request_def ascii_def CRLF2_def)
  moreover have "trim (drop 15 (ascii ''Content-Length: 18446744073709551615'')) = ascii ''18446744073709551615''"
    by (simp add: trim_def trim_start_def trim_end_def ascii_def white_spaces_def starts_with_def ends_with_def)
  moreover have "parse_u64 (ascii ''18446744073709551615'') = Some (2 ^ 64 - 1)"
    by (simp add: parse_u64_def ascii_def is_ascii_digit_def digits_value_def)
  ultimately show ?thesis
    by (simp add: parse_content_length_def overflow_line is_length_line_def ascii_def to_ascii_lowercase_def)
qed

lemma declared_length_panics: "fst (poll_readable 0 (Bytes overflow_request) (conn_new 0)) = Panic"
proof -
  have "find_sub CRLF2 overflow_request = Some (length overflow_request - 4)"
    by (simp add: overflow_request_def ascii_def CRLF2_def)
  moreover have "find_sub [13, 10] overflow_request \<noteq> None" "4 \<le> length overflow_request"
    by (simp_all add: overflow_request_def ascii_def CRLF2_def)
  moreover have "overflow_request \<noteq> []" by (simp add: overflow_request_def ascii_def)
  ultimately show ?thesis
    by (simp add: poll_readable_def read_headers_def conn_new_def overflow_length)
qed

text \<open>
  A connection that waits for its body never becomes ready: the length is compared only in
  the read that completes the head, so that a body arriving later is never answered.
\<close>

lemma late_body_never_answered:
  "cn_state c = ReadingBody \<Longrightarrow> cn_state (snd (poll_readable now ev c)) \<noteq> Writing"
  by (auto simp: poll_readable_def read_headers_def split: read_event.split)

text \<open>
  The guard on the size of a head looks only for a line end: a head that has one and never ends
  grows, read by read, until the deadline of the connection, whatever its size. The contract of
  the front door asks for an answer 400 beyond a cap.
\<close>

definition trickle :: "nat \<Rightarrow> connection" where
  "trickle n = (conn_new 0)\<lparr>cn_buf := [71, 13, 10] @ replicate n 120\<rparr>"

lemma trickle_unfinished: "find_sub CRLF2 (cn_buf (trickle n)) = None"
proof (rule ccontr)
  let ?buf = "cn_buf (trickle n)" and ?ends = "\<lambda>xs. length (filter (\<lambda>x. x = 10) xs)"
  assume "find_sub CRLF2 ?buf \<noteq> None"
  then obtain i where "find_sub CRLF2 ?buf = Some i" by blast
  then have "take (length CRLF2) (drop i ?buf) = CRLF2" using find_sub_SomeD by blast
  then have "?buf = take i ?buf @ CRLF2 @ drop (length CRLF2) (drop i ?buf)" by (metis append_take_drop_id)
  then have "?ends ?buf = ?ends (take i ?buf @ CRLF2 @ drop (length CRLF2) (drop i ?buf))" by simp
  then have "2 \<le> ?ends ?buf" by (simp only: filter_append length_append) (simp add: CRLF2_def)
  then show False by (simp add: trickle_def)
qed

lemma trickle_grows:
  assumes "now \<le> CONN_TIMEOUT_MS"
  shows "poll_readable now (Bytes [120]) (trickle n) = (Ok (), trickle (Suc n))"
proof -
  have "trickle n\<lparr>cn_buf := cn_buf (trickle n) @ [120]\<rparr> = trickle (Suc n)"
    by (simp add: trickle_def replicate_append_same)
  moreover have "find_sub [13, 10] (cn_buf (trickle (Suc n))) \<noteq> None" by (simp add: trickle_def)
  moreover have "cn_state (trickle m) = ReadingHeaders" "cn_deadline (trickle m) = CONN_TIMEOUT_MS" for m
    by (simp_all add: trickle_def conn_new_def)
  ultimately show ?thesis
    using assms trickle_unfinished [of "Suc n"] by (simp add: poll_readable_def read_headers_def)
qed

lemma trickle_tick: "control_step (Tick 0 NoConnection (\<lambda>_. Bytes [120])) [trickle n] = [trickle (Suc n)]"
  by (simp add: poll_tick_eq accept_client_def survives_def panics_def trickle_grows) (simp add: trickle_def conn_new_def)

lemma head_grows_unbounded:
  "(control_step (Tick 0 NoConnection (\<lambda>_. Bytes [120])) ^^ n) [trickle 0] = [trickle n]
   \<and> cn_state (trickle n) = ReadingHeaders \<and> length (cn_buf (trickle n)) = n + 3"
proof (intro conjI)
  show "(control_step (Tick 0 NoConnection (\<lambda>_. Bytes [120])) ^^ n) [trickle 0] = [trickle n]"
    by (induction n) (simp_all add: trickle_tick del: control_step.simps)
qed (simp_all add: trickle_def conn_new_def)

section \<open>Properties\<close>

text \<open>
  C34: Over any ticks and responses there are at most eight clients, a connection keeps at most
  1023 bytes as long as they hold no line end (a head with a line end has no bound, which
  head_grows_unbounded shows), and one that is ready to be answered has received its whole
  head and, when the head declares a length, its whole body.
\<close>

theorem control_clients_invariant: "clients_inv (fold control_step ops [])"
  by (rule clients.inv_run)

text \<open>
  A tick accepts at most one client, answers it 503 when the table is full, and keeps, in
  order, exactly the clients whose read succeeds and does not close them; a panic of one read
  is a panic of the tick.
\<close>

theorem poll_tick_exact:
  "poll_tick now acc evs clients =
     (case accept_client now acc clients of
        (Ok _, cs) \<Rightarrow> if any_panics now evs 0 cs then (Panic, cs) else (Ok (), survivors now evs 0 cs)
      | (Err e, cs) \<Rightarrow> (Err e, cs)
      | (Panic, cs) \<Rightarrow> (Panic, cs))"
  by (rule poll_tick_eq)

end
