(* ===== verification/Daemon.thy ===== *)
theory Daemon
  imports Keys HttpParse Handshake Session Verify GrantLedger ControlApi Control
begin

text \<open>
  The node core (src/src/daemon.rs): the state that owns every component and the handlers of
  the wire path, from the datagram to the router, with the rejection counters and the event
  ring. The handlers take the clock, the drawn ephemeral secret, the answer of the socket to
  a send and the answers of the disk as arguments. The handlers return nothing in the code; here
  they return the state and whether they panicked.
\<close>

section \<open>State\<close>

record daemon =
  dm_keys :: keys
  dm_ledger :: "grant_ledger option"
  dm_mem :: evidence_ledger
  dm_intents :: intent_table
  dm_senders :: sender_table
  dm_resolver :: resolver
  dm_ring :: event_ring
  dm_metrics :: metrics
  dm_sessions :: session_table
  dm_control :: "connection list option"
  dm_token :: "bytes option"
  dm_ctl_requests :: nat
  dm_ctl_auth_refused :: nat
  dm_rejected_total :: nat
  dm_wire :: wire_counters
  dm_hs :: hs_table
  dm_peer_static :: "bytes option list"
  dm_certs :: "(bytes \<times> bytes) list"

definition daemon_new :: "crypto \<Rightarrow> keys \<Rightarrow> daemon" where
  "daemon_new cr k =
     \<lparr>dm_keys = k, dm_ledger = None, dm_mem = evidence_ledger_new, dm_intents = table_new,
      dm_senders = sender_table_new, dm_resolver = resolver_new cr (keys_sig_pub cr k), dm_ring = ring_new,
      dm_metrics = \<lparr>mt_admitted_total = 0\<rparr>, dm_sessions = session_table_new, dm_control = None,
      dm_token = None, dm_ctl_requests = 0, dm_ctl_auth_refused = 0, dm_rejected_total = 0,
      dm_wire = wire_counters_new, dm_hs = hs_table_new, dm_peer_static = replicate HS_MAX_SESSIONS None,
      dm_certs = []\<rparr>"

type_synonym handled = "(unit, ctl_error) outcome \<times> daemon"

definition add_resource :: "bytes \<Rightarrow> daemon \<Rightarrow> (unit, resolve_error) outcome \<times> daemon" where
  "add_resource canonical d =
     (case resolver_add canonical (dm_resolver d) of (res, r) \<Rightarrow> (res, d\<lparr>dm_resolver := r\<rparr>))"

definition attach_ledger ::
  "open_answer \<Rightarrow> bool \<Rightarrow> ledger_disk \<Rightarrow> daemon \<Rightarrow> (unit, ledger_error) outcome \<times> daemon" where
  "attach_ledger io locked disk d =
     (case fst (ledger_open io locked disk) of
        Ok l \<Rightarrow> (Ok (), d\<lparr>dm_ledger := Some l\<rparr>)
      | Err e \<Rightarrow> (Err e, d)
      | Panic \<Rightarrow> (Panic, d))"

text \<open>The argument is whether the listening socket could be bound.\<close>

definition attach_control :: "bool \<Rightarrow> daemon \<Rightarrow> (unit, unit) outcome \<times> daemon" where
  "attach_control bound d = (if bound then (Ok (), d\<lparr>dm_control := Some []\<rparr>) else (Err (), d))"

definition handshake_slots_used :: "daemon \<Rightarrow> nat" where
  "handshake_slots_used d = length (filter (\<lambda>s. s \<noteq> None) (dm_hs d))"

definition sender_cert_count :: "daemon \<Rightarrow> nat" where
  "sender_cert_count d = length (dm_certs d)"

definition peer_static_present :: "daemon \<Rightarrow> nat \<Rightarrow> (bool, 'e) outcome" where
  "peer_static_present d idx = and_then (index_at (dm_peer_static d) idx) (\<lambda>s. Ok (s \<noteq> None))"

section \<open>Counting\<close>

definition bump_wire :: "reject_class \<Rightarrow> daemon \<Rightarrow> handled" where
  "bump_wire c d = (case bump c (dm_wire d) of (res, w) \<Rightarrow> (res, d\<lparr>dm_wire := w\<rparr>))"

text \<open>A rejection counts in the total and in its class.\<close>

definition reject :: "reject_class \<Rightarrow> daemon \<Rightarrow> handled" where
  "reject c d =
     (case count_up (dm_rejected_total d) 1 of
        Ok n \<Rightarrow> bump_wire c (d\<lparr>dm_rejected_total := n\<rparr>)
      | Err e \<Rightarrow> (Err e, d)
      | Panic \<Rightarrow> (Panic, d))"

section \<open>Slots\<close>

definition release_hs_slot :: "nat \<Rightarrow> daemon \<Rightarrow> daemon" where
  "release_hs_slot idx d =
     d\<lparr>dm_hs := release_slot idx (dm_hs d),
       dm_sessions := session_release (word_of_nat idx) (dm_sessions d),
       dm_peer_static := (dm_peer_static d)[idx := None]\<rparr>"

definition release_stale_slots :: "u64 \<Rightarrow> daemon \<Rightarrow> handled" where
  "release_stale_slots now d =
     (case release_stale now T_HS_IDLE_MS (dm_hs d) of
        (freed, hs) \<Rightarrow>
          let d = fold release_hs_slot freed (d\<lparr>dm_hs := hs\<rparr>) in
          (case count_up (wc_handshake_released_total (dm_wire d)) (length freed) of
             Ok n \<Rightarrow> (Ok (), d\<lparr>dm_wire := (dm_wire d)\<lparr>wc_handshake_released_total := n\<rparr>\<rparr>)
           | Err e \<Rightarrow> (Err e, d)
           | Panic \<Rightarrow> (Panic, d)))"

section \<open>Handshakes\<close>

definition admit_session :: "nat \<Rightarrow> u64 \<Rightarrow> daemon \<Rightarrow> handled" where
  "admit_session slot now d =
     (case dm_hs d ! slot of
        None \<Rightarrow> (Ok (), d)
      | Some s \<Rightarrow>
          (case session_admit (word_of_nat slot) 0 (hs_send_key s) (hs_recv_key s) (hs_hash s) now (dm_sessions d) of
             (Ok _, t) \<Rightarrow>
               (Ok (), d\<lparr>dm_sessions := t, dm_peer_static := (dm_peer_static d)[slot := Some (hs_peer_static s)]\<rparr>)
           | (Err e, t) \<Rightarrow> (Ok (), d\<lparr>dm_sessions := t\<rparr>)
           | (Panic, t) \<Rightarrow> (Panic, d\<lparr>dm_sessions := t\<rparr>)))"

definition handle_handshake ::
  "crypto \<Rightarrow> (bytes \<Rightarrow> bool) \<Rightarrow> bytes \<Rightarrow> u64 \<Rightarrow> u64 \<Rightarrow> bytes \<Rightarrow> daemon \<Rightarrow> handled" where
  "handle_handshake cr send eph now now2 pkt d =
     (case process_datagram cr pkt (ks_secret_static (dm_keys d)) (keys_sig_pub cr (dm_keys d)) send eph now (dm_hs d) of
        (res, hs, sent) \<Rightarrow>
          let d = d\<lparr>dm_hs := hs\<rparr> in
          then_state (if res = Err HsTableFull then bump_wire HandshakeFull d else (Ok (), d)) (\<lambda>_ d.
            case res of
              Ok slot \<Rightarrow> admit_session slot now2 d
            | Err e \<Rightarrow> (Ok (), d)
            | Panic \<Rightarrow> (Panic, d)))"

section \<open>Binding\<close>

text \<open>Setting the bound flag through the reference a lookup returns.\<close>

definition set_bound :: "u32 \<Rightarrow> session_table \<Rightarrow> session_table" where
  "set_bound i t = (case session_lookup i t of Some s \<Rightarrow> session_put i (s\<lparr>se_bound := True\<rparr>) t | None \<Rightarrow> t)"

definition handle_binding ::
  "crypto \<Rightarrow> u64 \<Rightarrow> bytes \<Rightarrow> bytes \<Rightarrow> u32 \<Rightarrow> u32 \<Rightarrow> daemon \<Rightarrow> handled" where
  "handle_binding cr now plain handshake_hash slot receiver_idx d =
     (if length plain < 2 + 64 then reject RejBinding d
      else
        let cert_len = unat (from_be_bytes (take 2 plain) :: u16) in
        if length plain < 2 + cert_len + 64 then reject RejBinding d
        else
          let cert_wire = take cert_len (drop 2 plain);
              bind_sig = take 64 (drop (2 + cert_len) plain) in
          case parse_cert cert_wire of
            Err e \<Rightarrow> reject RejBinding d
          | Panic \<Rightarrow> (Panic, d)
          | Ok cert \<Rightarrow>
              (case index_at (dm_peer_static d) (unat slot) of
                 Err e \<Rightarrow> (Err e, d)
               | Panic \<Rightarrow> (Panic, d)
               | Ok None \<Rightarrow> (Ok (), d)
               | Ok (Some peer_static) \<Rightarrow>
                   (case bind_session cr (view_of cert) bind_sig handshake_hash peer_static (ks_ca_pubs (dm_keys d)) now of
                      Ok _ \<Rightarrow>
                        (Ok (), d\<lparr>dm_sessions := set_bound receiver_idx (dm_sessions d),
                                 dm_certs := dm_certs d @ [(ce_sig_pubkey cert, cert_wire)]\<rparr>)
                    | Err e \<Rightarrow> reject RejBinding d
                    | Panic \<Rightarrow> (Panic, d))))"

section \<open>Dispatch\<close>

text \<open>Ids of another length are read as zeros.\<close>

definition padded_id :: "bytes \<Rightarrow> bytes" where
  "padded_id gid = (if length gid = 16 then gid else replicate 16 0)"

definition parsed_certs :: "(bytes \<times> bytes) list \<Rightarrow> (bytes \<times> cert) list" where
  "parsed_certs certs = List.map_filter (\<lambda>(k, w). case parse_cert w of Ok c \<Rightarrow> Some (k, c) | _ \<Rightarrow> None) certs"

definition cert_for_sender :: "(bytes \<times> bytes) list \<Rightarrow> bytes \<Rightarrow> cert option" where
  "cert_for_sender certs sender = map_option snd (find (\<lambda>(k, _). k = sender) (parsed_certs certs))"

text \<open>The shipped effect commits the consumption, ignores whether that worked, and declines.\<close>

definition execute_effect ::
  "disk_write \<Rightarrow> prune_answer \<Rightarrow> u64 \<Rightarrow> grant \<Rightarrow> grant_ledger option \<Rightarrow> effect_outcome \<times> grant_ledger option" where
  "execute_effect io pio now g ledger =
     (EffectDeclined,
      map_option (\<lambda>lg. snd (commit_consumed io pio (padded_id (gr_grant_id g)) (gr_not_after g) now lg)) ledger)"

definition node_already_consumed :: "bytes \<Rightarrow> u64 \<Rightarrow> u64 \<Rightarrow> grant_ledger option \<Rightarrow> bool" where
  "node_already_consumed gid expiry now ledger =
     (case ledger of None \<Rightarrow> False | Some lg \<Rightarrow> is_consumed (padded_id gid) lg)"

definition node_hooks ::
  "disk_write \<Rightarrow> prune_answer \<Rightarrow> (bytes \<times> bytes) list \<Rightarrow> u64 \<Rightarrow> grant_ledger option hooks" where
  "node_hooks io pio certs now =
     \<lparr>hk_execute_effect = execute_effect io pio now, hk_cert_for_sender = cert_for_sender certs,
      hk_on_rejected = (\<lambda>_ s. s), hk_is_revoked = (\<lambda>_. False), hk_already_consumed = node_already_consumed\<rparr>"

definition placeholder_cert :: cert where
  "placeholder_cert =
     \<lparr>ce_version = 0, ce_role_bits = 0, ce_sig_pubkey = [], ce_kex_pubkey = [], ce_not_before = 0,
      ce_not_after = 0, ce_name = [], ce_scope_count = 0, ce_scope_ids = [], ce_ca_sig_count = 0,
      ce_ca_sigs = [], ce_tbs = []\<rparr>"

definition own_cert :: "keys \<Rightarrow> cert" where
  "own_cert k =
     (if ks_cert k = [] then placeholder_cert
      else case parse_cert (ks_cert k) of Ok c \<Rightarrow> c | _ \<Rightarrow> placeholder_cert)"

definition node_dispatcher :: "crypto \<Rightarrow> daemon \<Rightarrow> dispatcher" where
  "node_dispatcher cr d =
     \<lparr>dp_resolver = dm_resolver d, dp_intent_table = dm_intents d, dp_sender_table = dm_senders d,
      dp_own_pubkey = keys_sig_pub cr (dm_keys d), dp_own_cert = own_cert (dm_keys d),
      dp_trusted_ca_keys = ks_ca_pubs (dm_keys d)\<rparr>"

fun tag_of_outcome :: "dispatch_outcome \<Rightarrow> event_tag option" where
  "tag_of_outcome IntentAdmitted = Some EvIntentAdmitted"
| "tag_of_outcome GrantExecuted = Some EvGrantExecuted"
| "tag_of_outcome EffectRefused = Some EvEffectRefused"
| "tag_of_outcome RefusalApplied = Some EvRefusalApplied"
| "tag_of_outcome Control = Some EvControlApplied"
| "tag_of_outcome Effect = None"
| "tag_of_outcome Utterance = None"

definition count_admission :: "daemon \<Rightarrow> handled" where
  "count_admission d =
     (case count_up (wc_admissions_total (dm_wire d)) 1 of
        Ok n \<Rightarrow> (Ok (), d\<lparr>dm_wire := (dm_wire d)\<lparr>wc_admissions_total := n\<rparr>\<rparr>)
      | Err e \<Rightarrow> (Err e, d)
      | Panic \<Rightarrow> (Panic, d))"

definition publish_event :: "event_tag option \<Rightarrow> daemon \<Rightarrow> handled" where
  "publish_event tag d =
     (case tag of
        None \<Rightarrow> (Ok (), d)
      | Some t \<Rightarrow> (case publish t (dm_ring d) of (res, r) \<Rightarrow> (res, d\<lparr>dm_ring := r\<rparr>)))"

definition dispatch_envelope ::
  "crypto \<Rightarrow> disk_write \<Rightarrow> prune_answer \<Rightarrow> bytes \<Rightarrow> u64 \<Rightarrow> daemon \<Rightarrow> handled" where
  "dispatch_envelope cr io pio plain now d =
     (case dispatch cr (node_hooks io pio (dm_certs d) now) plain now (node_dispatcher cr d, dm_ledger d) of
        (res, dp, ledger) \<Rightarrow>
          let d = d\<lparr>dm_intents := dp_intent_table dp, dm_senders := dp_sender_table dp, dm_ledger := ledger\<rparr> in
          case res of
            Ok oc \<Rightarrow>
              then_state (if oc = IntentAdmitted then count_admission d else (Ok (), d)) (\<lambda>_ d.
              publish_event (tag_of_outcome oc) d)
          | Err de \<Rightarrow> reject (class_of_dispatch de) d
          | Panic \<Rightarrow> (Panic, d))"

section \<open>Envelopes\<close>

definition envelope_hash :: "crypto \<Rightarrow> bytes \<Rightarrow> bytes" where
  "envelope_hash cr wire = blake2s cr wire"

text \<open>The whole chunks of 32 bytes (chunks_exact).\<close>

function chunks32 :: "bytes \<Rightarrow> bytes list" where
  "chunks32 bs = (if length bs < 32 then [] else take 32 bs # chunks32 (drop 32 bs))"
  by auto
termination by (relation "measure length") auto

declare chunks32.simps [simp del]

definition handle_envelope ::
  "crypto \<Rightarrow> disk_write \<Rightarrow> prune_answer \<Rightarrow> u64 \<Rightarrow> bytes \<Rightarrow> daemon \<Rightarrow> handled" where
  "handle_envelope cr io pio now plain d =
     (case parse_envelope plain of
        Err e \<Rightarrow> reject RejParse d
      | Panic \<Rightarrow> (Panic, d)
      | Ok env \<Rightarrow>
          if length (env_sender env) \<noteq> 32 \<or> length (env_channel_id env) \<noteq> 32 then reject RejParse d
          else (case verify_envelope cr env of
            Err ve \<Rightarrow> reject (class_of_verify ve) d
          | Panic \<Rightarrow> (Panic, d)
          | Ok _ \<Rightarrow>
              if length (env_parents env) \<noteq> unat (env_parent_count env) * 32 then reject RejParse d
              else
                let hash = envelope_hash cr plain in
                (case find_envelope (env_sender env) (env_channel_id env) (env_seq env) (dm_mem d) of
                   Some existing \<Rightarrow> if existing = hash then (Ok (), d) else reject VEquivocation d
                 | None \<Rightarrow>
                     (case verify_envelope_admission hash (env_sender env) (env_channel_id env) (env_seq env)
                             (chunks32 (env_parents env)) (dm_mem d) of
                        (res, m) \<Rightarrow>
                          let d = d\<lparr>dm_mem := m\<rparr> in
                          (case res of
                             Err ve \<Rightarrow> reject (class_of_verify ve) d
                           | Panic \<Rightarrow> (Panic, d)
                           | Ok _ \<Rightarrow> dispatch_envelope cr io pio plain now d)))))"

section \<open>Datagrams\<close>

definition PT_BUF :: nat where "PT_BUF = 4096"

definition handle_transport ::
  "crypto \<Rightarrow> disk_write \<Rightarrow> prune_answer \<Rightarrow> u64 \<Rightarrow> bytes \<Rightarrow> daemon \<Rightarrow> handled" where
  "handle_transport cr io pio now pkt d =
     (if length pkt < HEADER_SIZE + 16 then (Ok (), d)
      else
        let receiver_idx = from_be_bytes (take 4 (drop 4 pkt)) :: u32;
            counter = from_be_bytes (take 8 (drop 8 pkt)) :: u64 in
        case session_lookup receiver_idx (dm_sessions d) of
          None \<Rightarrow> (Ok (), d)
        | Some session \<Rightarrow>
            (case session_open cr pkt counter PT_BUF session of
               (res, s') \<Rightarrow>
                 let d = d\<lparr>dm_sessions := session_put receiver_idx s' (dm_sessions d)\<rparr> in
                 (case res of
                    Err e \<Rightarrow> reject RejTransport d
                  | Panic \<Rightarrow> (Panic, d)
                  | Ok plain \<Rightarrow>
                      if se_bound s' then handle_envelope cr io pio now plain d
                      else handle_binding cr now plain (se_handshake_hash s') (se_local_index s') receiver_idx d)))"

text \<open>What surrounds a datagram: the clock, the drawn secret, the answers of the socket and the disk.\<close>

record surroundings =
  sr_now :: u64
  sr_now2 :: u64
  sr_eph :: bytes
  sr_send :: "bytes \<Rightarrow> bool"
  sr_io :: disk_write
  sr_pio :: prune_answer

definition handle_datagram :: "crypto \<Rightarrow> surroundings \<Rightarrow> bytes \<Rightarrow> daemon \<Rightarrow> handled" where
  "handle_datagram cr sr pkt d =
     (if pkt = [] then (Ok (), d)
      else if pkt ! 0 = 1 then handle_handshake cr (sr_send sr) (sr_eph sr) (sr_now sr) (sr_now2 sr) pkt d
      else if pkt ! 0 = 4 then handle_transport cr (sr_io sr) (sr_pio sr) (sr_now sr) pkt d
      else (Ok (), d))"

section \<open>The control plane\<close>

definition BEARER :: bytes where "BEARER = ascii ''authorization: bearer ''"

text \<open>The first occurrence of the header name, in any letter case, decides.\<close>

fun bearer_scan :: "bytes \<Rightarrow> bytes \<Rightarrow> bool" where
  "bearer_scan expected [] = False"
| "bearer_scan expected (b # bs) =
     (if map to_ascii_lowercase (take (length BEARER) (b # bs)) = BEARER
      then token_verify (takeWhile (\<lambda>c. c \<noteq> 13) (drop (length BEARER) (b # bs))) expected
      else bearer_scan expected bs)"

definition bearer_ok :: "bytes \<Rightarrow> bytes \<Rightarrow> bool" where
  "bearer_ok buf expected =
     (let headers_end = (case find_sub CRLF2 buf of Some i \<Rightarrow> i | None \<Rightarrow> length buf)
      in bearer_scan expected (take headers_end buf))"

definition extract_since :: "bytes \<Rightarrow> nat option \<Rightarrow> (nat option, 'e) outcome" where
  "extract_since buf query_start =
     (case query_start of
        None \<Rightarrow> Ok None
      | Some qs \<Rightarrow>
          and_then (subslice buf (qs + 1) (length buf)) (\<lambda>rest.
          let digits = takeWhile (\<lambda>b. b \<noteq> 32) rest in
          if \<not> from_utf8 digits then Ok None
          else case parse_since digits of Ok n \<Rightarrow> Ok (Some n) | Err e \<Rightarrow> Ok None | Panic \<Rightarrow> Panic))"

definition line_of :: "string \<Rightarrow> bytes" where
  "line_of s = ascii s @ [10]"

text \<open>The reply to an authorised request.\<close>

definition post_reply :: "u64 \<Rightarrow> bytes \<Rightarrow> daemon \<Rightarrow> (nat \<times> bytes, ctl_error) outcome \<times> daemon" where
  "post_reply now body d =
     (case post_intent (from_utf8_lossy body) (dm_resolver d) now
             \<lparr>as_intents = dm_intents d, as_metrics = dm_metrics d, as_ring = dm_ring d\<rparr> of
        (res, s) \<Rightarrow>
          ((case res of
              Ok Accepted \<Rightarrow> Ok (202, line_of ''accepted'')
            | Ok AcceptedIdempotent \<Rightarrow> Ok (202, line_of ''idempotent'')
            | Err e \<Rightarrow> Ok (api_status e, line_of ''error'')
            | Panic \<Rightarrow> Panic),
           d\<lparr>dm_intents := as_intents s, dm_metrics := as_metrics s, dm_ring := as_ring s\<rparr>))"

definition state_reply :: "bytes \<Rightarrow> daemon \<Rightarrow> (nat \<times> bytes, ctl_error) outcome" where
  "state_reply id_hex d =
     (case parse_id_hex (if from_utf8 id_hex then id_hex else []) of
        Ok iid \<Rightarrow>
          (case get_intent_state iid (dm_intents d) of
             Ok name \<Rightarrow> Ok (200, name @ [10])
           | Err e \<Rightarrow> Ok (api_status e, line_of ''error'')
           | Panic \<Rightarrow> Panic)
      | Err e \<Rightarrow> Ok (api_status e, line_of ''error'')
      | Panic \<Rightarrow> Panic)"

definition INTENTS_PREFIX :: bytes where "INTENTS_PREFIX = ascii ''/v1/intents/''"

definition http_reply ::
  "nat \<Rightarrow> u64 \<Rightarrow> bytes \<Rightarrow> http_request \<Rightarrow> bytes \<Rightarrow> daemon \<Rightarrow> (nat \<times> bytes, ctl_error) outcome \<times> daemon" where
  "http_reply hs_slots_used now buf req target d =
     (if rq_method req = Get \<and> target = ascii ''/healthz'' then (Ok (200, line_of ''ok''), d)
      else if rq_method req = Post \<and> target = ascii ''/v1/intents'' then
        (case subslice buf (rq_body_start req) (min (rq_body_start req + rq_content_length req) (length buf)) of
           Ok body \<Rightarrow> post_reply now body d
         | Err e \<Rightarrow> (Err e, d)
         | Panic \<Rightarrow> (Panic, d))
      else if rq_method req = Get \<and> starts_with INTENTS_PREFIX target then
        (state_reply (drop (length INTENTS_PREFIX) target) d, d)
      else if rq_method req = Get \<and> starts_with (ascii ''/v1/events'') target then
        (and_then (extract_since buf (rq_query_start req)) (\<lambda>since.
           Ok (200, events_sse_body (dm_ring d) (case since of Some n \<Rightarrow> n | None \<Rightarrow> 0))), d)
      else if rq_method req = Get \<and> target = ascii ''/metrics'' then
        (Ok (200, metrics_body (mt_admitted_total (dm_metrics d)) 0 0 0 (dm_wire d)
               (el_inserts_total (dm_mem d)) (el_storefull_total (dm_mem d)) hs_slots_used), d)
      else (Ok (404, line_of ''not found''), d))"

text \<open>
  One request of a client; the first argument is how its writes end. The code computes the end of the
  body before it looks at the route: the sum cannot overflow, since the declared length is at most
  64 KiB and the head is in memory, so the model computes it where it is used, in the POST route.
\<close>

definition respond ::
  "nat option \<Rightarrow> nat \<Rightarrow> bytes \<Rightarrow> connection \<Rightarrow> daemon \<Rightarrow> (unit, ctl_error) outcome \<times> connection \<times> daemon" where
  "respond takes status body conn d = (case write_http_response takes status body conn of (res, c) \<Rightarrow> (res, c, d))"

definition route_http ::
  "nat option \<Rightarrow> nat \<Rightarrow> u64 \<Rightarrow> connection \<Rightarrow> daemon \<Rightarrow> (unit, ctl_error) outcome \<times> connection \<times> daemon" where
  "route_http takes hs_slots_used now conn d =
     (case http_parse (cn_buf conn) of
        Err e \<Rightarrow> respond takes 400 (line_of ''bad request'') conn d
      | Panic \<Rightarrow> (Panic, conn, d)
      | Ok req \<Rightarrow>
          (case subslice (cn_buf conn) (rq_target_start req) (rq_target_end req) of
             Err e \<Rightarrow> (Err e, conn, d)
           | Panic \<Rightarrow> (Panic, conn, d)
           | Ok target \<Rightarrow>
               (case dm_token d of
                  Some expected \<Rightarrow>
                    if \<not> bearer_ok (cn_buf conn) expected then
                      (case count_up (dm_ctl_auth_refused d) 1 of
                         Ok n \<Rightarrow> respond takes 403 (line_of ''forbidden'') conn (d\<lparr>dm_ctl_auth_refused := n\<rparr>)
                       | Err e \<Rightarrow> (Err e, conn, d)
                       | Panic \<Rightarrow> (Panic, conn, d))
                    else (case http_reply hs_slots_used now (cn_buf conn) req target d of
                        (Ok (status, body), d) \<Rightarrow> respond takes status body conn d
                      | (Err e, d) \<Rightarrow> (Err e, conn, d)
                      | (Panic, d) \<Rightarrow> (Panic, conn, d))
                | None \<Rightarrow>
                    if target \<noteq> ascii ''/healthz'' then respond takes 403 (line_of ''forbidden'') conn d
                    else (case http_reply hs_slots_used now (cn_buf conn) req target d of
                        (Ok (status, body), d) \<Rightarrow> respond takes status body conn d
                      | (Err e, d) \<Rightarrow> (Err e, conn, d)
                      | (Panic, d) \<Rightarrow> (Panic, conn, d)))))"

text \<open>The clients that are ready are answered in turn; the first failed write ends the pass.\<close>

fun route_clients ::
  "(nat \<Rightarrow> nat option) \<Rightarrow> nat \<Rightarrow> u64 \<Rightarrow> nat \<Rightarrow> connection list \<Rightarrow> daemon \<Rightarrow>
   (unit, ctl_error) outcome \<times> connection list \<times> daemon" where
  "route_clients takes used now i [] d = (Ok (), [], d)"
| "route_clients takes used now i (c # cs) d =
     (if cn_state c \<noteq> Writing then
        (case route_clients takes used now (i + 1) cs d of (res, cs', d) \<Rightarrow> (res, c # cs', d))
      else case count_up (dm_ctl_requests d) 1 of
        Ok n \<Rightarrow>
          (case route_http (takes i) used now c (d\<lparr>dm_ctl_requests := n\<rparr>) of
             (Ok _, c', d) \<Rightarrow>
               (case route_clients takes used now (i + 1) cs d of (res, cs', d) \<Rightarrow> (res, c' # cs', d))
           | (Err e, c', d) \<Rightarrow> (Err e, c' # cs, d)
           | (Panic, c', d) \<Rightarrow> (Panic, c' # cs, d))
      | Err e \<Rightarrow> (Err e, c # cs, d)
      | Panic \<Rightarrow> (Panic, c # cs, d))"

text \<open>What surrounds a control tick: the clocks and the answers of the sockets.\<close>

record tick_input =
  tk_instant :: nat
  tk_now :: u64
  tk_accept :: accept_event
  tk_reads :: "nat \<Rightarrow> read_event"
  tk_takes :: "nat \<Rightarrow> nat option"

definition poll_control :: "tick_input \<Rightarrow> daemon \<Rightarrow> handled" where
  "poll_control ti d =
     (case dm_control d of
        None \<Rightarrow> (Panic, d)
      | Some clients \<Rightarrow>
          (case poll_tick (tk_instant ti) (tk_accept ti) (tk_reads ti) clients of
             (Ok _, cs) \<Rightarrow>
               (case route_clients (tk_takes ti) (handshake_slots_used d) (tk_now ti) 0 cs d of
                  (res, cs', d) \<Rightarrow> (res, d\<lparr>dm_control := Some cs'\<rparr>))
           | (Err e, cs) \<Rightarrow> (Err e, d\<lparr>dm_control := Some cs\<rparr>)
           | (Panic, cs) \<Rightarrow> (Panic, d\<lparr>dm_control := Some cs\<rparr>)))"

section \<open>One pass of the loop\<close>

definition DRAIN_K :: nat where "DRAIN_K = 64"

fun drain :: "crypto \<Rightarrow> (surroundings \<times> bytes) list \<Rightarrow> daemon \<Rightarrow> handled" where
  "drain cr [] d = (Ok (), d)"
| "drain cr ((sr, pkt) # rest) d = then_state (handle_datagram cr sr pkt d) (\<lambda>_. drain cr rest)"

text \<open>
  A pass handles at most 64 of the datagrams waiting on the socket, sweeps the idle slots and
  polls the control plane when there is one.
\<close>

definition run_pass ::
  "crypto \<Rightarrow> (surroundings \<times> bytes) list \<Rightarrow> u64 \<Rightarrow> tick_input \<Rightarrow> daemon \<Rightarrow> handled" where
  "run_pass cr waiting now ti d =
     then_state (drain cr (take DRAIN_K waiting) d) (\<lambda>_ d.
     then_state (release_stale_slots now d) (\<lambda>_ d.
     if dm_control d \<noteq> None then poll_control ti d else (Ok (), d)))"

end
