(* ===== verification/Node.thy ===== *)
theory Node
  imports Daemon
begin

text \<open>
  What holds of the node over its whole run: the rejection accounting, the three structures
  that share the handshake slots, the certificates behind bound sessions, and what the wire
  path can never do. The components' lemmas come together here; the contract of the router's
  caller is discharged by the node's hooks over the durable ledger.
\<close>

section \<open>Accounting\<close>

definition accounts_ok :: "daemon \<Rightarrow> bool" where
  "accounts_ok d \<longleftrightarrow> length (wc_rejects (dm_wire d)) = 45
     \<and> sum_list (wc_rejects (dm_wire d)) = dm_rejected_total d + wc_rejects (dm_wire d) ! 44"

lemma count_up_Ok: "count_up n k = Ok m \<longleftrightarrow> n + k < 2 ^ 64 \<and> m = n + k"
  by (auto simp: count_up_def)

lemma count_up_not_Err [simp]: "count_up n k \<noteq> Err e"
  by (simp add: count_up_def)

lemma bump_wire_Ok:
  "bump_wire c d = (Ok u, d') \<Longrightarrow>
     d' = d\<lparr>dm_wire := (dm_wire d)\<lparr>wc_rejects := (wc_rejects (dm_wire d))[reject_index c := Suc (wc_rejects (dm_wire d) ! reject_index c)]\<rparr>\<rparr>"
  by (auto simp: bump_wire_def bump_def count_up_Ok split: outcome.splits)

lemma reject_Ok:
  "reject c d = (Ok u, d') \<Longrightarrow>
     d' = d\<lparr>dm_rejected_total := Suc (dm_rejected_total d),
            dm_wire := (dm_wire d)\<lparr>wc_rejects := (wc_rejects (dm_wire d))[reject_index c := Suc (wc_rejects (dm_wire d) ! reject_index c)]\<rparr>\<rparr>"
  by (auto simp: reject_def count_up_Ok dest!: bump_wire_Ok split: outcome.splits)

lemma reject_index_full: "reject_index c = 44 \<longleftrightarrow> c = HandshakeFull"
  using reject_index_inject [of c HandshakeFull] by simp

lemma sum_bump: "i < length ns \<Longrightarrow> sum_list (ns[i := Suc (ns ! i)]) = Suc (sum_list ns)"
  by (simp add: sum_list_update)

lemma reject_accounts:
  "accounts_ok d \<Longrightarrow> c \<noteq> HandshakeFull \<Longrightarrow> reject c d = (Ok u, d') \<Longrightarrow> accounts_ok d'"
  using reject_index_less [of c] by (auto simp: accounts_ok_def sum_bump reject_index_full dest!: reject_Ok)

lemma full_accounts: "accounts_ok d \<Longrightarrow> bump_wire HandshakeFull d = (Ok u, d') \<Longrightarrow> accounts_ok d'"
  by (auto simp: accounts_ok_def sum_bump dest!: bump_wire_Ok)

lemma classes_not_full:
  "class_of_verify ve \<noteq> HandshakeFull" "class_of_intent ie \<noteq> HandshakeFull"
  "class_of_resolve re \<noteq> HandshakeFull" "class_of_dispatch de \<noteq> HandshakeFull"
proof -
  show v: "class_of_verify ve \<noteq> HandshakeFull" for ve by (cases ve) simp_all
  show i: "class_of_intent ie \<noteq> HandshakeFull" for ie by (cases ie) simp_all
  show r: "class_of_resolve re \<noteq> HandshakeFull" for re by (cases re) (simp_all add: i)
  show "class_of_dispatch de \<noteq> HandshakeFull" by (cases de) (simp_all add: v r)
qed

section \<open>Slots\<close>

text \<open>A used slot has its peer's key and a session with its keys and transcript; a free one has neither.\<close>

definition slot_agrees :: "hs_session option \<Rightarrow> bytes option \<Rightarrow> session \<Rightarrow> bool" where
  "slot_agrees h p s =
     (case h of
        None \<Rightarrow> p = None \<and> \<not> se_in_use s
      | Some x \<Rightarrow> p = Some (hs_peer_static x) \<and> se_in_use s \<and> se_handshake_hash s = hs_hash x
          \<and> rs_key (se_recv s) = hs_recv_key x)"

definition slots_but :: "nat set \<Rightarrow> daemon \<Rightarrow> bool" where
  "slots_but S d \<longleftrightarrow> length (dm_hs d) = 16 \<and> length (dm_peer_static d) = 16 \<and> session_inv (dm_sessions d)
     \<and> (\<forall>i<16. i \<notin> S \<longrightarrow> slot_agrees (dm_hs d ! i) (dm_peer_static d ! i) (dm_sessions d ! i))
     \<and> (\<forall>i\<in>S. i < 16 \<and> dm_hs d ! i = None)
     \<and> (\<forall>i<512. 16 \<le> i \<longrightarrow> \<not> se_in_use (dm_sessions d ! i))"

abbreviation slots_ok :: "daemon \<Rightarrow> bool" where
  "slots_ok \<equiv> slots_but {}"

lemma slot_index: "i < 512 \<Longrightarrow> unat (word_of_nat i :: u32) = i"
  by (rule unat_word_of_nat) simp

lemma session_release_at:
  "i < 512 \<Longrightarrow> session_release (word_of_nat i) t = t[i := (t ! i)\<lparr>se_send := cipher_state_new, se_recv := recv_state_new,
     se_handshake_hash := replicate 32 0, se_bound := False, se_in_use := False\<rparr>]"
  by (simp add: session_release_def slot_index MAX_SESSIONS_def Let_def)

lemma release_slot_at: "i < 16 \<Longrightarrow> length t = 16 \<Longrightarrow> release_slot i t = t[i := None]"
  by (simp add: release_slot_def HS_MAX_SESSIONS_def)

lemma release_hs_slot_at:
  assumes "i < 16" "length (dm_hs d) = 16" "length (dm_peer_static d) = 16" "length (dm_sessions d) = 512"
  shows "dm_hs (release_hs_slot i d) = (dm_hs d)[i := None]"
    "dm_peer_static (release_hs_slot i d) = (dm_peer_static d)[i := None]"
    "j \<noteq> i \<Longrightarrow> dm_sessions (release_hs_slot i d) ! j = dm_sessions d ! j"
    "\<not> se_in_use (dm_sessions (release_hs_slot i d) ! i)"
proof -
  have "i < 512" using assms(1) by simp
  then show "dm_hs (release_hs_slot i d) = (dm_hs d)[i := None]"
    "dm_peer_static (release_hs_slot i d) = (dm_peer_static d)[i := None]"
    "j \<noteq> i \<Longrightarrow> dm_sessions (release_hs_slot i d) ! j = dm_sessions d ! j"
    "\<not> se_in_use (dm_sessions (release_hs_slot i d) ! i)"
    using assms by (simp_all add: release_hs_slot_def release_slot_at session_release_at [OF \<open>i < 512\<close>])
qed

lemma release_hs_slot_keeps:
  assumes "slots_but S d" "i \<in> S"
  shows "slots_but (S - {i}) (release_hs_slot i d)"
proof -
  have i: "i < 16" and hs: "length (dm_hs d) = 16" and inv: "session_inv (dm_sessions d)"
    and ps: "length (dm_peer_static d) = 16" and len: "length (dm_sessions d) = 512"
    using assms by (simp_all add: slots_but_def session_inv_def)
  have inv': "session_inv (dm_sessions (release_hs_slot i d))"
    using session_step_inv [OF inv, of cr "SRelease (word_of_nat i)"] by (simp add: release_hs_slot_def)
  note at = release_hs_slot_at [OF i hs ps len]
  have slot: "slot_agrees (dm_hs (release_hs_slot i d) ! j) (dm_peer_static (release_hs_slot i d) ! j)
      (dm_sessions (release_hs_slot i d) ! j)" if "j < 16" "j \<notin> S - {i}" for j
    using that i assms(1) at hs ps by (cases "j = i") (simp_all add: slot_agrees_def slots_but_def)
  have free: "\<not> se_in_use (dm_sessions (release_hs_slot i d) ! j)" if "j < 512" "16 \<le> j" for j
    using that i assms(1) at(3) [of j] by (simp add: slots_but_def)
  show ?thesis
    using assms(1) inv' slot free at(1,2) hs ps by (auto simp: slots_but_def nth_list_update)
qed

lemma release_all:
  "slots_but (set is) d \<Longrightarrow> distinct is \<Longrightarrow> slots_ok (fold release_hs_slot is d)"
proof (induction "is" arbitrary: d)
  case (Cons i js)
  then have "slots_but (set js) (release_hs_slot i d)"
    using release_hs_slot_keeps [OF Cons.prems(1), of i] by simp
  with Cons show ?case by simp
qed simp

section \<open>The invariant\<close>

definition certified :: "crypto \<Rightarrow> bytes list \<Rightarrow> bytes \<times> bytes \<Rightarrow> bool" where
  "certified cr cas kw =
     (case parse_cert (snd kw) of
        Ok c \<Rightarrow> fst kw = ce_sig_pubkey c \<and> chain_ok cr (view_of c) cas
      | _ \<Rightarrow> False)"

text \<open>The handshake behind a bound session was run with the key of a stored certificate.\<close>

definition bound_ok :: "daemon \<Rightarrow> bool" where
  "bound_ok d \<longleftrightarrow> (\<forall>i<16. se_bound (dm_sessions d ! i) \<longrightarrow>
     (\<exists>c. dm_peer_static d ! i = Some (ce_kex_pubkey c) \<and> (\<exists>k w. (k, w) \<in> set (dm_certs d) \<and> parse_cert w = Ok c)))"

definition no_effects :: "event_ring \<Rightarrow> bool" where
  "no_effects r \<longleftrightarrow> list_all (\<lambda>e. snd e \<notin> {EvGrantExecuted, EvEffectRefused}) (er_events r)"

definition tables_ok :: "resolver \<Rightarrow> intent_table \<Rightarrow> sender_table \<Rightarrow> bool" where
  "tables_ok r t s \<longleftrightarrow> resolver_inv r \<and> intent_inv t
     \<and> list_all (\<lambda>e. length (e_resource_id e) = MAX_RESOURCE) (entries t) \<and> list_all sender_ok (st_entries s)"

definition node_inv :: "crypto \<Rightarrow> daemon \<Rightarrow> bool" where
  "node_inv cr d \<longleftrightarrow> accounts_ok d \<and> slots_ok d \<and> bound_ok d \<and> no_effects (dm_ring d)
     \<and> list_all (certified cr (ks_ca_pubs (dm_keys d))) (dm_certs d)
     \<and> tables_ok (dm_resolver d) (dm_intents d) (dm_senders d)"

text \<open>A counter of the wire path at the end of its range.\<close>

definition exhausted :: "daemon \<Rightarrow> bool" where
  "exhausted d \<longleftrightarrow> (\<exists>n \<in> {dm_rejected_total d, wc_admissions_total (dm_wire d), er_next_seq (dm_ring d)}
     \<union> set (wc_rejects (dm_wire d)). 2 ^ 64 - 1 \<le> n)"

definition stays :: "crypto \<Rightarrow> daemon \<Rightarrow> daemon \<Rightarrow> bool" where
  "stays cr d d' \<longleftrightarrow> node_inv cr d' \<and> dm_ledger d' = dm_ledger d \<and> dm_keys d' = dm_keys d
     \<and> dm_resolver d' = dm_resolver d"

definition handled_well :: "crypto \<Rightarrow> daemon \<Rightarrow> handled \<Rightarrow> bool" where
  "handled_well cr d r = (case r of (Ok _, d') \<Rightarrow> stays cr d d' | (Err e, d') \<Rightarrow> False | (Panic, d') \<Rightarrow> exhausted d)"

lemma handled_well_simps [simp]:
  "handled_well cr d (Ok u, d') \<longleftrightarrow> stays cr d d'"
  "\<not> handled_well cr d (Err e, d')"
  "handled_well cr d (Panic, d') \<longleftrightarrow> exhausted d"
  by (simp_all add: handled_well_def)

lemma stays_refl: "node_inv cr d \<Longrightarrow> stays cr d d"
  by (simp add: stays_def)

lemma stays_trans: "stays cr d d1 \<Longrightarrow> stays cr d1 d2 \<Longrightarrow> stays cr d d2"
  by (simp add: stays_def)

lemma handled_well_from:
  "handled_well cr d1 r \<Longrightarrow> stays cr d d1 \<Longrightarrow> (exhausted d1 \<Longrightarrow> exhausted d) \<Longrightarrow> handled_well cr d r"
  using stays_trans by (auto simp: handled_well_def split: outcome.splits prod.splits)

text \<open>What the counters and the memory of seen envelopes leave alone.\<close>

lemma node_inv_unrelated [simp]:
  "node_inv cr (d\<lparr>dm_mem := m\<rparr>) = node_inv cr d"
  "node_inv cr (d\<lparr>dm_ledger := l\<rparr>) = node_inv cr d"
  "node_inv cr (d\<lparr>dm_metrics := mt\<rparr>) = node_inv cr d"
  "node_inv cr (d\<lparr>dm_control := c\<rparr>) = node_inv cr d"
  "node_inv cr (d\<lparr>dm_token := tk\<rparr>) = node_inv cr d"
  "node_inv cr (d\<lparr>dm_ctl_requests := n\<rparr>) = node_inv cr d"
  "node_inv cr (d\<lparr>dm_ctl_auth_refused := n\<rparr>) = node_inv cr d"
  "node_inv cr (d\<lparr>dm_wire := (dm_wire d)\<lparr>wc_admissions_total := n\<rparr>\<rparr>) = node_inv cr d"
  "node_inv cr (d\<lparr>dm_wire := (dm_wire d)\<lparr>wc_handshake_released_total := n\<rparr>\<rparr>) = node_inv cr d"
  by (simp_all add: node_inv_def accounts_ok_def slots_but_def bound_ok_def)

lemma exhausted_unrelated [simp]:
  "exhausted (d\<lparr>dm_mem := m\<rparr>) = exhausted d" "exhausted (d\<lparr>dm_ledger := l\<rparr>) = exhausted d"
  "exhausted (d\<lparr>dm_intents := t\<rparr>) = exhausted d" "exhausted (d\<lparr>dm_senders := s\<rparr>) = exhausted d"
  "exhausted (d\<lparr>dm_sessions := st\<rparr>) = exhausted d" "exhausted (d\<lparr>dm_hs := h\<rparr>) = exhausted d"
  by (simp_all add: exhausted_def)

section \<open>Counting keeps the invariant\<close>

lemma bump_wire_other:
  assumes "node_inv cr d" "bump_wire HandshakeFull d = (Ok u, d')"
  shows "stays cr d d'"
  using assms full_accounts [OF _ assms(2)] bump_wire_Ok [OF assms(2)]
  by (auto simp: stays_def node_inv_def slots_but_def bound_ok_def)

lemma exhausted_total: "\<not> dm_rejected_total d < 2 ^ 64 - 1 \<Longrightarrow> exhausted d"
  by (simp add: exhausted_def)

lemma exhausted_class:
  "node_inv cr d \<Longrightarrow> \<not> wc_rejects (dm_wire d) ! reject_index c < 2 ^ 64 - 1 \<Longrightarrow> exhausted d"
proof -
  assume inv: "node_inv cr d" and big: "\<not> wc_rejects (dm_wire d) ! reject_index c < 2 ^ 64 - 1"
  have "wc_rejects (dm_wire d) ! reject_index c \<in> set (wc_rejects (dm_wire d))"
    using inv reject_index_less [of c] by (simp add: node_inv_def accounts_ok_def)
  with big show "exhausted d" unfolding exhausted_def by (meson UnI2 not_less)
qed

lemma bump_wire_well:
  assumes "node_inv cr d"
  shows "handled_well cr d (bump_wire HandshakeFull d)"
proof (cases "bump_wire HandshakeFull d")
  case (Pair res d')
  have "exhausted d" if "res = Panic"
    using Pair that exhausted_class [OF assms, of HandshakeFull]
    by (auto simp: bump_wire_def bump_def count_up_def split: if_splits)
  moreover have "res \<noteq> Err e" for e using Pair by (auto simp: bump_wire_def bump_def count_up_def split: if_splits)
  ultimately show ?thesis using bump_wire_other [OF assms] Pair by (cases res) auto
qed

lemma reject_well:
  assumes "node_inv cr d" "c \<noteq> HandshakeFull"
  shows "handled_well cr d (reject c d)"
proof (cases "reject c d")
  case (Pair res d')
  have "exhausted d" if "res = Panic"
    using Pair that exhausted_class [OF assms(1), of c] exhausted_total [of d]
    by (auto simp: reject_def bump_wire_def bump_def count_up_def split: if_splits)
  moreover have "res \<noteq> Err e" for e
    using Pair by (auto simp: reject_def bump_wire_def bump_def count_up_def split: if_splits)
  moreover have "stays cr d d'" if "res = Ok u" for u
    using assms reject_accounts [of d c] reject_Ok [of c d] Pair that
    by (auto simp: stays_def node_inv_def slots_but_def bound_ok_def)
  ultimately show ?thesis using Pair by (cases res) auto
qed

lemma count_admission_well:
  assumes "node_inv cr d"
  shows "handled_well cr d (count_admission d)"
  using assms by (auto simp: count_admission_def count_up_def stays_def exhausted_def)

lemma publish_well:
  assumes "node_inv cr d" "tag \<notin> {Some EvGrantExecuted, Some EvEffectRefused}"
  shows "handled_well cr d (publish_event tag d)"
  using assms
  by (auto simp: publish_event_def publish_def count_up_def stays_def exhausted_def node_inv_def accounts_ok_def
      slots_but_def bound_ok_def no_effects_def list_all_iff split: option.split dest: in_set_dropD)

section \<open>Slots come and go\<close>

lemma unused_not_bound: "session_inv t \<Longrightarrow> i < 512 \<Longrightarrow> \<not> se_in_use (t ! i) \<Longrightarrow> \<not> se_bound (t ! i)"
  by (auto simp: session_inv_def slot_ok_def)

lemma bound_ok_mono:
  assumes "bound_ok d" "set (dm_certs d) \<subseteq> set (dm_certs d')"
    and "\<And>j. j < 16 \<Longrightarrow> se_bound (dm_sessions d' ! j) \<Longrightarrow>
      se_bound (dm_sessions d ! j) \<and> dm_peer_static d' ! j = dm_peer_static d ! j"
  shows "bound_ok d'"
  unfolding bound_ok_def
proof (intro allI impI)
  fix j :: nat
  assume j: "j < 16" "se_bound (dm_sessions d' ! j)"
  with assms(1,3) obtain c k w where "dm_peer_static d' ! j = Some (ce_kex_pubkey c)"
    "(k, w) \<in> set (dm_certs d)" "parse_cert w = Ok c" by (auto simp: bound_ok_def)
  with assms(2) show "\<exists>c. dm_peer_static d' ! j = Some (ce_kex_pubkey c)
      \<and> (\<exists>k w. (k, w) \<in> set (dm_certs d') \<and> parse_cert w = Ok c)" by blast
qed

lemma release_hs_slot_bound:
  assumes "slots_but S d" "i \<in> S" "bound_ok d"
  shows "bound_ok (release_hs_slot i d)"
proof -
  have i: "i < 16" and hs: "length (dm_hs d) = 16" and ps: "length (dm_peer_static d) = 16"
    and len: "length (dm_sessions d) = 512"
    using assms by (simp_all add: slots_but_def session_inv_def)
  note at = release_hs_slot_at [OF i hs ps len]
  have "session_inv (dm_sessions (release_hs_slot i d))"
    using release_hs_slot_keeps [OF assms(1,2)] by (simp add: slots_but_def)
  then have "\<not> se_bound (dm_sessions (release_hs_slot i d) ! i)"
    using at(4) i by (simp add: unused_not_bound)
  moreover have "dm_certs (release_hs_slot i d) = dm_certs d" by (simp add: release_hs_slot_def)
  moreover have "dm_peer_static (release_hs_slot i d) ! j = dm_peer_static d ! j"
    "dm_sessions (release_hs_slot i d) ! j = dm_sessions d ! j" if "j \<noteq> i" for j
    using that at(2,3) by simp_all
  ultimately show ?thesis
    by (intro bound_ok_mono [OF assms(3)]) (simp, metis)
qed

lemma release_hs_slot_rest:
  "dm_wire (release_hs_slot i d) = dm_wire d" "dm_rejected_total (release_hs_slot i d) = dm_rejected_total d"
  "dm_ring (release_hs_slot i d) = dm_ring d" "dm_certs (release_hs_slot i d) = dm_certs d"
  "dm_keys (release_hs_slot i d) = dm_keys d" "dm_resolver (release_hs_slot i d) = dm_resolver d"
  "dm_intents (release_hs_slot i d) = dm_intents d" "dm_senders (release_hs_slot i d) = dm_senders d"
  "dm_ledger (release_hs_slot i d) = dm_ledger d"
  by (simp_all add: release_hs_slot_def)

lemma releases_rest:
  "dm_wire (fold release_hs_slot is d) = dm_wire d"
  "dm_rejected_total (fold release_hs_slot is d) = dm_rejected_total d"
  "dm_ring (fold release_hs_slot is d) = dm_ring d" "dm_certs (fold release_hs_slot is d) = dm_certs d"
  "dm_keys (fold release_hs_slot is d) = dm_keys d" "dm_resolver (fold release_hs_slot is d) = dm_resolver d"
  "dm_intents (fold release_hs_slot is d) = dm_intents d" "dm_senders (fold release_hs_slot is d) = dm_senders d"
  "dm_ledger (fold release_hs_slot is d) = dm_ledger d"
  by (induction "is" arbitrary: d) (simp_all add: release_hs_slot_rest)

lemma releases_bound:
  "slots_but (set is) d \<Longrightarrow> distinct is \<Longrightarrow> bound_ok d \<Longrightarrow> bound_ok (fold release_hs_slot is d)"
proof (induction "is" arbitrary: d)
  case (Cons i js)
  then have "slots_but (set js) (release_hs_slot i d)" "bound_ok (release_hs_slot i d)"
    using release_hs_slot_keeps [OF Cons.prems(1), of i] release_hs_slot_bound [OF Cons.prems(1), of i] by simp_all
  with Cons show ?case by simp
qed simp

text \<open>The sweep first clears the handshake slots, then lets the other two structures follow.\<close>

lemma sweep_slots:
  assumes "slots_ok d" "release_stale now timeout (dm_hs d) = (freed, hs)"
  shows "slots_but (set freed) (d\<lparr>dm_hs := hs\<rparr>) \<and> distinct freed"
proof -
  have len: "length (dm_hs d) = 16" using assms(1) by (simp add: slots_but_def)
  from assms(2) have f: "freed = filter (\<lambda>k. \<exists>s. dm_hs d ! k = Some s \<and> stale now timeout s) [0..<16]"
    and h: "hs = map (\<lambda>slot. case slot of None \<Rightarrow> None | Some s \<Rightarrow> if stale now timeout s then None else Some s) (dm_hs d)"
    by (simp_all add: release_stale_def stale_from_spec len)
  have "slot_agrees (hs ! i) (dm_peer_static d ! i) (dm_sessions d ! i)" if "i < 16" "i \<notin> set freed" for i
  proof -
    have "hs ! i = dm_hs d ! i"
      using that len by (cases "dm_hs d ! i") (simp_all add: f h)
    with that assms(1) show ?thesis by (simp add: slots_but_def)
  qed
  moreover have "\<forall>i\<in>set freed. i < 16 \<and> hs ! i = None" using len by (auto simp: f h)
  moreover have "length hs = 16" by (simp add: h len)
  moreover have "distinct freed" by (simp add: f)
  ultimately show ?thesis using assms(1) by (simp add: slots_but_def)
qed

lemma release_stale_slots_keeps:
  assumes "node_inv cr d" "release_stale_slots now d = (Ok u, d')"
  shows "stays cr d d'"
proof -
  obtain freed hs where r: "release_stale now T_HS_IDLE_MS (dm_hs d) = (freed, hs)" by fastforce
  let ?d = "d\<lparr>dm_hs := hs\<rparr>"
  have s: "slots_but (set freed) ?d" "distinct freed"
    using sweep_slots [OF _ r] assms(1) by (simp_all add: node_inv_def)
  have "bound_ok ?d" using assms(1) by (simp add: node_inv_def bound_ok_def)
  then have b: "bound_ok (fold release_hs_slot freed ?d)" by (rule releases_bound [OF s])
  have "node_inv cr (fold release_hs_slot freed ?d)"
    using assms(1) release_all [OF s] b by (simp add: node_inv_def accounts_ok_def releases_rest)
  moreover have "dm_wire (fold release_hs_slot freed ?d) = dm_wire d" by (simp add: releases_rest)
  ultimately have "node_inv cr (fold release_hs_slot freed ?d
      \<lparr>dm_wire := dm_wire d\<lparr>wc_handshake_released_total := n\<rparr>\<rparr>)" for n
    by (metis node_inv_unrelated(9))
  then show ?thesis using assms(2)
    by (auto simp: release_stale_slots_def r Let_def count_up_Ok stays_def releases_rest split: outcome.splits)
qed

section \<open>Handshakes\<close>

lemma slots_but_empty:
  "slots_ok d \<longleftrightarrow> length (dm_hs d) = 16 \<and> length (dm_peer_static d) = 16 \<and> session_inv (dm_sessions d)
     \<and> (\<forall>i<16. slot_agrees (dm_hs d ! i) (dm_peer_static d ! i) (dm_sessions d ! i))
     \<and> (\<forall>i<512. 16 \<le> i \<longrightarrow> \<not> se_in_use (dm_sessions d ! i))"
  by (simp add: slots_but_def)

lemma admit_session_well:
  assumes inv: "node_inv cr d" and slot: "slot < 16" "dm_hs d ! slot = None"
  shows "handled_well cr d (admit_session slot now (d\<lparr>dm_hs := (dm_hs d)[slot := Some s]\<rparr>))"
proof -
  let ?w = "word_of_nat slot :: u32" and ?d = "d\<lparr>dm_hs := (dm_hs d)[slot := Some s]\<rparr>"
  have ok: "slots_ok d" and bd: "bound_ok d" using inv by (simp_all add: node_inv_def)
  then have len: "length (dm_hs d) = 16" "length (dm_peer_static d) = 16" "length (dm_sessions d) = 512"
    and si: "session_inv (dm_sessions d)" by (simp_all add: slots_but_empty session_inv_def)
  have w: "unat ?w = slot" using slot by (simp add: slot_index)
  have free: "\<not> se_in_use (dm_sessions d ! slot)"
    using ok slot by (auto simp: slots_but_empty slot_agrees_def)
  obtain t where adm: "session_admit ?w 0 (hs_send_key s) (hs_recv_key s) (hs_hash s) now (dm_sessions d) = (Ok (), t)"
    and other: "\<And>j. j \<noteq> slot \<Longrightarrow> t ! j = dm_sessions d ! j"
    and new: "se_in_use (t ! slot)" "se_handshake_hash (t ! slot) = hs_hash s" "\<not> se_bound (t ! slot)"
      "rs_key (se_recv (t ! slot)) = hs_recv_key s"
    using w free slot len by (simp add: session_admit_def MAX_SESSIONS_def Let_def)
  have "session_inv t"
    using session_step_inv [OF si, of cr "SAdmit ?w 0 (hs_send_key s) (hs_recv_key s) (hs_hash s) now"] adm by simp
  moreover have "slot_agrees ((dm_hs d)[slot := Some s] ! j) ((dm_peer_static d)[slot := Some (hs_peer_static s)] ! j) (t ! j)"
    if "j < 16" for j
    using that ok other [of j] new len by (cases "j = slot") (simp_all add: slots_but_empty slot_agrees_def)
  moreover have "\<not> se_in_use (t ! j)" if "j < 512" "16 \<le> j" for j
    using that ok slot other [of j] by (simp add: slots_but_empty)
  ultimately have "slots_ok (?d\<lparr>dm_sessions := t, dm_peer_static := (dm_peer_static d)[slot := Some (hs_peer_static s)]\<rparr>)"
    using len by (simp add: slots_but_empty)
  moreover have "bound_ok (?d\<lparr>dm_sessions := t, dm_peer_static := (dm_peer_static d)[slot := Some (hs_peer_static s)]\<rparr>)"
  proof (rule bound_ok_mono [OF bd], goal_cases)
    case (2 j)
    then show ?case using new(3) other [of j] by (cases "j = slot") simp_all
  qed simp
  ultimately show ?thesis
    using inv slot len adm by (simp add: admit_session_def stays_def node_inv_def accounts_ok_def)
qed

lemma handle_handshake_well:
  assumes "node_inv cr d"
  shows "handled_well cr d (handle_handshake cr send eph now now2 pkt d)"
proof -
  obtain res hs sent where p: "process_datagram cr pkt (ks_secret_static (dm_keys d)) (keys_sig_pub cr (dm_keys d))
      send eph now (dm_hs d) = (res, hs, sent)" by (metis prod_cases3)
  note out = process_datagram_outcome [of pkt send now "dm_hs d" cr "ks_secret_static (dm_keys d)"
      "keys_sig_pub cr (dm_keys d)" eph, unfolded p datagram_outcome_def prod.case]
  show ?thesis
  proof (cases res)
    case (Ok slot)
    with out obtain s where pos: "position (\<lambda>s. s = None) (dm_hs d) = Some slot"
      and hs: "hs = (dm_hs d)[slot := Some s]" by (auto simp: commits_def)
    have "slot < 16" "dm_hs d ! slot = None"
      using position_SomeD [OF pos] assms by (simp_all add: node_inv_def slots_but_empty)
    from admit_session_well [OF assms this] show ?thesis
      by (simp add: handle_handshake_def p Ok hs Let_def)
  next
    case (Err e)
    with out have "hs = dm_hs d" by (cases e) auto
    then have "d\<lparr>dm_hs := hs\<rparr> = d" by simp
    have "handle_handshake cr send eph now now2 pkt d =
        (if e = HsTableFull then then_state (bump_wire HandshakeFull d) (\<lambda>_ d. (Ok (), d)) else (Ok (), d))"
      unfolding handle_handshake_def p Let_def prod.case \<open>d\<lparr>dm_hs := hs\<rparr> = d\<close> Err by simp
    moreover have "handled_well cr d (then_state r (\<lambda>_ d. (Ok (), d)))" if "handled_well cr d r" for r
      using that by (cases r; cases "fst r") auto
    ultimately show ?thesis
      using bump_wire_well [OF assms] stays_refl [OF assms] by simp
  qed (use out in simp)
qed

section \<open>Transport and binding\<close>

text \<open>Putting back a used session that differs in its window only, or is bound with a stored certificate.\<close>

definition same_session :: "session \<Rightarrow> session \<Rightarrow> bool" where
  "same_session s s' \<longleftrightarrow> se_in_use s' = se_in_use s \<and> se_local_index s' = se_local_index s
     \<and> se_handshake_hash s' = se_handshake_hash s \<and> se_send s' = se_send s
     \<and> rs_key (se_recv s') = rs_key (se_recv s)"

lemma put_session_keeps:
  assumes inv: "node_inv cr d" and look: "session_lookup i (dm_sessions d) = Some s"
    and same: "same_session s s'"
    and bound: "se_bound s' \<Longrightarrow> se_bound s \<or> (\<exists>c. dm_peer_static d ! unat i = Some (ce_kex_pubkey c)
      \<and> (\<exists>k w. (k, w) \<in> set (dm_certs d) \<and> parse_cert w = Ok c))"
  shows "node_inv cr (d\<lparr>dm_sessions := session_put i s' (dm_sessions d)\<rparr>)"
proof -
  have ok: "slots_ok d" and bd: "bound_ok d" using inv by (simp_all add: node_inv_def)
  then have si: "session_inv (dm_sessions d)" and len: "length (dm_sessions d) = 512"
    by (simp_all add: slots_but_empty session_inv_def)
  from look have s: "unat i < 512" "se_in_use s" "s = dm_sessions d ! unat i" by (simp_all add: session_lookup_Some)
  have i: "unat i < 16" using ok s by (meson not_less slots_but_empty)
  have "slot_ok (unat i) s'"
    using si s same by (auto simp: session_inv_def slot_ok_def same_session_def)
  then have "session_inv (session_put i s' (dm_sessions d))"
    by (simp add: session_put_def session_inv_update si)
  moreover have at: "session_put i s' (dm_sessions d) ! j = (if j = unat i then s' else dm_sessions d ! j)"
    if "j < 512" for j
    using that len s(1) by (simp add: session_put_def nth_list_update)
  have "slot_agrees (dm_hs d ! j) (dm_peer_static d ! j) (session_put i s' (dm_sessions d) ! j)" if "j < 16" for j
  proof (cases "j = unat i")
    case True
    have "slot_agrees (dm_hs d ! j) (dm_peer_static d ! j) s"
      using ok that True s(3) by (simp add: slots_but_empty)
    with True at [of j] that same show ?thesis
      by (cases "dm_hs d ! unat i") (simp_all add: slot_agrees_def same_session_def)
  qed (use ok that at [of j] in \<open>simp add: slots_but_empty\<close>)
  moreover have "\<not> se_in_use (session_put i s' (dm_sessions d) ! j)" if "j < 512" "16 \<le> j" for j
    using that at [of j] i ok by (simp add: slots_but_empty)
  ultimately have "slots_ok (d\<lparr>dm_sessions := session_put i s' (dm_sessions d)\<rparr>)"
    using ok by (simp add: slots_but_empty)
  moreover have "bound_ok (d\<lparr>dm_sessions := session_put i s' (dm_sessions d)\<rparr>)"
    unfolding bound_ok_def
  proof (intro allI impI)
    fix j :: nat
    assume j: "j < 16" "se_bound (dm_sessions (d\<lparr>dm_sessions := session_put i s' (dm_sessions d)\<rparr>) ! j)"
    then have "se_bound (dm_sessions d ! j) \<or> (\<exists>c. dm_peer_static d ! j = Some (ce_kex_pubkey c)
      \<and> (\<exists>k w. (k, w) \<in> set (dm_certs d) \<and> parse_cert w = Ok c))"
      using at [of j] bound s(3) by (auto split: if_splits)
    with bd j(1) show "\<exists>c. dm_peer_static (d\<lparr>dm_sessions := session_put i s' (dm_sessions d)\<rparr>) ! j
        = Some (ce_kex_pubkey c) \<and> (\<exists>k w. (k, w) \<in> set (dm_certs (d\<lparr>dm_sessions := session_put i s' (dm_sessions d)\<rparr>))
        \<and> parse_cert w = Ok c)"
      by (auto simp: bound_ok_def)
  qed
  ultimately show ?thesis using inv by (simp add: node_inv_def accounts_ok_def)
qed

lemma validate_no_Panic: "validate_cert_chain cr c cas \<noteq> Panic" "validate_cert cr c cas now \<noteq> Panic"
proof -
  have "check_ca_sigs cr c cas is \<noteq> Panic" for "is" by (induction "is") (simp_all add: Let_def)
  then show chain: "validate_cert_chain cr c cas \<noteq> Panic"
    by (simp add: validate_cert_chain_def check_role_constraints_def Let_def)
  then show "validate_cert cr c cas now \<noteq> Panic" by (simp add: validate_cert_def)
qed

lemma bind_session_no_Panic: "bind_session cr c sg h pk cas now \<noteq> Panic"
  using validate_no_Panic(2) by (simp add: bind_session_def)

lemma bind_session_Ok:
  "bind_session cr c sg h pk cas now = Ok u \<Longrightarrow> chain_ok cr c cas \<and> cv_kex_pubkey c = pk"
  by (auto simp: bind_session_def guard_Ok validate_cert_Ok)

lemma store_cert_keeps:
  "node_inv cr d \<Longrightarrow> certified cr (ks_ca_pubs (dm_keys d)) kw \<Longrightarrow>
     node_inv cr (d\<lparr>dm_certs := dm_certs d @ [kw]\<rparr>)"
  using bound_ok_mono [of d "d\<lparr>dm_certs := dm_certs d @ [kw]\<rparr>"]
  by (simp add: node_inv_def accounts_ok_def slots_but_empty subset_iff)

lemma handle_binding_well:
  assumes inv: "node_inv cr d" and look: "session_lookup i (dm_sessions d) = Some s"
    and slot: "se_local_index s = slot"
  shows "handled_well cr d (handle_binding cr now plain h slot i d)"
proof -
  have ok: "slots_ok d" using inv by (simp add: node_inv_def)
  from look have s: "unat i < 512" "se_in_use s" "s = dm_sessions d ! unat i" by (simp_all add: session_lookup_Some)
  have i: "unat i < 16" using ok s by (meson not_less slots_but_empty)
  have "slot_ok (unat i) s" using ok s by (simp add: slots_but_empty session_inv_def)
  then have "unat slot = unat i" using s slot by (simp add: slot_ok_def)
  moreover have "length (dm_peer_static d) = 16" using ok by (simp add: slots_but_empty)
  ultimately have idx: "index_at (dm_peer_static d) (unat slot)
      = (Ok (dm_peer_static d ! unat i) :: (bytes option, ctl_error) outcome)"
    using i by (simp add: index_at_def)
  note rej = reject_well [OF inv, of RejBinding, simplified]
  let ?wire = "take (unat (from_be_bytes (take 2 plain) :: u16)) (drop 2 plain)"
  let ?sig = "take 64 (drop (2 + unat (from_be_bytes (take 2 plain) :: u16)) plain)"
  have good: "stays cr d (d\<lparr>dm_sessions := set_bound i (dm_sessions d), dm_certs := dm_certs d @ [(ce_sig_pubkey c, ?wire)]\<rparr>)"
    if "parse_cert ?wire = Ok c" "dm_peer_static d ! unat i = Some pk"
      "bind_session cr (view_of c) ?sig h pk (ks_ca_pubs (dm_keys d)) now = Ok u" for c pk u
  proof -
    have c: "chain_ok cr (view_of c) (ks_ca_pubs (dm_keys d))" "pk = ce_kex_pubkey c"
      using bind_session_Ok [OF that(3)] by (simp, simp add: view_of_def)
    let ?d = "d\<lparr>dm_certs := dm_certs d @ [(ce_sig_pubkey c, ?wire)]\<rparr>"
    have "node_inv cr ?d" by (rule store_cert_keeps [OF inv]) (use c that(1) in \<open>simp add: certified_def\<close>)
    moreover have "session_lookup i (dm_sessions ?d) = Some s" using look by simp
    moreover have "same_session s (s\<lparr>se_bound := True\<rparr>)" by (simp add: same_session_def)
    ultimately have "node_inv cr (?d\<lparr>dm_sessions := session_put i (s\<lparr>se_bound := True\<rparr>) (dm_sessions ?d)\<rparr>)"
      by (rule put_session_keeps) (use that c in auto)
    moreover have "?d\<lparr>dm_sessions := t\<rparr> = d\<lparr>dm_sessions := t, dm_certs := dm_certs d @ [(ce_sig_pubkey c, ?wire)]\<rparr>" for t
      by simp
    ultimately show ?thesis using look by (simp add: stays_def set_bound_def)
  qed
  show ?thesis
    using rej stays_refl [OF inv] good bind_session_no_Panic parse_cert_total idx
    by (auto simp: handle_binding_def Let_def split: outcome.split option.split)
qed

section \<open>Dispatch\<close>

lemma cert_for_sender_certified:
  assumes "list_all (certified cr cas) certs" "cert_for_sender certs k = Some c"
  shows "role_count (ce_role_bits c) \<le> 1"
proof -
  from assms(2) obtain k' where "(k', c) \<in> set (parsed_certs certs)"
    by (auto simp: cert_for_sender_def find_Some_iff) (metis nth_mem)
  then obtain w where "(k', w) \<in> set certs" "parse_cert w = Ok c"
    by (auto simp: parsed_certs_def List.map_filter_def split: outcome.splits)
  with assms(1) show ?thesis by (force simp: list_all_iff certified_def chain_ok_def view_of_def)
qed

lemma separated_roles: "role_count r \<le> 1 \<Longrightarrow> r AND ROLE_APPROVER = 0 \<or> r AND ROLE_AGENT = 0"
  by (auto simp: role_count_def split: if_splits)

lemma no_carried_grant:
  assumes "list_all (certified cr cas) certs"
  shows "carried_grant cr (node_hooks io pio certs now) b now (dp, s) = None"
proof (rule ccontr)
  assume "carried_grant cr (node_hooks io pio certs now) b now (dp, s) \<noteq> None"
  then obtain g where "carried_grant cr (node_hooks io pio certs now) b now (dp, s) = Some g" by blast
  from carried_grant_roles [OF this] obtain env :: envelope and c where
    "cert_for_sender certs (env_sender env) = Some c" "check_role_constraints (ce_role_bits c) = Err RoleAgentApprover"
    unfolding node_hooks_def hooks.simps by blast
  with cert_for_sender_certified [OF assms] show False by (metis check_role_constraints_Ok outcome.distinct(1))
qed

lemma dispatch_keeps_resolver: "dp_resolver (fst (snd (dispatch cr hooks b now (dp, s)))) = dp_resolver dp"
proof -
  have "dp_resolver (snd (dispatch_intent env now dp)) = dp_resolver dp" for env
    by (simp add: dispatch_intent_def Let_def case_prod_unfold split: outcome.split)
  moreover have "dp_resolver (fst (snd (dispatch_refusal cr hooks env now (dp, s)))) = dp_resolver dp" for env
    by (simp add: dispatch_refusal_def Let_def case_prod_unfold split: outcome.split option.split)
  ultimately show ?thesis
    by (simp add: dispatch_def dispatch_grant_tables case_prod_unfold split: outcome.split)
qed

lemma grant_checks_no_Panic:
  assumes "role_count (ce_role_bits c) \<le> 1" "gc_approver_cert ctx = c" "gc_subject_cert ctx = c"
  shows "grant_checks cr env g ctx s \<noteq> Panic"
  using separated_roles [OF assms(1)] match_for_grant_entry [of "gr_intent_id g" "gc_intent_table ctx"] assms(2,3)
  by (auto simp: grant_checks_def index_at_def ok_or_def split: option.splits if_splits)

lemma resolve_and_admit_no_Panic:
  assumes "resolver_inv r"
  shows "fst (resolve_and_admit r iid p now t) \<noteq> Panic"
  using resolve_no_Panic [OF assms, of p]
  by (auto simp: resolve_and_admit_def admit_def Let_def split: outcome.split prod.split)

lemma dispatch_intent_no_Panic:
  assumes "resolver_inv (dp_resolver dp)"
  shows "fst (dispatch_intent env now dp) \<noteq> Panic"
proof -
  have "resolve_and_admit (dp_resolver dp) iid p now t \<noteq> (Panic, t')" for iid p t t'
    using resolve_and_admit_no_Panic [OF assms] by (metis fst_conv)
  then show ?thesis
    using parse_intent_total by (simp add: dispatch_intent_def Let_def split: outcome.split prod.split)
qed

lemma dispatch_grant_no_Panic:
  assumes "list_all (certified cr cas) certs"
  shows "fst (dispatch_grant cr (node_hooks io pio certs now) env now ds) \<noteq> Panic"
proof -
  have "verify_grant_then cr env g (grant_context_of hooks c now dp) ex s' \<noteq> (Panic, s'')"
    if "cert_for_sender certs k = Some c" for g c k dp ex s' s'' and hooks :: "grant_ledger option hooks"
    using grant_checks_no_Panic [OF cert_for_sender_certified [OF assms that],
        of "grant_context_of hooks c now dp" cr env g]
    by (simp add: verify_grant_then_def grant_context_of_def split: outcome.splits prod.splits)
  then show ?thesis
    by (auto simp: dispatch_grant_def node_hooks_def parse_grant_total
        split: outcome.split option.split prod.split effect_outcome.split)
qed

lemma dispatch_refusal_no_Panic: "fst (dispatch_refusal cr hooks env now ds) \<noteq> Panic"
proof -
  have "verify_refusal_then cr env r (hk_on_rejected hooks) cs \<noteq> (Panic, cs')" for r cs cs'
    by (auto simp: verify_refusal_then_def Let_def split: outcome.splits prod.splits if_splits)
  then show ?thesis
    by (auto simp: dispatch_refusal_def Let_def parse_refusal_total split: outcome.split option.split prod.split)
qed

lemma dispatch_no_Panic:
  assumes "resolver_inv (dp_resolver dp)" "list_all (certified cr cas) certs"
  shows "fst (dispatch cr (node_hooks io pio certs now) b now (dp, s)) \<noteq> Panic"
  using dispatch_intent_no_Panic [OF assms(1)]
  by (simp add: dispatch_def case_prod_unfold parse_envelope_total dispatch_grant_no_Panic [OF assms(2)]
      dispatch_refusal_no_Panic split: outcome.split)

lemma dispatch_envelope_well:
  assumes inv: "node_inv cr d"
  shows "handled_well cr d (dispatch_envelope cr io pio plain now d)"
proof -
  let ?hooks = "node_hooks io pio (dm_certs d) now" and ?dp = "node_dispatcher cr d"
  have certs: "list_all (certified cr (ks_ca_pubs (dm_keys d))) (dm_certs d)"
    and tables: "dispatch_inv ?dp"
    using inv by (simp_all add: node_inv_def dispatch_inv_def tables_ok_def node_dispatcher_def)
  obtain res dp ledger where r: "dispatch cr ?hooks plain now (?dp, dm_ledger d) = (res, dp, ledger)"
    by (metis prod_cases3)
  have "ledger = dm_ledger d"
    using dispatch_quiet_state [OF no_carried_grant [OF certs, of io pio now plain ?dp "dm_ledger d"]] r
    by (auto simp: node_hooks_def)
  moreover have np: "res \<noteq> Panic"
    using dispatch_no_Panic [OF _ certs, of ?dp io pio now plain "dm_ledger d"] tables r
    by (simp add: dispatch_inv_def)
  moreover have no: "res \<notin> {Ok GrantExecuted, Ok EffectRefused}"
    using dispatch_fires [of cr ?hooks plain now ?dp "dm_ledger d"] no_carried_grant [OF certs] r by simp
  moreover have "dispatch_inv dp"
    using dispatch_keeps_inv [OF tables, of cr ?hooks plain now "dm_ledger d"] r by simp
  moreover have "dp_resolver dp = dm_resolver d"
    using dispatch_keeps_resolver [of cr ?hooks plain now ?dp "dm_ledger d"] r by (simp add: node_dispatcher_def)
  ultimately have stay: "stays cr d (d\<lparr>dm_intents := dp_intent_table dp, dm_senders := dp_sender_table dp, dm_ledger := ledger\<rparr>)"
    (is "stays cr d ?d")
    using inv by (simp add: stays_def node_inv_def accounts_ok_def slots_but_empty bound_ok_def tables_ok_def dispatch_inv_def)
  then have inv': "node_inv cr ?d" by (simp add: stays_def)
  have via: "handled_well cr d r" if "handled_well cr ?d r" for r
    using handled_well_from [OF that stay] by simp
  show ?thesis
  proof (cases res)
    case (Ok oc)
    have tag: "tag_of_outcome oc \<notin> {Some EvGrantExecuted, Some EvEffectRefused}" using Ok no by (cases oc) auto
    have "handled_well cr ?d (then_state (count_admission ?d) (\<lambda>_ d. publish_event (tag_of_outcome oc) d))"
    proof (cases "count_admission ?d")
      case (Pair r d2)
      have w: "handled_well cr ?d (r, d2)" using count_admission_well [OF inv'] Pair by simp
      show ?thesis
      proof (cases r)
        case r: (Ok u)
        with w have s2: "stays cr ?d d2" by simp
        moreover have "handled_well cr d2 (publish_event (tag_of_outcome oc) d2)"
          using publish_well [OF _ tag] s2 by (simp add: stays_def)
        moreover have "dm_ring d2 = dm_ring ?d" using Pair r by (auto simp: count_admission_def count_up_def split: if_splits)
        ultimately show ?thesis
          unfolding Pair r then_state.simps handled_well_def publish_event_def publish_def count_up_def
          by (auto simp: exhausted_def split: option.splits if_splits elim: stays_trans)
      qed (use w Pair in simp_all)
    qed
    then have "handled_well cr ?d (then_state (if oc = IntentAdmitted then count_admission ?d else (Ok (), ?d))
        (\<lambda>_ d. publish_event (tag_of_outcome oc) d))"
      using publish_well [OF inv' tag] by (cases "oc = IntentAdmitted") simp_all
    then show ?thesis unfolding dispatch_envelope_def r Ok Let_def prod.case outcome.case by (rule via)
  next
    case (Err e)
    then show ?thesis
      using via [OF reject_well [OF inv' classes_not_full(4) [of e]]]
      by (simp add: dispatch_envelope_def r Let_def)
  qed (use np in simp)
qed

section \<open>Envelopes and datagrams\<close>

lemma admission_no_Panic: "fst (verify_envelope_admission hash s c q ps l) \<noteq> Panic"
proof -
  have "fst (check_seq s c q l) \<noteq> Panic" by (simp add: check_seq_def Let_def split: option.split prod.split)
  moreover have "fst (insert_envelope e l') \<noteq> Panic" for e l'
    by (simp add: insert_envelope_def split: option.split)
  ultimately show ?thesis
    by (auto simp: verify_envelope_admission_def split: outcome.splits prod.splits) (metis fst_conv)+
qed

lemma handle_envelope_well:
  assumes inv: "node_inv cr d"
  shows "handled_well cr d (handle_envelope cr io pio now plain d)"
proof -
  note rej = reject_well [OF inv]
  have mem: "handled_well cr d r" if "handled_well cr (d\<lparr>dm_mem := m\<rparr>) r" for m r
    by (rule handled_well_from [OF that]) (use inv in \<open>simp_all add: stays_def\<close>)
  have rej': "handled_well cr d (reject (class_of_verify ve) (d\<lparr>dm_mem := m\<rparr>))" for ve m
    by (rule mem, rule reject_well) (use inv classes_not_full(1) in simp_all)
  have dis: "handled_well cr d (dispatch_envelope cr io pio plain now (d\<lparr>dm_mem := m\<rparr>))" for m
    by (rule mem, rule dispatch_envelope_well) (use inv in simp)
  have np: "verify_envelope_admission hash s c q ps l \<noteq> (Panic, l')" for hash s c q ps l l'
    using admission_no_Panic by (metis fst_conv)
  show ?thesis
    using rej [of RejParse] rej [OF classes_not_full(1)] rej [of VEquivocation] rej' dis np stays_refl [OF inv]
      parse_envelope_total verify_envelope_no_Panic
    by (auto simp: handle_envelope_def Let_def split: outcome.split option.split prod.split)
qed

lemma session_open_same:
  "session_open cr pkt c n s = (res, s') \<Longrightarrow> same_session s s' \<and> se_bound s' = se_bound s \<and> res \<noteq> Panic"
  by (auto simp: session_open_def recv_open_def same_session_def Let_def split: if_splits option.splits prod.splits)

lemma handle_transport_well:
  assumes inv: "node_inv cr d"
  shows "handled_well cr d (handle_transport cr io pio now pkt d)"
proof -
  have stepped: "handled_well cr d (case res of
        Err e \<Rightarrow> reject RejTransport d1 | Panic \<Rightarrow> (Panic, d1)
      | Ok plain \<Rightarrow> if se_bound s' then handle_envelope cr io pio now plain d1
          else handle_binding cr now plain (se_handshake_hash s') (se_local_index s') i d1)"
    if look: "session_lookup i (dm_sessions d) = Some s" and opened: "session_open cr pkt c n s = (res, s')"
      and d: "d1 = d\<lparr>dm_sessions := session_put i s' (dm_sessions d)\<rparr>" for i c n s s' res d1
  proof -
    note same = session_open_same [OF opened]
    have inv': "node_inv cr d1"
      unfolding d by (rule put_session_keeps [OF inv look]) (use same in auto)
    then have stay: "stays cr d d1" by (simp add: stays_def d)
    have via: "handled_well cr d r" if "handled_well cr d1 r" for r
      using handled_well_from [OF that stay] by (simp add: d)
    have "unat i < length (dm_sessions d)" "se_in_use s"
      using look inv by (simp_all add: session_lookup_Some node_inv_def slots_but_empty session_inv_def)
    then have "session_lookup i (dm_sessions d1) = Some s'"
      using look same by (simp add: d session_lookup_Some session_put_def same_session_def)
    from handle_binding_well [OF inv' this refl] show ?thesis
      using via handle_envelope_well [OF inv'] reject_well [OF inv', of RejTransport] same
      by (cases res) simp_all
  qed
  show ?thesis
    using stepped stays_refl [OF inv]
    by (simp add: handle_transport_def Let_def split: option.split prod.split)
qed

lemma handle_datagram_well:
  "node_inv cr d \<Longrightarrow> handled_well cr d (handle_datagram cr sr pkt d)"
  using handle_handshake_well handle_transport_well stays_refl by (simp add: handle_datagram_def)

section \<open>The control plane\<close>

lemma publish_no_effects:
  "no_effects r \<Longrightarrow> tag \<notin> {EvGrantExecuted, EvEffectRefused} \<Longrightarrow> no_effects (snd (publish tag r))"
  by (auto simp: no_effects_def publish_def count_up_def list_all_iff dest: in_set_dropD)

lemma post_intent_tables:
  assumes "tables_ok r (as_intents s) st" "no_effects (as_ring s)"
  shows "tables_ok r (as_intents (snd (post_intent body r now s))) st
    \<and> no_effects (as_ring (snd (post_intent body r now s)))"
proof (cases "intent_request body")
  case (Ok req)
  obtain iid p where req: "req = (iid, p)" by fastforce
  obtain res t where ra: "resolve_and_admit r iid p now (as_intents s) = (res, t)" by fastforce
  have t: "tables_ok r t st"
    using resolve_and_admit_table [of r "as_intents s" iid p now] assms(1) ra by (simp add: tables_ok_def)
  obtain pr ring where pub: "publish EvIntentAdmitted (as_ring s) = (pr :: (unit, api_error) outcome, ring)" by fastforce
  have "no_effects ring" using publish_no_effects [OF assms(2), of EvIntentAdmitted] pub by (metis snd_conv insertE event_tag.distinct(3,5) singletonD)
  then show ?thesis
    using t assms(2) ra pub
    by (auto simp: post_intent_def Ok req Let_def split: outcome.split resolve_error.split intent_error.split)
qed (simp_all add: post_intent_def assms)

lemma http_reply_stays: "node_inv cr d \<Longrightarrow> stays cr d (snd (http_reply used now buf req target d))"
proof -
  assume inv: "node_inv cr d"
  have "stays cr d (snd (post_reply now body d))" for body
  proof -
    let ?s = "\<lparr>as_intents = dm_intents d, as_metrics = dm_metrics d, as_ring = dm_ring d\<rparr>"
    obtain res s' where p: "post_intent (from_utf8_lossy body) (dm_resolver d) now ?s = (res, s')" by fastforce
    have "tables_ok (dm_resolver d) (as_intents s') (dm_senders d) \<and> no_effects (as_ring s')"
      using post_intent_tables [of "dm_resolver d" ?s "dm_senders d" "from_utf8_lossy body" now] inv p
      by (simp add: node_inv_def)
    then show ?thesis
      using inv by (simp add: post_reply_def p stays_def node_inv_def accounts_ok_def slots_but_empty bound_ok_def)
  qed
  then show ?thesis
    using stays_refl [OF inv] by (simp add: http_reply_def split: outcome.split)
qed

lemma respond_state [simp]: "snd (snd (respond takes status body c d)) = d"
  by (simp add: respond_def split: prod.split)

lemma route_http_stays: "node_inv cr d \<Longrightarrow> stays cr d (snd (snd (route_http takes used now c d)))"
proof -
  assume inv: "node_inv cr d"
  have reply: "stays cr d (snd (snd (case http_reply used now (cn_buf c) req target d of
      (Ok (status, body), d) \<Rightarrow> respond takes status body c d | (Err e, d) \<Rightarrow> (Err e, c, d) | (Panic, d) \<Rightarrow> (Panic, c, d))))"
    for req target
    using http_reply_stays [OF inv, of used now "cn_buf c" req target]
    by (cases "http_reply used now (cn_buf c) req target d") (simp split: outcome.split prod.split)
  have "stays cr d (d\<lparr>dm_ctl_auth_refused := n\<rparr>)" for n using inv by (simp add: stays_def)
  then show ?thesis
    using reply stays_refl [OF inv] by (auto simp: route_http_def split: outcome.split option.split)
qed

lemma route_clients_stays: "node_inv cr d \<Longrightarrow> stays cr d (snd (snd (route_clients takes used now i cs d)))"
proof (induction cs arbitrary: i d)
  case (Cons c cs)
  note inv = \<open>node_inv cr d\<close>
  show ?case
  proof (cases "cn_state c = Writing")
    case False
    with Cons.IH [OF inv, of "i + 1"] show ?thesis by (auto split: prod.split)
  next
    case True
    have step: "stays cr d (snd (snd (route_http (takes i) used now c (d\<lparr>dm_ctl_requests := n\<rparr>))))" for n
      using route_http_stays [of cr "d\<lparr>dm_ctl_requests := n\<rparr>" "takes i" used now c] inv by (simp add: stays_def)
    show ?thesis
    proof (cases "count_up (dm_ctl_requests d) 1 :: (nat, ctl_error) outcome")
      case (Ok n)
      obtain r c' d' where rt: "route_http (takes i) used now c (d\<lparr>dm_ctl_requests := n\<rparr>) = (r, c', d')"
        by (metis prod_cases3)
      have s': "stays cr d d'" using step [of n] rt by simp
      have "stays cr d (snd (snd (route_clients takes used now (i + 1) cs d')))"
        using stays_trans [OF s' Cons.IH [of d' "i + 1"]] s' by (simp add: stays_def)
      then show ?thesis
        using s' rt Ok True by (cases r) (auto split: prod.split)
    qed (use True stays_refl [OF inv] in simp_all)
  qed
qed (simp add: stays_refl)

lemma poll_control_stays: "node_inv cr d \<Longrightarrow> stays cr d (snd (poll_control ti d))"
proof -
  assume inv: "node_inv cr d"
  have "stays cr d (d'\<lparr>dm_control := c\<rparr>)" if "stays cr d d'" for d' c using that by (simp add: stays_def)
  then show ?thesis
    using stays_refl [OF inv] route_clients_stays [OF inv]
    by (simp add: poll_control_def split: option.split prod.split outcome.split) (metis snd_conv)
qed

section \<open>A run of the node\<close>

lemma drain_stays: "node_inv cr d \<Longrightarrow> drain cr pkts d = (Ok u, d') \<Longrightarrow> stays cr d d'"
proof (induction pkts arbitrary: d)
  case (Cons p pkts)
  obtain sr pkt where p: "p = (sr, pkt)" by fastforce
  from Cons.prems(2) obtain u1 d1 where h: "handle_datagram cr sr pkt d = (Ok u1, d1)"
    and rest: "drain cr pkts d1 = (Ok u, d')" by (auto simp: p then_state_eq_Ok)
  have "stays cr d d1" using handle_datagram_well [OF Cons.prems(1), of sr pkt] h by simp
  with Cons.IH [OF _ rest] show ?case using stays_trans by (auto simp: stays_def)
qed (simp add: stays_refl)

lemma run_pass_stays:
  assumes "node_inv cr d" "run_pass cr waiting now ti d = (Ok u, d')"
  shows "stays cr d d'"
proof -
  from assms(2) obtain u1 d1 u2 d2 where 1: "drain cr (take DRAIN_K waiting) d = (Ok u1, d1)"
    and 2: "release_stale_slots now d1 = (Ok u2, d2)"
    and 3: "(if dm_control d2 \<noteq> None then poll_control ti d2 else (Ok (), d2)) = (Ok u, d')"
    by (auto simp: run_pass_def then_state_eq_Ok)
  have s1: "stays cr d d1" by (rule drain_stays [OF assms(1) 1])
  then have s2: "stays cr d1 d2" using release_stale_slots_keeps [of cr d1, OF _ 2] by (simp add: stays_def)
  then have "stays cr d2 d'"
    using 3 poll_control_stays [of cr d2 ti] stays_refl [of cr d2] by (auto simp: stays_def split: if_splits)
  with s1 s2 show ?thesis by (blast intro: stays_trans)
qed

text \<open>
  What the node does: the four steps of its start, and the passes of its loop. A pass that does
  not return normally ends the loop, or the process.
\<close>

datatype node_op =
    NResource bytes
  | NLedger open_answer bool ledger_disk
  | NControlPlane bool
  | NToken bytes
  | NPass "(surroundings \<times> bytes) list" u64 tick_input

fun node_step :: "crypto \<Rightarrow> node_op \<Rightarrow> daemon \<Rightarrow> daemon" where
  "node_step cr (NResource canonical) d = snd (add_resource canonical d)"
| "node_step cr (NLedger io locked disk) d = snd (attach_ledger io locked disk d)"
| "node_step cr (NControlPlane bound) d = snd (attach_control bound d)"
| "node_step cr (NToken t) d = d\<lparr>dm_token := Some t\<rparr>"
| "node_step cr (NPass waiting now ti) d =
     (case run_pass cr waiting now ti d of (Ok _, d') \<Rightarrow> d' | (_, d') \<Rightarrow> d)"

abbreviation node_run :: "crypto \<Rightarrow> keys \<Rightarrow> node_op list \<Rightarrow> daemon" where
  "node_run cr k ops \<equiv> fold (node_step cr) ops (daemon_new cr k)"

lemma daemon_new_inv: "node_inv cr (daemon_new cr k)"
proof -
  have "session_inv session_table_new"
    by (simp add: session_inv_def session_table_new_def MAX_SESSIONS_def slot_ok_def session_new_def)
  moreover have "resolver_inv (resolver_new cr pk)" for pk using resolvers.inv_run [of "[]"] by simp
  ultimately show ?thesis
    by (simp add: node_inv_def daemon_new_def accounts_ok_def wire_counters_new_def reject_count slots_but_empty
        hs_table_new_def HS_MAX_SESSIONS_def slot_agrees_def session_table_new_def MAX_SESSIONS_def session_new_def
        bound_ok_def no_effects_def ring_new_def tables_ok_def table_new_inv)
      (simp add: table_new_def sender_table_new_def)
qed

lemma attach_inv:
  "node_inv cr d \<Longrightarrow> node_inv cr (snd (attach_ledger io locked disk d))"
  "node_inv cr d \<Longrightarrow> node_inv cr (snd (attach_control bound d))"
  by (cases "fst (ledger_open io locked disk)") (simp_all add: attach_ledger_def attach_control_def)

lemma node_step_inv: "node_inv cr d \<Longrightarrow> node_inv cr (node_step cr op d)"
proof (cases op)
  case (NResource c)
  assume inv: "node_inv cr d"
  then have "resolver_inv (snd (resolver_add c (dm_resolver d)))"
    using resolver_step_inv [of "dm_resolver d" "RsAdd c"] by (simp add: node_inv_def tables_ok_def)
  with inv NResource show ?thesis
    by (cases "resolver_add c (dm_resolver d)")
      (simp add: add_resource_def node_inv_def accounts_ok_def slots_but_empty bound_ok_def tables_ok_def)
next
  case (NPass waiting now ti)
  assume "node_inv cr d"
  then show ?thesis
    using run_pass_stays [of cr d waiting now ti] NPass
    by (cases "run_pass cr waiting now ti d"; cases "fst (run_pass cr waiting now ti d)") (simp_all add: stays_def)
qed (simp_all add: attach_inv)

interpretation node: guarded_machine "daemon_new cr k" "node_step cr" "node_inv cr"
  by unfold_locales (simp_all add: daemon_new_inv node_step_inv)

section \<open>The ledger as the record of consumption\<close>

text \<open>A grant is barred once it has expired, or while the ledger holds its id with an expiry as late.\<close>

definition node_barred :: "u64 \<Rightarrow> grant_ledger option \<Rightarrow> bytes \<times> u64 \<Rightarrow> bool" where
  "node_barred now ledger k \<longleftrightarrow> snd k \<le> now
     \<or> (\<exists>lg e. ledger = Some lg \<and> map_of (gl_consumed lg) (padded_id (fst k)) = Some e \<and> snd k \<le> e)"

text \<open>The effect's commit was new and succeeded.\<close>

definition node_recorded :: "disk_write \<Rightarrow> prune_answer \<Rightarrow> u64 \<Rightarrow> grant \<Rightarrow> grant_ledger option \<Rightarrow> bool" where
  "node_recorded io pio now g ledger =
     (case ledger of
        None \<Rightarrow> False
      | Some lg \<Rightarrow>
          let gid = padded_id (gr_grant_id g) in
          \<not> is_consumed gid lg \<and> \<not> is_published gid lg
          \<and> fst (commit_consumed io pio gid (gr_not_after g) now lg) = Ok ())"

lemma map_of_filter: "map_of xs k = Some e \<Longrightarrow> P (k, e) \<Longrightarrow> map_of (filter P xs) k = Some e"
  by (induction xs) (auto split: if_splits)

lemma prune_keeps_live:
  assumes "map_of (gl_consumed l) k = Some e" "now < e"
  shows "map_of (gl_consumed (snd (prune_expired pio now l))) k = Some e"
proof -
  have "map_of (filter (\<lambda>(gid, e). \<not> e \<le> now) (gl_consumed l)) k = Some e"
    by (rule map_of_filter [OF assms(1)]) (use assms(2) in simp)
  with assms(1) prune_expired_fields [of pio now l] show ?thesis by auto
qed

lemma append_consumed [simp]: "gl_consumed (snd (ledger_append io r l)) = gl_consumed l"
  using append_cache_fields by (metis prod.collapse)

lemma room_keeps_live:
  "map_of (gl_consumed l) k = Some e \<Longrightarrow> now < e \<Longrightarrow> map_of (gl_consumed (snd (make_room pio now l))) k = Some e"
  unfolding make_room_def using prune_keeps_live [of l k e now pio]
  by (cases "prune_expired pio now l"; cases "fst (prune_expired pio now l)") simp_all

lemma commit_keeps_live:
  assumes "map_of (gl_consumed l) k = Some e" "now < e"
  shows "map_of (gl_consumed (snd (commit_consumed io pio gid na now l))) k = Some e"
proof (cases "is_consumed gid l \<or> is_published gid l")
  case False
  then have "k \<noteq> gid" using assms(1) by (auto simp: is_consumed_def)
  show ?thesis
    unfolding commit_consumed_eq if_not_P [OF False]
  proof (rule snd_then_state)
    show room: "map_of (gl_consumed (snd (make_room pio now l))) k = Some e" by (rule room_keeps_live [OF assms])
    show "map_of (gl_consumed (snd (then_state (ledger_append io ([TAG_COMMIT] @ gid @ to_be_bytes na) l1)
        (\<lambda>_ l. (Ok (), l\<lparr>gl_consumed_order := gl_consumed_order l @ [gid],
           gl_consumed := AList.update gid na (gl_consumed l)\<rparr>))))) k = Some e"
      if "make_room pio now l = (Ok x, l1)" for x l1
    proof (rule snd_then_state)
      show "map_of (gl_consumed (snd (ledger_append io ([TAG_COMMIT] @ gid @ to_be_bytes na) l1))) k = Some e"
        using room that by simp
    qed (use append_cache_fields room that \<open>k \<noteq> gid\<close> in \<open>fastforce simp: update_conv\<close>)
  qed
qed (simp add: commit_consumed_def assms)

lemma commit_records:
  assumes "fst (commit_consumed io pio gid na now l) = Ok ()" "\<not> (is_consumed gid l \<or> is_published gid l)"
  shows "map_of (gl_consumed (snd (commit_consumed io pio gid na now l))) gid = Some na"
proof -
  obtain l' where l': "commit_consumed io pio gid na now l = (Ok (), l')"
    using assms(1) by (metis prod.collapse)
  then show ?thesis
    unfolding commit_consumed_eq if_not_P [OF assms(2)] then_state_eq_Ok by (auto simp: update_conv)
qed

text \<open>
  What one dispatch of the node meets: the time, the answers of the disk to a write and to a
  pruning, and the certificates the node knows then.
\<close>

record dispatch_setting =
  ds_now :: u64
  ds_write :: disk_write
  ds_prune :: prune_answer
  ds_certs :: "(bytes \<times> bytes) list"

definition hooks_in :: "dispatch_setting \<Rightarrow> grant_ledger option hooks" where
  "hooks_in e = node_hooks (ds_write e) (ds_prune e) (ds_certs e) (ds_now e)"

definition recorded_in :: "dispatch_setting \<Rightarrow> grant \<Rightarrow> grant_ledger option \<Rightarrow> bool" where
  "recorded_in e = node_recorded (ds_write e) (ds_prune e) (ds_now e)"

text \<open>The node's hooks keep the router's contract.\<close>

interpretation node_record: consumption_record ds_now hooks_in node_barred recorded_in
proof
  fix now t :: u64 and e and s :: "grant_ledger option" and gid na k g i
  show "node_barred (ds_now e) s (gid, na) \<Longrightarrow>
      na \<le> ds_now e \<or> hk_already_consumed (hooks_in e) gid na (ds_now e) s"
    by (auto simp: node_barred_def hooks_in_def node_hooks_def node_already_consumed_def is_consumed_def)
  show "recorded_in e g s \<Longrightarrow>
      node_barred (ds_now e) (snd (hk_execute_effect (hooks_in e) g s)) (gr_grant_id g, gr_not_after g)"
    by (auto simp: recorded_in_def hooks_in_def node_recorded_def node_hooks_def execute_effect_def
        node_barred_def commit_records Let_def split: option.splits)
  show "node_barred t s k \<Longrightarrow> t \<le> now \<Longrightarrow> node_barred now s k"
    by (auto simp: node_barred_def)
  show "node_barred (ds_now e) s k \<Longrightarrow> node_barred (ds_now e) (snd (hk_execute_effect (hooks_in e) g s)) k"
    using commit_keeps_live
    by (fastforce simp: node_barred_def hooks_in_def node_hooks_def execute_effect_def not_le)
  show "node_barred (ds_now e) s k \<Longrightarrow> node_barred (ds_now e) (hk_on_rejected (hooks_in e) i s) k"
    by (simp add: hooks_in_def node_hooks_def)
qed

section \<open>Requests without the token\<close>

text \<open>
  A request carries a token when its head, up to the first blank line, has the name of the header,
  in any letter case, with the token right behind it, up to the end of the line.
\<close>

definition carries_token :: "bytes \<Rightarrow> bytes \<Rightarrow> bool" where
  "carries_token buf t \<longleftrightarrow>
     (\<exists>pre name post. buf = pre @ name @ t @ post \<and> map to_ascii_lowercase name = ascii ''authorization: bearer ''
        \<and> (post = [] \<or> hd post = 13) \<and> \<not> (\<exists>a b. pre @ name @ t = a @ [13, 10, 13, 10] @ b))"

lemma bearer_scan_finds:
  assumes "bearer_scan t bs" "length t = 64"
  shows "\<exists>pre name post. bs = pre @ name @ t @ post \<and> map to_ascii_lowercase name = BEARER \<and> (post = [] \<or> hd post = 13)"
  using assms(1)
proof (induction bs)
  case (Cons b bs)
  show ?case
  proof (cases "map to_ascii_lowercase (take (length BEARER) (b # bs)) = BEARER")
    case True
    let ?rest = "drop (length BEARER) (b # bs)"
    from Cons.prems True have "token_verify (takeWhile (\<lambda>c. c \<noteq> 13) ?rest) t" by (simp del: take_Suc_Cons drop_Suc_Cons)
    then have t: "takeWhile (\<lambda>c. c \<noteq> 13) ?rest = t" using token_verify_exact assms(2) by (simp add: TOKEN_HEX_LEN_def)
    let ?post = "dropWhile (\<lambda>c. c \<noteq> 13) ?rest"
    have "t @ ?post = ?rest" using takeWhile_dropWhile_id [of "\<lambda>c. c \<noteq> 13" ?rest] unfolding t .
    then have "b # bs = [] @ take (length BEARER) (b # bs) @ t @ ?post" by (metis append_take_drop_id append_Nil)
    moreover have "?post = [] \<or> hd ?post = 13" using hd_dropWhile [of "\<lambda>c. c \<noteq> 13" ?rest] by metis
    ultimately show ?thesis using True by blast
  next
    case False
    with Cons.prems have "bearer_scan t bs" by (simp del: take_Suc_Cons drop_Suc_Cons)
    from Cons.IH [OF this] obtain pre name post where
      "bs = pre @ name @ t @ post" "map to_ascii_lowercase name = BEARER" "post = [] \<or> hd post = 13" by blast
    then have "b # bs = (b # pre) @ name @ t @ post" by simp
    with \<open>map to_ascii_lowercase name = BEARER\<close> \<open>post = [] \<or> hd post = 13\<close> show ?thesis by blast
  qed
qed simp

lemma find_sub_first: "find_sub needle (a @ needle @ b) \<noteq> None" "find_sub needle (a @ needle @ b) = Some i \<Longrightarrow> i \<le> length a"
  by (induction a arbitrary: i) (cases needle; cases b; auto split: if_splits)+

lemma bearer_carried:
  assumes "bearer_ok buf t" "length t = 64"
  shows "carries_token buf t"
proof -
  define n where "n = (case find_sub CRLF2 buf of Some i \<Rightarrow> i | None \<Rightarrow> length buf)"
  have "bearer_scan t (take n buf)" using assms(1) by (simp add: bearer_ok_def n_def)
  from bearer_scan_finds [OF this assms(2)] obtain pre name post where
    head: "take n buf = pre @ name @ t @ post" "map to_ascii_lowercase name = BEARER" "post = [] \<or> hd post = 13" by blast
  have buf: "buf = pre @ name @ t @ post @ drop n buf" using append_take_drop_id [of n buf] unfolding head(1) by simp
  have "post @ drop n buf = [] \<or> hd (post @ drop n buf) = 13"
  proof (cases "find_sub CRLF2 buf")
    case None
    then show ?thesis using head(3) by (auto simp: n_def hd_append)
  next
    case (Some i)
    have four: "length CRLF2 = 4" by (simp add: CRLF2_def)
    from find_sub_SomeD [OF Some] have "take 4 (drop n buf) = CRLF2" "n + 4 \<le> length buf"
      unfolding four by (simp_all add: n_def Some)
    then have "hd (drop n buf) = 13" by (cases "drop n buf") (auto simp: CRLF2_def)
    then show ?thesis using head(3) by (cases post) auto
  qed
  moreover have "\<not> (\<exists>a b. pre @ name @ t = a @ [13, 10, 13, 10] @ b)"
  proof
    assume "\<exists>a b. pre @ name @ t = a @ [13, 10, 13, 10] @ b"
    then obtain a b where ab: "pre @ name @ t = a @ CRLF2 @ b" by (auto simp: CRLF2_def)
    have eq: "buf = a @ CRLF2 @ (b @ post @ drop n buf)" using buf ab by (metis append.assoc)
    then obtain i where i: "find_sub CRLF2 buf = Some i" using find_sub_first(1) by (metis option.exhaust)
    then have "n \<le> length a" using find_sub_first(2) eq by (metis n_def option.case(2))
    moreover have "length a + 4 \<le> length (take n buf)" using arg_cong [OF ab, of length] by (simp add: head(1) CRLF2_def)
    ultimately show False by simp
  qed
  ultimately show ?thesis using buf head(2) unfolding carries_token_def BEARER_def by blast
qed

lemma healthz_reply_state: "snd (http_reply used now buf req (ascii ''/healthz'') d) = d"
  by (simp add: http_reply_def ascii_def INTENTS_PREFIX_def starts_with_def)

lemma route_http_unauthorised:
  assumes "\<And>t. dm_token d = Some t \<Longrightarrow> \<not> bearer_ok (cn_buf c) t"
  shows "snd (snd (route_http takes used now c d)) \<in> {d, d\<lparr>dm_ctl_auth_refused := dm_ctl_auth_refused d + 1\<rparr>}"
proof -
  have "snd (snd (case http_reply used now buf req (ascii ''/healthz'') d of
      (Ok (status, body), d) \<Rightarrow> respond takes status body c d | (Err e, d) \<Rightarrow> (Err e, c, d) | (Panic, d) \<Rightarrow> (Panic, c, d))) = d"
    for buf req
    using healthz_reply_state [of used now buf req d]
    by (cases "http_reply used now buf req (ascii ''/healthz'') d") (simp split: outcome.split prod.split)
  with assms show ?thesis
    by (auto simp: route_http_def count_up_def split: outcome.split option.split)
qed

section \<open>Properties\<close>

text \<open>
  C37: On every run of the node the rejections add up: the total counts exactly the rejections
  of all classes but the full handshake table, whose class is counted apart.
\<close>

theorem node_counts_every_rejection:
  "accounts_ok (node_run cr k ops)"
  using node.inv_run [of cr ops k] by (simp add: node_inv_def)

text \<open>
  C8: On every run of the node the three structures that share the handshake slots agree: a slot
  whose handshake is committed has its peer's static key and a session in use with the transcript
  and the receiving key of that handshake, a free slot has neither, and no session lives
  outside the sixteen slots.
\<close>

theorem node_slots_agree:
  "slots_ok (node_run cr k ops)"
  using node.inv_run [of cr ops k] by (simp add: node_inv_def)

text \<open>
  C7: On every run of the node a session is bound only to a stored certificate whose key agreement key is the
  static key its handshake proved, and every stored certificate has a chain the trusted CAs vouch for.
\<close>

theorem node_bound_sessions_certified:
  "bound_ok (node_run cr k ops)
   \<and> list_all (certified cr (ks_ca_pubs (dm_keys (node_run cr k ops)))) (dm_certs (node_run cr k ops))"
  using node.inv_run [of cr ops k] by (simp add: node_inv_def)

text \<open>
  C6: Whatever a node in any state it can reach receives, it stays up: no datagram makes it panic unless
  one of its counters is at the end of the 64-bit range, and none changes its grant ledger,
  its keys or its resources.
\<close>

theorem node_survives_datagrams:
  "let d = node_run cr k ops in
   case handle_datagram cr sr pkt d of
     (Ok _, d') \<Rightarrow> dm_ledger d' = dm_ledger d \<and> dm_keys d' = dm_keys d \<and> dm_resolver d' = dm_resolver d
   | (Err e, d') \<Rightarrow> False
   | (Panic, d') \<Rightarrow> exhausted d"
  using handle_datagram_well [OF node.inv_run [of cr ops k], of sr pkt]
  by (simp add: handled_well_def stays_def Let_def split: outcome.splits prod.splits)

text \<open>
  No run of the node ever publishes that a grant was executed or its effect declined: the ring of
  events never holds such an event.
\<close>

theorem node_never_reports_effects:
  "no_effects (dm_ring (node_run cr k ops))"
  using node.inv_run [of cr ops k] by (simp add: node_inv_def)

text \<open>
  C35: A request on the control plane whose head does not carry the node's token behind an authorization
  header, or that reaches a node without a token, changes nothing but the counter of refusals, which
  it raises by at most one. The node's token has the 64 digits of its type.
\<close>

theorem unauthorised_requests_inert:
  assumes "pred_option (\<lambda>t. length t = 64) (dm_token d)" "\<nexists>t. dm_token d = Some t \<and> carries_token (cn_buf c) t"
  shows "snd (snd (route_http takes used now c d)) \<in> {d, d\<lparr>dm_ctl_auth_refused := dm_ctl_auth_refused d + 1\<rparr>}"
  by (rule route_http_unauthorised) (use assms bearer_carried in \<open>auto simp: pred_option_def\<close>)

text \<open>A request with a token of one digit.\<close>

definition two_keys :: keys where
  "two_keys = \<lparr>ks_secret_static = replicate 32 2, ks_pub_static = replicate 32 11, ks_sig_key = replicate 32 5,
     ks_cert = [], ks_ca_pubs = []\<rparr>"

definition wrong_token_request :: bytes where
  "wrong_token_request = ascii ''POST /v1/intents HTTP/1.1'' @ [13, 10] @ ascii ''Content-Length: 0'' @ [13, 10]
     @ ascii ''Authorization: Bearer a'' @ [13, 10, 13, 10]"

theorem unauthorised_requests_inert_witness:
  "snd (snd (route_http None 0 9 ((conn_new 0)\<lparr>cn_buf := wrong_token_request\<rparr>)
      ((daemon_new toy_crypto two_keys)\<lparr>dm_token := Some (replicate 64 97)\<rparr>)))
   \<in> {(daemon_new toy_crypto two_keys)\<lparr>dm_token := Some (replicate 64 97)\<rparr>,
      (daemon_new toy_crypto two_keys)\<lparr>dm_token := Some (replicate 64 97), dm_ctl_auth_refused := 1\<rparr>}"
proof -
  have "\<not> carries_token wrong_token_request (replicate 64 97)"
  proof
    assume "carries_token wrong_token_request (replicate 64 97)"
    then obtain pre name post where "wrong_token_request = pre @ name @ replicate 64 97 @ post"
      "map to_ascii_lowercase name = ascii ''authorization: bearer ''" by (auto simp: carries_token_def)
    from arg_cong [OF this(1), of length] arg_cong [OF this(2), of length] show False
      by (simp add: wrong_token_request_def ascii_def)
  qed
  then show ?thesis
    using unauthorised_requests_inert [of "(daemon_new toy_crypto two_keys)\<lparr>dm_token := Some (replicate 64 97)\<rparr>"
      "(conn_new 0)\<lparr>cn_buf := wrong_token_request\<rparr>" None 0 9]
    by (simp add: daemon_new_def)
qed

text \<open>
  C9: With the node's ledger behind the router, whatever certificates the router is given and whatever the
  disk answers, both of which may change from one envelope to the next, no grant whose consumption was
  newly committed takes effect a second time, on any sequence of envelopes on a clock that does not
  run backwards, even when the ledger forgets expired grants to make room. On the certificates
  the shipped node accepts no effect runs at all (no_carried_grant), so there it holds of an empty run;
  it is a property of the router and the ledger together, which does not rest on that.
\<close>

theorem node_grants_fire_once:
  assumes "sorted (map (\<lambda>ev. ds_now (snd ev)) evs)"
  shows "never_again (fired_run cr ds_now hooks_in recorded_in evs (dp, ledger))"
  by (rule node_record.fired_never_again [OF assms])

text \<open>
  A grant of a key that both asked and approves, sent twice. The first envelope takes effect and its
  consumption is recorded; the theorem says that the second does not take effect.
\<close>

definition sole_key :: bytes where "sole_key = replicate 32 3"

definition toy_signature :: bytes where "toy_signature = replicate 64 3"

definition both_roles :: cert where
  "both_roles = (let c = \<lparr>ce_version = 2, ce_role_bits = ROLE_AGENT OR ROLE_APPROVER, ce_sig_pubkey = sole_key,
     ce_kex_pubkey = replicate 32 4, ce_not_before = 0, ce_not_after = 9000, ce_name = [], ce_scope_count = 0,
     ce_scope_ids = [], ce_ca_sig_count = 1, ce_ca_sigs = replicate 96 0, ce_tbs = []\<rparr>
   in c\<lparr>ce_tbs := encode_cert_tbs c\<rparr>)"

definition sole_grant :: grant where
  "sole_grant = (let g = \<lparr>gr_version = 2, gr_grant_id = replicate 16 1, gr_intent_id = replicate 16 7,
     gr_approver = sole_key, gr_subject = sole_key, gr_executor = replicate 32 5, gr_resource_id = [114],
     gr_action_digest = 97 # replicate 31 0, gr_not_after = 2000, gr_tbs = [], gr_sig = []\<rparr>
   in g\<lparr>gr_tbs := encode_grant g, gr_sig := toy_signature\<rparr>)"

definition sole_envelope :: envelope where
  "sole_envelope = (let e = \<lparr>env_version = 1, env_channel_id = replicate 32 0, env_sender = sole_key, env_seq = 1,
     env_parent_count = 0, env_parents = [], env_ts = 0, env_body_type = BODY_GRANT,
     env_body = encode_grant sole_grant, env_tbs = [], env_sig = []\<rparr>
   in e\<lparr>env_tbs := encode_envelope e, env_sig := toy_signature\<rparr>)"

definition awaiting_dispatcher :: dispatcher where
  "awaiting_dispatcher = (new_dispatcher (resolver_new toy_crypto []) (replicate 32 5) placeholder_cert [])
     \<lparr>dp_intent_table := \<lparr>entries = [\<lparr>e_intent_id = replicate 16 7, e_resource_id = [114], e_resource_len = 1,
        e_state = Pending, e_admitted_ms = 900\<rparr>]\<rparr>,
      dp_sender_table := \<lparr>st_entries = [\<lparr>se_intent_id = replicate 16 7, se_sender = sole_key,
        se_action = 97 # replicate 511 0, se_action_len = 1\<rparr>]\<rparr>\<rparr>"

definition at_time :: "u64 \<Rightarrow> dispatch_setting" where
  "at_time now = \<lparr>ds_now = now, ds_write = WriteDone, ds_prune = PruneDone,
     ds_certs = [(sole_key, encode_cert both_roles)]\<rparr>"

lemmas sole_defs = sole_key_def toy_signature_def both_roles_def sole_grant_def sole_envelope_def Let_def

lemma sole_parses:
  "parse_cert (encode_cert both_roles) = Ok both_roles"
  "parse_grant (encode_grant sole_grant) = Ok sole_grant"
  "parse_envelope (encode_envelope sole_envelope) = Ok sole_envelope"
  subgoal unfolding parse_cert_iff by (simp add: wf_cert_def sole_defs codec_lens codec_limits encode_cert_tbs_def)
  subgoal unfolding parse_grant_iff by (simp add: wf_grant_def sole_defs codec_lens codec_limits encode_grant_def)
  subgoal unfolding parse_envelope_iff by (simp add: wf_envelope_def sole_defs codec_lens codec_limits
        encode_grant_def push_field16_def encode_envelope_def)
  done

lemma toy_signed: "verify_signed_err toy_crypto domain msg toy_signature sole_key = Ok ()"
  by (simp add: verify_signed_err_def verify_signed_def toy_crypto_def toy_signature_def sole_key_def codec_lens)

lemma sole_grant_fields [simp]:
  "gr_version sole_grant = 2" "gr_grant_id sole_grant = replicate 16 1" "gr_intent_id sole_grant = replicate 16 7"
  "gr_approver sole_grant = sole_key" "gr_subject sole_grant = sole_key" "gr_executor sole_grant = replicate 32 5"
  "gr_resource_id sole_grant = [114]" "gr_action_digest sole_grant = 97 # replicate 31 0"
  "gr_not_after sole_grant = 2000" "gr_sig sole_grant = toy_signature"
  by (simp_all add: sole_grant_def Let_def)

lemma sole_envelope_fields [simp]:
  "env_body_type sole_envelope = BODY_GRANT" "env_sender sole_envelope = sole_key"
  "env_body sole_envelope = encode_grant sole_grant" "env_sig sole_envelope = toy_signature"
  by (simp_all add: sole_envelope_def Let_def)

lemma sole_carried:
  "carried_grant toy_crypto (hooks_in (at_time 1000)) (encode_envelope sole_envelope) 1000
     (awaiting_dispatcher, Some fresh_ledger) = Some sole_grant"
proof -
  have cert: "hk_cert_for_sender (hooks_in (at_time now)) sole_key = Some both_roles" for now
    by (simp add: hooks_in_def node_hooks_def at_time_def cert_for_sender_def parsed_certs_def sole_parses map_filter_simps)
  let ?ctx = "grant_context_of (hooks_in (at_time 1000)) both_roles 1000 awaiting_dispatcher"
  have roles: "holds_role toy_crypto ?ctx sole_grant both_roles ROLE_APPROVER sole_key"
    "holds_role toy_crypto ?ctx sole_grant both_roles ROLE_AGENT sole_key"
    by (simp_all add: holds_role_def grant_context_of_def hooks_in_def node_hooks_def both_roles_def Let_def
        ROLE_APPROVER_def ROLE_AGENT_def)
  have ctx: "gc_approver_cert ?ctx = both_roles" "gc_subject_cert ?ctx = both_roles"
    "gc_own_pubkey ?ctx = replicate 32 5" "gc_intent_table ?ctx = dp_intent_table awaiting_dispatcher"
    "gc_sender_table ?ctx = dp_sender_table awaiting_dispatcher" "gc_now_ms ?ctx = 1000"
    "gc_first_receipt_ms ?ctx = 1000" "gc_t_max_s ?ctx = 3600" "gc_t_recv_s ?ctx = 300"
    "gc_already_consumed ?ctx = node_already_consumed"
    by (simp_all add: grant_context_of_def hooks_in_def node_hooks_def T_MAX_S_DEFAULT_def T_RECV_S_DEFAULT_def
        awaiting_dispatcher_def new_dispatcher_def)
  have "match_for_grant (replicate 16 7) (dp_intent_table awaiting_dispatcher) = Some 0"
    by (simp add: match_for_grant_def awaiting_dispatcher_def pending_id_def)
  moreover have "sender_lookup (dp_sender_table awaiting_dispatcher) (replicate 16 7) = Some (hd (st_entries (dp_sender_table awaiting_dispatcher)))"
    by (simp add: sender_lookup_def awaiting_dispatcher_def)
  ultimately have "grant_authorised toy_crypto sole_envelope sole_grant ?ctx (Some fresh_ledger)"
    using roles
    unfolding grant_authorised_def sole_grant_fields sole_envelope_fields toy_signed ctx
    by (simp add: codec_lens)
      (simp add: awaiting_dispatcher_def new_dispatcher_def entry_resource_def expiry_ok_def is_consumed_def
        fresh_ledger_def toy_crypto_def pad_to_def node_already_consumed_def)
  then show ?thesis
    by (simp add: carried_grant_def sole_parses verify_envelope_def toy_signed cert)
qed

lemma sole_recorded: "recorded_in (at_time 1000) sole_grant (Some fresh_ledger)"
  by (simp add: recorded_in_def node_recorded_def at_time_def padded_id_def commit_consumed_def ledger_append_def
      ledger_queries fresh_ledger_def MAX_LIVE_def)

theorem node_grants_fire_once_witness:
  "fired_run toy_crypto ds_now hooks_in recorded_in
     [(encode_envelope sole_envelope, at_time 1000), (encode_envelope sole_envelope, at_time 1001)]
     (awaiting_dispatcher, Some fresh_ledger) = [((replicate 16 1, 2000), True)]"
proof -
  let ?b = "encode_envelope sole_envelope"
  have now: "ds_now (at_time t) = t" for t by (simp add: at_time_def)
  define ds where "ds = snd (dispatch toy_crypto (hooks_in (at_time 1000)) ?b 1000 (awaiting_dispatcher, Some fresh_ledger))"
  have again: "never_again (fired_run toy_crypto ds_now hooks_in recorded_in
      [(?b, at_time 1000), (?b, at_time 1001)] (awaiting_dispatcher, Some fresh_ledger))"
    by (rule node_grants_fire_once) (simp add: now)
  have "carried_grant toy_crypto (hooks_in (at_time 1001)) ?b 1001 ds \<in> {None, Some sole_grant}"
    by (auto simp: carried_grant_def sole_parses split: option.splits if_splits)
  then have "carried_grant toy_crypto (hooks_in (at_time 1001)) ?b 1001 ds = None"
    using again by (auto simp: never_again_def now sole_carried sole_recorded ds_def [symmetric])
  then show ?thesis by (simp add: now sole_carried sole_recorded ds_def [symmetric])
qed

end
