(* ===== verification/Boot.thy ===== *)
theory Boot
  imports Node
begin

text \<open>
  The start of the node (src/src/main.rs): the environment, the keys, the ledger, the declared
  resources, the control plane and its token, each step fatal when it fails. The environment
  variables, the files and the operating system's answers are fields of one record; what is
  printed is not modelled. A booted node is one of the runs of the node's theory.
\<close>

datatype fatal =
    TestCaSet | BadBind | BadKeys keys_error | BadLedgerFile ledger_error | BadResource resolve_error
  | BadControl | ControlFailed | TokenFailed token_error

record boot_env =
  be_test_ca :: bool  \<comment> \<open>BOLINA_TEST_CA is set\<close>
  be_bind_parses :: bool
  be_key_io :: key_io
  be_secret_draw :: bytes
  be_sig_draw :: bytes
  be_key_disk :: key_disk
  be_ledger_open :: open_answer
  be_ledger_locked :: bool
  be_ledger_disk :: ledger_disk
  be_resources :: "bytes option"
  be_control_parses :: "bool option"  \<comment> \<open>BOLINA_CONTROL is set, and its address parses\<close>
  be_control_bound :: bool
  be_token_file :: "bytes option"
  be_token_draw :: bytes
  be_token_opens :: bool
  be_token_short :: "nat option"

fun split_on :: "u8 \<Rightarrow> bytes \<Rightarrow> bytes list" where
  "split_on c [] = [[]]"
| "split_on c (b # bs) =
     (if b = c then [] # split_on c bs
      else case split_on c bs of s # ss \<Rightarrow> (b # s) # ss | [] \<Rightarrow> [[b]])"

fun declare_resources :: "bytes list \<Rightarrow> daemon \<Rightarrow> (unit, fatal) outcome \<times> daemon" where
  "declare_resources [] d = (Ok (), d)"
| "declare_resources (raw # rest) d =
     (let name = trim raw in
      if name = [] then declare_resources rest d
      else case add_resource name d of
        (Ok _, d) \<Rightarrow> declare_resources rest d
      | (Err e, d) \<Rightarrow> (Err (BadResource e), d)
      | (Panic, d) \<Rightarrow> (Panic, d))"

definition control_token :: "boot_env \<Rightarrow> (bytes, fatal) outcome" where
  "control_token env =
     (case token_load (be_token_file env) of
        Some raw \<Rightarrow> Ok (token_hex raw)
      | None \<Rightarrow>
          (case fst (token_save (be_token_opens env) (be_token_short env) (be_token_draw env) (be_token_file env)) of
             Ok _ \<Rightarrow> Ok (token_hex (be_token_draw env))
           | Err e \<Rightarrow> Err (TokenFailed e)
           | Panic \<Rightarrow> Panic))"

definition boot_control :: "boot_env \<Rightarrow> daemon \<Rightarrow> (unit, fatal) outcome \<times> daemon" where
  "boot_control env d =
     (case be_control_parses env of
        None \<Rightarrow> (Ok (), d)
      | Some parses \<Rightarrow>
          if \<not> parses then (Err BadControl, d)
          else case attach_control (be_control_bound env) d of
            (Ok _, d) \<Rightarrow>
              (case control_token env of
                 Ok tok \<Rightarrow> (Ok (), d\<lparr>dm_token := Some tok\<rparr>)
               | Err e \<Rightarrow> (Err e, d)
               | Panic \<Rightarrow> (Panic, d))
          | (Err _, d) \<Rightarrow> (Err ControlFailed, d)
          | (Panic, d) \<Rightarrow> (Panic, d))"

definition boot_ledger :: "boot_env \<Rightarrow> daemon \<Rightarrow> (unit, fatal) outcome \<times> daemon" where
  "boot_ledger env d =
     (case attach_ledger (be_ledger_open env) (be_ledger_locked env) (be_ledger_disk env) d of
        (res, d) \<Rightarrow> (map_err BadLedgerFile res, d))"

definition boot_resources :: "boot_env \<Rightarrow> daemon \<Rightarrow> (unit, fatal) outcome \<times> daemon" where
  "boot_resources env d =
     (case be_resources env of None \<Rightarrow> (Ok (), d) | Some list \<Rightarrow> declare_resources (split_on 44 list) d)"

text \<open>The node as it enters its loop.\<close>

definition boot :: "crypto \<Rightarrow> boot_env \<Rightarrow> (daemon, fatal) outcome" where
  "boot cr env =
     (if be_test_ca env then Err TestCaSet
      else if \<not> be_bind_parses env then Err BadBind
      else
        and_then (map_err BadKeys
          (fst (load_or_generate cr (be_key_io env) (be_secret_draw env) (be_sig_draw env) (be_key_disk env)))) (\<lambda>k.
        case then_state (boot_ledger env (daemon_new cr k)) (\<lambda>_ d.
             then_state (boot_resources env d) (\<lambda>_. boot_control env)) of
          (Ok _, d) \<Rightarrow> Ok d
        | (Err e, d) \<Rightarrow> Err e
        | (Panic, d) \<Rightarrow> Panic))"

section \<open>What a start declares\<close>

definition declared :: "boot_env \<Rightarrow> bytes list" where
  "declared env = (case be_resources env of
     None \<Rightarrow> [] | Some list \<Rightarrow> filter (\<lambda>n. n \<noteq> []) (map trim (split_on 44 list)))"

lemma add_resource_Ok:
  "add_resource c d = (Ok u, d') \<Longrightarrow>
     d' = node_step cr (NResource c) d \<and> rs_entries (dm_resolver d') = rs_entries (dm_resolver d) @ [c]
     \<and> dm_ledger d' = dm_ledger d \<and> dm_control d' = dm_control d \<and> dm_token d' = dm_token d"
  by (auto simp: add_resource_def resolver_add_def split: prod.splits if_splits)

lemma declare_resources_Ok:
  "declare_resources raws d = (Ok u, d') \<Longrightarrow>
     d' = fold (node_step cr) (map NResource (filter (\<lambda>n. n \<noteq> []) (map trim raws))) d
     \<and> rs_entries (dm_resolver d') = rs_entries (dm_resolver d) @ filter (\<lambda>n. n \<noteq> []) (map trim raws)
     \<and> dm_ledger d' = dm_ledger d \<and> dm_control d' = dm_control d \<and> dm_token d' = dm_token d"
proof (induction raws arbitrary: d)
  case (Cons raw raws)
  show ?case
  proof (cases "trim raw = []")
    case False
    with Cons.prems obtain u1 d1 where a: "add_resource (trim raw) d = (Ok u1, d1)"
      and r: "declare_resources raws d1 = (Ok u, d')"
      by (auto simp: Let_def split: prod.splits outcome.splits)
    note one = add_resource_Ok [OF a, of cr]
    have d1: "node_step cr (NResource (trim raw)) d = d1" using one by simp
    show ?thesis using Cons.IH [OF r] one [THEN conjunct2] False by (auto simp: d1 simp del: node_step.simps)
  qed (use Cons in \<open>simp add: Let_def\<close>)
qed simp

lemma boot_control_Ok:
  assumes "boot_control env d = (Ok u, d')"
  shows "dm_resolver d' = dm_resolver d \<and> dm_ledger d' = dm_ledger d
    \<and> (case be_control_parses env of
         None \<Rightarrow> d' = d
       | Some p \<Rightarrow> p \<and> (\<exists>tok. control_token env = Ok tok
           \<and> d' = fold (node_step cr) [NControlPlane True, NToken tok] d))"
  using assms
  by (auto simp: boot_control_def attach_control_def split: option.splits if_splits outcome.splits)

lemma ended_well: "(case r of (Ok (u :: unit), d) \<Rightarrow> Ok d | (Err e, d) \<Rightarrow> Err e | (Panic, d) \<Rightarrow> Panic) = Ok d' \<longleftrightarrow> r = (Ok (), d')"
  by (cases r; cases "fst r") auto

section \<open>A start never panics\<close>

lemma then_state_Panic:
  "fst (then_state r f) = Panic \<longleftrightarrow> fst r = Panic \<or> (\<exists>x s. r = (Ok x, s) \<and> fst (f x s) = Panic)"
  by (cases "(r, f)" rule: then_state.cases) auto

lemma key_file_no_Panic:
  "read_key_file io p n disk \<noteq> Panic" "fst (write_private io p bs disk) \<noteq> Panic"
  "load_cert io disk \<noteq> Panic" "load_cas k i io disk \<noteq> Panic"
proof -
  show "load_cas k i io disk \<noteq> Panic" by (induction k arbitrary: i) (simp_all split: read_result.split)
qed (simp_all add: read_key_file_def write_private_def load_cert_def split: read_result.split write_result.split)

lemma load_or_generate_no_Panic: "fst (load_or_generate cr io sd gd disk) \<noteq> Panic"
proof -
  have "fst (load_key io p dr dk) \<noteq> Panic" "fst (check_pub io pub dk) \<noteq> Panic" for p dr dk pub
    by (simp_all add: load_key_def check_pub_def then_state_Panic key_file_no_Panic split: outcome.split option.split)
  then show ?thesis
    by (simp add: load_or_generate_def Let_def then_state_Panic key_file_no_Panic ensure_dir_def split: outcome.split)
qed

lemma declare_resources_no_Panic: "fst (declare_resources raws d) \<noteq> Panic"
  by (induction raws d rule: declare_resources.induct)
    (auto simp: Let_def add_resource_def resolver_add_def split: outcome.split prod.split if_splits)

lemma boot_no_Panic: "boot cr env \<noteq> Panic"
proof -
  have "fst (boot_ledger env d) \<noteq> Panic" for d
    by (auto simp: boot_ledger_def attach_ledger_def ledger_open_def Let_def split: prod.split outcome.splits if_splits)
  moreover have "control_token env \<noteq> Panic"
    by (simp add: control_token_def token_save_def split: option.split)
  then have "fst (boot_control env d) \<noteq> Panic" for d
    by (auto simp: boot_control_def attach_control_def split: option.split outcome.splits)
  moreover have "fst (boot_resources env d) \<noteq> Panic" for d
    using declare_resources_no_Panic by (simp add: boot_resources_def split: option.split)
  ultimately have "fst (then_state (boot_ledger env d) (\<lambda>_ d. then_state (boot_resources env d) (\<lambda>_. boot_control env))) \<noteq> Panic"
    for d by (simp add: then_state_Panic)
  moreover have "(case r of (Ok (u :: unit), d) \<Rightarrow> Ok d | (Err e, d) \<Rightarrow> Err e | (Panic, d) \<Rightarrow> Panic) = Panic
      \<longleftrightarrow> fst r = Panic" for r :: "(unit, fatal) outcome \<times> daemon"
    by (cases r; cases "fst r") auto
  ultimately show ?thesis using load_or_generate_no_Panic by (simp add: boot_def)
qed

section \<open>Properties\<close>

text \<open>
  C36: A start never panics, and a node that starts serves exactly what was declared: its resources are the non-empty names of
  the list, in order, it has a token exactly when it has a control plane, its ledger is open but its caches
  are empty, whatever the log holds, and it is in a state of the node's runs, so that their invariants hold.
\<close>

theorem boot_serves_what_is_declared:
  "case boot cr env of
     Ok d \<Rightarrow> rs_entries (dm_resolver d) = declared env
       \<and> (dm_token d \<noteq> None) = (be_control_parses env \<noteq> None)
       \<and> dm_control d = map_option (\<lambda>_. []) (be_control_parses env)
       \<and> (\<exists>lg. dm_ledger d = Some lg \<and> gl_consumed lg = [] \<and> gl_file lg = Some 0
            \<and> log_bytes lg = (case dk_log (be_ledger_disk env) of None \<Rightarrow> [] | Some b \<Rightarrow> b))
       \<and> (\<exists>k ops. d = node_run cr k ops)
   | Err e \<Rightarrow> True
   | Panic \<Rightarrow> False"
proof (cases "boot cr env")
  case (Ok d)
  then obtain k u d1 u2 d2 u3 where
    led: "boot_ledger env (daemon_new cr k) = (Ok u, d1)"
    and dec: "boot_resources env d1 = (Ok u2, d2)" and ctl: "boot_control env d2 = (Ok u3, d)"
    unfolding boot_def guard_Ok and_then_eq_Ok ended_well then_state_eq_Ok
    by (auto simp: guard_Ok ended_well then_state_eq_Ok)
  let ?init = "daemon_new cr k"
  from led obtain lg where d1: "d1 = ?init\<lparr>dm_ledger := Some lg\<rparr>"
    and lg: "gl_consumed lg = []" "gl_file lg = Some 0"
      "log_bytes lg = (case dk_log (be_ledger_disk env) of None \<Rightarrow> [] | Some b \<Rightarrow> b)"
    by (auto simp: boot_ledger_def attach_ledger_def ledger_open_def log_bytes_def Let_def split: outcome.splits if_splits option.splits)
  have s1: "d1 = node_run cr k [NLedger (be_ledger_open env) (be_ledger_locked env) (be_ledger_disk env)]"
    using led by (auto simp: boot_ledger_def split: prod.splits)
  have s2: "d2 = fold (node_step cr) (map NResource (declared env)) d1
      \<and> rs_entries (dm_resolver d2) = rs_entries (dm_resolver d1) @ declared env
      \<and> dm_ledger d2 = dm_ledger d1 \<and> dm_control d2 = dm_control d1 \<and> dm_token d2 = dm_token d1"
    using dec declare_resources_Ok [of _ d1 u2 d2 cr] by (auto simp: boot_resources_def declared_def split: option.splits)
  obtain ops where s3: "d = fold (node_step cr) ops d2"
    "dm_resolver d = dm_resolver d2" "dm_ledger d = dm_ledger d2"
    "dm_control d = (if be_control_parses env = None then dm_control d2 else Some [])"
    "(dm_token d \<noteq> None) = (dm_token d2 \<noteq> None \<or> be_control_parses env \<noteq> None)"
  proof (cases "be_control_parses env")
    case None
    then show thesis using boot_control_Ok [OF ctl, of cr] that [of "[]"] by simp
  next
    case (Some p)
    then obtain tok where run: "d = fold (node_step cr) [NControlPlane True, NToken tok] d2"
      using boot_control_Ok [OF ctl, of cr] by auto
    then show thesis using that [OF run] run Some by (simp add: attach_control_def)
  qed
  have run: "d = node_run cr k (NLedger (be_ledger_open env) (be_ledger_locked env) (be_ledger_disk env)
      # map NResource (declared env) @ ops)"
    using s1 s2 s3(1) by simp
  have init: "rs_entries (dm_resolver ?init) = []" "dm_control ?init = None" "dm_token ?init = None"
    by (simp_all add: daemon_new_def resolver_new_def)
  have "rs_entries (dm_resolver d) = declared env" "dm_ledger d = Some lg"
    "(dm_token d \<noteq> None) = (be_control_parses env \<noteq> None)"
    "dm_control d = map_option (\<lambda>_. []) (be_control_parses env)"
    using s2 s3(2-5) d1 init by (cases "be_control_parses env"; simp)+
  with run lg show ?thesis by (simp only: Ok outcome.case) blast
qed (simp_all add: boot_no_Panic)

end
