(* ===== verification/Serve.thy ===== *)
theory Serve
  imports Boot
begin

text \<open>
  The loop of the node (run\_loop of src/src/daemon.rs) and the node from its start to its end
  (src/src/main.rs). What surrounds each pass - the shutdown flag, the datagrams waiting, whether
  a receive fails after them, the clock, what the clients of the control plane send - is its
  input; a list of inputs is a stretch of the service, after which the loop still runs unless it
  has ended. The lemmas show why the loop ends and that the node's invariants hold while it runs.
\<close>

datatype loop_error = LoopRecvFailed | LoopControlFailed

record pass_input =
  pi_shutdown :: bool
  pi_waiting :: "(surroundings \<times> bytes) list"
  pi_recv_fails :: bool
  pi_now :: u64
  pi_tick :: tick_input

text \<open>None while the loop runs, then how it ended.\<close>

fun run_loop :: "crypto \<Rightarrow> pass_input list \<Rightarrow> daemon \<Rightarrow> (unit, loop_error) outcome option \<times> daemon" where
  "run_loop cr [] d = (None, d)"
| "run_loop cr (p # ps) d =
     (if pi_shutdown p then (Some (Ok ()), d)
      else if pi_recv_fails p \<and> length (pi_waiting p) < DRAIN_K then
        (case drain cr (pi_waiting p) d of
           (Panic, d) \<Rightarrow> (Some Panic, d)
         | (_, d) \<Rightarrow> (Some (Err LoopRecvFailed), d))
      else
        (case run_pass cr (pi_waiting p) (pi_now p) (pi_tick p) d of
           (Ok _, d) \<Rightarrow> run_loop cr ps d
         | (Err e, d) \<Rightarrow> (Some (Err LoopControlFailed), d)
         | (Panic, d) \<Rightarrow> (Some Panic, d)))"

datatype service_end = NotStarted fatal | NotBound | Running daemon | Ended daemon | Stopped loop_error | Crashed

definition serve :: "crypto \<Rightarrow> boot_env \<Rightarrow> bool \<Rightarrow> pass_input list \<Rightarrow> service_end" where
  "serve cr env udp_binds ps =
     (case boot cr env of
        Err e \<Rightarrow> NotStarted e
      | Panic \<Rightarrow> Crashed
      | Ok d \<Rightarrow>
          if \<not> udp_binds then NotBound
          else case run_loop cr ps d of
            (None, d) \<Rightarrow> Running d
          | (Some (Ok _), d) \<Rightarrow> Ended d
          | (Some (Err e), d) \<Rightarrow> Stopped e
          | (Some Panic, d) \<Rightarrow> Crashed)"

section \<open>Why the loop ends\<close>

lemma drain_not_Err: "node_inv cr d \<Longrightarrow> fst (drain cr pkts d) \<noteq> Err e"
proof (induction pkts arbitrary: d)
  case (Cons p pkts)
  obtain sr pkt where p: "p = (sr, pkt)" by fastforce
  note well = handle_datagram_well [OF Cons.prems, of sr pkt]
  show ?case
  proof (cases "handle_datagram cr sr pkt d")
    case (Pair res d1)
    then show ?thesis using well Cons.IH [of d1] by (cases res) (auto simp: p stays_def)
  qed
qed simp

lemma drain_keeps_inv: "node_inv cr d \<Longrightarrow> drain cr pkts d = (Ok u, d') \<Longrightarrow> node_inv cr d'"
  using drain_stays by (simp add: stays_def)

text \<open>A pass fails with an error only in the control plane, which is attached then.\<close>

lemma run_pass_Err:
  assumes inv: "node_inv cr d" and err: "run_pass cr waiting now ti d = (Err e, d')"
  shows "\<exists>d2. node_inv cr d2 \<and> dm_control d2 \<noteq> None \<and> poll_control ti d2 = (Err e, d')"
proof -
  obtain r1 d1 where 1: "drain cr (take DRAIN_K waiting) d = (r1, d1)" by fastforce
  with err drain_not_Err [OF inv, of "take DRAIN_K waiting"] have r1: "r1 = Ok ()"
    by (cases r1) (auto simp: run_pass_def)
  have inv1: "node_inv cr d1" using drain_keeps_inv [OF inv] 1 r1 by simp
  obtain r2 d2 where 2: "release_stale_slots now d1 = (r2, d2)" by fastforce
  have "r2 \<noteq> Err x" for x using 2 by (auto simp: release_stale_slots_def count_up_def Let_def split: prod.splits if_splits)
  with err 1 r1 2 have r2: "r2 = Ok ()" by (cases r2) (auto simp: run_pass_def)
  have "node_inv cr d2" using release_stale_slots_keeps [OF inv1] 2 r2 by (simp add: stays_def)
  with err 1 r1 2 r2 show ?thesis by (auto simp: run_pass_def split: if_splits)
qed

text \<open>
  While the loop of a booted node runs, and when it ends by the shutdown flag or a failing receive, the node
  is in a state where its invariants hold; it ends with an error of its own only when polling an
  attached control plane fails in such a state.
\<close>

theorem service_keeps_invariants:
  assumes "node_inv cr d"
  shows "case run_loop cr ps d of
      (None, d') \<Rightarrow> node_inv cr d'
    | (Some (Ok _), d') \<Rightarrow> node_inv cr d'
    | (Some (Err LoopRecvFailed), d') \<Rightarrow> node_inv cr d'
    | (Some (Err LoopControlFailed), d') \<Rightarrow>
        (\<exists>d2 ti e. node_inv cr d2 \<and> dm_control d2 \<noteq> None \<and> poll_control ti d2 = (Err e, d'))
    | (Some Panic, d') \<Rightarrow> True"
  using assms
proof (induction cr ps d rule: run_loop.induct)
  case (2 cr p ps d)
  consider "pi_shutdown p" | "\<not> pi_shutdown p" "pi_recv_fails p \<and> length (pi_waiting p) < DRAIN_K"
    | "\<not> pi_shutdown p" "\<not> (pi_recv_fails p \<and> length (pi_waiting p) < DRAIN_K)" by blast
  then show ?case
  proof cases
    case c: 2
    then show ?thesis
      using drain_not_Err [OF 2(2), of "pi_waiting p"] drain_keeps_inv [OF 2(2), of "pi_waiting p"]
      by (cases "drain cr (pi_waiting p) d"; cases "fst (drain cr (pi_waiting p) d)") auto
  next
    case c: 3
    obtain r d1 where r: "run_pass cr (pi_waiting p) (pi_now p) (pi_tick p) d = (r, d1)" by fastforce
    show ?thesis
    proof (cases r)
      case (Ok u)
      have inv1: "node_inv cr d1" using run_pass_stays [OF 2(2), of "pi_waiting p" "pi_now p" "pi_tick p"] r Ok by (simp add: stays_def)
      have eq: "run_loop cr (p # ps) d = run_loop cr ps d1" using c r Ok by auto
      show ?thesis unfolding eq by (rule 2(1) [OF c r [symmetric] Ok inv1])
    next
      case (Err e)
      with run_pass_Err [OF 2(2)] r have "\<exists>d2 ti e. node_inv cr d2 \<and> dm_control d2 \<noteq> None \<and> poll_control ti d2 = (Err e, d1)" by blast
      moreover have eq: "run_loop cr (p # ps) d = (Some (Err LoopControlFailed), d1)" using c r Err by auto
      ultimately show ?thesis unfolding eq by simp
    next
      case Panic
      have eq: "run_loop cr (p # ps) d = (Some Panic, d1)" using c r Panic by auto
      show ?thesis unfolding eq by simp
    qed
  qed (use 2(2) in simp)
qed simp

end
