(* ===== verification/Client.thy ===== *)
theory Client
  imports Binding Session Keys RustText
begin

text \<open>
  The wire side of the integration client (src/tools/integration-client/src: keys.rs,
  handshake.rs and the frames of ladder\_a.rs and ladder\_b.rs): the seeded identity and its
  certificate, the initiator's exchange with a node, the binding frame, and the envelopes and
  bodies the client builds. The random generator is an argument, and so are the clock (its
  readings are numbered), the drawn ephemeral secret and what the socket answers; the datagrams
  sent are a list that the operations extend. Error texts are the constructors of an error type.
\<close>

section \<open>Identity\<close>

record client_keys =
  cl_kex :: key_pair
  cl_sig :: bytes
  cl_approver :: bytes
  cl_ca :: bytes

text \<open>Four draws of 32 bytes from the generator of the seed, in this order.\<close>

definition seeded :: "crypto \<Rightarrow> (u64 \<Rightarrow> nat \<Rightarrow> bytes) \<Rightarrow> u64 \<Rightarrow> client_keys" where
  "seeded cr draw seed =
     \<lparr>cl_kex = from_secret cr (draw seed 0), cl_sig = draw seed 1, cl_approver = draw seed 2, cl_ca = draw seed 3\<rparr>"

definition build_cert :: "crypto \<Rightarrow> client_keys \<Rightarrow> u64 \<Rightarrow> u64 \<Rightarrow> bytes" where
  "build_cert cr ck nb na =
     (let name = ascii ''integration-client'';
          tbs = [3, ROLE_AGENT] @ ed_public cr (cl_sig ck) @ kp_public (cl_kex ck) @ to_be_bytes nb @ to_be_bytes na
            @ to_be_bytes (word_of_nat (length name) :: u16) @ name @ [1] @ replicate 8 0
      in tbs @ [1] @ ed_public cr (cl_ca ck) @ ed_sign cr (cl_ca ck) (DOMAIN_CERT # tbs))"

section \<open>The socket\<close>

datatype client_error =
    InitiationFailed noise_error | SendToFailed | NoResponse | ResponseSize nat
  | ResponseRefused noise_error | SealFailed transport_error

record client_io =
  io_clock :: "nat \<Rightarrow> u64"
  io_send :: "bytes \<Rightarrow> bool"
  io_recv :: "bytes list \<Rightarrow> bytes option"

text \<open>What was sent so far is the state.\<close>

definition send_to :: "client_io \<Rightarrow> bytes \<Rightarrow> bytes list \<Rightarrow> (unit, client_error) outcome \<times> bytes list" where
  "send_to io pkt sent = (if io_send io pkt then (Ok (), sent @ [pkt]) else (Err SendToFailed, sent))"

section \<open>The exchange\<close>

record exchange =
  ex_result :: handshake_result
  ex_session :: session
  ex_daemon_index :: u32

definition exchange_with ::
  "crypto \<Rightarrow> client_io \<Rightarrow> bytes \<Rightarrow> key_pair \<Rightarrow> bytes \<Rightarrow> bytes \<Rightarrow> u32 \<Rightarrow> bytes list \<Rightarrow>
   (exchange, client_error) outcome \<times> bytes list" where
  "exchange_with cr io eph kex daemon_kex_pub daemon_sig_pub our_index sent =
     (case write_initiation cr eph our_index (io_clock io 1) daemon_sig_pub (replicate 16 0)
             (initiator_new cr kex daemon_kex_pub) of
        (Err e, _) \<Rightarrow> (Err (InitiationFailed e), sent)
      | (Panic, _) \<Rightarrow> (Panic, sent)
      | (Ok msg1, i) \<Rightarrow>
          then_state (send_to io msg1 sent) (\<lambda>_ sent.
          case io_recv io sent of
            None \<Rightarrow> (Err NoResponse, sent)
          | Some m2 \<Rightarrow>
              if length m2 \<noteq> MSG2_SIZE then (Err (ResponseSize (min 2048 (length m2))), sent)
              else case read_response cr m2 daemon_sig_pub i of
                (Err e, _) \<Rightarrow> (Err (ResponseRefused e), sent)
              | (Panic, _) \<Rightarrow> (Panic, sent)
              | (Ok _, i) \<Rightarrow>
                  let result = initiator_finalize cr i;
                      daemon_index = from_be_bytes (take 4 (drop OFF2_SENDER_INDEX m2));
                      s = session_new\<lparr>se_peer_index := daemon_index,
                        se_send := cipher_state_new\<lparr>cs_key := hr_send_key result\<rparr>,
                        se_recv := recv_state_new\<lparr>rs_key := hr_recv_key result\<rparr>, se_bound := True\<rparr>
                  in (Ok \<lparr>ex_result = result, ex_session = s, ex_daemon_index = daemon_index\<rparr>, sent)))"

definition binding_plain :: "crypto \<Rightarrow> bytes \<Rightarrow> bytes \<Rightarrow> bytes \<Rightarrow> bytes" where
  "binding_plain cr sig cert_wire h =
     to_be_bytes (word_of_nat (length cert_wire) :: u16) @ cert_wire @ ed_sign cr sig (DOMAIN_BINDING # h)"

text \<open>Sealing into a buffer of the exact size and sending.\<close>

definition send_sealed ::
  "crypto \<Rightarrow> client_io \<Rightarrow> bytes \<Rightarrow> session \<Rightarrow> bytes list \<Rightarrow> (nat \<times> session, client_error) outcome \<times> bytes list" where
  "send_sealed cr io plaintext s sent =
     (case session_seal cr (HEADER_SIZE + length plaintext + 16) plaintext s of
        (Err e, _) \<Rightarrow> (Err (SealFailed e), sent)
      | (Panic, _) \<Rightarrow> (Panic, sent)
      | (Ok wire, s) \<Rightarrow> then_state (send_to io wire sent) (\<lambda>_ sent. (Ok (length wire, s), sent)))"

definition open_bound_with ::
  "crypto \<Rightarrow> client_io \<Rightarrow> bytes \<Rightarrow> key_pair \<Rightarrow> bytes \<Rightarrow> bytes \<Rightarrow> bytes \<Rightarrow> bytes \<Rightarrow> u32 \<Rightarrow> bytes list \<Rightarrow>
   (exchange \<times> nat, client_error) outcome \<times> bytes list" where
  "open_bound_with cr io eph kex sig cert_wire daemon_kex_pub daemon_sig_pub our_index sent =
     then_state (exchange_with cr io eph kex daemon_kex_pub daemon_sig_pub our_index sent) (\<lambda>ex sent.
     then_state (send_sealed cr io (binding_plain cr sig cert_wire (hr_handshake_hash (ex_result ex))) (ex_session ex) sent)
       (\<lambda>(n, s) sent. (Ok (ex\<lparr>ex_session := s\<rparr>, n), sent)))"

text \<open>The end of the certificate's validity is a checked sum, as in a debug build.\<close>

definition open_bound_session ::
  "crypto \<Rightarrow> client_io \<Rightarrow> bytes \<Rightarrow> client_keys \<Rightarrow> bytes \<Rightarrow> bytes \<Rightarrow> u32 \<Rightarrow> bytes list \<Rightarrow>
   (exchange \<times> nat, client_error) outcome \<times> bytes list" where
  "open_bound_session cr io eph ck daemon_kex_pub daemon_sig_pub our_index sent =
     then_state (checked_add (io_clock io 0) 3600000, sent) (\<lambda>na sent.
     open_bound_with cr io eph (cl_kex ck) (cl_sig ck)
       (build_cert cr ck (saturating_sub (io_clock io 0) 1000) na) daemon_kex_pub daemon_sig_pub our_index sent)"

section \<open>Envelopes\<close>

definition envelope_tbs :: "bytes \<Rightarrow> bytes \<Rightarrow> u64 \<Rightarrow> u64 \<Rightarrow> u8 \<Rightarrow> bytes \<Rightarrow> bytes" where
  "envelope_tbs channel sender seq ts body_type body =
     [2] @ channel @ sender @ to_be_bytes seq @ [0] @ to_be_bytes ts @ [body_type]
     @ to_be_bytes (word_of_nat (length body) :: u32) @ body"

definition build_envelope ::
  "crypto \<Rightarrow> bytes \<Rightarrow> bytes \<Rightarrow> bytes \<Rightarrow> u64 \<Rightarrow> u64 \<Rightarrow> u8 \<Rightarrow> bytes \<Rightarrow> bytes" where
  "build_envelope cr sig_key channel sender seq ts body_type body =
     (let tbs = envelope_tbs channel sender seq ts body_type body
      in tbs @ ed_sign cr sig_key (DOMAIN_ENVELOPE # tbs))"

section \<open>Identifiers\<close>

definition round_tag :: "u64 \<Rightarrow> u32 \<Rightarrow> bytes \<Rightarrow> bytes" where
  "round_tag seed round what = to_decimal (unat seed) @ [58] @ to_decimal (unat round) @ [58] @ what"

definition channel_for :: "crypto \<Rightarrow> u64 \<Rightarrow> u32 \<Rightarrow> bytes" where
  "channel_for cr seed round =
     (let fp = keys_fingerprint cr (round_tag seed round (ascii ''channel'')) in fp @ fp)"

definition id16 :: "crypto \<Rightarrow> u64 \<Rightarrow> u32 \<Rightarrow> bytes \<Rightarrow> bytes" where
  "id16 cr seed round what = keys_fingerprint cr (round_tag seed round what)"

definition resource_for :: "crypto \<Rightarrow> bytes \<Rightarrow> bytes \<Rightarrow> bytes" where
  "resource_for cr daemon_sig_pub lane =
     ascii ''bol:'' @ executor_fp cr daemon_sig_pub @ ascii ''/harness/'' @ lane"

definition seq_for :: "u32 \<Rightarrow> u64 \<Rightarrow> (u64, 'e) outcome" where
  "seq_for round k = and_then (checked_mul (ucast round) 10) (\<lambda>m. checked_add m k)"

section \<open>Bodies\<close>

definition intent_of :: "bytes \<Rightarrow> bytes \<Rightarrow> bytes \<Rightarrow> intent" where
  "intent_of iid resource rationale =
     \<lparr>int_intent_id = iid, int_resource_id = resource, int_action = ascii ''read'', int_rationale = rationale\<rparr>"

definition intent_body :: "bytes \<Rightarrow> bytes \<Rightarrow> bytes" where
  "intent_body iid resource = encode_intent (intent_of iid resource (ascii ''harness ladder A''))"

definition built_grant :: "crypto \<Rightarrow> client_keys \<Rightarrow> bytes \<Rightarrow> bytes \<Rightarrow> bytes \<Rightarrow> u64 \<Rightarrow> grant" where
  "built_grant cr ck gid iid resource not_after =
     (let approver_pub = ed_public cr (cl_approver ck); subject_pub = ed_public cr (cl_sig ck);
          exec_pub = ed_public cr (cl_sig ck);
          tbs = [1] @ gid @ iid @ approver_pub @ subject_pub @ exec_pub
            @ to_be_bytes (word_of_nat (length resource) :: u16) @ resource
            @ replicate LEN_ACTION_DIGEST 0 @ to_be_bytes not_after
      in \<lparr>gr_version = 1, gr_grant_id = gid, gr_intent_id = iid, gr_approver = approver_pub,
          gr_subject = subject_pub, gr_executor = exec_pub, gr_resource_id = resource,
          gr_action_digest = replicate LEN_ACTION_DIGEST 0, gr_not_after = not_after, gr_tbs = tbs,
          gr_sig = ed_sign cr (cl_approver ck) (DOMAIN_GRANT # tbs)\<rparr>)"

definition grant_body :: "crypto \<Rightarrow> client_keys \<Rightarrow> u64 \<Rightarrow> u32 \<Rightarrow> u64 \<Rightarrow> bytes \<Rightarrow> bytes" where
  "grant_body cr ck seed round not_after resource =
     encode_grant (built_grant cr ck (id16 cr seed round (ascii ''grant'')) (id16 cr seed round (ascii ''intent''))
       resource not_after)"

definition client_expired_grant :: "crypto \<Rightarrow> client_keys \<Rightarrow> u64 \<Rightarrow> u32 \<Rightarrow> u64 \<Rightarrow> bytes \<Rightarrow> bytes" where
  "client_expired_grant cr ck seed round now daemon_sig_pub =
     encode_grant (built_grant cr ck (id16 cr seed round (ascii ''b-grant'')) (id16 cr seed round (ascii ''b-intent''))
       (resource_for cr daemon_sig_pub (ascii ''b'')) (saturating_sub now 1000))"

definition build_refusal :: "crypto \<Rightarrow> client_keys \<Rightarrow> bytes \<Rightarrow> bytes \<Rightarrow> bytes" where
  "build_refusal cr ck intent_id note =
     (let tbs = intent_id @ to_be_bytes (word_of_nat (length note) :: u16) @ note;
          r = \<lparr>ref_intent_id = intent_id, ref_note = note, ref_tbs = tbs,
               ref_sig = ed_sign cr (cl_approver ck) (DOMAIN_REFUSAL # tbs)\<rparr>
      in encode_refusal r)"

end
