(* ===== verification/ClientControl.thy ===== *)
theory ClientControl
  imports Control ControlApi HttpParse
begin

text \<open>
  The control side of the integration client (src/tools/integration-client/src/ladder\_d.rs and
  ladder\_v.rs): the HTTP request it formats and the response it reads, the event stream and the
  counters it parses, and the small functions of the volume ladder. Texts are their bytes. The
  lemmas show that the client reads back exactly what the node's control plane writes.
\<close>

unbundle bit_operations_syntax

section \<open>Text\<close>

text \<open>The pieces between separators (split of a char); there is always at least one.\<close>

fun split_char :: "u8 \<Rightarrow> bytes \<Rightarrow> bytes list" where
  "split_char c [] = [[]]"
| "split_char c (b # bs) =
     (if b = c then [] # split_char c bs
      else case split_char c bs of p # ps \<Rightarrow> (b # p) # ps | [] \<Rightarrow> [[b]])"

definition trim_crs :: "bytes \<Rightarrow> bytes" where
  "trim_crs l = rev (dropWhile (\<lambda>b. b = 13) (rev l))"

definition strip_suffix :: "bytes \<Rightarrow> bytes \<Rightarrow> bytes option" where
  "strip_suffix suffix bs = (if ends_with suffix bs then Some (take (length bs - length suffix) bs) else None)"

definition rsplit_once :: "u8 \<Rightarrow> bytes \<Rightarrow> (bytes \<times> bytes) option" where
  "rsplit_once c l =
     (case position (\<lambda>b. b = c) (rev l) of
        None \<Rightarrow> None
      | Some i \<Rightarrow> Some (take (length l - i - 1) l, drop (length l - i) l))"

text \<open>The length of the word a text starts with: up to the first character of white space.\<close>

fun word_length :: "bytes \<Rightarrow> nat" where
  "word_length [] = 0"
| "word_length (b # bs) = (if list_ex (\<lambda>w. starts_with w (b # bs)) white_spaces then 0 else Suc (word_length bs))"

lemma strip_start_length: "length (strip_start n bs) \<le> length bs"
proof (induction n arbitrary: bs)
  case (Suc n)
  show ?case
    by (auto split: option.split intro: order_trans [OF Suc.IH])
qed simp

function split_whitespace :: "bytes \<Rightarrow> bytes list" where
  "split_whitespace bs =
     (let r = trim_start bs; n = word_length r in
      if n = 0 then [] else take n r # split_whitespace (drop n r))"
  by auto
termination
proof (relation "measure length", simp, goal_cases)
  case (1 bs r n)
  then have le: "length r \<le> length bs" and n: "0 < n" and r: "r \<noteq> []"
    using strip_start_length [of "length bs" bs] by (auto simp: trim_start_def)
  have "length (drop n r) < length r" using n r by simp
  with le show ?case by simp
qed

declare split_whitespace.simps [simp del]

definition parse_u16 :: "bytes \<Rightarrow> nat option" where
  "parse_u16 bs = (case parse_u64 bs of Some n \<Rightarrow> if n < 2 ^ 16 then Some n else None | None \<Rightarrow> None)"

section \<open>One request\<close>

definition request_text :: "bytes \<Rightarrow> bytes \<Rightarrow> bytes option \<Rightarrow> bytes option \<Rightarrow> bytes" where
  "request_text verb path body token =
     (let body_bytes = (case body of Some b \<Rightarrow> b | None \<Rightarrow> []);
          auth = (case token of Some t \<Rightarrow> ascii ''Authorization: Bearer '' @ t @ [13, 10] | None \<Rightarrow> [])
      in verb @ [32] @ path @ ascii '' HTTP/1.1'' @ [13, 10] @ ascii ''Host: harness'' @ [13, 10]
         @ ascii ''Content-Type: application/json'' @ [13, 10] @ auth
         @ ascii ''Content-Length: '' @ to_decimal (length body_bytes) @ [13, 10]
         @ ascii ''Connection: close'' @ [13, 10, 13, 10] @ body_bytes)"

datatype http_client_error = ConnectionFailed | NoStatusLine

definition read_reply :: "bytes \<Rightarrow> (nat \<times> bytes, http_client_error) outcome" where
  "read_reply resp =
     (let msg = from_utf8_lossy resp; ws = split_whitespace msg in
      and_then (ok_or NoStatusLine (if length ws \<le> 1 then None else parse_u16 (ws ! 1))) (\<lambda>status.
      Ok (status, case find_sub [13, 10, 13, 10] msg of Some i \<Rightarrow> drop (i + 4) msg | None \<Rightarrow> [])))"

text \<open>The argument is what the peer answers to the request, None when the connection fails.\<close>

definition http_request_to ::
  "(bytes \<Rightarrow> bytes option) \<Rightarrow> bytes \<Rightarrow> bytes \<Rightarrow> bytes option \<Rightarrow> bytes option \<Rightarrow> (nat \<times> bytes, http_client_error) outcome" where
  "http_request_to answer verb path body token =
     and_then (ok_or ConnectionFailed (answer (request_text verb path body token))) read_reply"

section \<open>The event stream\<close>

fun sse_events :: "bytes option \<Rightarrow> bytes list \<Rightarrow> (bytes \<times> nat) list" where
  "sse_events tag [] = []"
| "sse_events tag (l # ls) =
     (let line = trim_crs l in
      case strip_prefix (ascii ''event: '') line of
        Some t \<Rightarrow> sse_events (Some t) ls
      | None \<Rightarrow>
          (case strip_prefix (ascii ''data: '') line of
             Some d \<Rightarrow>
               (case (tag, parse_u64 (trim d)) of
                  (Some t, Some seq) \<Rightarrow> (t, seq) # sse_events None ls
                | _ \<Rightarrow> sse_events None ls)
           | None \<Rightarrow> sse_events tag ls))"

definition parse_sse :: "bytes \<Rightarrow> (bytes \<times> nat) list" where
  "parse_sse body = sse_events None (split_char 10 body)"

section \<open>The counters\<close>

record metrics_snapshot =
  ms_admissions :: nat
  ms_inserts :: nat
  ms_storefull :: nat
  ms_rejects :: "(bytes \<times> nat) list"

text \<open>The snapshot with the three flags of what was seen.\<close>

type_synonym metrics_scan = "metrics_snapshot \<times> bool \<times> bool \<times> bool"

definition CLASS_PREFIX :: bytes where
  "CLASS_PREFIX = ascii ''bolina_wire_rejects_total{class='' @ [QUOTE]"

definition metrics_line :: "bytes \<Rightarrow> metrics_scan \<Rightarrow> metrics_scan" where
  "metrics_line line s =
     (case s of (m, a, i, f) \<Rightarrow>
      case rsplit_once 32 line of
        None \<Rightarrow> s
      | Some (name, val) \<Rightarrow>
          (case parse_u64 val of
             None \<Rightarrow> s
           | Some v \<Rightarrow>
               if name = ascii ''bolina_wire_admissions_total'' then (m\<lparr>ms_admissions := v\<rparr>, True, i, f)
               else if name = ascii ''bolina_ledger_inserts_total'' then (m\<lparr>ms_inserts := v\<rparr>, a, True, f)
               else if name = ascii ''bolina_ledger_storefull_total'' then (m\<lparr>ms_storefull := v\<rparr>, a, i, True)
               else case Option.bind (strip_prefix CLASS_PREFIX name) (strip_suffix (QUOTE # ascii ''}'')) of
                 Some cls \<Rightarrow> (m\<lparr>ms_rejects := ms_rejects m @ [(cls, v)]\<rparr>, a, i, f)
               | None \<Rightarrow> s))"

datatype metrics_error = CountersMissing bool bool bool | MetricsStatus nat | MetricsRequest http_client_error

definition parse_metrics :: "bytes \<Rightarrow> (metrics_snapshot, metrics_error) outcome" where
  "parse_metrics body =
     (case fold metrics_line (text_lines body)
             (\<lparr>ms_admissions = 0, ms_inserts = 0, ms_storefull = 0, ms_rejects = []\<rparr>, False, False, False) of
        (m, a, i, f) \<Rightarrow> if \<not> (a \<and> i \<and> f) then Err (CountersMissing a i f) else Ok m)"

definition read_metrics ::
  "(bytes \<Rightarrow> bytes option) \<Rightarrow> bytes option \<Rightarrow> (metrics_snapshot, metrics_error) outcome" where
  "read_metrics answer token =
     and_then (map_err MetricsRequest (http_request_to answer (ascii ''GET'') (ascii ''/metrics'') None token))
       (\<lambda>(status, body). if status \<noteq> 200 then Err (MetricsStatus status) else parse_metrics body)"

definition reject_delta :: "metrics_snapshot \<Rightarrow> metrics_snapshot \<Rightarrow> bytes" where
  "reject_delta base fin =
     (let parts = concat (map (\<lambda>(name, val).
            let prev = (case find (\<lambda>(n, _). n = name) (ms_rejects base) of Some (_, v) \<Rightarrow> v | None \<Rightarrow> 0);
                d = val - prev
            in if d > 0 then [32] @ name @ [61] @ to_decimal d else []) (ms_rejects fin))
      in if parts = [] then ascii '' none'' else parts)"

definition pacing_for :: "bool \<Rightarrow> nat" where
  "pacing_for no_pacing = (if no_pacing then 0 else 10)"

text \<open>The sum and the product are of machine integers; a list of latencies is far too short for them to overflow.\<close>

definition percentile :: "nat list \<Rightarrow> nat \<Rightarrow> nat" where
  "percentile values p =
     (if values = [] then 0
      else let v = sort values; idx = (length v * p + 99) div 100 in v ! min idx (length v - 1))"

section \<open>Reading back what was written\<close>

lemma ascii_eq: "ascii xs = ascii ys \<longleftrightarrow> xs = ys"
proof -
  have "unat (of_char c :: u8) = of_char c" for c
  proof -
    have "(of_char c :: nat) < 256" by (metis mod_less_divisor of_char_mod_256 zero_less_numeral)
    then have "unat (of_nat (of_char c) :: u8) = of_char c" by (simp add: unat_word_of_nat)
    then show ?thesis by (simp only: of_nat_of_char)
  qed
  then have "c = d" if "(of_char c :: u8) = of_char d" for c d
    using that by (intro of_char_eqI [where 'a = nat]) metis
  then have "inj (of_char :: char \<Rightarrow> u8)" by (rule injI)
  then show ?thesis unfolding ascii_def by (rule inj_map_eq_map)
qed

definition visible :: "u8 \<Rightarrow> bool" where
  "visible b \<longleftrightarrow> 33 \<le> b \<and> b < 128"

lemma white_space_ends: "w \<in> set white_spaces \<Longrightarrow> w \<noteq> [] \<and> \<not> visible (hd w) \<and> \<not> visible (last w)"
  by (auto simp: white_spaces_def visible_def)

lemma starts_with_hd: "w \<noteq> [] \<Longrightarrow> starts_with w bs \<Longrightarrow> bs \<noteq> [] \<and> hd bs = hd w"
  by (cases w; cases bs) (auto simp: starts_with_def)

lemma ends_with_last: "w \<noteq> [] \<Longrightarrow> ends_with w bs \<Longrightarrow> bs \<noteq> [] \<and> last bs = last w"
proof -
  assume "w \<noteq> []" "ends_with w bs"
  then have "bs = take (length bs - length w) bs @ w" by (metis append_take_drop_id ends_with_def)
  with \<open>w \<noteq> []\<close> show ?thesis by (metis Nil_is_append_conv last_appendR)
qed

lemma trim_start_visible: "bs = [] \<or> visible (hd bs) \<Longrightarrow> trim_start bs = bs"
proof -
  assume v: "bs = [] \<or> visible (hd bs)"
  have "\<not> starts_with w bs" if "w \<in> set white_spaces" for w
    using white_space_ends [OF that] starts_with_hd [of w bs] v by auto
  then have "find (\<lambda>w. starts_with w bs) white_spaces = None" by (simp add: find_None_iff)
  then show ?thesis by (cases bs) (simp_all add: trim_start_def)
qed

lemma trim_end_visible: "bs = [] \<or> visible (last bs) \<Longrightarrow> trim_end bs = bs"
proof -
  assume v: "bs = [] \<or> visible (last bs)"
  have "\<not> ends_with w bs" if "w \<in> set white_spaces" for w
    using white_space_ends [OF that] ends_with_last [of w bs] v by auto
  then have "find (\<lambda>w. ends_with w bs) white_spaces = None" by (simp add: find_None_iff)
  then show ?thesis by (cases bs) (simp_all add: trim_end_def)
qed

lemma trim_visible: "list_all visible bs \<Longrightarrow> trim bs = bs"
  by (cases bs) (simp_all add: trim_def trim_start_visible trim_end_visible list_all_iff)

lemma to_decimal_visible: "list_all visible (to_decimal n)"
  using to_decimal_digits [of n] by (auto simp: list_all_iff is_ascii_digit_def visible_def elim!: order_trans [rotated] le_less_trans)

lemma visible_not [simp]: "\<not> visible 10" "\<not> visible 13" "\<not> visible 32"
  by (simp_all add: visible_def)

lemma split_char_line: "c \<notin> set l \<Longrightarrow> split_char c (l @ c # rest) = l # split_char c rest"
  by (induction l) auto

lemma trim_crs_plain: "l = [] \<or> last l \<noteq> 13 \<Longrightarrow> trim_crs l = l"
  by (cases l rule: rev_cases) (auto simp: trim_crs_def)

lemma tag_name_visible: "list_all visible (tag_name t) \<and> tag_name t \<noteq> []"
  by (cases t) (simp_all add: ascii_def visible_def)

lemma plain_line:
  "list_all visible bs \<Longrightarrow> bs \<noteq> [] \<Longrightarrow> 10 \<notin> set pre \<Longrightarrow>
     10 \<notin> set (pre @ bs) \<and> trim_crs (pre @ bs) = pre @ bs"
proof -
  assume v: "list_all visible bs" and "bs \<noteq> []" and p: "10 \<notin> set pre"
  then have "visible (last (pre @ bs))" by (simp add: list_all_iff)
  then have "last (pre @ bs) \<noteq> 13" by force
  moreover have "10 \<notin> set bs" using v visible_not(1) by (force simp: list_all_iff)
  ultimately show ?thesis using p trim_crs_plain by simp
qed

lemma strip_prefix_append [simp]: "strip_prefix pre (pre @ bs) = Some bs"
  by (simp add: strip_prefix_def starts_with_def)

lemma sse_block:
  assumes "seq < 2 ^ 64"
  shows "sse_events None (split_char 10 (ascii ''event: '' @ tag_name t @ [10] @ ascii ''data: '' @ to_decimal seq @ [10, 10] @ rest))
    = (tag_name t, seq) # sse_events None (split_char 10 rest)"
proof -
  let ?e = "ascii ''event: '' @ tag_name t" and ?d = "ascii ''data: '' @ to_decimal seq"
  have e: "10 \<notin> set ?e" "trim_crs ?e = ?e"
    using plain_line [of "tag_name t" "ascii ''event: ''"] tag_name_visible [of t] by (simp_all add: ascii_def)
  have d: "10 \<notin> set ?d" "trim_crs ?d = ?d"
    using plain_line [of "to_decimal seq" "ascii ''data: ''"] to_decimal_visible [of seq] to_decimal_digits [of seq]
    by (simp_all add: ascii_def)
  have no: "strip_prefix (ascii ''event: '') ?d = None" "strip_prefix (ascii ''event: '') [] = None"
    "strip_prefix (ascii ''data: '') [] = None" "trim_crs [] = []"
    by (simp_all add: strip_prefix_def starts_with_def ascii_def trim_crs_def)
  have "split_char 10 (?e @ 10 # ?d @ 10 # [] @ 10 # rest) = ?e # ?d # [] # split_char 10 rest"
    using split_char_line [OF e(1)] split_char_line [OF d(1)] split_char_line [of 10 "[]"] by simp
  then show ?thesis
    using assms by (simp add: e(2) d(2) no Let_def trim_visible to_decimal_visible parse_to_decimal)
qed

lemma sse_blocks:
  assumes "list_all (\<lambda>e. fst e < 2 ^ 64) es"
  shows "sse_events None (split_char 10 (concat (map (\<lambda>(seq, tag). ascii ''event: '' @ tag_name tag @ [10] @ ascii ''data: '' @ to_decimal seq @ [10, 10]) es)))
    = map (\<lambda>(seq, tag). (tag_name tag, seq)) es"
  using assms
proof (induction es)
  case (Cons e es)
  then show ?case by (cases e) (simp add: sse_block [simplified])
qed (simp add: strip_prefix_def starts_with_def ascii_def trim_crs_def Let_def)

lemma ring_numbers: "list_all (\<lambda>e. fst e < 2 ^ 64) (er_events (fold publish_step tags ring_new))"
proof -
  have "list_all (\<lambda>e. fst e < 2 ^ 64) (er_events (publish_step t r))" if "list_all (\<lambda>e. fst e < 2 ^ 64) (er_events r)" for t r
    using that by (auto simp: publish_step_def publish_def count_up_def list_all_iff dest: in_set_dropD)
  then have "list_all (\<lambda>e. fst e < 2 ^ 64) (er_events (fold publish_step tags r))"
    if "list_all (\<lambda>e. fst e < 2 ^ 64) (er_events r)" for r
    using that by (induction tags arbitrary: r) simp_all
  then show ?thesis by (simp add: ring_new_def)
qed

text \<open>
  The client reads the event stream of every node exactly: the tags and numbers of the events
  after the cursor, in order.
\<close>

theorem event_stream_read_back:
  "parse_sse (events_sse_body (fold publish_step tags ring_new) since)
     = map (\<lambda>(seq, tag). (tag_name tag, seq)) (ring_since since (fold publish_step tags ring_new))"
proof -
  have "list_all (\<lambda>e. fst e < 2 ^ 64) (ring_since since (fold publish_step tags ring_new))"
    using ring_numbers [of tags] by (auto simp: ring_since_def Let_def list_all_iff dest: in_set_dropD)
  from sse_blocks [OF this] show ?thesis by (simp add: parse_sse_def events_sse_body_def)
qed

lemma position_first: "(\<And>x. x \<in> set xs \<Longrightarrow> \<not> P x) \<Longrightarrow> P y \<Longrightarrow> position P (xs @ y # ys) = Some (length xs)"
  by (induction xs) auto

lemma text_lines_line:
  assumes "10 \<notin> set l" "l = [] \<or> last l \<noteq> 13"
  shows "text_lines (l @ 10 # rest) = l # text_lines rest"
proof -
  have "position (\<lambda>b. b = 10) (l @ 10 # rest) = Some (length l)"
    by (rule position_first) (use assms(1) in auto)
  then show ?thesis using assms(2) by (subst text_lines.simps) (auto simp: strip_cr_def)
qed

lemma rsplit_last: "c \<notin> set v \<Longrightarrow> rsplit_once c (n @ c # v) = Some (n, v)"
proof -
  assume "c \<notin> set v"
  then have "position (\<lambda>b. b = c) (rev v @ c # rev n) = Some (length v)"
    using position_first [of "rev v" "\<lambda>b. b = c" c "rev n"] by (metis length_rev set_rev)
  then show ?thesis by (simp add: rsplit_once_def)
qed

definition counter_line :: "bytes \<times> nat \<Rightarrow> bytes" where
  "counter_line nv = fst nv @ 32 # to_decimal (snd nv)"

lemma counter_lines:
  assumes "list_all (\<lambda>nv. 10 \<notin> set (fst nv)) nvs"
  shows "text_lines (concat (map (\<lambda>nv. counter_line nv @ [10]) nvs)) = map counter_line nvs"
  using assms
proof (induction nvs)
  case (Cons nv nvs)
  have d: "to_decimal (snd nv) \<noteq> []" "visible (last (to_decimal (snd nv)))"
    using to_decimal_digits [of "snd nv"] to_decimal_visible [of "snd nv"] by (simp_all add: list_all_iff)
  then have "last (counter_line nv) \<noteq> 13" using visible_not(2) by (auto simp: counter_line_def)
  moreover have "10 \<notin> set (counter_line nv)"
    using Cons.prems plain_line [of "to_decimal (snd nv)" "fst nv @ [32]"] to_decimal_visible [of "snd nv"] d
    by (simp add: counter_line_def)
  ultimately have "text_lines (counter_line nv @ 10 # rest) = counter_line nv # text_lines rest" for rest
    by (intro text_lines_line) simp_all
  with Cons show ?case by simp
qed (simp add: text_lines.simps)

lemma metrics_line_counter:
  assumes "v < 2 ^ 64"
  shows "metrics_line (counter_line (name, v)) (m, a, i, f) =
     (if name = ascii ''bolina_wire_admissions_total'' then (m\<lparr>ms_admissions := v\<rparr>, True, i, f)
      else if name = ascii ''bolina_ledger_inserts_total'' then (m\<lparr>ms_inserts := v\<rparr>, a, True, f)
      else if name = ascii ''bolina_ledger_storefull_total'' then (m\<lparr>ms_storefull := v\<rparr>, a, i, True)
      else case Option.bind (strip_prefix CLASS_PREFIX name) (strip_suffix (QUOTE # ascii ''}'')) of
        Some cls \<Rightarrow> (m\<lparr>ms_rejects := ms_rejects m @ [(cls, v)]\<rparr>, a, i, f)
      | None \<Rightarrow> (m, a, i, f))"
proof -
  have "32 \<notin> set (to_decimal v)" using to_decimal_visible [of v] visible_not(3) by (force simp: list_all_iff)
  from rsplit_last [OF this, of name] show ?thesis
    using assms by (simp add: metrics_line_def counter_line_def parse_to_decimal)
qed

definition class_line :: "bytes \<times> nat \<Rightarrow> bytes \<times> nat" where
  "class_line nv = (CLASS_PREFIX @ fst nv @ QUOTE # ascii ''}'', snd nv)"

lemma class_name:
  "CLASS_PREFIX @ n \<noteq> ascii ''bolina_wire_admissions_total''" "CLASS_PREFIX @ n \<noteq> ascii ''bolina_ledger_inserts_total''"
  "CLASS_PREFIX @ n \<noteq> ascii ''bolina_ledger_storefull_total''"
  by (simp_all add: CLASS_PREFIX_def ascii_def)

lemma metrics_class_lines:
  assumes "list_all (\<lambda>nv. snd nv < 2 ^ 64) nvs"
  shows "fold metrics_line (map (counter_line \<circ> class_line) nvs) (m, a, i, f)
    = (m\<lparr>ms_rejects := ms_rejects m @ nvs\<rparr>, a, i, f)"
  using assms
proof (induction nvs arbitrary: m)
  case (Cons nv nvs)
  have "strip_suffix (QUOTE # ascii ''}'') (fst nv @ QUOTE # ascii ''}'') = Some (fst nv)"
    by (simp add: strip_suffix_def ends_with_def)
  with Cons show ?case
    by (cases nv) (simp add: class_line_def metrics_line_counter class_name)
qed simp

lemma zip_as_map: "length xs = length ys \<Longrightarrow> map (\<lambda>i. (xs ! i, ys ! i)) [0..<length xs] = zip xs ys"
  by (rule nth_equalityI) simp_all

definition plain_counters :: "nat \<Rightarrow> nat \<Rightarrow> nat \<Rightarrow> nat \<Rightarrow> wire_counters \<Rightarrow> nat \<Rightarrow> nat \<Rightarrow> nat \<Rightarrow> (bytes \<times> nat) list" where
  "plain_counters adm req ref tmo wire ins sf hs = map (\<lambda>(name, val). (ascii name, val))
       [(''bolina_intents_admitted_total'', adm), (''bolina_ctl_requests_total'', req),
        (''bolina_ctl_auth_refused_total'', ref), (''bolina_ctl_timeouts_total'', tmo),
        (''bolina_wire_admissions_total'', wc_admissions_total wire), (''bolina_ledger_inserts_total'', ins),
        (''bolina_ledger_storefull_total'', sf),
        (''bolina_handshake_released_total'', wc_handshake_released_total wire),
        (''bolina_handshake_slots_used'', hs)]"

lemma metrics_body_lines:
  assumes "length (wc_rejects wire) = REJECT_COUNT"
  shows "metrics_body adm req ref tmo wire ins sf hs = concat (map (\<lambda>nv. counter_line nv @ [10])
     (plain_counters adm req ref tmo wire ins sf hs @ map class_line (zip reject_names (wc_rejects wire))))"
proof -
  have "map (\<lambda>i. metric_line (ascii ''bolina_wire_rejects_total{class='' @ [QUOTE] @ reject_names ! i @ [QUOTE] @ ascii ''}'')
       (wc_rejects wire ! i)) [0..<REJECT_COUNT]
     = map (\<lambda>nv. counter_line (class_line nv) @ [10]) (map (\<lambda>i. (reject_names ! i, wc_rejects wire ! i)) [0..<length reject_names])"
    by (simp add: metric_line_def counter_line_def class_line_def CLASS_PREFIX_def REJECT_COUNT_def o_def)
  also have "\<dots> = map (\<lambda>nv. counter_line nv @ [10]) (map class_line (zip reject_names (wc_rejects wire)))"
    using assms by (simp add: zip_as_map REJECT_COUNT_def o_def)
  finally show ?thesis
    by (simp add: metrics_body_def plain_counters_def metric_line_def counter_line_def)
qed

lemma reject_names_plain: "list_all (\<lambda>n. 10 \<notin> set n) reject_names"
  by (simp add: reject_names_def ascii_def)

lemma plain_counters_scan:
  assumes "list_all (\<lambda>n. n < 2 ^ 64) [adm, req, ref, tmo, wc_admissions_total wire, ins, sf, wc_handshake_released_total wire, hs]"
  shows "fold metrics_line (map counter_line (plain_counters adm req ref tmo wire ins sf hs)) (m, a, i, f)
    = (m\<lparr>ms_admissions := wc_admissions_total wire, ms_inserts := ins, ms_storefull := sf\<rparr>, True, True, True)"
proof -
  have no: "strip_prefix CLASS_PREFIX (ascii ''bolina_intents_admitted_total'') = None"
    "strip_prefix CLASS_PREFIX (ascii ''bolina_ctl_requests_total'') = None"
    "strip_prefix CLASS_PREFIX (ascii ''bolina_ctl_auth_refused_total'') = None"
    "strip_prefix CLASS_PREFIX (ascii ''bolina_ctl_timeouts_total'') = None"
    "strip_prefix CLASS_PREFIX (ascii ''bolina_handshake_released_total'') = None"
    "strip_prefix CLASS_PREFIX (ascii ''bolina_handshake_slots_used'') = None"
    by (simp_all add: strip_prefix_def starts_with_def CLASS_PREFIX_def ascii_def)
  show ?thesis
    using assms by (simp add: plain_counters_def metrics_line_counter no ascii_eq)
qed

lemma metrics_parsed:
  assumes "length (wc_rejects wire) = REJECT_COUNT"
    and "list_all (\<lambda>n. n < 2 ^ 64)
      ([adm, req, ref, tmo, wc_admissions_total wire, ins, sf, wc_handshake_released_total wire, hs] @ wc_rejects wire)"
  shows "parse_metrics (metrics_body adm req ref tmo wire ins sf hs) =
    Ok \<lparr>ms_admissions = wc_admissions_total wire, ms_inserts = ins, ms_storefull = sf,
        ms_rejects = zip reject_names (wc_rejects wire)\<rparr>"
proof -
  let ?cs = "plain_counters adm req ref tmo wire ins sf hs" and ?rs = "zip reject_names (wc_rejects wire)"
  have "list_all (\<lambda>nv. 10 \<notin> set (fst nv)) ?cs" by (simp add: plain_counters_def ascii_def)
  moreover have "list_all (\<lambda>nv. 10 \<notin> set (fst nv)) (map class_line ?rs)"
    using reject_names_plain by (auto simp: class_line_def list_all_iff CLASS_PREFIX_def QUOTE_def ascii_def dest: set_zip_leftD)
  ultimately have "text_lines (metrics_body adm req ref tmo wire ins sf hs) = map counter_line (?cs @ map class_line ?rs)"
    unfolding metrics_body_lines [OF assms(1)] by (intro counter_lines) simp
  moreover have "list_all (\<lambda>nv. snd nv < 2 ^ 64) ?rs"
    using assms(2) by (auto simp: list_all_iff dest: set_zip_rightD)
  note metrics_class_lines [OF this]
  moreover note plain_counters_scan [of adm req ref tmo wire ins sf hs]
  ultimately show ?thesis using assms(2) by (simp add: parse_metrics_def)
qed

text \<open>
  The client reads from the counters the node prints exactly the admissions, the insertions,
  the full-store refusals and every class of rejection with its count.
\<close>

theorem metrics_read_back:
  assumes "length (wc_rejects wire) = REJECT_COUNT"
    and "list_all (\<lambda>n. n < 2 ^ 64)
      ([adm, req, ref, tmo, wc_admissions_total wire, ins, sf, wc_handshake_released_total wire, hs] @ wc_rejects wire)"
  shows "parse_metrics (metrics_body adm req ref tmo wire ins sf hs) =
    Ok \<lparr>ms_admissions = wc_admissions_total wire, ms_inserts = ins, ms_storefull = sf,
        ms_rejects = zip reject_names (wc_rejects wire)\<rparr>"
  by (rule metrics_parsed [OF assms])

theorem metrics_read_back_witness:
  "parse_metrics (metrics_body 1 2 3 4 wire_counters_new 5 6 7) =
    Ok \<lparr>ms_admissions = 0, ms_inserts = 5, ms_storefull = 6,
        ms_rejects = zip reject_names (replicate REJECT_COUNT 0)\<rparr>"
  using metrics_read_back [of wire_counters_new 1 2 3 4 5 6 7]
  by (simp add: wire_counters_new_def list_all_iff)

section \<open>Requests and replies\<close>

text \<open>Lines that end with a carriage return and a line feed.\<close>

definition crlf_lines :: "bytes list \<Rightarrow> bytes" where
  "crlf_lines ls = concat (map (\<lambda>l. l @ [13, 10]) ls)"

definition plain :: "bytes \<Rightarrow> bool" where
  "plain l \<longleftrightarrow> l \<noteq> [] \<and> 13 \<notin> set l"

lemma find_sub_skip:
  "c \<notin> set l \<Longrightarrow> find_sub (c # n) (l @ bs) = map_option ((+) (length l)) (find_sub (c # n) bs)"
  by (induction l; cases "find_sub (c # n) bs") auto

lemma head_end:
  "list_all plain ls \<Longrightarrow> ls \<noteq> [] \<Longrightarrow>
     find_sub [13, 10, 13, 10] (crlf_lines ls @ [13, 10] @ rest) = Some (length (crlf_lines ls) - 2)"
proof (induction ls)
  case (Cons l ls)
  then have l: "13 \<notin> set l" by (simp add: plain_def)
  show ?case
  proof (cases "ls = []")
    case True
    then show ?thesis by (simp add: crlf_lines_def find_sub_skip [OF l])
  next
    case False
    with Cons have IH: "find_sub [13, 10, 13, 10] (crlf_lines ls @ [13, 10] @ rest) = Some (length (crlf_lines ls) - 2)"
      by simp
    obtain k ks where ls: "ls = k # ks" using False by (cases ls) auto
    with Cons.prems obtain b bs where k: "k = b # bs" "b \<noteq> 13" by (cases k) (auto simp: plain_def)
    have "2 \<le> length (crlf_lines ls)" by (simp add: ls crlf_lines_def)
    then show ?thesis
      using IH k by (simp add: ls crlf_lines_def find_sub_skip [OF l])
  qed
qed simp

lemma from_utf8_prefix: "list_all (\<lambda>b. b < 0x80) a \<Longrightarrow> from_utf8 (a @ b) = from_utf8 b"
proof (induction a)
  case (Cons c a)
  then show ?case by (subst from_utf8.simps) (simp add: utf8_step_def)
qed simp

lemma word_length_word:
  "list_all visible w \<Longrightarrow> word_length (w @ 32 # bs) = length w"
proof (induction w)
  case Nil
  then show ?case by (simp add: white_spaces_def starts_with_def)
next
  case (Cons b w)
  have "\<not> starts_with v (b # w @ 32 # bs)" if "v \<in> set white_spaces" for v
    using white_space_ends [OF that] starts_with_hd [of v "b # w @ 32 # bs"] Cons.prems by auto
  then have "\<not> list_ex (\<lambda>v. starts_with v (b # w @ 32 # bs)) white_spaces" by (simp add: list_ex_iff)
  with Cons show ?case by simp
qed

lemma trim_start_space: "bs \<noteq> [] \<Longrightarrow> visible (hd bs) \<Longrightarrow> trim_start (32 # bs) = bs"
proof -
  assume b: "bs \<noteq> []" "visible (hd bs)"
  have "find (\<lambda>w. starts_with w (32 # bs)) white_spaces = Some [32]"
    by (simp add: white_spaces_def starts_with_def)
  then have "trim_start (32 # bs) = strip_start (length bs) bs" by (simp add: trim_start_def)
  then show ?thesis using trim_start_visible [of bs] b by (simp add: trim_start_def)
qed

lemma second_word:
  assumes "list_all visible v" "v \<noteq> []" "list_all visible w" "w \<noteq> []"
  shows "\<exists>ws. split_whitespace (v @ 32 # w @ 32 # bs) = v # w # ws"
proof -
  have "trim_start (v @ 32 # w @ 32 # bs) = v @ 32 # w @ 32 # bs"
    using assms by (cases v) (simp_all add: trim_start_visible)
  then have 1: "split_whitespace (v @ 32 # w @ 32 # bs) = v # split_whitespace (32 # w @ 32 # bs)"
    using assms by (subst split_whitespace.simps) (simp add: word_length_word Let_def)
  have "trim_start (32 # w @ 32 # bs) = w @ 32 # bs"
    using assms by (cases w) (simp_all add: trim_start_space)
  then have "split_whitespace (32 # w @ 32 # bs) = w # split_whitespace (32 # bs)"
    using assms by (subst split_whitespace.simps) (simp add: word_length_word Let_def)
  with 1 show ?thesis by simp
qed

lemma length_crlf_lines: "ls \<noteq> [] \<Longrightarrow> 2 \<le> length (crlf_lines ls)"
  by (cases ls) (simp_all add: crlf_lines_def)

lemma decimal_plain: "13 \<notin> set (to_decimal n)" "list_all (\<lambda>b. b < 0x80) (to_decimal n)"
  using to_decimal_visible [of n] visible_not(2) by (force simp: list_all_iff, simp add: list_all_iff visible_def)

lemma reply_read:
  assumes "status < 2 ^ 16" "from_utf8 body"
  shows "read_reply (response_head status body @ body) = Ok (status, body)"
proof -
  let ?ls = "[ascii ''HTTP/1.1 '' @ to_decimal status @ [32] @ status_text status,
     ascii ''Content-Length: '' @ to_decimal (length body), ascii ''Connection: close'']"
  have head: "response_head status body = crlf_lines ?ls @ [13, 10]"
    by (simp add: response_head_def crlf_lines_def)
  have msg: "13 \<notin> set (status_text status)" "list_all (\<lambda>b. b < 0x80) (status_text status)"
    by (simp_all add: status_text_def ascii_def)
  have "list_all (\<lambda>b. b < 0x80) (response_head status body)"
    using msg(2) decimal_plain(2) by (simp add: response_head_def ascii_def)
  then have utf8: "from_utf8_lossy (response_head status body @ body) = response_head status body @ body"
    using assms(2) by (simp add: from_utf8_lossy_valid from_utf8_prefix)
  have "list_all plain ?ls" using msg(1) decimal_plain(1) by (simp add: plain_def ascii_def)
  then have find: "find_sub [13, 10, 13, 10] (response_head status body @ body) = Some (length (crlf_lines ?ls) - 2)"
    using head_end [of ?ls body] by (simp add: head)
  have "response_head status body @ body = ascii ''HTTP/1.1'' @ 32 # to_decimal status @ 32 #
      (status_text status @ drop (length (ascii ''HTTP/1.1 '' @ to_decimal status @ [32] @ status_text status))
        (response_head status body @ body))"
    by (simp add: response_head_def ascii_def)
  moreover have "list_all visible (ascii ''HTTP/1.1'')" "ascii ''HTTP/1.1'' \<noteq> []"
    by (simp_all add: ascii_def visible_def)
  ultimately obtain ws where "split_whitespace (response_head status body @ body) = ascii ''HTTP/1.1'' # to_decimal status # ws"
    using second_word to_decimal_visible [of status] to_decimal_digits [of status] by metis
  moreover have "drop (length (crlf_lines ?ls) - 2 + 4) (response_head status body @ body) = body"
    using length_crlf_lines [of ?ls] by (simp add: head)
  ultimately show ?thesis
    using assms(1) by (simp add: read_reply_def utf8 find Let_def parse_u16_def parse_to_decimal)
qed

definition request_lines :: "bytes \<Rightarrow> bytes \<Rightarrow> nat \<Rightarrow> bytes option \<Rightarrow> bytes list" where
  "request_lines verb path n token =
     [verb @ 32 # path @ 32 # ascii ''HTTP/1.1'', ascii ''Host: harness'', ascii ''Content-Type: application/json'']
     @ (case token of Some t \<Rightarrow> [ascii ''Authorization: Bearer '' @ t] | None \<Rightarrow> [])
     @ [ascii ''Content-Length: '' @ to_decimal n, ascii ''Connection: close'']"

lemma request_text_lines:
  "request_text verb path body token =
     crlf_lines (request_lines verb path (length (case body of Some b \<Rightarrow> b | None \<Rightarrow> [])) token) @ [13, 10]
     @ (case body of Some b \<Rightarrow> b | None \<Rightarrow> [])"
  by (simp add: request_text_def request_lines_def crlf_lines_def ascii_def split: option.split)

lemma split_crlf_lines:
  "list_all plain ls \<Longrightarrow> ls \<noteq> [] \<Longrightarrow> split_crlf (take (length (crlf_lines ls) - 2) (crlf_lines ls)) = ls"
proof (induction ls)
  case (Cons l ls)
  then have l: "13 \<notin> set l" by (simp add: plain_def)
  show ?case
  proof (cases "ls = []")
    case True
    have "find_sub CRLF l = None" using find_sub_skip [OF l, of "[10]" "[]"] by (simp add: CRLF_def)
    with True show ?thesis by (simp add: crlf_lines_def split_crlf.simps [of l])
  next
    case False
    define rest where "rest = take (length (crlf_lines ls) - 2) (crlf_lines ls)"
    have "take (length (crlf_lines (l # ls)) - 2) (crlf_lines (l # ls)) = l @ 13 # 10 # rest"
    proof -
      have l: "crlf_lines (l # ls) = (l @ [13, 10]) @ crlf_lines ls" by (simp add: crlf_lines_def)
      have n: "length (crlf_lines (l # ls)) - 2 = length (l @ [13, 10]) + (length (crlf_lines ls) - 2)"
        using length_crlf_lines [OF False] unfolding l by (simp del: One_nat_def)
      show ?thesis using length_crlf_lines [OF False] unfolding n l rest_def take_append by simp
    qed
    moreover have "find_sub CRLF (l @ 13 # 10 # rest) = Some (length l)"
      using find_sub_skip [OF l, of "[10]" "13 # 10 # rest"] by (simp add: CRLF_def)
    moreover have "split_crlf rest = ls" using Cons False by (simp add: rest_def)
    ultimately show ?thesis by (simp add: split_crlf.simps [of "l @ 13 # 10 # rest"])
  qed
qed simp

lemma visible_plain: "list_all visible v \<Longrightarrow> 13 \<notin> set v"
  using visible_not(2) by (force simp: list_all_iff)

lemma request_lines_plain:
  assumes "13 \<notin> set verb" "list_all visible path" "case token of Some t \<Rightarrow> list_all visible t | None \<Rightarrow> True"
  shows "list_all plain (request_lines verb path n token)"
  using assms decimal_plain(1) [of n] visible_plain
  by (auto simp: request_lines_def plain_def ascii_def split: option.splits)

lemma trim_digits: "trim (32 # to_decimal n) = to_decimal n"
proof -
  obtain d ds where d: "to_decimal n = d # ds" using to_decimal_digits [of n] by (cases "to_decimal n") auto
  then have "visible d" using to_decimal_visible [of n] by simp
  then have "trim_start (32 # to_decimal n) = to_decimal n" by (simp add: d trim_start_space)
  moreover have "visible (last (to_decimal n))" using to_decimal_visible [of n] d by (simp add: list_all_iff)
  ultimately show ?thesis by (simp add: trim_def trim_end_visible)
qed

lemma length_field:
  assumes "n < 2 ^ 64"
  shows "field_name (ascii ''Content-Length: '' @ to_decimal n) = ascii ''Content-Length''"
    "length_value (field_value (ascii ''Content-Length: '' @ to_decimal n)) = Some n"
proof -
  show name: "field_name (ascii ''Content-Length: '' @ to_decimal n) = ascii ''Content-Length''"
    by (simp add: field_name_def ascii_def COLON_def)
  have "field_value (ascii ''Content-Length: '' @ to_decimal n) = 32 # to_decimal n"
    unfolding field_value_def name by (simp add: ascii_def)
  moreover have "from_utf8 (32 # to_decimal n)"
    using decimal_plain(2) [of n] by (intro from_utf8_ascii) simp
  ultimately show "length_value (field_value (ascii ''Content-Length: '' @ to_decimal n)) = Some n"
    using assms by (simp add: length_value_def trim_digits parse_to_decimal)
qed

lemma request_parsed:
  assumes "list_all visible path" "case token of Some t \<Rightarrow> list_all visible t | None \<Rightarrow> True"
    and "length body \<le> 65536" "m = Post \<longrightarrow> body \<noteq> []"
  shows "http_parse (request_text (method_name m) path (Some body) token) =
    Ok (request_of (length (crlf_lines (request_lines (method_name m) path (length body) token)) - 2)
      (length body) m path)"
proof -
  define ls where "ls = request_lines (method_name m) path (length body) token"
  have verb: "13 \<notin> set (method_name m)" by (cases m) (simp_all add: ascii_def)
  have plain: "list_all plain ls" "ls \<noteq> []"
    using request_lines_plain [OF verb assms(1,2)] by (simp_all add: ls_def request_lines_def)
  let ?buf = "request_text (method_name m) path (Some body) token" and ?i = "length (crlf_lines ls) - 2"
  have buf: "?buf = crlf_lines ls @ [13, 10] @ body" by (simp add: request_text_lines ls_def)
  have find: "find_sub (CRLF @ CRLF) ?buf = Some ?i"
    using head_end [OF plain] by (simp add: buf CRLF_def)
  have split: "split_crlf (take ?i ?buf) = ls"
    using split_crlf_lines [OF plain] by (simp add: buf)
  have fields: "header_fields (take ?i ?buf) = tl ls"
  proof -
    have "\<forall>f\<in>set (tl ls). f \<noteq> []" using plain by (cases ls) (auto simp: list_all_iff plain_def)
    then show ?thesis by (simp add: header_fields_def split)
  qed
  have n: "length body < 2 ^ 64" using assms(3) by simp
  note len = length_field [OF n]
  have "list_all field_ok (tl ls)"
    using len by (auto simp: ls_def request_lines_def field_ok_def declares_length_def split: option.split)
      (simp_all add: ascii_def COLON_def SP_def field_name_def)
  moreover have "declared_lengths (tl ls) = [length body]"
    using len by (auto simp: ls_def request_lines_def declared_lengths_def declares_length_def split: option.split)
      (simp_all add: ascii_def COLON_def SP_def field_name_def)
  moreover have "first_line (take ?i ?buf) = method_name m @ SP # path @ SP # ascii ''HTTP/1.1''"
    by (simp add: first_line_def split) (simp add: ls_def request_lines_def SP_def)
  moreover have "list_all (\<lambda>b. 0x21 \<le> b) path" using assms(1) by (simp add: list_all_iff visible_def)
  ultimately have "request_ok (take ?i ?buf) (length body) m path"
    using assms(3,4) by (simp add: request_ok_def fields)
  with find show ?thesis by (auto simp: http_parse_iff ls_def)
qed

end
