(* ===== verification/Ladders.thy ===== *)
theory Ladders
  imports Client ClientControl
begin

text \<open>
  The rounds of the integration client (src/tools/integration-client/src/ladder\_a.rs to
  ladder\_e.rs and ladder\_v.rs): each is the function from what surrounds the client - the clock,
  the drawn secret, the answers of the sockets, the frozen reference bytes - to its log and the
  datagrams it sent. A log keeps the names of its steps and where it failed; the messages of the
  steps, which are only printed, are not modelled.
\<close>

unbundle bit_operations_syntax

section \<open>The log\<close>

record round_log =
  rl_steps :: "string list"
  rl_frozen :: bytes
  rl_ok :: bool
  rl_failed_at :: "string option"

definition log_step :: "string \<Rightarrow> round_log \<Rightarrow> round_log" where
  "log_step name l = l\<lparr>rl_steps := rl_steps l @ [name]\<rparr>"

definition log_fail :: "string \<Rightarrow> round_log \<Rightarrow> round_log" where
  "log_fail name l = l\<lparr>rl_steps := rl_steps l @ [name], rl_ok := False, rl_failed_at := Some name\<rparr>"

text \<open>The reference bytes, read from a file of vectors.\<close>

record frozen =
  fz_intent_wire :: bytes
  fz_grant_body :: bytes
  fz_effect_body :: bytes

type_synonym round_result = "(round_log, unit) outcome \<times> bytes list"

text \<open>An error ends the round at the named step.\<close>

definition or_fail ::
  "(client_error \<Rightarrow> string) \<Rightarrow> round_log \<Rightarrow> ('a, client_error) outcome \<times> bytes list \<Rightarrow>
   ('a \<Rightarrow> bytes list \<Rightarrow> round_result) \<Rightarrow> round_result" where
  "or_fail name l r f =
     (case r of
        (Ok a, sent) \<Rightarrow> f a sent
      | (Err e, sent) \<Rightarrow> (Ok (log_fail (name e) l), sent)
      | (Panic, sent) \<Rightarrow> (Panic, sent))"

definition or_panic :: "('a, unit) outcome \<Rightarrow> bytes list \<Rightarrow> ('a \<Rightarrow> round_result) \<Rightarrow> round_result" where
  "or_panic r sent f = (case r of Ok a \<Rightarrow> f a | _ \<Rightarrow> (Panic, sent))"

definition later :: "nat \<Rightarrow> client_io \<Rightarrow> client_io" where
  "later n io = io\<lparr>io_clock := \<lambda>k. io_clock io (k + n)\<rparr>"

definition target_name :: "bool \<Rightarrow> bytes" where
  "target_name zig = (if zig then ascii ''zig-v0.6.1'' else ascii ''rust'')"

section \<open>Ladder A\<close>

text \<open>The readings of the clock: two for the session, one per built envelope, one for the built grant.\<close>

definition ladder_a ::
  "crypto \<Rightarrow> client_io \<Rightarrow> frozen option \<Rightarrow> bytes \<Rightarrow> client_keys \<Rightarrow> bytes \<Rightarrow> bytes \<Rightarrow> u64 \<Rightarrow> u32 \<Rightarrow> bool \<Rightarrow> round_result" where
  "ladder_a cr io vectors eph ck daemon_kex_pub daemon_sig_pub seed round zig =
     (let decl = (if round = 0 then ascii ''frozen=intent:full@r0,grant:body@r0,effect:body@always target=''
                  else ascii ''frozen=intent:built,grant:built,effect:body@always target='') @ target_name zig;
          l = \<lparr>rl_steps = [], rl_frozen = decl, rl_ok = True, rl_failed_at = None\<rparr>
      in or_fail (\<lambda>_. ''handshake.msg2'') l (open_bound_session cr io eph ck daemon_kex_pub daemon_sig_pub round []) (\<lambda>(ex, n) sent.
         let l = fold log_step [''handshake.msg2'', ''handshake.finalize'', ''session'', ''binding.sent''] l in
         case vectors of
           None \<Rightarrow> (Ok (log_fail ''envelopes.frozen'' l), sent)
         | Some frozen \<Rightarrow>
           let channel = channel_for cr seed round; sender = ed_public cr (cl_sig ck);
               resource = resource_for cr daemon_sig_pub (ascii ''a'')
           in or_panic (seq_for round 1) sent (\<lambda>seq1.
              let intent = (if round = 0 then fz_intent_wire frozen
                    else build_envelope cr (cl_sig ck) channel sender seq1 (io_clock io 2) BODY_INTENT
                           (intent_body (id16 cr seed round (ascii ''intent'')) resource))
              in or_fail (\<lambda>_. ''env.intent'') l (send_sealed cr io intent (ex_session ex) sent) (\<lambda>(n, s) sent.
              let l = log_step ''env.intent'' l in
              or_panic (seq_for round 2) sent (\<lambda>grant_seq.
              or_panic (if round = 0 then Ok (fz_grant_body frozen)
                        else and_then (checked_add (io_clock io 3) 60000) (\<lambda>not_after.
                          Ok (grant_body cr ck seed round not_after resource))) sent (\<lambda>payload.
              or_fail (\<lambda>_. ''env.grant'') l
                (send_sealed cr io (build_envelope cr (cl_sig ck) channel sender grant_seq (io_clock io 4) BODY_GRANT payload) s sent)
                (\<lambda>(n, s) sent.
              let l = log_step ''env.grant'' l in
              or_panic (seq_for round 3) sent (\<lambda>effect_seq.
              or_fail (\<lambda>_. ''env.effect'') l
                (send_sealed cr io (build_envelope cr (cl_sig ck) channel sender effect_seq (io_clock io 5) BODY_EFFECT
                   (fz_effect_body frozen)) s sent)
                (\<lambda>(n, s) sent.
              (Ok (log_step ''ladder.done'' (log_step ''env.effect'' l)), sent))))))))))"

section \<open>Ladder B\<close>

definition B_LANE :: u64 where "B_LANE = 5"

text \<open>The frozen grant once it has expired, a built expired one before.\<close>

definition expired_payload ::
  "crypto \<Rightarrow> client_keys \<Rightarrow> u64 \<Rightarrow> u32 \<Rightarrow> u64 \<Rightarrow> bytes \<Rightarrow> bytes \<Rightarrow> (bytes, parse_error) outcome" where
  "expired_payload cr ck seed round now daemon_sig_pub frozen_grant =
     and_then (parse_grant frozen_grant) (\<lambda>g.
     Ok (if gr_not_after g > now then client_expired_grant cr ck seed round now daemon_sig_pub else frozen_grant))"

definition ladder_b ::
  "crypto \<Rightarrow> client_io \<Rightarrow> frozen option \<Rightarrow> bytes \<Rightarrow> client_keys \<Rightarrow> bytes \<Rightarrow> bytes \<Rightarrow> u64 \<Rightarrow> u32 \<Rightarrow> bool \<Rightarrow> round_result" where
  "ladder_b cr io vectors eph ck daemon_kex_pub daemon_sig_pub seed round zig =
     (let l = \<lparr>rl_steps = [], rl_frozen = ascii ''frozen=grant:body-if-expired,refusal:built,effect:n/a target='' @ target_name zig,
               rl_ok = True, rl_failed_at = None\<rparr>
      in case vectors of
        None \<Rightarrow> (Ok (log_fail ''vectors.load'' l), [])
      | Some frozen \<Rightarrow>
        (case expired_payload cr ck seed round (io_clock io 0) daemon_sig_pub (fz_grant_body frozen) of
           Err e \<Rightarrow> (Ok (log_fail ''vectors.classify'' l), [])
         | Panic \<Rightarrow> (Panic, [])
         | Ok payload \<Rightarrow>
           let l = log_step ''vectors.freshness'' l in
           or_fail (\<lambda>_. ''handshake.msg2'') l
             (open_bound_session cr (later 1 io) eph ck daemon_kex_pub daemon_sig_pub round []) (\<lambda>(ex, n) sent.
           let l = log_step ''session'' l; channel = channel_for cr seed round; sender = ed_public cr (cl_sig ck) in
           or_panic (seq_for round B_LANE) sent (\<lambda>g_seq.
           or_fail (\<lambda>_. ''env.expired_grant'') l
             (send_sealed cr io (build_envelope cr (cl_sig ck) channel sender g_seq (io_clock io 3) BODY_GRANT payload)
                (ex_session ex) sent) (\<lambda>(n, s) sent.
           let l = log_step ''env.expired_grant'' l in
           case parse_grant payload of
             Err e \<Rightarrow> (Ok (log_fail ''env.refusal'' l), sent)
           | Panic \<Rightarrow> (Panic, sent)
           | Ok g \<Rightarrow>
             or_panic (seq_for round (B_LANE + 1)) sent (\<lambda>r_seq.
             or_fail (\<lambda>_. ''env.refusal'') l
               (send_sealed cr io (build_envelope cr (cl_sig ck) channel sender r_seq (io_clock io 4) BODY_REFUSAL
                  (build_refusal cr ck (gr_intent_id g) (ascii ''grant expired''))) s sent) (\<lambda>(n, s) sent.
             (Ok (log_step ''ladder.done'' (log_step ''env.refusal'' l)), sent))))))))"

section \<open>Ladder C\<close>

text \<open>Sealing and sending fail under different names.\<close>

definition seal_or_send :: "string \<Rightarrow> string \<Rightarrow> client_error \<Rightarrow> string" where
  "seal_or_send seal send e = (case e of SealFailed _ \<Rightarrow> seal | _ \<Rightarrow> send)"

text \<open>Cutting the last byte of an empty frame and patching a frame of at most 73 bytes panic.\<close>

definition truncated_wire :: "bytes \<Rightarrow> (bytes, unit) outcome" where
  "truncated_wire w = (if w = [] then Panic else Ok (take (length w - 1) w))"

definition patched_wire :: "bytes \<Rightarrow> (bytes, unit) outcome" where
  "patched_wire w = (if length w \<le> 73 then Panic else Ok (w[73 := 5]))"

definition ladder_c ::
  "crypto \<Rightarrow> client_io \<Rightarrow> frozen option \<Rightarrow> frozen option \<Rightarrow> bytes \<Rightarrow> client_keys \<Rightarrow> bytes \<Rightarrow> bytes \<Rightarrow> u32 \<Rightarrow> round_result" where
  "ladder_c cr io vectors vectors_again eph ck daemon_kex_pub daemon_sig_pub round =
     (let l = \<lparr>rl_steps = [], rl_frozen = ascii ''intent:full@every-round(grant/effect bodies unused in C)'',
               rl_ok = False, rl_failed_at = None\<rparr>
      in case vectors of
        None \<Rightarrow> (Ok (log_fail ''vectors.load'' l), [])
      | Some _ \<Rightarrow>
        let l = fold log_step [''vectors.load'', ''vectors.freshness''] l in
        or_fail (\<lambda>_. ''session'') l (open_bound_session cr io eph ck daemon_kex_pub daemon_sig_pub round []) (\<lambda>(ex, n) sent.
        let l = log_step ''c0.session'' l in
        case vectors_again of
          None \<Rightarrow> (Ok (log_fail ''vectors.reload'' l), sent)
        | Some frozen \<Rightarrow>
          let wire = fz_intent_wire frozen in
          or_fail (seal_or_send ''c1.seal'' ''c1.send'') l (send_sealed cr io wire (ex_session ex) sent) (\<lambda>(n, s) sent.
          let l = log_step ''c1.admission'' l in
          or_fail (seal_or_send ''c2.seal'' ''c2.send'') l (send_sealed cr io wire s sent) (\<lambda>(n, s) sent.
          let l = log_step ''c2.idempotent'' l in
          or_fail (\<lambda>_. ''c3.send'') l (send_to io (last sent) sent) (\<lambda>_ sent.
          let l = log_step ''c3.replay'' l in
          or_panic (truncated_wire wire) sent (\<lambda>cut.
          or_fail (seal_or_send ''c4.seal'' ''c4.send'') l (send_sealed cr io cut s sent) (\<lambda>(n, s) sent.
          let l = log_step ''c4.truncated'' l in
          or_panic (patched_wire wire) sent (\<lambda>patched.
          or_fail (seal_or_send ''c5.seal'' ''c5.send'') l (send_sealed cr io patched s sent) (\<lambda>(n, s) sent.
          (Ok ((fold log_step [''c5.sig-patched'', ''c.summary''] l)\<lparr>rl_ok := True\<rparr>), sent))))))))))"

section \<open>Ladder D\<close>

text \<open>Replacing every occurrence of a pattern; an empty one occurs around every (ASCII) character.\<close>

function replace_all :: "bytes \<Rightarrow> bytes \<Rightarrow> bytes \<Rightarrow> bytes" where
  "replace_all pat new bs =
     (if pat = [] then new @ concat (map (\<lambda>b. b # new) bs)
      else if bs = [] then []
      else if starts_with pat bs then new @ replace_all pat new (drop (length pat) bs)
      else hd bs # replace_all pat new (tl bs))"
  by auto
termination
  by (relation "measure (\<lambda>(_, _, bs). length bs)") (auto simp: diff_less)

declare replace_all.simps [simp del]

definition hex16 :: "u64 \<Rightarrow> bytes" where
  "hex16 w = hex_bytes (to_be_bytes w)"

definition quoted :: "bytes \<Rightarrow> bytes" where
  "quoted s = QUOTE # s @ [QUOTE]"

definition intent_json :: "bytes \<Rightarrow> bytes \<Rightarrow> bytes \<Rightarrow> bytes" where
  "intent_json iid res subj =
     [123] @ quoted (ascii ''id'') @ [58] @ quoted iid @ [44] @ quoted (ascii ''resource'') @ [58] @ quoted res
     @ [44] @ quoted (ascii ''action'') @ [58] @ quoted (ascii ''read'')
     @ [44] @ quoted (ascii ''rationale'') @ [58] @ quoted (ascii ''harness'')
     @ [44] @ quoted (ascii ''subject'') @ [58] @ quoted subj @ [125]"

definition round_id_hex :: "u64 \<Rightarrow> u32 \<Rightarrow> bytes" where
  "round_id_hex seed round =
     hex16 seed @ hex16 (ucast round) @ hex16 (seed XOR (ucast round * 0x9E3779B97F4A7C15))
     @ hex16 (ucast round + 0xD1B54A32D192ED03)"

definition subject_hex :: "u64 \<Rightarrow> u32 \<Rightarrow> bytes" where
  "subject_hex seed round = hex16 seed @ hex16 (ucast round) @ hex16 seed @ hex16 (ucast round)"

record post_case =
  pc_step :: string
  pc_body :: bytes
  pc_expect :: nat

definition UNKNOWN_CANONICAL :: bytes where "UNKNOWN_CANONICAL = ascii ''bol:ffffffffffffffff/ns/dev/x''"

definition post_cases :: "u64 \<Rightarrow> u32 \<Rightarrow> bytes \<Rightarrow> post_case list" where
  "post_cases seed round canonical =
     (let valid_body = intent_json (round_id_hex seed round) canonical (subject_hex seed round);
          unknown_body = replace_all canonical UNKNOWN_CANONICAL valid_body;
          malformed_body = [123] @ quoted (ascii ''id'') @ [58] @ quoted (ascii ''not-hex'') @ [125]
      in [\<lparr>pc_step = ''d2.post-valid'', pc_body = valid_body, pc_expect = 202\<rparr>,
          \<lparr>pc_step = ''d3.post-idempotent'', pc_body = valid_body, pc_expect = 202\<rparr>,
          \<lparr>pc_step = ''d4.post-unknown'', pc_body = unknown_body, pc_expect = 422\<rparr>,
          \<lparr>pc_step = ''d5.post-malformed'', pc_body = malformed_body, pc_expect = 400\<rparr>])"

text \<open>
  The control plane is a function that answers a request from a state and returns the next one.
  A case whose status is not the expected one, or whose request fails, ends the round; the
  result says whether it ended. The message of a mismatch quotes 120 bytes of the reply, which
  panics when they end inside a character.
\<close>

type_synonym 's peer = "bytes \<Rightarrow> 's \<Rightarrow> bytes option \<times> 's"

definition request_peer ::
  "'s peer \<Rightarrow> bytes \<Rightarrow> bytes \<Rightarrow> bytes option \<Rightarrow> bytes option \<Rightarrow> 's \<Rightarrow> (nat \<times> bytes, http_client_error) outcome \<times> 's" where
  "request_peer peer verb path body token s =
     (let (ans, s') = peer (request_text verb path body token) s
      in (and_then (ok_or ConnectionFailed ans) read_reply, s'))"

fun post_all :: "'s peer \<Rightarrow> bytes option \<Rightarrow> post_case list \<Rightarrow> round_log \<Rightarrow> 's \<Rightarrow> (round_log \<times> bool, unit) outcome \<times> 's" where
  "post_all peer token [] l s = (Ok (l, False), s)"
| "post_all peer token (c # cs) l s =
     (case request_peer peer (ascii ''POST'') (ascii ''/v1/intents'') (Some (pc_body c)) token s of
        (Ok (status, resp_body), s) \<Rightarrow>
          let l = log_step (pc_step c) l in
          if status \<noteq> pc_expect c then
            (if length resp_body > 120 \<and> between 0x80 0xBF (resp_body ! 120) then (Panic, s)
             else (Ok (log_fail (pc_step c) l, True), s))
          else post_all peer token cs l s
      | (Err e, s) \<Rightarrow> (Ok (log_fail (pc_step c) l, True), s)
      | (Panic, s) \<Rightarrow> (Panic, s))"

definition count_tag :: "string \<Rightarrow> (bytes \<times> nat) list \<Rightarrow> nat" where
  "count_tag tag events = length (filter (\<lambda>(t, _). t = ascii tag) events)"

definition ladder_d ::
  "bool \<Rightarrow> 's peer \<Rightarrow> u64 \<Rightarrow> u32 \<Rightarrow> bytes \<Rightarrow> bytes option \<Rightarrow> 's \<Rightarrow> (round_log, unit) outcome \<times> 's" where
  "ladder_d connects peer seed round canonical token s =
     (let l = \<lparr>rl_steps = [],
               rl_frozen = ascii ''n/a (control API bodies are client-built by design; frozen discipline is wire-path only)'',
               rl_ok = False, rl_failed_at = None\<rparr>
      in if \<not> connects then (Ok (log_fail ''d1.connect'' l), s)
      else then_state (post_all peer token (post_cases seed round canonical) (log_step ''d1.connect'' l) s) (\<lambda>(l, ended) s.
        if ended then (Ok l, s)
        else case request_peer peer (ascii ''GET'') (ascii ''/v1/events?since=0'') None token s of
          (Err e, s) \<Rightarrow> (Ok (log_fail ''d6.events'' l), s)
        | (Panic, s) \<Rightarrow> (Panic, s)
        | (Ok (status, sse_body), s) \<Rightarrow>
            if status \<noteq> 200 then (Ok (log_fail ''d6.events'' l), s)
            else
              let events = parse_sse sse_body; l = log_step ''d6.events'' l in
              if count_tag ''intent_admitted'' events < 1 then (Ok (log_fail ''d6.events'' l), s)
              else (Ok ((log_step ''d.summary'' l)\<lparr>rl_ok := True\<rparr>), s)))"

section \<open>Ladder E\<close>

record frozen_identity =
  fi_kex :: key_pair
  fi_sig :: bytes
  fi_cert_wire :: bytes
  fi_intent_wire :: bytes
  fi_intent_id_hex :: bytes

datatype push_error =
    NotTransport | NotOpened transport_error | PlaintextShort | PlaintextLength | SignatureMalformed
  | CertShort | ForeignKeys | KeyInvalid | TranscriptDiverges

text \<open>
  The binding frame a node pushes, read into a buffer of 2048 zeros: it must open under the
  receiving key and carry the node's keys and a signature over our transcript.
\<close>

definition check_push ::
  "crypto \<Rightarrow> bytes \<Rightarrow> bytes \<Rightarrow> bytes \<Rightarrow> bytes \<Rightarrow> session \<Rightarrow> (unit, push_error) outcome \<times> session" where
  "check_push cr h daemon_kex_pub daemon_sig_pub pkt s =
     (let push = take 2048 (pkt @ replicate 2048 0); pn = min (length pkt) 2048;
          push_ctr = from_be_bytes (take 8 (drop 8 push))
      in if push ! 0 \<noteq> 4 then (Err NotTransport, s)
      else case session_open cr (take pn push) push_ctr pn s of
        (Err e, s) \<Rightarrow> (Err (NotOpened e), s)
      | (Panic, s) \<Rightarrow> (Panic, s)
      | (Ok ppt, s) \<Rightarrow>
          if length ppt < 2 + 64 then (Err PlaintextShort, s)
          else
            let cert_len = unat (from_be_bytes (take 2 ppt) :: u16);
                dcert = take cert_len (drop 2 ppt); dsig = drop (2 + cert_len) ppt
            in if length ppt \<noteq> 2 + cert_len + 64 then (Err PlaintextLength, s)
            else if \<not> ed_sig_ok cr dsig then (Err SignatureMalformed, s)
            else if cert_len < 66 then (Err CertShort, s)
            else
              let d_sig_pub = take 32 (drop 2 dcert); d_kex_pub = take 32 (drop 34 dcert) in
              if d_sig_pub \<noteq> daemon_sig_pub \<or> d_kex_pub \<noteq> daemon_kex_pub then (Err ForeignKeys, s)
              else if \<not> ed_key_ok cr d_sig_pub then (Err KeyInvalid, s)
              else if \<not> ed_verify cr d_sig_pub (DOMAIN_BINDING # h) dsig then (Err TranscriptDiverges, s)
              else (Ok (), s))"

text \<open>The control plane answers the query of the state; the events it also reads only enter a message.\<close>

definition ladder_e ::
  "crypto \<Rightarrow> client_io \<Rightarrow> frozen_identity option \<Rightarrow> bytes \<Rightarrow> bytes \<Rightarrow> bytes \<Rightarrow> u32 \<Rightarrow>
   (bytes \<Rightarrow> bytes option) \<Rightarrow> bytes option \<Rightarrow> round_result" where
  "ladder_e cr io identity eph daemon_kex_pub daemon_sig_pub round answer token =
     (let l = \<lparr>rl_steps = [],
               rl_frozen = ascii ''identity+cert+intent: 100% frozen vector material (agent kex_seed/seed/cert/envelope)'',
               rl_ok = False, rl_failed_at = None\<rparr>
      in case identity of
        None \<Rightarrow> (Ok (log_fail ''e1.identity'' l), [])
      | Some ident \<Rightarrow>
        let l = log_step ''e1.identity'' l in
        or_fail (\<lambda>_. ''e2.session'') l
          (open_bound_with cr io eph (fi_kex ident) (fi_sig ident) (fi_cert_wire ident) daemon_kex_pub daemon_sig_pub round [])
          (\<lambda>(ex, n) sent.
        let l = log_step ''e2.session'' l in
        case io_recv io sent of
          None \<Rightarrow> (Ok (log_fail ''e2.push'' l), sent)
        | Some pkt \<Rightarrow>
          (case check_push cr (hr_handshake_hash (ex_result ex)) daemon_kex_pub daemon_sig_pub pkt (ex_session ex) of
             (Err e, _) \<Rightarrow> (Ok (log_fail ''e2.push'' l), sent)
           | (Panic, _) \<Rightarrow> (Panic, sent)
           | (Ok _, s) \<Rightarrow>
             let l = log_step ''e2.push'' l in
             (case session_seal cr (length (fi_intent_wire ident) + 64) (fi_intent_wire ident) s of
                (Err e, _) \<Rightarrow> (Ok (log_fail ''e3.envelope'' l), sent)
              | (Panic, _) \<Rightarrow> (Panic, sent)
              | (Ok wire, s) \<Rightarrow>
                or_fail (\<lambda>_. ''e3.envelope'') l (send_to io wire sent) (\<lambda>_ sent.
                let l = log_step ''e3.envelope'' l in
                case http_request_to answer (ascii ''GET'') (ascii ''/v1/intents/'' @ fi_intent_id_hex ident) None token of
                  Err e \<Rightarrow> (Ok (log_fail ''e4.state'' l), sent)
                | Panic \<Rightarrow> (Panic, sent)
                | Ok (status, body) \<Rightarrow>
                    if status \<noteq> 200 \<or> \<not> starts_with (ascii ''pending'') body
                    then (Ok (log_fail ''e4.state'' l), sent)
                    else (Ok ((fold log_step [''e4.state'', ''e.verdict''] l)\<lparr>rl_ok := True\<rparr>), sent))))))"

section \<open>Ladder V\<close>

definition BATCH_SIZE :: nat where "BATCH_SIZE = 100"
definition V_ROTATION :: nat where "V_ROTATION = 16"

text \<open>The envelope of an index; the numbers are checked sums and products of their widths.\<close>

definition volume_envelope ::
  "crypto \<Rightarrow> client_keys \<Rightarrow> bytes \<Rightarrow> u64 \<Rightarrow> u32 \<Rightarrow> nat \<Rightarrow> u64 \<Rightarrow> nat \<Rightarrow> nat \<Rightarrow> nat \<Rightarrow> (bytes, unit) outcome" where
  "volume_envelope cr ck daemon_sig_pub seed round v_rotation ts batch i env_idx =
     and_then (and_then (checked_mul round 10000) (\<lambda>m. checked_add m (word_of_nat env_idx))) (\<lambda>id_round.
     and_then (and_then (checked_mul (ucast round) 1000000) (\<lambda>m.
       and_then (checked_add m (word_of_nat env_idx)) (\<lambda>n. checked_add n 100))) (\<lambda>seq.
     let iid = id16 cr seed id_round (ascii ''vol-intent'');
         lane = env_idx mod (max v_rotation 1);
         resource = resource_for cr daemon_sig_pub (ascii ''v'' @ to_decimal lane);
         rationale = ascii ''volume batch '' @ to_decimal batch @ ascii '' env '' @ to_decimal i
     in Ok (build_envelope cr (cl_sig ck) (channel_for cr seed round) (ed_public cr (cl_sig ck)) seq ts BODY_INTENT
          (encode_intent (intent_of iid resource rationale)))))"

text \<open>One batch, then the batches; an envelope reads the clock at its own index.\<close>

fun send_batch ::
  "client_io \<Rightarrow> crypto \<Rightarrow> (nat \<Rightarrow> nat \<Rightarrow> (bytes, unit) outcome) \<Rightarrow> nat \<Rightarrow> nat list \<Rightarrow> session \<times> bytes list \<Rightarrow>
   (bool, unit) outcome \<times> session \<times> bytes list" where
  "send_batch io cr env tot [] ss = (Ok True, ss)"
| "send_batch io cr env tot (i # is) ss =
     (case env i (tot + i) of
        Ok wire \<Rightarrow>
          (case send_sealed cr io wire (fst ss) (snd ss) of
             (Ok (n, s), sent) \<Rightarrow> send_batch io cr env tot is (s, sent)
           | (Err e, sent) \<Rightarrow> (Ok False, fst ss, sent)
           | (Panic, sent) \<Rightarrow> (Panic, fst ss, sent))
      | _ \<Rightarrow> (Panic, ss))"

fun send_batches ::
  "client_io \<Rightarrow> crypto \<Rightarrow> (nat \<Rightarrow> nat \<Rightarrow> nat \<Rightarrow> (bytes, unit) outcome) \<Rightarrow> nat \<Rightarrow> nat list \<Rightarrow> nat \<Rightarrow> round_log \<Rightarrow>
   session \<times> bytes list \<Rightarrow> (round_log \<times> bool, unit) outcome \<times> session \<times> bytes list" where
  "send_batches io cr env envelopes [] tot l ss = (Ok (l, True), ss)"
| "send_batches io cr env envelopes (b # bs) tot l ss =
     (let batch_count = min BATCH_SIZE (envelopes - tot) in
      case send_batch io cr (env b) tot [0..<batch_count] ss of
        (Ok True, ss) \<Rightarrow> send_batches io cr env envelopes bs (tot + batch_count) (log_step ''batch'' l) ss
      | (Ok False, ss) \<Rightarrow> (Ok (log_fail ''env.volume'' l, False), ss)
      | (Err e, ss) \<Rightarrow> (Err e, ss)
      | (Panic, ss) \<Rightarrow> (Panic, ss))"

text \<open>
  The final counters are read until every envelope is accounted for or the deadline has passed:
  each poll is what it reads and whether the deadline has passed then. No result when the polls
  given are too few.
\<close>

fun drain_polls ::
  "metrics_snapshot \<Rightarrow> nat \<Rightarrow> ((metrics_snapshot, metrics_error) outcome \<times> bool) list \<Rightarrow>
   (metrics_snapshot, metrics_error) outcome option" where
  "drain_polls base total_sent [] = None"
| "drain_polls base total_sent ((Ok m, late) # ps) =
     (if (ms_inserts m - ms_inserts base) + (ms_storefull m - ms_storefull base) \<ge> total_sent \<or> late
      then Some (Ok m) else drain_polls base total_sent ps)"
| "drain_polls base total_sent ((r, late) # ps) = Some r"

text \<open>Every envelope sent is a fresh insertion or a refusal for a full store.\<close>

definition accounted :: "metrics_snapshot \<Rightarrow> metrics_snapshot \<Rightarrow> nat \<Rightarrow> bool" where
  "accounted base fin total_sent \<longleftrightarrow>
     (ms_inserts fin - ms_inserts base) + (ms_storefull fin - ms_storefull base) = total_sent"

definition ladder_v ::
  "crypto \<Rightarrow> client_io \<Rightarrow> bytes \<Rightarrow> client_keys \<Rightarrow> bytes \<Rightarrow> bytes \<Rightarrow> u64 \<Rightarrow> u32 \<Rightarrow> nat \<Rightarrow> nat \<Rightarrow>
   (metrics_snapshot, metrics_error) outcome \<Rightarrow> ((metrics_snapshot, metrics_error) outcome \<times> bool) list \<Rightarrow>
   (round_log option, unit) outcome \<times> bytes list" where
  "ladder_v cr io eph ck daemon_kex_pub daemon_sig_pub seed round envelopes v_rotation baseline polls =
     (let l = \<lparr>rl_steps = [], rl_frozen = ascii ''volume: '' @ to_decimal envelopes @ ascii '' envelopes/session, batches of ''
                 @ to_decimal BATCH_SIZE @ ascii '', rotation '' @ to_decimal v_rotation,
               rl_ok = True, rl_failed_at = None\<rparr>
      in case open_bound_session cr io eph ck daemon_kex_pub daemon_sig_pub round [] of
        (Err e, sent) \<Rightarrow> (Ok (Some (log_fail ''session'' l)), sent)
      | (Panic, sent) \<Rightarrow> (Panic, sent)
      | (Ok (ex, n), sent) \<Rightarrow>
        let l = fold log_step [''handshake.msg2'', ''session'', ''binding.sent''] l in
        (case baseline of
           Err e \<Rightarrow> (Ok (Some (log_fail ''metrics.baseline'' l)), sent)
         | Panic \<Rightarrow> (Panic, sent)
         | Ok base \<Rightarrow>
           let total_batches = (envelopes + BATCH_SIZE - 1) div BATCH_SIZE;
               env = (\<lambda>b i idx. volume_envelope cr ck daemon_sig_pub seed round v_rotation (io_clock io (2 + idx)) b i idx)
           in case send_batches io cr env envelopes [0..<total_batches] 0 (log_step ''metrics.baseline'' l) (ex_session ex, sent) of
                (Panic, ss) \<Rightarrow> (Panic, snd ss)
              | (Err e, ss) \<Rightarrow> (Panic, snd ss)
              | (Ok (l, False), ss) \<Rightarrow> (Ok (Some l), snd ss)
              | (Ok (l, True), ss) \<Rightarrow>
                let l = log_step ''volume.summary'' l in
                (Ok (case drain_polls base envelopes polls of
                   None \<Rightarrow> None
                 | Some (Ok fin) \<Rightarrow>
                     Some (let l = log_step ''volume.admission'' l in
                       if \<not> accounted base fin envelopes then log_fail ''volume.admission'' l
                       else log_step ''ladder.done'' l)
                 | Some _ \<Rightarrow> Some (log_fail ''metrics.final'' l)), snd ss)))"

end
