(* ===== verification/Meeting.thy ===== *)
theory Meeting
  imports Node Ladders
begin

text \<open>
  The client and the node together: what the initiator of the integration client
  (src/tools/integration-client/src/handshake.rs) sends is what the wire path of the node
  (src/src/daemon.rs) needs to commit the handshake, bind the session and admit an intent. The
  lemmas follow one round of the client through the node's handlers, datagram by datagram.
\<close>

unbundle bit_operations_syntax

section \<open>Signatures that verify\<close>

text \<open>Documented behaviour of Ed25519: sizes, and a signature verifies under its public key.\<close>

definition sig_laws :: "crypto \<Rightarrow> bool" where
  "sig_laws cr \<longleftrightarrow> (\<forall>sk. length sk = 32 \<longrightarrow>
     length (ed_public cr sk) = 32 \<and> ed_key_ok cr (ed_public cr sk)
     \<and> (\<forall>m. length (ed_sign cr sk m) = 64 \<and> ed_sig_ok cr (ed_sign cr sk m)
          \<and> ed_verify cr (ed_public cr sk) m (ed_sign cr sk m)))"

lemma toy_sig_laws: "sig_laws toy_crypto"
  by (simp add: sig_laws_def toy_crypto_def pad_to_def)

lemma sig_sizes:
  assumes "sig_laws cr" "length sk = 32"
  shows "length (ed_public cr sk) = 32" "length (ed_sign cr sk m) = 64"
  using assms by (simp_all add: sig_laws_def)

lemma signed_verifies:
  "sig_laws cr \<Longrightarrow> length sk = 32 \<Longrightarrow> verify_signed cr tag tbs (ed_sign cr sk (tag # tbs)) (ed_public cr sk)"
  by (simp add: sig_laws_def verify_signed_def)

section \<open>The client's certificate\<close>

definition client_cert :: "crypto \<Rightarrow> client_keys \<Rightarrow> u64 \<Rightarrow> u64 \<Rightarrow> cert" where
  "client_cert cr ck nb na =
     (let c = \<lparr>ce_version = 3, ce_role_bits = ROLE_AGENT, ce_sig_pubkey = ed_public cr (cl_sig ck),
        ce_kex_pubkey = kp_public (cl_kex ck), ce_not_before = nb, ce_not_after = na,
        ce_name = ascii ''integration-client'', ce_scope_count = 1, ce_scope_ids = replicate 8 0,
        ce_ca_sig_count = 1, ce_ca_sigs = [], ce_tbs = []\<rparr>;
          tbs = encode_cert_tbs c
      in c\<lparr>ce_tbs := tbs, ce_ca_sigs := ed_public cr (cl_ca ck) @ ed_sign cr (cl_ca ck) (DOMAIN_CERT # tbs)\<rparr>)"

definition proper_keys :: "crypto \<Rightarrow> client_keys \<Rightarrow> bool" where
  "proper_keys cr ck \<longleftrightarrow> length (cl_sig ck) = 32 \<and> length (cl_approver ck) = 32 \<and> length (cl_ca ck) = 32
     \<and> length (kp_secret (cl_kex ck)) = 32 \<and> cl_kex ck = from_secret cr (kp_secret (cl_kex ck))"

lemma proper_kex: "crypto_laws cr \<Longrightarrow> proper_keys cr ck \<Longrightarrow> length (kp_public (cl_kex ck)) = 32"
  using length_public [of cr "kp_secret (cl_kex ck)"] by (simp add: proper_keys_def)

lemma client_cert_tbs: "ce_tbs (client_cert cr ck nb na) =
   [3, ROLE_AGENT] @ ed_public cr (cl_sig ck) @ kp_public (cl_kex ck) @ to_be_bytes nb @ to_be_bytes na
     @ to_be_bytes (word_of_nat (length (ascii ''integration-client'')) :: u16) @ ascii ''integration-client'' @ [1] @ replicate 8 0"
  by (simp add: client_cert_def encode_cert_tbs_def push_field16_def Let_def)

lemma client_cert_parses:
  assumes "crypto_laws cr" "sig_laws cr" "proper_keys cr ck"
  shows "parse_cert (build_cert cr ck nb na) = Ok (client_cert cr ck nb na)"
  unfolding parse_cert_iff
proof
  note sizes = proper_kex [OF assms(1,3)] sig_sizes [OF assms(2)]
  have ks: "length (cl_sig ck) = 32" "length (cl_ca ck) = 32" using assms(3) by (simp_all add: proper_keys_def)
  show "wf_cert (client_cert cr ck nb na)"
    using sizes ks by (simp add: wf_cert_def client_cert_def Let_def codec_lens codec_limits encode_cert_tbs_def ascii_def)
  show "build_cert cr ck nb na = encode_cert (client_cert cr ck nb na)"
    by (simp add: build_cert_def encode_cert_def client_cert_def Let_def encode_cert_tbs_def push_field16_def)
qed

lemma client_cert_chain:
  assumes "sig_laws cr" "proper_keys cr ck" "ed_public cr (cl_ca ck) \<in> set cas"
  shows "chain_ok cr (view_of (client_cert cr ck nb na)) cas"
proof -
  have ca: "length (cl_ca ck) = 32" using assms(2) by (simp add: proper_keys_def)
  note sizes = sig_sizes [OF assms(1) ca]
  have "ca_vouches cr (view_of (client_cert cr ck nb na)) cas 0"
    using sizes assms(3) signed_verifies [OF assms(1) ca]
    by (simp add: ca_vouches_def ca_pair_def view_of_def client_cert_def Let_def)
  moreover have "role_count ROLE_AGENT \<le> 1" "ROLE_AGENT AND ROLE_APPROVER = 0"
    "ROLE_AGENT AND (ROLE_APPROVER OR ROLE_EXECUTOR) = 0"
    by (simp_all add: role_count_def ROLE_AGENT_def ROLE_APPROVER_def ROLE_EXECUTOR_def)
  ultimately show ?thesis by (simp add: chain_ok_def view_of_def client_cert_def Let_def)
qed

lemma client_binds:
  assumes "sig_laws cr" "proper_keys cr ck" "ed_public cr (cl_ca ck) \<in> set cas" "nb \<le> now" "now < na"
  shows "bind_session cr (view_of (client_cert cr ck nb na)) (ed_sign cr (cl_sig ck) (DOMAIN_BINDING # h)) h
    (kp_public (cl_kex ck)) cas now = Ok ()"
proof -
  have "length (cl_sig ck) = 32" using assms(2) by (simp add: proper_keys_def)
  from signed_verifies [OF assms(1) this] client_cert_chain [OF assms(1-3), of nb na]
  show ?thesis
    using assms(4,5) by (auto simp: bind_session_def guard_Ok validate_cert_Ok)
      (simp_all add: view_of_def client_cert_def Let_def)
qed

section \<open>The handshake\<close>

text \<open>No shared secret of the four is the identity.\<close>

definition secrets_ok :: "crypto \<Rightarrow> bytes \<Rightarrow> bytes \<Rightarrow> bytes \<Rightarrow> bytes \<Rightarrow> bool" where
  "secrets_ok cr si sr ei er \<longleftrightarrow>
     list_all (\<lambda>(a, b). dh cr a (kp_public (from_secret cr b)) \<noteq> Err IdentityPoint) [(ei, sr), (si, sr), (er, ei), (er, si)]"

lemma secrets_okD:
  assumes "secrets_ok cr si sr ei er"
  shows "\<exists>s. dh cr ei (kp_public (from_secret cr sr)) = Ok s" "\<exists>s. dh cr si (kp_public (from_secret cr sr)) = Ok s"
    "\<exists>s. dh cr er (kp_public (from_secret cr ei)) = Ok s" "\<exists>s. dh cr er (kp_public (from_secret cr si)) = Ok s"
  using assms dh_cases by (fastforce simp: secrets_ok_def)+

lemma initiation_written:
  assumes "secrets_ok cr si sr ei er"
  shows "\<exists>m i. write_initiation cr ei idx ts sig cookie (initiator_new cr (from_secret cr si) (kp_public (from_secret cr sr)))
    = (Ok m, i) \<and> m \<noteq> [] \<and> m ! 0 = 1"
  using secrets_okD [OF assms]
  by (auto simp: write_initiation_def initiator_new_def Let_def split: prod.split)

lemma responder_commits:
  assumes laws: "crypto_laws cr" and len: "length si = 32" "length sr = 32" "length ei = 32"
    and ok: "secrets_ok cr si sr ei er"
    and w: "write_initiation cr ei idx ts sig (replicate 16 0)
      (initiator_new cr (from_secret cr si) (kp_public (from_secret cr sr))) = (Ok m1, i)"
    and slot: "position (\<lambda>s. s = None) t = Some slot" and send: "\<And>m. send m"
  shows "\<exists>t' m2. process_datagram cr m1 sr sig send er now t = (Ok slot, t', [m2])"
proof -
  from initiation_agrees [OF laws len w] obtain r where
    r: "read_initiation cr m1 sig (responder_new cr (from_secret cr sr)) =
      (Ok \<lparr>ii_sender_index = idx, ii_initiator_static_pub = kp_public (from_secret cr si), ii_timestamp_ms = ts\<rparr>, r)"
    and re: "rp_re r = kp_public (from_secret cr ei)" "rp_remote_static_pub r = kp_public (from_secret cr si)"
    and n: "length m1 = 144" by auto
  have "m1 ! 0 = 1" using initiation_written [OF ok, of idx ts sig "replicate 16 0"] w by auto
  moreover have "has_free t" using slot by (simp add: has_free_position)
  moreover obtain m2 r' where "write_response cr er (word_of_nat slot) idx sig (replicate 16 0) r = (Ok m2, r')"
    using secrets_okD(3,4) [OF ok] by (auto simp: write_response_def Let_def re split_beta)
  ultimately show ?thesis
    using r n slot send by (simp add: process_datagram_def MSG1_SIZE_def Let_def hs_commit_def)
qed

text \<open>The answer of a node to a datagram: what its handshake sends back.\<close>

definition node_answer :: "crypto \<Rightarrow> surroundings \<Rightarrow> daemon \<Rightarrow> bytes \<Rightarrow> bytes option" where
  "node_answer cr sr d pkt =
     (case snd (snd (process_datagram cr pkt (ks_secret_static (dm_keys d)) (keys_sig_pub cr (dm_keys d))
         (sr_send sr) (sr_eph sr) (sr_now sr) (dm_hs d))) of
        [m] \<Rightarrow> Some m | _ \<Rightarrow> None)"

lemma write_response_length:
  assumes "crypto_laws cr" "length er = 32" "write_response cr er ridx idx sig (replicate 16 0) r = (Ok m, r')"
  shows "length m = 92"
proof -
  have "length (fst (encrypt_and_hash cr [] (mix_key cr k s))) = 16" for k s
    using decrypt_encrypt [OF assms(1), of "mix_key cr k s" "[]"] by simp
  then show ?thesis
    using assms(3) length_public [OF assms(1,2)] length_mac1 [OF assms(1)]
    by (auto simp: write_response_def Let_def split_beta split: outcome.splits)
qed

lemma datagram_reply_length:
  assumes "crypto_laws cr" "length er = 32" "process_datagram cr m1 sr sig send er now t = (Ok slot, t', [m2])"
  shows "length m2 = 92"
  using assms(3) write_response_length [OF assms(1,2)]
  by (auto simp: process_datagram_def Let_def split: if_splits outcome.splits prod.splits option.splits)

text \<open>The session a node opens for a committed handshake, in the slot of that handshake.\<close>

definition opened_session :: "nat \<Rightarrow> hs_session \<Rightarrow> u64 \<Rightarrow> session \<Rightarrow> session" where
  "opened_session slot x now s =
     s\<lparr>se_local_index := word_of_nat slot, se_peer_index := 0, se_send := cipher_state_new\<lparr>cs_key := hs_send_key x\<rparr>,
       se_recv := recv_state_new\<lparr>rs_key := hs_recv_key x\<rparr>, se_handshake_hash := hs_hash x,
       se_key_epoch_ms := now, se_bound := False, se_in_use := True\<rparr>"

definition with_handshake :: "nat \<Rightarrow> hs_session \<Rightarrow> u64 \<Rightarrow> daemon \<Rightarrow> daemon" where
  "with_handshake slot x now d = d\<lparr>dm_hs := (dm_hs d)[slot := Some x],
     dm_sessions := (dm_sessions d)[slot := opened_session slot x now (dm_sessions d ! slot)],
     dm_peer_static := (dm_peer_static d)[slot := Some (hs_peer_static x)]\<rparr>"

lemma admit_opens:
  assumes inv: "node_inv cr d" and slot: "slot < 16" "dm_hs d ! slot = None"
  shows "admit_session slot now (d\<lparr>dm_hs := (dm_hs d)[slot := Some x]\<rparr>) = (Ok (), with_handshake slot x now d)"
proof -
  have ok: "slots_ok d" using inv by (simp add: node_inv_def)
  then have len: "length (dm_hs d) = 16" "length (dm_sessions d) = 512"
    by (simp_all add: slots_but_empty session_inv_def)
  have "\<not> se_in_use (dm_sessions d ! slot)"
    using ok slot by (auto simp: slots_but_empty slot_agrees_def)
  then show ?thesis
    using slot len
    by (simp add: admit_session_def session_admit_def slot_index MAX_SESSIONS_def Let_def with_handshake_def opened_session_def)
qed

definition client_session :: "handshake_result \<Rightarrow> u32 \<Rightarrow> session" where
  "client_session hr idx = session_new\<lparr>se_peer_index := idx, se_send := cipher_state_new\<lparr>cs_key := hr_send_key hr\<rparr>,
     se_recv := recv_state_new\<lparr>rs_key := hr_recv_key hr\<rparr>, se_bound := True\<rparr>"

text \<open>The client's io when its socket is connected to a node, for the handshake.\<close>

definition meets :: "crypto \<Rightarrow> surroundings \<Rightarrow> daemon \<Rightarrow> client_io \<Rightarrow> bool" where
  "meets cr sr d io \<longleftrightarrow> io_send io = (\<lambda>_. True) \<and> sr_send sr = (\<lambda>_. True)
     \<and> io_recv io = (\<lambda>sent. node_answer cr sr d (last sent))"

lemma exchange_meets:
  assumes laws: "crypto_laws cr" and inv: "node_inv cr d" and io: "meets cr sr d io"
    and len: "length si = 32" "length ei = 32" "length (ks_secret_static (dm_keys d)) = 32" "length (sr_eph sr) = 32"
    and ok: "secrets_ok cr si (ks_secret_static (dm_keys d)) ei (sr_eph sr)"
    and slot: "position (\<lambda>s. s = None) (dm_hs d) = Some slot"
  shows "\<exists>m1 hr x. exchange_with cr io ei (from_secret cr si) (kp_public (from_secret cr (ks_secret_static (dm_keys d))))
        (keys_sig_pub cr (dm_keys d)) idx []
      = (Ok \<lparr>ex_result = hr, ex_session = client_session hr (word_of_nat slot), ex_daemon_index = word_of_nat slot\<rparr>, [m1])
    \<and> handle_datagram cr sr m1 d = (Ok (), with_handshake slot x (sr_now2 sr) d)
    \<and> hs_send_key x = hr_recv_key hr \<and> hs_recv_key x = hr_send_key hr \<and> hs_hash x = hr_handshake_hash hr
    \<and> hs_peer_static x = kp_public (from_secret cr si)"
proof -
  let ?sk = "ks_secret_static (dm_keys d)" and ?sig = "keys_sig_pub cr (dm_keys d)"
  obtain m1 i where w: "write_initiation cr ei idx (io_clock io 1) ?sig (replicate 16 0)
      (initiator_new cr (from_secret cr si) (kp_public (from_secret cr ?sk))) = (Ok m1, i)"
    and m1: "m1 \<noteq> []" "m1 ! 0 = 1"
    using initiation_written [OF ok, of idx "io_clock io 1" ?sig "replicate 16 0"] by blast
  have send: "sr_send sr m" for m using io by (simp add: meets_def)
  obtain t' m2 where p: "process_datagram cr m1 ?sk ?sig (sr_send sr) (sr_eph sr) (sr_now sr) (dm_hs d) = (Ok slot, t', [m2])"
    using responder_commits [OF laws len(1,3,2) ok w slot, of "sr_send sr"] send by blast
  from committed_agrees [OF laws len(1,3,2,4) w p] obtain i' x where
    x: "t' = (dm_hs d)[slot := Some x]" "read_response cr m2 ?sig i = (Ok (), i')"
      "hs_send_key x = hr_recv_key (initiator_finalize cr i')" "hs_recv_key x = hr_send_key (initiator_finalize cr i')"
      "hs_hash x = hr_handshake_hash (initiator_finalize cr i')" "hs_peer_static x = kp_public (from_secret cr si)"
    by auto
  have idx: "take 4 (drop 4 m2) = to_be_bytes (word_of_nat slot :: u32)"
    using process_datagram_outcome [of m1 "sr_send sr" "sr_now sr" "dm_hs d" cr ?sk ?sig "sr_eph sr"] p
    by (simp add: datagram_outcome_def commits_def)
  have "node_answer cr sr d m1 = Some m2" using p by (simp add: node_answer_def)
  then have ex: "exchange_with cr io ei (from_secret cr si) (kp_public (from_secret cr ?sk)) ?sig idx []
      = (Ok \<lparr>ex_result = initiator_finalize cr i', ex_session = client_session (initiator_finalize cr i') (word_of_nat slot),
          ex_daemon_index = word_of_nat slot\<rparr>, [m1])"
    using io w x(2) idx datagram_reply_length [OF laws len(4) p]
    by (simp add: exchange_with_def send_to_def meets_def MSG2_SIZE_def OFF2_SENDER_INDEX_def client_session_def Let_def)
  have at: "slot < 16" "dm_hs d ! slot = None"
    using position_SomeD [OF slot] inv by (simp_all add: node_inv_def slots_but_empty)
  have "handle_datagram cr sr m1 d = (Ok (), with_handshake slot x (sr_now2 sr) d)"
    using admit_opens [OF inv at] by (simp add: handle_datagram_def m1 handle_handshake_def p x(1))
  with ex x show ?thesis by blast
qed

section \<open>Sealed datagrams\<close>

lemma open_packet:
  assumes "crypto_laws cr" "rs_key (se_recv r) = key" "length pt \<le> n"
  shows "session_open cr (packet_of cr key peer c pt) c n r =
    (let (fresh, w) = recv_check c (rs_window (se_recv r))
     in (if fresh then Ok pt else Err TransportReplay, r\<lparr>se_recv := (se_recv r)\<lparr>rs_window := w\<rparr>\<rparr>))"
proof -
  have "length (aead_seal cr key m ad pt) = length pt + 16" "aead_open cr key m ad (aead_seal cr key m ad pt) = Some pt"
    for m ad using assms(1) by (simp_all add: crypto_laws_def)
  then show ?thesis
    using assms(2,3) by (simp add: session_open_def recv_open_def packet_of_def HEADER_SIZE_def Let_def split_beta)
qed

text \<open>A node that holds the key opens the packet and hands the plaintext on, in the session's state.\<close>

lemma node_opens_packet:
  assumes "crypto_laws cr" "session_lookup i (dm_sessions d) = Some s" "rs_key (se_recv s) = key" "length pt \<le> PT_BUF"
    and "recv_check c (rs_window (se_recv s)) = (True, w)"
  shows "handle_datagram cr sr (packet_of cr key i c pt) d =
    (let s' = s\<lparr>se_recv := (se_recv s)\<lparr>rs_window := w\<rparr>\<rparr>; d' = d\<lparr>dm_sessions := session_put i s' (dm_sessions d)\<rparr>
     in if se_bound s then handle_envelope cr (sr_io sr) (sr_pio sr) (sr_now sr) pt d'
        else handle_binding cr (sr_now sr) pt (se_handshake_hash s) (se_local_index s) i d')"
proof -
  have "length (packet_of cr key i c pt) = length pt + 32"
    using assms(1) by (simp add: packet_of_def crypto_laws_def)
  moreover have "packet_of cr key i c pt \<noteq> []" "packet_of cr key i c pt ! 0 = 4"
    "take 4 (drop 4 (packet_of cr key i c pt)) = to_be_bytes i" "take 8 (drop 8 (packet_of cr key i c pt)) = to_be_bytes c"
    by (simp_all add: packet_of_def transport_header_def MSG_TYPE_TRANSPORT_def)
  ultimately show ?thesis
    using open_packet [OF assms(1,3,4), of i c] assms(2,5)
    by (simp add: handle_datagram_def handle_transport_def HEADER_SIZE_def Let_def)
qed

text \<open>What the client seals, as a packet.\<close>

lemma client_seals:
  assumes "io_send io = (\<lambda>_. True)" "cs_counter (se_send s) < 2 ^ 48" "crypto_laws cr"
  shows "send_sealed cr io pt s sent =
    (Ok (length pt + 32, s\<lparr>se_send := (se_send s)\<lparr>cs_counter := cs_counter (se_send s) + 1\<rparr>\<rparr>),
     sent @ [packet_of cr (cs_key (se_send s)) (se_peer_index s) (cs_counter (se_send s)) pt])"
proof -
  have "length (packet_of cr k i c pt) = length pt + 32" for k i c
    using assms(3) by (simp add: packet_of_def crypto_laws_def)
  then show ?thesis
    using assms(1,2) by (simp add: send_sealed_def session_seal_cases HEADER_SIZE_def send_to_def)
qed

section \<open>The binding frame\<close>

lemma build_cert_length:
  assumes "crypto_laws cr" "sig_laws cr" "proper_keys cr ck"
  shows "length (build_cert cr ck nb na) = 208"
proof -
  have "length (cl_sig ck) = 32" "length (cl_ca ck) = 32" using assms(3) by (simp_all add: proper_keys_def)
  then show ?thesis
    using sig_sizes [OF assms(2)] proper_kex [OF assms(1,3)] by (simp add: build_cert_def Let_def ascii_def)
qed

lemma binding_accepted:
  assumes laws: "crypto_laws cr" "sig_laws cr" "proper_keys cr ck"
    and ca: "ed_public cr (cl_ca ck) \<in> set (ks_ca_pubs (dm_keys d))" and now: "nb \<le> now" "now < na"
    and peer: "unat slot < length (dm_peer_static d)" "dm_peer_static d ! unat slot = Some (kp_public (cl_kex ck))"
  shows "handle_binding cr now (binding_plain cr (cl_sig ck) (build_cert cr ck nb na) h) h slot i d =
    (Ok (), d\<lparr>dm_sessions := set_bound i (dm_sessions d),
       dm_certs := dm_certs d @ [(ed_public cr (cl_sig ck), build_cert cr ck nb na)]\<rparr>)"
proof -
  let ?w = "build_cert cr ck nb na" and ?sg = "ed_sign cr (cl_sig ck) (DOMAIN_BINDING # h)"
  let ?p = "binding_plain cr (cl_sig ck) ?w h"
  have n: "length ?w = 208" by (rule build_cert_length [OF laws])
  have sg: "length ?sg = 64" using sig_sizes(2) [OF laws(2)] laws(3) by (simp add: proper_keys_def)
  have p: "?p = to_be_bytes (208 :: u16) @ ?w @ ?sg" by (simp add: binding_plain_def n)
  have "(from_be_bytes (take 2 ?p) :: u16) = 208" unfolding p by simp
  then have parts: "unat (from_be_bytes (take 2 ?p) :: u16) = 208" "length ?p = 274"
    "take 208 (drop 2 ?p) = ?w" "take 64 (drop 210 ?p) = ?sg"
    by simp_all (simp_all add: p n sg)
  have k: "ce_sig_pubkey (client_cert cr ck nb na) = ed_public cr (cl_sig ck)" by (simp add: client_cert_def Let_def)
  show ?thesis
    using peer client_binds [OF laws(2,3) ca now, of h]
    by (simp add: handle_binding_def parts Let_def client_cert_parses [OF laws] index_at_def k)
qed

text \<open>The clocks differ by less than the client's certificate allows.\<close>

definition in_time :: "u64 \<Rightarrow> u64 \<Rightarrow> bool" where
  "in_time t now \<longleftrightarrow> unat t + 3600000 < 2 ^ 64 \<and> unat t \<le> unat now + 1000 \<and> unat now < unat t + 3600000"

lemma in_time_window:
  assumes "in_time t now"
  shows "checked_add t 3600000 = Ok (t + 3600000)" "saturating_sub t 1000 \<le> now" "now < t + 3600000"
proof -
  show "checked_add t 3600000 = Ok (t + 3600000)" using assms by (simp add: in_time_def checked_add_def)
  have "unat (t + 3600000) = unat t + 3600000" using assms by (simp add: in_time_def unat_word_ariths)
  then show "now < t + 3600000" using assms by (simp add: in_time_def word_less_nat_alt)
  have "unat t \<le> unat now + 1000" using assms by (simp add: in_time_def)
  then show "saturating_sub t 1000 \<le> now" by (simp add: word_le_nat_alt unat_saturating_sub)
qed

definition bound_session :: "nat \<Rightarrow> hs_session \<Rightarrow> u64 \<Rightarrow> session \<Rightarrow> session" where
  "bound_session slot x now s =
     (opened_session slot x now s)\<lparr>se_recv := \<lparr>rs_key = hs_recv_key x, rs_window = \<lparr>wi_highest = 0, wi_mask = 1\<rparr>\<rparr>, se_bound := True\<rparr>"

definition with_binding :: "nat \<Rightarrow> hs_session \<Rightarrow> u64 \<Rightarrow> bytes \<Rightarrow> bytes \<Rightarrow> daemon \<Rightarrow> daemon" where
  "with_binding slot x now k w d = (with_handshake slot x now d)\<lparr>
     dm_sessions := (dm_sessions d)[slot := bound_session slot x now (dm_sessions d ! slot)],
     dm_certs := dm_certs d @ [(k, w)]\<rparr>"

lemma binding_meets:
  assumes laws: "crypto_laws cr" "sig_laws cr" "proper_keys cr ck" and inv: "node_inv cr d"
    and slot: "slot < 16" and ca: "ed_public cr (cl_ca ck) \<in> set (ks_ca_pubs (dm_keys d))"
    and now: "in_time t (sr_now sr)" and peer: "hs_peer_static x = kp_public (cl_kex ck)"
  defines "w \<equiv> build_cert cr ck (saturating_sub t 1000) (t + 3600000)"
  shows "handle_datagram cr sr (packet_of cr (hs_recv_key x) (word_of_nat slot) 0 (binding_plain cr (cl_sig ck) w (hs_hash x)))
      (with_handshake slot x now2 d)
    = (Ok (), with_binding slot x now2 (ed_public cr (cl_sig ck)) w d)"
proof -
  let ?d1 = "with_handshake slot x now2 d" and ?i = "word_of_nat slot :: u32"
  let ?s = "opened_session slot x now2 (dm_sessions d ! slot)"
  have len: "length (dm_sessions d) = 512" "length (dm_peer_static d) = 16"
    using inv by (simp_all add: node_inv_def slots_but_empty session_inv_def)
  have i: "unat ?i = slot" using slot by (simp add: slot_index)
  have look: "session_lookup ?i (dm_sessions ?d1) = Some ?s"
    using slot len by (simp add: session_lookup_Some i with_handshake_def opened_session_def)
  have "rs_key (se_recv ?s) = hs_recv_key x"
    "recv_check 0 (rs_window (se_recv ?s)) = (True, \<lparr>wi_highest = 0, wi_mask = 1\<rparr>)"
    by (simp_all add: opened_session_def recv_state_new_def recv_check_def recv_window_new_def)
  moreover have "length (binding_plain cr (cl_sig ck) w (hs_hash x)) \<le> PT_BUF"
    using build_cert_length [OF laws] sig_sizes(2) [OF laws(2)] laws(3)
    by (simp add: binding_plain_def w_def PT_BUF_def proper_keys_def)
  ultimately have open1: "handle_datagram cr sr (packet_of cr (hs_recv_key x) ?i 0 (binding_plain cr (cl_sig ck) w (hs_hash x))) ?d1
      = handle_binding cr (sr_now sr) (binding_plain cr (cl_sig ck) w (hs_hash x)) (hs_hash x) ?i ?i
          (?d1\<lparr>dm_sessions := session_put ?i (?s\<lparr>se_recv := (se_recv ?s)\<lparr>rs_window := \<lparr>wi_highest = 0, wi_mask = 1\<rparr>\<rparr>\<rparr>) (dm_sessions ?d1)\<rparr>)"
    using node_opens_packet [OF laws(1) look] by (simp add: Let_def opened_session_def)
  let ?d2 = "?d1\<lparr>dm_sessions := session_put ?i (?s\<lparr>se_recv := (se_recv ?s)\<lparr>rs_window := \<lparr>wi_highest = 0, wi_mask = 1\<rparr>\<rparr>\<rparr>) (dm_sessions ?d1)\<rparr>"
  have "unat ?i < length (dm_peer_static ?d2)" "dm_peer_static ?d2 ! unat ?i = Some (kp_public (cl_kex ck))"
    using slot len peer by (simp_all add: i with_handshake_def)
  from binding_accepted [OF laws _ in_time_window(2,3) [OF now] this, of "hs_hash x" ?i] ca
  have "handle_binding cr (sr_now sr) (binding_plain cr (cl_sig ck) w (hs_hash x)) (hs_hash x) ?i ?i ?d2
      = (Ok (), ?d2\<lparr>dm_sessions := set_bound ?i (dm_sessions ?d2), dm_certs := dm_certs ?d2 @ [(ed_public cr (cl_sig ck), w)]\<rparr>)"
    by (simp add: w_def with_handshake_def)
  moreover have "set_bound ?i (dm_sessions ?d2) = (dm_sessions d)[slot := bound_session slot x now2 (dm_sessions d ! slot)]"
    using slot len
    by (simp add: set_bound_def session_put_def i session_lookup_def MAX_SESSIONS_def with_handshake_def opened_session_def
        bound_session_def recv_state_new_def)
  ultimately show ?thesis unfolding open1 by (simp add: with_binding_def with_handshake_def)
qed

section \<open>A bound session\<close>

lemma node_run_keys: "dm_keys (node_run cr k ops) = k"
proof (induction ops rule: rev_induct)
  case (snoc op ops)
  let ?d = "node_run cr k ops"
  have inv: "node_inv cr ?d" by (rule node.inv_run)
  show ?case
  proof (cases op)
    case (NPass waiting now ti)
    then show ?thesis
      using run_pass_stays [OF inv, of waiting now ti] snoc
      by (cases "run_pass cr waiting now ti ?d"; cases "fst (run_pass cr waiting now ti ?d)") (simp_all add: stays_def)
  next
    case (NResource c)
    with snoc show ?thesis by (cases "resolver_add c (dm_resolver ?d)") (simp add: add_resource_def)
  next
    case (NLedger io locked disk)
    with snoc show ?thesis by (cases "fst (ledger_open io locked disk)") (simp_all add: attach_ledger_def)
  next
    case (NControlPlane bound)
    with snoc show ?thesis by (simp add: attach_control_def)
  qed (simp add: snoc)
qed (simp add: daemon_new_def)

text \<open>
  What is needed of the client, of the node and of what surrounds them: keys of the right sizes, a CA of
  the client's that the node trusts, connected sockets, a free slot and clocks that nearly agree.
\<close>

definition ready :: "crypto \<Rightarrow> client_keys \<Rightarrow> bytes \<Rightarrow> surroundings \<Rightarrow> client_io \<Rightarrow> nat \<Rightarrow> u64 \<Rightarrow> daemon \<Rightarrow> bool" where
  "ready cr ck ei sr io slot now d \<longleftrightarrow> crypto_laws cr \<and> sig_laws cr \<and> proper_keys cr ck
     \<and> length ei = 32 \<and> length (ks_secret_static (dm_keys d)) = 32 \<and> length (sr_eph sr) = 32
     \<and> secrets_ok cr (kp_secret (cl_kex ck)) (ks_secret_static (dm_keys d)) ei (sr_eph sr)
     \<and> ed_public cr (cl_ca ck) \<in> set (ks_ca_pubs (dm_keys d))
     \<and> meets cr sr d io \<and> position (\<lambda>s. s = None) (dm_hs d) = Some slot \<and> in_time (io_clock io 0) now"

definition client_opens :: "crypto \<Rightarrow> client_io \<Rightarrow> bytes \<Rightarrow> client_keys \<Rightarrow> u32 \<Rightarrow> daemon \<Rightarrow> (exchange \<times> nat, client_error) outcome \<times> bytes list" where
  "client_opens cr io ei ck idx d = open_bound_session cr io ei ck
     (kp_public (from_secret cr (ks_secret_static (dm_keys d)))) (keys_sig_pub cr (dm_keys d)) idx []"

definition after_binding :: "handshake_result \<Rightarrow> nat \<Rightarrow> session" where
  "after_binding hr slot = (client_session hr (word_of_nat slot))\<lparr>se_send := \<lparr>cs_key = hr_send_key hr, cs_counter = 1\<rparr>\<rparr>"

lemma client_binds_node:
  assumes inv: "node_inv cr d" and r: "ready cr ck ei sr io slot (sr_now sr2) d"
  shows "\<exists>hr x m1 b1 n. client_opens cr io ei ck idx d
      = (Ok (\<lparr>ex_result = hr, ex_session = after_binding hr slot, ex_daemon_index = word_of_nat slot\<rparr>, n), [m1, b1])
    \<and> drain cr [(sr, m1), (sr2, b1)] d = (Ok (), with_binding slot x (sr_now2 sr) (ed_public cr (cl_sig ck))
        (build_cert cr ck (saturating_sub (io_clock io 0) 1000) (io_clock io 0 + 3600000)) d)
    \<and> hs_send_key x = hr_recv_key hr \<and> hs_recv_key x = hr_send_key hr \<and> hs_hash x = hr_handshake_hash hr
    \<and> hs_peer_static x = kp_public (cl_kex ck)"
proof -
  let ?si = "kp_secret (cl_kex ck)"
  have laws: "crypto_laws cr" "sig_laws cr" "proper_keys cr ck" and io: "meets cr sr d io"
    and len: "length ?si = 32" "length ei = 32" "length (ks_secret_static (dm_keys d)) = 32" "length (sr_eph sr) = 32"
    and ok: "secrets_ok cr ?si (ks_secret_static (dm_keys d)) ei (sr_eph sr)"
    and ca: "ed_public cr (cl_ca ck) \<in> set (ks_ca_pubs (dm_keys d))"
    and slot: "position (\<lambda>s. s = None) (dm_hs d) = Some slot" and time: "in_time (io_clock io 0) (sr_now sr2)"
    and kex: "cl_kex ck = from_secret cr ?si"
    using r by (simp_all add: ready_def proper_keys_def)
  from exchange_meets [OF laws(1) inv io len ok slot, of idx] obtain m1 hr x where
    ex: "exchange_with cr io ei (cl_kex ck) (kp_public (from_secret cr (ks_secret_static (dm_keys d)))) (keys_sig_pub cr (dm_keys d)) idx []
        = (Ok \<lparr>ex_result = hr, ex_session = client_session hr (word_of_nat slot), ex_daemon_index = word_of_nat slot\<rparr>, [m1])"
    and h: "handle_datagram cr sr m1 d = (Ok (), with_handshake slot x (sr_now2 sr) d)"
    and x: "hs_send_key x = hr_recv_key hr" "hs_recv_key x = hr_send_key hr" "hs_hash x = hr_handshake_hash hr"
      "hs_peer_static x = kp_public (cl_kex ck)"
    unfolding kex [symmetric] by blast
  have slot16: "slot < 16" using position_SomeD [OF slot] inv by (simp add: node_inv_def slots_but_empty)
  let ?w = "build_cert cr ck (saturating_sub (io_clock io 0) 1000) (io_clock io 0 + 3600000)"
  let ?b1 = "packet_of cr (hs_recv_key x) (word_of_nat slot) 0 (binding_plain cr (cl_sig ck) ?w (hs_hash x))"
  have "client_opens cr io ei ck idx d = (Ok (\<lparr>ex_result = hr, ex_session = after_binding hr slot, ex_daemon_index = word_of_nat slot\<rparr>,
      length (binding_plain cr (cl_sig ck) ?w (hs_hash x)) + 32), [m1, ?b1])"
    using ex x client_seals [OF _ _ laws(1)] io
    by (simp add: client_opens_def open_bound_session_def open_bound_with_def in_time_window(1) [OF time] meets_def
        client_session_def after_binding_def cipher_state_new_def)
  moreover have "drain cr [(sr, m1), (sr2, ?b1)] d = (Ok (), with_binding slot x (sr_now2 sr) (ed_public cr (cl_sig ck)) ?w d)"
    using h binding_meets [OF laws inv slot16 ca time x(4)] by simp
  ultimately show ?thesis using x by blast
qed

section \<open>An intent\<close>

definition client_envelope :: "crypto \<Rightarrow> bytes \<Rightarrow> bytes \<Rightarrow> u64 \<Rightarrow> u64 \<Rightarrow> u8 \<Rightarrow> bytes \<Rightarrow> envelope" where
  "client_envelope cr sk channel q ts bt body =
     (let tbs = envelope_tbs channel (ed_public cr sk) q ts bt body
      in \<lparr>env_version = 2, env_channel_id = channel, env_sender = ed_public cr sk, env_seq = q, env_parent_count = 0,
          env_parents = [], env_ts = ts, env_body_type = bt, env_body = body, env_tbs = tbs,
          env_sig = ed_sign cr sk (DOMAIN_ENVELOPE # tbs)\<rparr>)"

lemma client_envelope_parses:
  assumes "sig_laws cr" "length sk = 32" "length channel = 32" "length body \<le> unat MAX_BODY"
  shows "parse_envelope (build_envelope cr sk channel (ed_public cr sk) q ts bt body) = Ok (client_envelope cr sk channel q ts bt body)"
    "verify_envelope cr (client_envelope cr sk channel q ts bt body) = Ok ()"
proof -
  note sizes = sig_sizes [OF assms(1,2)]
  show "parse_envelope (build_envelope cr sk channel (ed_public cr sk) q ts bt body) = Ok (client_envelope cr sk channel q ts bt body)"
    using sizes assms(3,4) unfolding parse_envelope_iff
    by (simp add: wf_envelope_def encode_envelope_def build_envelope_def client_envelope_def envelope_tbs_def Let_def codec_lens)
  show "verify_envelope cr (client_envelope cr sk channel q ts bt body) = Ok ()"
    using sizes assms(1,2) signed_verifies [OF assms(1,2)]
    by (simp add: verify_envelope_def client_envelope_def Let_def verify_signed_err_def sig_laws_def codec_lens)
qed

text \<open>The number of an envelope is new to the node and its stores have room.\<close>

definition fresh_number :: "bytes \<Rightarrow> bytes \<Rightarrow> u64 \<Rightarrow> evidence_ledger \<Rightarrow> bool" where
  "fresh_number sender channel q l \<longleftrightarrow> find_envelope sender channel q l = None
     \<and> fst (check_seq sender channel q l) = Ok () \<and> length (el_envelopes l) < MAX_ENVELOPES"

lemma fresh_number_admitted:
  assumes "fresh_number sender channel q l"
  shows "fst (verify_envelope_admission h sender channel q [] l) = Ok ()"
proof -
  have "length (el_envelopes (snd (check_seq sender channel q l))) < MAX_ENVELOPES"
    "find_envelope sender channel q (snd (check_seq sender channel q l)) = None"
    using assms by (simp_all add: fresh_number_def check_seq_envelopes find_envelope_def)
  with assms show ?thesis
    by (cases "check_seq sender channel q l")
      (simp add: fresh_number_def verify_envelope_admission_def insert_envelope_def find_envelope_def all_parents_present_def)
qed

text \<open>Counting and publishing leave the intents alone.\<close>

lemma counting_keeps_intents [simp]:
  "dm_intents (snd (reject c d)) = dm_intents d" "dm_intents (snd (count_admission d)) = dm_intents d"
  "dm_intents (snd (publish_event t d)) = dm_intents d"
  by (auto simp: reject_def bump_wire_def count_admission_def publish_event_def split: outcome.split option.split prod.split)

lemma counted_keeps_intents:
  "dm_intents (snd (then_state (if c then count_admission d else (Ok (), d)) (\<lambda>_ d. publish_event t d))) = dm_intents d"
proof (rule snd_then_state [where Q = "\<lambda>d'. dm_intents d' = dm_intents d"])
  fix x d1 assume "(if c then count_admission d else (Ok (), d)) = (Ok x, d1)"
  then have "dm_intents d1 = dm_intents (snd (if c then count_admission d else (Ok (), d)))" by simp
  then show "dm_intents (snd (publish_event t d1)) = dm_intents d" by simp
qed simp

lemma dispatched_intent:
  assumes "parse_envelope wire = Ok e" "verify_envelope cr e = Ok ()" "env_body_type e = BODY_INTENT"
    and "env_body e = encode_intent i" "wf_intent i" "length (int_action i) \<le> SENDER_MAX_ACTION"
    and "resolver_inv (dm_resolver d)"
  shows "dm_intents (snd (dispatch_envelope cr io pio wire now d)) =
    snd (resolve_and_admit (dm_resolver d) (int_intent_id i) (int_resource_id i) now (dm_intents d))"
proof -
  let ?r = "resolve_and_admit (dm_resolver d) (int_intent_id i) (int_resource_id i) now (dm_intents d)"
  have i: "parse_intent (env_body e) = Ok i" using assms(4,5) by (simp add: parse_intent_iff)
  have "length (int_intent_id i) = LEN_INTENT_ID" using assms(5) by (simp add: wf_intent_def)
  then have "dp_intent_table (snd (dispatch_intent e now (node_dispatcher cr d))) = snd ?r"
    using i assms(6) by (cases ?r; cases "fst ?r") (simp_all add: dispatch_intent_def node_dispatcher_def Let_def)
  then show ?thesis
    using assms(1-3)
    by (cases "dispatch_intent e now (node_dispatcher cr d)")
      (auto simp: dispatch_envelope_def dispatch_def Let_def counted_keeps_intents split: outcome.split prod.split)
qed

lemma handle_intent:
  assumes inv: "node_inv cr d" and live: "\<not> exhausted d" and laws: "sig_laws cr" "length sk = 32" "length channel = 32"
    and wf: "wf_intent i" "length (encode_intent i) \<le> unat MAX_BODY" "length (int_action i) \<le> SENDER_MAX_ACTION"
    and fresh: "fresh_number (ed_public cr sk) channel q (dm_mem d)"
  shows "\<exists>d'. handle_envelope cr io pio now (build_envelope cr sk channel (ed_public cr sk) q ts BODY_INTENT (encode_intent i)) d = (Ok (), d')
    \<and> dm_intents d' = snd (resolve_and_admit (dm_resolver d) (int_intent_id i) (int_resource_id i) now (dm_intents d))"
proof -
  let ?p = "build_envelope cr sk channel (ed_public cr sk) q ts BODY_INTENT (encode_intent i)"
  let ?e = "client_envelope cr sk channel q ts BODY_INTENT (encode_intent i)" and ?r = "handle_envelope cr io pio now"
  note e = client_envelope_parses [OF laws wf(2), of q ts BODY_INTENT]
  have parts: "env_sender ?e = ed_public cr sk" "env_channel_id ?e = channel" "env_seq ?e = q" "env_parents ?e = []"
    "env_parent_count ?e = 0" "env_body_type ?e = BODY_INTENT" "env_body ?e = encode_intent i"
    by (simp_all add: client_envelope_def Let_def)
  obtain m where m: "verify_envelope_admission (envelope_hash cr ?p) (ed_public cr sk) channel q [] (dm_mem d) = (Ok (), m)"
    using fresh_number_admitted [OF fresh, of "envelope_hash cr ?p"] by (metis prod.collapse)
  then have "handle_envelope cr io pio now ?p d = dispatch_envelope cr io pio ?p now (d\<lparr>dm_mem := m\<rparr>)"
    using e parts fresh laws(3) sig_sizes(1) [OF laws(1,2)]
    by (simp add: handle_envelope_def Let_def chunks32.simps fresh_number_def)
  moreover have "resolver_inv (dm_resolver d)" using inv by (simp add: node_inv_def tables_ok_def)
  ultimately have "dm_intents (snd (handle_envelope cr io pio now ?p d))
      = snd (resolve_and_admit (dm_resolver d) (int_intent_id i) (int_resource_id i) now (dm_intents d))"
    using dispatched_intent [OF e parts(6,7) wf(1,3)] by simp
  moreover have "fst (handle_envelope cr io pio now ?p d) = Ok ()"
    using handle_envelope_well [OF inv, of io pio now ?p] live
    by (cases "handle_envelope cr io pio now ?p d"; cases "fst (handle_envelope cr io pio now ?p d)") (auto simp: handled_well_def)
  ultimately show ?thesis by (metis prod.collapse)
qed

section \<open>A round of the client\<close>

lemma bound_after:
  assumes inv: "node_inv cr d" and slot: "slot < 16"
  shows "session_lookup (word_of_nat slot) (dm_sessions (with_binding slot x now2 k w d))
    = Some (bound_session slot x now2 (dm_sessions d ! slot))"
  using inv slot
  by (simp add: session_lookup_Some slot_index with_binding_def bound_session_def opened_session_def node_inv_def
      slots_but_empty session_inv_def)

lemma binding_exhausts_nothing: "exhausted (with_binding slot x now2 k w d) = exhausted d"
  by (simp add: exhausted_def with_binding_def with_handshake_def)

lemma intent_meets:
  assumes laws: "crypto_laws cr" "sig_laws cr" "length sk = 32" "length channel = 32" and slot: "slot < 16"
    and inv: "node_inv cr d" "node_inv cr (with_binding slot x now2 k w d)" and live: "\<not> exhausted d"
    and wf: "wf_intent i" "length (encode_intent i) \<le> 3945" "length (int_action i) \<le> SENDER_MAX_ACTION"
    and fresh: "fresh_number (ed_public cr sk) channel q (dm_mem d)"
  shows "\<exists>d'. handle_datagram cr sr (packet_of cr (hs_recv_key x) (word_of_nat slot) 1
        (build_envelope cr sk channel (ed_public cr sk) q ts BODY_INTENT (encode_intent i))) (with_binding slot x now2 k w d) = (Ok (), d')
    \<and> dm_intents d' = snd (resolve_and_admit (dm_resolver d) (int_intent_id i) (int_resource_id i) (sr_now sr) (dm_intents d))"
proof -
  let ?d = "with_binding slot x now2 k w d" and ?s = "bound_session slot x now2 (dm_sessions d ! slot)"
  let ?p = "build_envelope cr sk channel (ed_public cr sk) q ts BODY_INTENT (encode_intent i)"
  let ?d' = "?d\<lparr>dm_sessions := session_put (word_of_nat slot)
    (?s\<lparr>se_recv := (se_recv ?s)\<lparr>rs_window := \<lparr>wi_highest = 1, wi_mask = 1\<rparr>\<rparr>\<rparr>) (dm_sessions ?d)\<rparr>"
  have s: "rs_key (se_recv ?s) = hs_recv_key x" "recv_check 1 (rs_window (se_recv ?s)) = (True, \<lparr>wi_highest = 1, wi_mask = 1\<rparr>)"
    "se_bound ?s"
    by (simp_all add: bound_session_def recv_check_def)
  have "length ?p \<le> PT_BUF"
    using wf(2) sig_sizes [OF laws(2,3)] laws(4) by (simp add: build_envelope_def envelope_tbs_def Let_def PT_BUF_def)
  from node_opens_packet [OF laws(1) bound_after [OF inv(1) slot] s(1) this s(2)] s(3)
  have step: "handle_datagram cr sr (packet_of cr (hs_recv_key x) (word_of_nat slot) 1 ?p) ?d
      = handle_envelope cr (sr_io sr) (sr_pio sr) (sr_now sr) ?p ?d'"
    by (simp add: Let_def)
  have inv': "node_inv cr ?d'"
    by (rule put_session_keeps [OF inv(2) bound_after [OF inv(1) slot]]) (simp_all add: same_session_def s(3))
  have "\<not> exhausted ?d'" using live by (simp add: binding_exhausts_nothing)
  moreover have "fresh_number (ed_public cr sk) channel q (dm_mem ?d')" "dm_resolver ?d' = dm_resolver d" "dm_intents ?d' = dm_intents d"
    using fresh by (simp_all add: with_binding_def with_handshake_def)
  moreover have "length (encode_intent i) \<le> unat MAX_BODY" using wf(2) by (simp add: codec_limits)
  ultimately show ?thesis
    using handle_intent [OF inv' _ laws(2-4) wf(1) _ wf(3), of q "sr_io sr" "sr_pio sr" "sr_now sr" ts] step by simp
qed

text \<open>
  Both ends hold the session: the node's is bound, its keys are those of the client's crossed over,
  its transcript is the client's, its peer is the client's static key and the client's certificate is stored.
\<close>

definition bound_pair :: "crypto \<Rightarrow> client_keys \<Rightarrow> nat \<Rightarrow> exchange \<Rightarrow> daemon \<Rightarrow> bool" where
  "bound_pair cr ck slot ex d \<longleftrightarrow>
     (case session_lookup (word_of_nat slot) (dm_sessions d) of
        None \<Rightarrow> False
      | Some s \<Rightarrow> se_bound s \<and> rs_key (se_recv s) = cs_key (se_send (ex_session ex))
          \<and> cs_key (se_send s) = rs_key (se_recv (ex_session ex))
          \<and> se_handshake_hash s = hr_handshake_hash (ex_result ex))
     \<and> dm_peer_static d ! slot = Some (kp_public (cl_kex ck))
     \<and> cert_for_sender (dm_certs d) (ed_public cr (cl_sig ck)) \<noteq> None"

lemma with_binding_pair:
  assumes laws: "crypto_laws cr" "sig_laws cr" "proper_keys cr ck" and inv: "node_inv cr d" and slot: "slot < 16"
    and x: "hs_send_key x = hr_recv_key hr" "hs_recv_key x = hr_send_key hr" "hs_hash x = hr_handshake_hash hr"
      "hs_peer_static x = kp_public (cl_kex ck)"
  shows "bound_pair cr ck slot \<lparr>ex_result = hr, ex_session = after_binding hr slot, ex_daemon_index = j\<rparr>
    (with_binding slot x now (ed_public cr (cl_sig ck)) (build_cert cr ck nb na) d)"
proof -
  let ?d = "with_binding slot x now (ed_public cr (cl_sig ck)) (build_cert cr ck nb na) d"
  have "cert_for_sender (dm_certs ?d) (ed_public cr (cl_sig ck)) \<noteq> None"
    by (auto simp: with_binding_def cert_for_sender_def parsed_certs_def client_cert_parses [OF laws]
        List.map_filter_def find_None_iff)
  moreover have "dm_peer_static ?d ! slot = Some (kp_public (cl_kex ck))"
    using slot inv x by (simp add: with_binding_def with_handshake_def node_inv_def slots_but_empty)
  ultimately show ?thesis
    unfolding bound_pair_def bound_after [OF inv slot]
    by (simp add: bound_session_def opened_session_def x cipher_state_new_def after_binding_def client_session_def recv_state_new_def)
qed

lemma admitted_locks:
  assumes "node_inv cr d"
  shows "locks (snd (resolve_and_admit (dm_resolver d) iid p now (dm_intents d))) =
    (case resolve (dm_resolver d) p of
       Ok r \<Rightarrow> snd (spec_admit iid r (length r) (locks (dm_intents d)))
     | _ \<Rightarrow> locks (dm_intents d))"
proof -
  have "resolver_inv (dm_resolver d)" "intent_inv (dm_intents d)" using assms by (simp_all add: node_inv_def tables_ok_def)
  from resolve_and_admit_locks [OF this, of iid p now] show ?thesis
    by (cases "resolve_and_admit (dm_resolver d) iid p now (dm_intents d)") (auto split: outcome.splits prod.splits)
qed

text \<open>
  C4: The integration client and the node fit together. Take a node in a state it can reach that has a
  free handshake slot, no counter at its end, fewer than 4096 stored envelopes and, for the client's
  key and channel, a sequence window (one of at most 256, or one still to be opened) in which the
  client's number is unused. Take a client with proper keys whose CA the node trusts, over connected
  sockets and clocks that nearly agree, and a well-formed intent of at most 3945 bytes with an
  action of at most 512. Then the client's handshake and binding bring both to a bound session, and
  the intent the client seals next on that session acts on the lock map as the specification of
  admission says for the canonical id the node resolves.
\<close>

theorem client_round_locks:
  assumes "ready cr ck ei sr io slot (sr_now sr2) (node_run cr k ops)" "\<not> exhausted (node_run cr k ops)"
    and "wf_intent i" "length (encode_intent i) \<le> 3945" "length (int_action i) \<le> SENDER_MAX_ACTION"
    and "length channel = 32" "fresh_number (ed_public cr (cl_sig ck)) channel q (dm_mem (node_run cr k ops))"
  shows "let d = node_run cr k ops; sender = ed_public cr (cl_sig ck) in
    \<exists>ex n m1 b1 d2 r e1 d3.
      client_opens cr io ei ck idx d = (Ok (ex, n), [m1, b1])
    \<and> drain cr [(sr, m1), (sr2, b1)] d = (Ok (), d2) \<and> bound_pair cr ck slot ex d2
    \<and> send_sealed cr io (build_envelope cr (cl_sig ck) channel sender q ts BODY_INTENT (encode_intent i))
        (ex_session ex) [m1, b1] = (Ok r, [m1, b1, e1])
    \<and> handle_datagram cr sr3 e1 d2 = (Ok (), d3)
    \<and> locks (dm_intents d3) = (case resolve (dm_resolver d) (int_resource_id i) of
        Ok c \<Rightarrow> snd (spec_admit (int_intent_id i) c (length c) (locks (dm_intents d)))
      | _ \<Rightarrow> locks (dm_intents d))"
proof -
  let ?d = "node_run cr k ops" and ?sig = "ed_public cr (cl_sig ck)"
  let ?w = "build_cert cr ck (saturating_sub (io_clock io 0) 1000) (io_clock io 0 + 3600000)"
  let ?p = "build_envelope cr (cl_sig ck) channel ?sig q ts BODY_INTENT (encode_intent i)"
  have inv: "node_inv cr ?d" by (rule node.inv_run)
  have laws: "crypto_laws cr" "sig_laws cr" "proper_keys cr ck" "length (cl_sig ck) = 32" and io: "io_send io = (\<lambda>_. True)"
    and free: "position (\<lambda>s. s = None) (dm_hs ?d) = Some slot"
    using assms(1) by (simp_all add: ready_def proper_keys_def meets_def)
  have slot: "slot < 16" using position_SomeD [OF free] inv by (simp add: node_inv_def slots_but_empty)
  from client_binds_node [OF inv assms(1), of idx] obtain hr x m1 b1 n where
    opens: "client_opens cr io ei ck idx ?d
      = (Ok (\<lparr>ex_result = hr, ex_session = after_binding hr slot, ex_daemon_index = word_of_nat slot\<rparr>, n), [m1, b1])"
    and drained: "drain cr [(sr, m1), (sr2, b1)] ?d = (Ok (), with_binding slot x (sr_now2 sr) ?sig ?w ?d)"
    and x: "hs_send_key x = hr_recv_key hr" "hs_recv_key x = hr_send_key hr" "hs_hash x = hr_handshake_hash hr"
      "hs_peer_static x = kp_public (cl_kex ck)" by blast
  let ?d2 = "with_binding slot x (sr_now2 sr) ?sig ?w ?d" and ?e1 = "packet_of cr (hs_recv_key x) (word_of_nat slot) 1 ?p"
  have "node_inv cr ?d2" using drain_stays [OF inv drained] by (simp add: stays_def)
  from intent_meets [OF laws(1,2,4) assms(6) slot inv this assms(2-5,7), of sr3 ts] obtain d3 where
    h: "handle_datagram cr sr3 ?e1 ?d2 = (Ok (), d3)"
    and t: "dm_intents d3 = snd (resolve_and_admit (dm_resolver ?d) (int_intent_id i) (int_resource_id i) (sr_now sr3) (dm_intents ?d))"
    by blast
  obtain r where sealed: "send_sealed cr io ?p (after_binding hr slot) [m1, b1] = (Ok r, [m1, b1, ?e1])"
    using client_seals [OF io _ laws(1), of "after_binding hr slot" ?p "[m1, b1]"] x
    by (simp add: after_binding_def client_session_def)
  show ?thesis
    unfolding Let_def
    by (intro exI conjI, rule opens, rule drained, rule with_binding_pair [OF laws(1-3) inv slot x], simp, rule sealed, rule h)
      (simp add: t admitted_locks [OF inv])
qed

section \<open>A round on a fresh node\<close>

definition demo_client :: client_keys where
  "demo_client = \<lparr>cl_kex = from_secret toy_crypto (replicate 32 1), cl_sig = replicate 32 6,
     cl_approver = replicate 32 7, cl_ca = replicate 32 8\<rparr>"

definition demo_keys :: keys where
  "demo_keys = \<lparr>ks_secret_static = replicate 32 2, ks_pub_static = replicate 32 11, ks_sig_key = replicate 32 5,
     ks_cert = [], ks_ca_pubs = [replicate 32 8]\<rparr>"

definition demo_lane :: bytes where "demo_lane = resource_for toy_crypto (replicate 32 5) (ascii ''a'')"

abbreviation demo_node :: daemon where "demo_node \<equiv> node_run toy_crypto demo_keys [NResource demo_lane]"

definition demo_sr :: surroundings where
  "demo_sr = \<lparr>sr_now = 10000000, sr_now2 = 10000000, sr_eph = replicate 32 4, sr_send = (\<lambda>_. True),
     sr_io = WriteDone, sr_pio = PruneDone\<rparr>"

definition demo_io :: client_io where
  "demo_io = \<lparr>io_clock = (\<lambda>_. 10000000), io_send = (\<lambda>_. True),
     io_recv = (\<lambda>sent. node_answer toy_crypto demo_sr demo_node (last sent))\<rparr>"

definition demo_intent :: intent where
  "demo_intent = intent_of (replicate 16 1) demo_lane []"

lemma toy_public: "ed_public toy_crypto k = k"
  by (simp add: toy_crypto_def)

lemma demo_fp: "executor_fp toy_crypto (replicate 32 5) = ascii ''0505050505050505''"
proof -
  have "hex_bytes (replicate 8 5) = ascii ''0505050505050505''" by code_simp
  then show ?thesis by (simp add: executor_fp_def toy_crypto_def pad_to_def FP_BYTES_def)
qed

lemma demo_lane_eq: "demo_lane = ascii ''bol:0505050505050505/harness/a''"
  by (simp add: demo_lane_def resource_for_def demo_fp) (simp add: ascii_def)

lemma demo_lane_valid:
  "validate_canonical demo_lane" "length demo_lane = 30"
  "(subslice demo_lane 4 20 :: (bytes, resolve_error) outcome) = Ok (ascii ''0505050505050505'')"
  unfolding demo_lane_eq by code_simp+

lemma demo_resolver: "dm_resolver demo_node = \<lparr>rs_own_fp = ascii ''0505050505050505'', rs_entries = [demo_lane], rs_aliases = []\<rparr>"
  using demo_lane_valid(1,2) demo_fp
  by (simp add: add_resource_def daemon_new_def resolver_add_def resolver_new_def resolver_sizes find_entry_def keys_sig_pub_def
      toy_public demo_keys_def)

lemma demo_resolves: "resolve (dm_resolver demo_node) demo_lane = Ok demo_lane"
  unfolding demo_resolver using demo_lane_valid(3)
  by (simp add: resolve_def entry_hit_def FP_HEX_LEN_def ok_or_def)

lemma demo_unused:
  "dm_mem demo_node = evidence_ledger_new" "dm_intents demo_node = table_new" "\<not> exhausted demo_node"
  by (simp_all add: add_resource_def daemon_new_def exhausted_def wire_counters_new_def ring_new_def split: prod.split)

lemma demo_ready: "ready toy_crypto demo_client (replicate 32 3) demo_sr demo_io 0 (sr_now demo_sr) demo_node"
proof -
  have pub: "kp_public (from_secret toy_crypto (replicate 32 x)) = replicate 32 (x + 9)" for x
    by (simp add: from_secret_def toy_crypto_def zip_replicate)
  have d: "dh toy_crypto (replicate 32 x) (replicate 32 y) = Ok (replicate 32 (x + y))" if "x + y \<noteq> 0" for x y
    using that toy_dh [of "replicate 32 x" "replicate 32 y"] by (simp add: zip_replicate)
  have sec: "kp_secret (from_secret toy_crypto x) = x" for x by (simp add: from_secret_def)
  have "dm_hs demo_node = hs_table_new"
    by (simp add: add_resource_def daemon_new_def split: prod.split)
  then have free: "position (\<lambda>s. s = None) (dm_hs demo_node) = Some 0"
    by (simp add: hs_table_new_def HS_MAX_SESSIONS_def numeral_eq_Suc)
  show ?thesis
    unfolding ready_def node_run_keys
    by (simp add: toy_crypto_laws toy_sig_laws free del: fold.simps)
      (simp add: proper_keys_def demo_client_def demo_keys_def sec demo_sr_def demo_io_def meets_def secrets_ok_def pub d in_time_def toy_public)
qed

theorem client_round_locks_witness:
  "\<exists>ex n m1 b1 d2 r e1 d3.
      client_opens toy_crypto demo_io (replicate 32 3) demo_client 7 demo_node = (Ok (ex, n), [m1, b1])
    \<and> drain toy_crypto [(demo_sr, m1), (demo_sr, b1)] demo_node = (Ok (), d2) \<and> bound_pair toy_crypto demo_client 0 ex d2
    \<and> send_sealed toy_crypto demo_io
        (build_envelope toy_crypto (replicate 32 6) (replicate 32 0) (replicate 32 6) 11 0 BODY_INTENT (encode_intent demo_intent))
        (ex_session ex) [m1, b1] = (Ok r, [m1, b1, e1])
    \<and> handle_datagram toy_crypto demo_sr e1 d2 = (Ok (), d3)
    \<and> locks (dm_intents d3) demo_lane = Some (replicate 16 1, Pending)"
proof -
  have i: "wf_intent demo_intent" "length (encode_intent demo_intent) \<le> 3945" "length (int_action demo_intent) \<le> SENDER_MAX_ACTION"
    "int_resource_id demo_intent = demo_lane" "int_intent_id demo_intent = replicate 16 1"
    using demo_lane_valid(2)
    by (simp_all add: demo_intent_def intent_of_def wf_intent_def encode_intent_def push_field16_def push_field32_def codec_limits codec_lens
        ascii_def SENDER_MAX_ACTION_def)
  have fresh: "fresh_number (ed_public toy_crypto (cl_sig demo_client)) (replicate 32 0) 11 (dm_mem demo_node)"
    unfolding demo_unused(1)
    by (simp add: fresh_number_def evidence_ledger_new_def find_envelope_def check_seq_def MAX_SEQ_WINDOWS_def MAX_ENVELOPES_def)
  have locks: "snd (spec_admit (replicate 16 1) demo_lane (length demo_lane) (locks table_new)) demo_lane = Some (replicate 16 1, Pending)"
    using demo_lane_valid(2) by (simp add: spec_admit_def locks_def table_new_def MAX_RESOURCE_def MAX_PENDING_def)
  have sig: "cl_sig demo_client = replicate 32 6" by (simp add: demo_client_def)
  have channel: "length (replicate 32 0 :: bytes) = 32" by simp
  note round = client_round_locks [OF demo_ready demo_unused(3) i(1-3) channel fresh, of 7 0 demo_sr,
    unfolded Let_def i(4,5) demo_resolves demo_unused(2) toy_public sig outcome.case]
  show ?thesis
    by (rule ex_forward [OF round], (erule ex_forward)+) (use locks in \<open>simp only: simp_thms\<close>)
qed

end
