(* ===== verification/Asking.thy ===== *)
theory Asking
  imports Meeting
begin

text \<open>
  The client's requests against the control plane of the node, from the text of a request
  (src/tools/integration-client/src/ladder\_d.rs and ladder\_v.rs) through the front door
  (src/src/control.rs) and the routing (src/src/daemon.rs) to the reply the client reads. The
  request arrives in one read of the front door, which takes at most 4096 bytes. The lemmas
  follow a request with the node's token; the properties say what the client learns.
\<close>

section \<open>One question\<close>

definition READ_BUF :: nat where "READ_BUF = 4096"

definition request_input :: "nat \<Rightarrow> u64 \<Rightarrow> bytes \<Rightarrow> tick_input" where
  "request_input t now req =
     \<lparr>tk_instant = t, tk_now = now, tk_accept = Connected True None, tk_reads = (\<lambda>_. Bytes (take READ_BUF req)),
      tk_takes = (\<lambda>_. None)\<rparr>"

text \<open>What the stream of the last client was sent.\<close>

definition ask_at :: "nat \<Rightarrow> u64 \<Rightarrow> daemon peer" where
  "ask_at t now req d =
     (case poll_control (request_input t now req) d of
        (Ok _, d') \<Rightarrow>
          (case dm_control d' of
             Some cs \<Rightarrow> (if cs = [] then None else Some (cn_sent (last cs)))
           | None \<Rightarrow> None, d')
      | (_, d') \<Rightarrow> (None, d'))"

text \<open>A node asked over time: the clocks of a request are a function of how many it has counted.\<close>

definition ask_node :: "(nat \<Rightarrow> nat \<times> u64) \<Rightarrow> daemon peer" where
  "ask_node clk req d = (case clk (dm_ctl_requests d) of (t, now) \<Rightarrow> ask_at t now req d)"

text \<open>A node whose clients have all been answered.\<close>

definition quiet :: "daemon \<Rightarrow> bool" where
  "quiet d \<longleftrightarrow> (case dm_control d of
     Some cs \<Rightarrow> length cs < MAX_CLIENTS \<and> list_all (\<lambda>c. cn_state c = Closing) cs | None \<Rightarrow> False)"

section \<open>The front door\<close>

lemma closing_leaves: "cn_state c = Closing \<Longrightarrow> survives t (Bytes bs) c = None \<and> \<not> panics t (Bytes bs) c"
  by (auto simp: survives_def panics_def poll_readable_def read_headers_def)

lemma closing_survivors:
  assumes "list_all (\<lambda>c. cn_state c = Closing) cs"
  shows "survivors t (\<lambda>_. Bytes bs) i (cs @ [c]) = (case survives t (Bytes bs) c of None \<Rightarrow> [] | Some c' \<Rightarrow> [c'])"
    "any_panics t (\<lambda>_. Bytes bs) i (cs @ [c]) = panics t (Bytes bs) c"
  using assms by (induction cs arbitrary: i) (simp_all add: closing_leaves)

text \<open>Lines of the request, as the front door reads them.\<close>

lemma text_lines_crlf:
  assumes "list_all (\<lambda>l. 10 \<notin> set l) ls"
  shows "text_lines (crlf_lines ls @ rest) = ls @ text_lines rest"
  using assms
proof (induction ls)
  case (Cons l ls)
  have "position (\<lambda>b. b = 10) ((l @ [13]) @ 10 # crlf_lines ls @ rest) = Some (length (l @ [13]))"
    by (rule position_first) (use Cons.prems in auto)
  then have "text_lines (crlf_lines (l # ls) @ rest) = strip_cr (l @ [13]) # text_lines (crlf_lines ls @ rest)"
    by (subst text_lines.simps) (simp add: crlf_lines_def)
  with Cons show ?case by (simp add: strip_cr_def)
qed (simp add: crlf_lines_def)

lemma request_lines_ascii:
  assumes "list_all visible path" "case token of Some t \<Rightarrow> list_all visible t | None \<Rightarrow> True"
  shows "list_all (\<lambda>b. b < 0x80) (crlf_lines (request_lines (method_name m) path n token))"
    "list_all (\<lambda>l. 10 \<notin> set l) (request_lines (method_name m) path n token)"
proof -
  have v: "list_all visible xs \<Longrightarrow> list_all (\<lambda>b. b < 0x80) xs \<and> 10 \<notin> set xs" for xs
    using visible_not(1) by (auto simp: visible_def list_all_iff)
  have m: "list_all visible (method_name m)" by (cases m) (simp_all add: ascii_def visible_def)
  note vs = v [OF assms(1)] v [OF m] v [OF to_decimal_visible [of n]]
  show "list_all (\<lambda>b. b < 0x80) (crlf_lines (request_lines (method_name m) path n token))"
    "list_all (\<lambda>l. 10 \<notin> set l) (request_lines (method_name m) path n token)"
    using vs assms(2) v by (auto simp: request_lines_def crlf_lines_def ascii_def split: option.splits)
qed

lemma request_length_line:
  assumes "n < 2 ^ 64" "list_all visible path" "case token of Some t \<Rightarrow> list_all visible t | None \<Rightarrow> True"
  shows "parse_content_length (crlf_lines (request_lines (method_name m) path n token) @ [13, 10]) = Ok (Some n)"
proof -
  let ?ls = "request_lines (method_name m) path n token" and ?l = "ascii ''Content-Length: '' @ to_decimal n"
  note ascii = request_lines_ascii [OF assms(2,3), of m n]
  have "from_utf8 (crlf_lines ?ls @ [13, 10])" using ascii(1) by (intro from_utf8_ascii) simp
  moreover have "text_lines (crlf_lines ?ls @ [13, 10]) = ?ls @ text_lines [13, 10]"
    by (rule text_lines_crlf [OF ascii(2)])
  moreover have "\<not> is_length_line (method_name m @ 32 # path @ 32 # ascii ''HTTP/1.1'')"
    by (cases m) (simp_all add: is_length_line_def ascii_def to_ascii_lowercase_def)
  moreover have "\<not> is_length_line (ascii ''Authorization: Bearer '' @ t)" "\<not> is_length_line (ascii ''Host: harness'')"
    "\<not> is_length_line (ascii ''Content-Type: application/json'')" for t
    by (simp_all add: is_length_line_def ascii_def to_ascii_lowercase_def)
  moreover have "is_length_line ?l" by (simp add: is_length_line_def ascii_def to_ascii_lowercase_def)
  moreover have "drop 15 ?l = 32 # to_decimal n" by (simp add: ascii_def)
  ultimately show ?thesis
    using assms(1)
    by (auto simp: parse_content_length_def request_lines_def find_append trim_digits parse_to_decimal split: option.split)
qed

text \<open>A request that arrives whole is ready to be answered.\<close>

definition ready_conn :: "nat \<Rightarrow> bytes \<Rightarrow> nat \<Rightarrow> connection" where
  "ready_conn t req n = (conn_new t)\<lparr>cn_state := Writing, cn_buf := req, cn_content_length := Some n\<rparr>"

lemma request_ready:
  assumes "list_all visible path" "case token of Some tk \<Rightarrow> list_all visible tk | None \<Rightarrow> True" "length body < 2 ^ 32"
    and "length (request_text (method_name m) path (Some body) token) \<le> READ_BUF"
  shows "poll_readable t (Bytes (request_text (method_name m) path (Some body) token)) (conn_new t) =
    (Ok (), ready_conn t (request_text (method_name m) path (Some body) token) (length body))"
proof -
  define ls where "ls = request_lines (method_name m) path (length body) token"
  let ?req = "request_text (method_name m) path (Some body) token"
  have verb: "13 \<notin> set (method_name m)" by (cases m) (simp_all add: ascii_def)
  have plain: "list_all plain ls" "ls \<noteq> []"
    using request_lines_plain [OF verb assms(1,2)] by (simp_all add: ls_def request_lines_def)
  have req: "?req = crlf_lines ls @ [13, 10] @ body" by (simp add: request_text_lines ls_def)
  note head = head_end [OF plain, of body]
  obtain l ls' where l: "ls = l # ls'" "13 \<notin> set l" using plain by (cases ls) (auto simp: plain_def)
  have "find_sub [13, 10] ?req = Some (length l)"
    unfolding req by (simp add: l(1) crlf_lines_def find_sub_skip [OF l(2)])
  moreover have "find_sub CRLF2 ?req = Some (length (crlf_lines ls) - 2)" using head by (simp add: req CRLF2_def)
  moreover have two: "2 \<le> length (crlf_lines ls)" by (rule length_crlf_lines [OF plain(2)])
  then have "take (length (crlf_lines ls) - 2 + 4) ?req = crlf_lines ls @ [13, 10]" by (simp add: req)
  moreover have "parse_content_length (crlf_lines ls @ [13, 10]) = Ok (Some (length body))"
    using request_length_line [OF _ assms(1,2), of "length body" m] assms(3) by (simp add: ls_def)
  moreover have "length ?req = length (crlf_lines ls) + 2 + length body" by (simp add: req)
  moreover have "?req \<noteq> []" by (simp add: req)
  moreover have "length (crlf_lines ls) \<le> 4096" using assms(4) by (simp add: req READ_BUF_def)
  ultimately show ?thesis
    using two assms(3) by (simp add: poll_readable_def read_headers_def conn_new_def ready_conn_def Let_def)
qed

section \<open>The token\<close>

lemma bearer_start: "to_ascii_lowercase c \<noteq> 117 \<Longrightarrow> bearer_scan e (b # c # bs) = bearer_scan e (c # bs)"
  by (simp add: BEARER_def ascii_def)

lemma bearer_skip:
  "list_all (\<lambda>c. to_ascii_lowercase c \<noteq> 117) xs \<Longrightarrow> to_ascii_lowercase y \<noteq> 117 \<Longrightarrow>
     bearer_scan e (xs @ y # ys) = bearer_scan e (y # ys)"
proof (induction xs)
  case (Cons x xs)
  then show ?case using bearer_start [of _ e x] by (cases xs) (simp_all del: bearer_scan.simps)
qed simp

lemma bearer_found:
  assumes "13 \<notin> set tok" "length tok = 64"
  shows "bearer_scan tok (ascii ''Authorization: Bearer '' @ tok @ 13 # rest)"
proof -
  have "map to_ascii_lowercase (ascii ''Authorization: Bearer '') = BEARER"
    by (simp add: BEARER_def ascii_def to_ascii_lowercase_def)
  then have "map to_ascii_lowercase (take (length BEARER) (ascii ''Authorization: Bearer '' @ tok @ 13 # rest)) = BEARER"
    "length BEARER = length (ascii ''Authorization: Bearer '')" by (auto simp: BEARER_def ascii_def)
  moreover have "takeWhile (\<lambda>c. c \<noteq> 13) (tok @ 13 # rest) = tok"
    using assms(1) by (subst takeWhile_append2) auto
  ultimately show ?thesis using token_verify_exact [OF assms(2)] by (cases "ascii ''Authorization: Bearer ''") (auto simp: ascii_def)
qed

text \<open>A path with no u, so that nothing before the header looks like it.\<close>

definition quiet_path :: "bytes \<Rightarrow> bool" where
  "quiet_path path \<longleftrightarrow> list_all (\<lambda>c. visible c \<and> to_ascii_lowercase c \<noteq> 117) path"

definition token_ok :: "bytes \<Rightarrow> bool" where
  "token_ok tok \<longleftrightarrow> length tok = 64 \<and> list_all visible tok"

lemma request_authorised:
  assumes "quiet_path path" "token_ok tok"
  shows "bearer_ok (request_text (method_name m) path (Some body) (Some tok)) tok"
proof -
  let ?req = "request_text (method_name m) path (Some body) (Some tok)"
  define ls where "ls = request_lines (method_name m) path (length body) (Some tok)"
  define pre where "pre = method_name m @ 32 # path @ ascii '' HTTP/1.1'' @ [13, 10] @ ascii ''Host: harness'' @ [13, 10]
     @ ascii ''Content-Type: application/json'' @ [13, 10]"
  define post where "post = 10 # ascii ''Content-Length: '' @ to_decimal (length body) @ [13, 10] @ ascii ''Connection: close''"
  have vis: "list_all visible path" "list_all visible tok" using assms by (simp_all add: quiet_path_def token_ok_def list_all_iff)
  have verb: "13 \<notin> set (method_name m)" by (cases m) (simp_all add: ascii_def)
  have plain: "list_all plain ls" "ls \<noteq> []"
    using request_lines_plain [OF verb vis(1), of "Some tok"] vis(2) by (simp_all add: ls_def request_lines_def)
  have "find_sub CRLF2 ?req = Some (length (crlf_lines ls) - 2)"
    using head_end [OF plain, of body] by (simp add: request_text_lines ls_def CRLF2_def)
  moreover have "crlf_lines ls = pre @ ascii ''Authorization: Bearer '' @ tok @ 13 # post @ [13, 10]"
    by (simp add: ls_def request_lines_def crlf_lines_def pre_def post_def ascii_def)
  moreover from this have "take (length (crlf_lines ls) - 2) ?req = pre @ ascii ''Authorization: Bearer '' @ tok @ 13 # post"
    by (simp add: request_text_lines ls_def [symmetric])
  moreover have "list_all (\<lambda>c. to_ascii_lowercase c \<noteq> 117) pre"
    using assms(1) by (cases m) (auto simp: pre_def quiet_path_def ascii_def to_ascii_lowercase_def list_all_iff)
  then have "bearer_scan tok (pre @ ascii ''Authorization: Bearer '' @ tok @ 13 # post)"
    using bearer_found [of tok post] bearer_skip [of pre 65] visible_plain [OF vis(2)] assms(2)
    by (simp add: token_ok_def ascii_def to_ascii_lowercase_def)
  ultimately show ?thesis by (simp add: bearer_ok_def)
qed

section \<open>The routing\<close>

lemma route_request:
  assumes "quiet_path path" "token_ok tok" "length body \<le> 65536" "m = Post \<longrightarrow> body \<noteq> []" "dm_token d = Some tok"
    and "http_reply used now (request_text (method_name m) path (Some body) (Some tok))
        (request_of (length (crlf_lines (request_lines (method_name m) path (length body) (Some tok))) - 2) (length body) m path)
        (takeWhile (\<lambda>b. b \<noteq> 63) path) d = (Ok (status, b), d1)"
  shows "route_http None used now (ready_conn t (request_text (method_name m) path (Some body) (Some tok)) n) d =
    (Ok (), (ready_conn t (request_text (method_name m) path (Some body) (Some tok)) n)
       \<lparr>cn_sent := response_head status b @ b, cn_state := Closing\<rparr>, d1)"
proof -
  let ?req = "request_text (method_name m) path (Some body) (Some tok)"
  let ?rq = "request_of (length (crlf_lines (request_lines (method_name m) path (length body) (Some tok))) - 2) (length body) m path"
  have vis: "list_all visible path" "case Some tok of Some t \<Rightarrow> list_all visible t | None \<Rightarrow> True"
    using assms(1,2) by (simp_all add: quiet_path_def token_ok_def list_all_iff)
  obtain rest where req: "?req = (method_name m @ [32]) @ path @ rest" by (simp add: request_text_def)
  have "take (length (takeWhile (\<lambda>b. b \<noteq> 63) path)) (path @ xs) = takeWhile (\<lambda>b. b \<noteq> 63) path" for xs
    by (simp add: takeWhile_eq_take [symmetric] length_takeWhile_le)
  then have "subslice ?req (rq_target_start ?rq) (rq_target_end ?rq) = (Ok (takeWhile (\<lambda>b. b \<noteq> 63) path) :: (bytes, ctl_error) outcome)"
    using length_takeWhile_le [of "\<lambda>b. b \<noteq> 63" path]
    unfolding req by (simp add: subslice_def request_of_def Let_def)
  with assms(5,6) request_parsed [OF vis assms(3,4)] request_authorised [OF assms(1,2), of m body]
  show ?thesis
    by (simp add: route_http_def ready_conn_def respond_def write_http_response_def conn_new_def)
qed

lemma ask_answered:
  assumes "quiet d" "quiet_path path" "token_ok tok" "m = Post \<longrightarrow> body \<noteq> []" "dm_token d = Some tok"
    and "dm_ctl_requests d < 2 ^ 64 - 1"
    and size: "length (request_text (method_name m) path (Some body) (Some tok)) \<le> READ_BUF"
    and "http_reply (handshake_slots_used d) now (request_text (method_name m) path (Some body) (Some tok))
        (request_of (length (crlf_lines (request_lines (method_name m) path (length body) (Some tok))) - 2) (length body) m path)
        (takeWhile (\<lambda>b. b \<noteq> 63) path) (d\<lparr>dm_ctl_requests := dm_ctl_requests d + 1\<rparr>) = (Ok (status, b), d1)"
  shows "\<exists>c. ask_at t now (request_text (method_name m) path (Some body) (Some tok)) d =
      (Some (response_head status b @ b), d1\<lparr>dm_control := Some [c]\<rparr>) \<and> cn_state c = Closing"
proof -
  let ?req = "request_text (method_name m) path (Some body) (Some tok)"
  obtain cs where cs: "dm_control d = Some cs" "length cs < MAX_CLIENTS" "list_all (\<lambda>c. cn_state c = Closing) cs"
    using assms(1) by (auto simp: quiet_def split: option.splits)
  have body: "length body \<le> 65536" "length body < 2 ^ 32" using size by (simp_all add: request_text_def READ_BUF_def)
  have vis: "list_all visible path" "case Some tok of Some t \<Rightarrow> list_all visible t | None \<Rightarrow> True"
    using assms(2,3) by (simp_all add: quiet_path_def token_ok_def list_all_iff)
  note ready = request_ready [OF vis body(2) size, of t]
  let ?c = "ready_conn t ?req (length body)"
  have s: "survives t (Bytes ?req) (conn_new t) = Some ?c" "\<not> panics t (Bytes ?req) (conn_new t)"
    using ready by (simp_all add: survives_def panics_def ready_conn_def)
  have tick: "poll_tick t (Connected True None) (\<lambda>_. Bytes ?req) cs = (Ok (), [?c])"
    using cs(2) closing_survivors [OF cs(3), of t ?req 0 "conn_new t"] s
    by (simp add: poll_tick_eq accept_client_def not_le)
  note r = route_request [OF assms(2,3) body(1) assms(4) _ assms(8), of t "length body"]
  have "take READ_BUF ?req = ?req" using size by simp
  moreover have "cn_state ?c = Writing" by (simp add: ready_conn_def)
  ultimately have "ask_at t now ?req d = (Some (response_head status b @ b),
      d1\<lparr>dm_control := Some [?c\<lparr>cn_sent := response_head status b @ b, cn_state := Closing\<rparr>]\<rparr>)"
    using cs(1) tick r assms(5,6)
    by (simp add: ask_at_def poll_control_def request_input_def count_up_def)
  then show ?thesis by (intro exI conjI) (assumption, simp)
qed

text \<open>The client's view: the reply it reads, and the node afterwards.\<close>

lemma client_asks:
  assumes "quiet d" "quiet_path path" "token_ok tok" "m = Post \<longrightarrow> the_body bopt \<noteq> []" "dm_token d = Some tok"
    and "dm_ctl_requests d < 2 ^ 64 - 1" "the_body = (\<lambda>b. case b of Some b \<Rightarrow> b | None \<Rightarrow> [])"
    and "length (request_text (method_name m) path bopt (Some tok)) \<le> READ_BUF"
    and "http_reply (handshake_slots_used d) now (request_text (method_name m) path bopt (Some tok))
        (request_of (length (crlf_lines (request_lines (method_name m) path (length (the_body bopt)) (Some tok))) - 2)
          (length (the_body bopt)) m path)
        (takeWhile (\<lambda>b. b \<noteq> 63) path) (d\<lparr>dm_ctl_requests := dm_ctl_requests d + 1\<rparr>) = (Ok (status, b), d1)"
    and "status < 2 ^ 16" "from_utf8 b"
  shows "\<exists>c. request_peer (ask_at t now) (method_name m) path bopt (Some tok) d =
      (Ok (status, b), d1\<lparr>dm_control := Some [c]\<rparr>) \<and> cn_state c = Closing"
proof -
  have eq: "request_text (method_name m) path bopt (Some tok) = request_text (method_name m) path (Some (the_body bopt)) (Some tok)"
    by (simp add: request_text_def assms(7) split: option.split)
  from ask_answered [OF assms(1-3) assms(4-6) assms(8,9) [unfolded eq], of t] obtain c where
    "ask_at t now (request_text (method_name m) path bopt (Some tok)) d = (Some (response_head status b @ b), d1\<lparr>dm_control := Some [c]\<rparr>)"
    "cn_state c = Closing"
    unfolding eq by blast
  then show ?thesis using reply_read [OF assms(10,11)] by (intro exI [of _ c]) (simp add: request_peer_def)
qed

lemma stays_quiet: "cn_state c = Closing \<Longrightarrow> quiet (d\<lparr>dm_control := Some [c]\<rparr>)"
  by (simp add: quiet_def MAX_CLIENTS_def)

section \<open>The counters\<close>

definition counters_ok :: "daemon \<Rightarrow> bool" where
  "counters_ok d \<longleftrightarrow> length (wc_rejects (dm_wire d)) = REJECT_COUNT
     \<and> list_all (\<lambda>n. n < 2 ^ 64)
        ([mt_admitted_total (dm_metrics d), wc_admissions_total (dm_wire d), el_inserts_total (dm_mem d),
          el_storefull_total (dm_mem d), wc_handshake_released_total (dm_wire d), handshake_slots_used d] @ wc_rejects (dm_wire d))
     \<and> dm_ctl_requests d < 2 ^ 64 - 1"

lemma list_all_concat_map: "list_all P (concat (map f xs)) \<longleftrightarrow> list_all (\<lambda>x. list_all P (f x)) xs"
  by (induction xs) simp_all

lemma metrics_utf8:
  assumes "length (wc_rejects wire) = REJECT_COUNT"
  shows "from_utf8 (metrics_body adm req ref tmo wire ins sf hs)"
proof (rule from_utf8_ascii)
  let ?low = "list_all (\<lambda>b. b < (0x80 :: u8))"
  have line: "?low (counter_line nv @ [10]) \<longleftrightarrow> ?low (fst nv)" for nv
    using decimal_plain(2) by (simp add: counter_line_def)
  have "list_all (\<lambda>nv. ?low (fst nv)) (plain_counters adm req ref tmo wire ins sf hs)"
    by (simp add: plain_counters_def ascii_def)
  moreover have "list_all ?low reject_names" by (simp add: reject_names_def ascii_def)
  then have "list_all (\<lambda>nv. ?low (fst nv)) (map class_line (zip reject_names (wc_rejects wire)))"
    by (auto simp: class_line_def CLASS_PREFIX_def QUOTE_def ascii_def list_all_iff dest: set_zip_leftD)
  ultimately show "?low (metrics_body adm req ref tmo wire ins sf hs)"
    unfolding metrics_body_lines [OF assms] list_all_concat_map line by simp
qed

lemma peer_answers:
  "request_peer peer verb path body token s = (r, s') \<Longrightarrow> http_request_to (\<lambda>req. fst (peer req s)) verb path body token = r"
  by (auto simp: request_peer_def http_request_to_def split: prod.splits)

lemma get_method: "ascii ''GET'' = method_name Get" "ascii ''POST'' = method_name Post"
  by simp_all

lemma request_length:
  "length (request_text (method_name m) path bopt (Some tok)) \<le> 150 + length path + length tok + length (to_decimal (case bopt of Some b \<Rightarrow> length b | None \<Rightarrow> 0))
     + (case bopt of Some b \<Rightarrow> length b | None \<Rightarrow> 0)"
  by (cases m) (simp_all add: request_text_def ascii_def split: option.split)

lemma client_metrics:
  assumes "quiet d" "dm_token d = Some tok" "token_ok tok" "counters_ok d"
  shows "read_metrics (\<lambda>req. fst (ask_at t now req d)) (Some tok) =
    Ok \<lparr>ms_admissions = wc_admissions_total (dm_wire d), ms_inserts = el_inserts_total (dm_mem d),
        ms_storefull = el_storefull_total (dm_mem d), ms_rejects = zip reject_names (wc_rejects (dm_wire d))\<rparr>"
proof -
  let ?b = "metrics_body (mt_admitted_total (dm_metrics d)) 0 0 0 (dm_wire d) (el_inserts_total (dm_mem d))
    (el_storefull_total (dm_mem d)) (handshake_slots_used d)"
  have path: "quiet_path (ascii ''/metrics'')" "takeWhile (\<lambda>b. b \<noteq> 63) (ascii ''/metrics'') = ascii ''/metrics''"
    by (simp_all add: quiet_path_def ascii_def visible_def to_ascii_lowercase_def)
  have len: "length (request_text (method_name Get) (ascii ''/metrics'') None (Some tok)) \<le> READ_BUF"
    using assms(3) request_length [of Get "ascii ''/metrics''" None tok]
    by (simp add: READ_BUF_def token_ok_def ascii_def to_decimal.simps)
  have reply: "http_reply u now buf (request_of i n Get p) (ascii ''/metrics'') (d\<lparr>dm_ctl_requests := dm_ctl_requests d + 1\<rparr>)
      = (Ok (200, metrics_body (mt_admitted_total (dm_metrics d)) 0 0 0 (dm_wire d) (el_inserts_total (dm_mem d))
    (el_storefull_total (dm_mem d)) u), d\<lparr>dm_ctl_requests := dm_ctl_requests d + 1\<rparr>)" for u buf i n p
    by (simp add: http_reply_def request_of_def Let_def INTENTS_PREFIX_def starts_with_def ascii_def)
  obtain c where "request_peer (ask_at t now) (method_name Get) (ascii ''/metrics'') None (Some tok) d =
      (Ok (200, ?b), d\<lparr>dm_ctl_requests := dm_ctl_requests d + 1, dm_control := Some [c]\<rparr>)"
    using client_asks [OF assms(1) path(1) assms(3) _ assms(2) _ refl len, of now 200 ?b _ t] reply metrics_utf8 [of "dm_wire d"] assms(4)
    by (auto simp: path(2) counters_ok_def)
  then have "http_request_to (\<lambda>req. fst (ask_at t now req d)) (ascii ''GET'') (ascii ''/metrics'') None (Some tok) = Ok (200, ?b)"
    unfolding get_method by (rule peer_answers)
  moreover have "parse_metrics ?b = Ok \<lparr>ms_admissions = wc_admissions_total (dm_wire d), ms_inserts = el_inserts_total (dm_mem d),
        ms_storefull = el_storefull_total (dm_mem d), ms_rejects = zip reject_names (wc_rejects (dm_wire d))\<rparr>"
    using assms(4) by (intro metrics_parsed) (simp_all add: counters_ok_def)
  ultimately show ?thesis by (simp add: read_metrics_def)
qed

section \<open>The state of an intent\<close>

lemma hex_bytes_all:
  assumes "list_all (\<lambda>n. P (hex_digit (word_of_nat n))) [0..<16]"
  shows "list_all P (hex_bytes bs)"
proof -
  have "P (hex_digit d)" if "d < 16" for d by (rule all_nibble [where P = "\<lambda>d. P (hex_digit d)", OF assms that])
  moreover have "drop_bit 4 b < 16" "b AND 15 < 16" for b :: u8
    using nibbles [of "drop_bit 4 b" "b AND 15" b] by simp_all
  ultimately show ?thesis by (induction bs) (simp_all add: hex_bytes_def)
qed

lemma hex_quiet: "list_all (\<lambda>c. visible c \<and> to_ascii_lowercase c \<noteq> 117 \<and> c \<noteq> 63 \<and> c < 0x80) (hex_bytes bs)"
  by (rule hex_bytes_all) code_simp

definition state_reply_of :: "bytes \<Rightarrow> intent_table \<Rightarrow> nat \<times> bytes" where
  "state_reply_of iid t =
     (case find (\<lambda>e. e_intent_id e = iid) (entries t) of
        None \<Rightarrow> (404, line_of ''error'')
      | Some e \<Rightarrow> (200, state_name (e_state e) @ [10]))"

lemma parse_hex_bytes: "length idb = 32 \<Longrightarrow> parse_id_hex (hex_bytes idb) = Ok idb"
proof -
  assume "length idb = 32"
  then have "length (hex_bytes idb) = 64" by (simp add: length_hex_bytes)
  moreover from this have "is_hex (hex_bytes idb)"
    using decode_hex_digits [of "hex_bytes idb" idb] lowercase_hex_bytes [of idb] by (auto simp: is_hex_def decode_hex_Some)
  ultimately show ?thesis using lowercase_hex_bytes [of idb] by (simp add: parse_id_hex_def ID_HEX_LEN_def decode_hex_Some)
qed

lemma client_state:
  assumes "quiet d" "dm_token d = Some tok" "token_ok tok" "dm_ctl_requests d < 2 ^ 64 - 1" "length idb = 32"
  shows "http_request_to (\<lambda>req. fst (ask_at t now req d)) (ascii ''GET'') (INTENTS_PREFIX @ hex_bytes idb) None (Some tok) =
    Ok (state_reply_of (take 16 idb) (dm_intents d))"
proof -
  let ?p = "INTENTS_PREFIX @ hex_bytes idb"
  obtain st b where r: "state_reply_of (take 16 idb) (dm_intents d) = (st, b)" by fastforce
  have n: "length (hex_bytes idb) = 64" using assms(5) by (simp add: length_hex_bytes)
  have hex: "list_all (\<lambda>c. visible c \<and> to_ascii_lowercase c \<noteq> 117) (hex_bytes idb)" "\<forall>c\<in>set (hex_bytes idb). c \<noteq> 63"
    "list_all (\<lambda>c. c < 0x80) (hex_bytes idb)"
    using hex_quiet [of idb] by (simp_all add: list_all_iff)
  have path: "quiet_path ?p" using hex(1) by (simp add: quiet_path_def INTENTS_PREFIX_def ascii_def visible_def to_ascii_lowercase_def)
  have "\<forall>c\<in>set ?p. c \<noteq> 63" using hex(2) by (auto simp: INTENTS_PREFIX_def ascii_def)
  then have target: "takeWhile (\<lambda>b. b \<noteq> 63) ?p = ?p" by (subst takeWhile_eq_all_conv) blast
  have len: "length (request_text (method_name Get) ?p None (Some tok)) \<le> READ_BUF"
    using assms(3) n request_length [of Get ?p None tok]
    by (simp add: READ_BUF_def token_ok_def INTENTS_PREFIX_def ascii_def to_decimal.simps)
  note parse_hex_bytes [OF assms(5)]
  moreover have "from_utf8 (hex_bytes idb)" using hex(3) by (rule from_utf8_ascii)
  ultimately have "state_reply (hex_bytes idb) d' = (Ok (st, b) :: (nat \<times> bytes, ctl_error) outcome)" if "dm_intents d' = dm_intents d" for d'
    using r that by (auto simp: state_reply_def get_intent_state_def state_reply_of_def ok_or_def LEN_INTENT_ID_def split: option.splits)
  then have reply: "http_reply u now buf (request_of i k Get q) ?p (d\<lparr>dm_ctl_requests := dm_ctl_requests d + 1\<rparr>)
      = (Ok (st, b), d\<lparr>dm_ctl_requests := dm_ctl_requests d + 1\<rparr>)" for u buf i k q
    by (simp add: http_reply_def request_of_def Let_def starts_with_def) (simp add: INTENTS_PREFIX_def ascii_def)
  have "st < 2 ^ 16 \<and> from_utf8 b"
  proof -
    have "from_utf8 (line_of ''error'')" by code_simp
    moreover have "from_utf8 (state_name x @ [10])" for x by (rule from_utf8_ascii, cases x) (simp_all add: ascii_def)
    ultimately show ?thesis using r by (auto simp: state_reply_of_def split: option.splits)
  qed
  then obtain c where "request_peer (ask_at t now) (method_name Get) ?p None (Some tok) d =
      (Ok (st, b), d\<lparr>dm_ctl_requests := dm_ctl_requests d + 1, dm_control := Some [c]\<rparr>)"
    using client_asks [OF assms(1) path assms(3) _ assms(2,4) refl len, of now st b _ t] reply by (auto simp: target)
  then have "http_request_to (\<lambda>req. fst (ask_at t now req d)) (ascii ''GET'') ?p None (Some tok) = Ok (st, b)"
    unfolding get_method by (rule peer_answers)
  then show ?thesis by (simp add: r)
qed

section \<open>The body of an intent request\<close>

text \<open>The fields of a flat object, as the client writes them and as the node looks them up.\<close>

fun json_fields :: "(bytes \<times> bytes) list \<Rightarrow> bytes" where
  "json_fields [] = []"
| "json_fields [(k, v)] = quoted k @ 58 # quoted v @ [125]"
| "json_fields ((k, v) # fs) = quoted k @ 58 # quoted v @ 44 # json_fields fs"

definition no_quote :: "bytes \<Rightarrow> bool" where
  "no_quote bs \<longleftrightarrow> QUOTE \<notin> set bs"

lemma until_quote: "no_quote l \<Longrightarrow> takeWhile (\<lambda>b. b \<noteq> QUOTE) (l @ QUOTE # rest) = l"
  by (subst takeWhile_append2) (auto simp: no_quote_def)

lemma find_quoted:
  assumes "no_quote key" "no_quote l"
  shows "find_sub (QUOTE # key @ [QUOTE]) (QUOTE # l @ QUOTE # rest) =
    (if l = key then Some 0 else map_option ((+) (length l + 1)) (find_sub (QUOTE # key @ [QUOTE]) (QUOTE # rest)))"
proof -
  have "take (length key + 1) (l @ QUOTE # rest) = key @ [QUOTE] \<longleftrightarrow> l = key"
  proof
    assume t: "take (length key + 1) (l @ QUOTE # rest) = key @ [QUOTE]"
    define r where "r = drop (length key + 1) (l @ QUOTE # rest)"
    have "l @ QUOTE # rest = take (length key + 1) (l @ QUOTE # rest) @ r" unfolding r_def by (rule append_take_drop_id [symmetric])
    then have "l @ QUOTE # rest = key @ QUOTE # r" unfolding t by simp
    then have "takeWhile (\<lambda>b. b \<noteq> QUOTE) (l @ QUOTE # rest) = takeWhile (\<lambda>b. b \<noteq> QUOTE) (key @ QUOTE # r)" by (rule arg_cong)
    then show "l = key" using assms until_quote by simp
  qed simp
  moreover have "QUOTE \<notin> set l" using assms(2) by (simp add: no_quote_def)
  then have "find_sub (QUOTE # key @ [QUOTE]) (l @ QUOTE # rest) = map_option ((+) (length l)) (find_sub (QUOTE # key @ [QUOTE]) (QUOTE # rest))"
    by (rule find_sub_skip)
  ultimately show ?thesis by (simp add: option.map_comp comp_def)
qed

lemma quote_position: "no_quote l \<Longrightarrow> position (\<lambda>b. b = QUOTE) (l @ QUOTE # rest) = Some (length l)"
  by (rule position_first) (auto simp: no_quote_def)

text \<open>The value of a key that no value before it equals.\<close>

lemma json_key_found:
  assumes "list_all (\<lambda>(k, v). no_quote k \<and> no_quote v \<and> v \<noteq> key) fs" "no_quote key" "key \<noteq> [58]" "key \<noteq> [44]"
    and "map_of fs key = Some v"
  shows "\<exists>n rest. find_sub (QUOTE # key @ [QUOTE]) (json_fields fs) = Some n
    \<and> drop (n + length key + 2) (json_fields fs) = 58 # QUOTE # v @ QUOTE # rest \<and> no_quote v"
  using assms(1,5)
proof (induction fs rule: json_fields.induct)
  case (2 k w)
  then have "k = key" "w = v" "no_quote v" by (auto split: if_splits)
  then show ?case using find_quoted [OF assms(2,2)] by (simp add: quoted_def)
next
  case (3 k w f fs)
  have nq: "no_quote k" "no_quote w" "w \<noteq> key" "no_quote [58]" "no_quote [44]" using 3(2) by (auto simp: no_quote_def QUOTE_def)
  show ?case
  proof (cases "k = key")
    case True
    then have "w = v" using 3(3) by simp
    then show ?thesis using nq True find_quoted [OF assms(2,2)] by (simp add: quoted_def)
  next
    case False
    let ?fs = "json_fields (f # fs)" and ?n = "QUOTE # key @ [QUOTE]"
    obtain tl where q: "?fs = QUOTE # tl" by (cases "f # fs" rule: json_fields.cases) (auto simp: quoted_def)
    obtain n rest where ih: "find_sub ?n ?fs = Some n" "drop (n + length key + 2) ?fs = 58 # QUOTE # v @ QUOTE # rest" "no_quote v"
      using 3 False by auto
    have "find_sub ?n (json_fields ((k, w) # f # fs)) = map_option ((+) (length k + length w + 6)) (find_sub ?n ?fs)"
      using find_quoted [OF assms(2) nq(1), of "58 # QUOTE # w @ QUOTE # 44 # ?fs"]
        find_quoted [OF assms(2) nq(4), of "w @ QUOTE # 44 # ?fs"] find_quoted [OF assms(2) nq(2), of "44 # ?fs"]
        find_quoted [OF assms(2) nq(5), of tl] False nq(3) assms(3,4)
      by (simp add: quoted_def q ih(1) del: find_sub.simps) (use q ih(1) in auto)
    moreover have "drop (length k + length w + 6 + m) (json_fields ((k, w) # f # fs)) = drop m ?fs" for m
    proof -
      define pre where "pre = QUOTE # k @ [QUOTE, 58, QUOTE] @ w @ [QUOTE, 44]"
      have e: "json_fields ((k, w) # f # fs) = pre @ ?fs" and l: "length k + length w + 6 = length pre"
        by (simp_all add: pre_def quoted_def)
      show ?thesis unfolding e l by simp
    qed
    from this [of "n + length key + 2"] have "drop (length k + length w + 6 + n + length key + 2) (json_fields ((k, w) # f # fs)) = drop (n + length key + 2) ?fs"
      by (simp only: add.assoc)
    ultimately show ?thesis using ih by auto
  qed
qed simp

lemma flat_json_field:
  assumes "list_all (\<lambda>(k, v). no_quote k \<and> no_quote v \<and> v \<noteq> key) fs" "no_quote key" "key \<noteq> [58]" "key \<noteq> [44]"
    and "map_of fs key = Some v"
  shows "flat_json_get (123 # json_fields fs) key = Some v"
proof -
  obtain n rest where f: "find_sub (QUOTE # key @ [QUOTE]) (json_fields fs) = Some n"
    "drop (n + length key + 2) (json_fields fs) = 58 # QUOTE # v @ QUOTE # rest" "no_quote v"
    using json_key_found [OF assms] by blast
  have "find_sub (QUOTE # key @ [QUOTE]) (123 # json_fields fs) = Some (n + 1)"
    using f(1) by (simp add: QUOTE_def)
  moreover have "drop (n + 1 + length (QUOTE # key @ [QUOTE])) (123 # json_fields fs) = 58 # QUOTE # v @ QUOTE # rest"
    using f(2) by (simp add: numeral_2_eq_2)
  moreover have "trim_start (58 # xs) = 58 # xs" "trim_start (QUOTE # xs) = QUOTE # xs" for xs
    by (simp_all add: trim_start_visible visible_def QUOTE_def)
  ultimately show ?thesis
    using quote_position [OF f(3), of rest] by (simp add: flat_json_get_def strip_prefix_def starts_with_def Let_def)
qed

lemma flat_json_absent: "find_sub (QUOTE # key @ [QUOTE]) body = None \<Longrightarrow> flat_json_get body key = None"
  by (simp add: flat_json_get_def)

lemma intent_json_fields: "intent_json iid res subj = 123 # json_fields
   [(ascii ''id'', iid), (ascii ''resource'', res), (ascii ''action'', ascii ''read''), (ascii ''rationale'', ascii ''harness''), (ascii ''subject'', subj)]"
  by (simp add: intent_json_def)

text \<open>Two texts of hexadecimal digits of the sizes of ids, and a resource that cannot be taken for a key.\<close>

definition canonical_text :: "bytes \<Rightarrow> bool" where
  "canonical_text c \<longleftrightarrow> list_all visible c \<and> no_quote c \<and> length c \<le> 256 \<and> (\<exists>r. c = ascii ''bol:'' @ r)"

lemma intent_json_read:
  assumes "parse_id_hex iid = Ok b" "length subj = 64" "is_hex subj" "canonical_text res"
  shows "intent_request (intent_json iid res subj) = Ok (take 16 b, res)"
proof -
  have hex: "no_quote x" if "is_hex x" for x
    using that by (auto simp: is_hex_def no_quote_def QUOTE_def list_all_iff is_ascii_digit_def between_def)
  have iid: "is_hex iid" "length iid = 64" using assms(1) by (auto simp: parse_id_hex_def ID_HEX_LEN_def split: if_splits)
  obtain r where r: "res = ascii ''bol:'' @ r" using assms(4) by (auto simp: canonical_text_def)
  let ?fs = "[(ascii ''id'', iid), (ascii ''resource'', res), (ascii ''action'', ascii ''read''),
    (ascii ''rationale'', ascii ''harness''), (ascii ''subject'', subj)]"
  have ok: "list_all (\<lambda>(k, v). no_quote k \<and> no_quote v \<and> v \<noteq> key) ?fs \<and> no_quote key \<and> key \<noteq> [58] \<and> key \<noteq> [44]"
    if "key \<in> set (map fst ?fs)" for key
  proof -
    have "iid \<noteq> key" "subj \<noteq> key" "res \<noteq> key" using that iid assms(2) by (auto simp: r ascii_def)
    then show ?thesis using that hex [OF iid(1)] hex [OF assms(3)] assms(4)
      by (auto simp: canonical_text_def no_quote_def ascii_def QUOTE_def)
  qed
  have get: "flat_json_get (intent_json iid res subj) key = Some v" if "key \<in> set (map fst ?fs)" "map_of ?fs key = Some v" for key v
    unfolding intent_json_fields using flat_json_field [of key ?fs v] ok [OF that(1)] that(2) by blast
  have "length (intent_json iid res subj) \<le> BODY_MAX"
    using iid assms(2,4) by (simp add: intent_json_def quoted_def ascii_def canonical_text_def BODY_MAX_def)
  moreover have "flat_json_get (intent_json iid res subj) (ascii ''id'') = Some iid" by (rule get) simp_all
  moreover have "flat_json_get (intent_json iid res subj) (ascii ''resource'') = Some res" by (rule get) (simp_all add: ascii_def)
  moreover have "flat_json_get (intent_json iid res subj) (ascii ''action'') = Some (ascii ''read'')" by (rule get) (simp_all add: ascii_def)
  moreover have "flat_json_get (intent_json iid res subj) (ascii ''rationale'') = Some (ascii ''harness'')" by (rule get) (simp_all add: ascii_def)
  moreover have "flat_json_get (intent_json iid res subj) (ascii ''subject'') = Some subj" by (rule get) (simp_all add: ascii_def)
  ultimately show ?thesis
    using assms(1-3) by (simp add: intent_request_def SUBJ_HEX_LEN_def LEN_INTENT_ID_def) (simp add: ascii_def MAX_ACTION_def)
qed

text \<open>The client's replacement of the resource meets it nowhere else: no other place has a b before an o.\<close>

fun no_bo :: "bytes \<Rightarrow> bool" where
  "no_bo (b # c # bs) \<longleftrightarrow> \<not> (b = 98 \<and> c = 111) \<and> no_bo (c # bs)"
| "no_bo _ \<longleftrightarrow> True"

lemma no_bo_append: "no_bo xs \<Longrightarrow> no_bo (c # ys) \<Longrightarrow> c \<noteq> 111 \<Longrightarrow> no_bo (xs @ c # ys)"
  by (induction xs rule: no_bo.induct) auto

lemma no_bo_Cons: "c \<noteq> 98 \<Longrightarrow> no_bo (c # xs) = no_bo xs"
  by (cases xs) auto

lemma no_bo_without: "111 \<notin> set xs \<Longrightarrow> no_bo xs"
  by (induction xs rule: no_bo.induct) auto

lemma replace_skip:
  "no_bo (xs @ [c]) \<Longrightarrow> replace_all (98 # 111 # p) new (xs @ c # ys) = xs @ replace_all (98 # 111 # p) new (c # ys)"
proof (induction xs)
  case (Cons x xs)
  have "replace_all (98 # 111 # p) new (x # xs @ c # ys) = x # replace_all (98 # 111 # p) new (xs @ c # ys)"
    using Cons.prems by (subst replace_all.simps; cases xs) (auto simp: starts_with_def)
  moreover have "no_bo (xs @ [c])" using Cons.prems by (cases xs) auto
  ultimately show ?case using Cons.IH by simp
qed simp

lemma replace_none: "no_bo xs \<Longrightarrow> replace_all (98 # 111 # p) new xs = xs"
proof (induction xs)
  case (Cons x xs)
  then show ?case by (subst replace_all.simps; cases xs) (auto simp: starts_with_def)
qed (simp add: replace_all.simps)

lemma replaced_resource:
  assumes "is_hex iid" "is_hex subj" "canonical_text res"
  shows "replace_all res new (intent_json iid res subj) = intent_json iid new subj"
proof -
  have o: "111 \<notin> set x" if "is_hex x" for x
    using that by (auto simp: is_hex_def list_all_iff is_ascii_digit_def between_def)
  obtain p where p: "res = 98 # 111 # p" using assms(3) by (auto simp: canonical_text_def ascii_def)
  define pre where "pre = [123] @ quoted (ascii ''id'') @ [58] @ quoted iid @ [44] @ quoted (ascii ''resource'') @ [58, QUOTE]"
  define post where "post = [QUOTE, 44] @ quoted (ascii ''action'') @ [58] @ quoted (ascii ''read'')
     @ [44] @ quoted (ascii ''rationale'') @ [58] @ quoted (ascii ''harness'')
     @ [44] @ quoted (ascii ''subject'') @ [58] @ quoted subj @ [125]"
  have body: "intent_json iid r subj = pre @ r @ post" for r by (simp add: intent_json_def pre_def post_def quoted_def)
  have "no_bo (iid @ QUOTE # ys)" if "no_bo (QUOTE # ys)" for ys
    by (rule no_bo_append [OF no_bo_without [OF o [OF assms(1)]] that]) (simp add: QUOTE_def)
  then have "no_bo (pre @ [98])" by (simp add: pre_def quoted_def ascii_def QUOTE_def no_bo_Cons)
  then have "replace_all res new (intent_json iid res subj) = pre @ replace_all res new (res @ post)"
    using replace_skip [of pre 98 p new "111 # p @ post"] by (simp add: body p)
  also have "replace_all res new (res @ post) = new @ replace_all res new post"
    by (subst replace_all.simps) (simp add: starts_with_def p)
  also have "replace_all res new post = post"
  proof -
    have "no_bo (subj @ QUOTE # ys)" if "no_bo (QUOTE # ys)" for ys
      by (rule no_bo_append [OF no_bo_without [OF o [OF assms(2)]] that]) (simp add: QUOTE_def)
    then have "no_bo post" by (simp add: post_def quoted_def ascii_def QUOTE_def no_bo_Cons)
    then show ?thesis unfolding p by (rule replace_none)
  qed
  finally show ?thesis by (simp add: body)
qed

section \<open>Posting intents\<close>

text \<open>The node can take another k requests with the token.\<close>

definition http_ready :: "nat \<Rightarrow> bytes \<Rightarrow> daemon \<Rightarrow> bool" where
  "http_ready k tok d \<longleftrightarrow> quiet d \<and> dm_token d = Some tok \<and> token_ok tok \<and> dm_ctl_requests d < 2 ^ 64 - k
     \<and> tables_ok (dm_resolver d) (dm_intents d) (dm_senders d)"

lemma http_readyD:
  assumes "http_ready k tok d"
  shows "quiet d" "dm_token d = Some tok" "token_ok tok" "0 < k \<Longrightarrow> dm_ctl_requests d < 2 ^ 64 - 1"
    "resolver_inv (dm_resolver d)" "intent_inv (dm_intents d)"
    "list_all (\<lambda>e. length (e_resource_id e) = MAX_RESOURCE) (entries (dm_intents d))"
  using assms by (auto simp: http_ready_def tables_ok_def)

lemma post_answered:
  assumes "http_ready k tok d" "0 < k" "body \<noteq> []" "length body \<le> 3000" "list_all (\<lambda>b. b < 0x80) body"
    and "post_reply now body (d\<lparr>dm_ctl_requests := dm_ctl_requests d + 1\<rparr>) = (Ok (status, b), d1)" "status < 2 ^ 16" "from_utf8 b"
  shows "\<exists>c. request_peer (ask_at t now) (ascii ''POST'') (ascii ''/v1/intents'') (Some body) (Some tok) d =
    (Ok (status, b), d1\<lparr>dm_control := Some [c]\<rparr>) \<and> cn_state c = Closing"
proof -
  let ?p = "ascii ''/v1/intents''"
  let ?req = "request_text (method_name Post) ?p (Some body) (Some tok)"
  let ?ls = "request_lines (method_name Post) ?p (length body) (Some tok)"
  note ready = http_readyD [OF assms(1)]
  have path: "quiet_path ?p" "takeWhile (\<lambda>b. b \<noteq> 63) ?p = ?p"
    by (simp_all add: quiet_path_def ascii_def visible_def to_ascii_lowercase_def)
  have "length (to_decimal (length body)) \<le> 4"
    using assms(4) by (simp add: to_decimal.simps [of "length body"] to_decimal.simps [of "length body div 10"]
      to_decimal.simps [of "length body div 100"] to_decimal.simps [of "length body div 1000"] div_mult2_eq [symmetric])
  then have len: "length ?req \<le> READ_BUF"
    using ready(3) assms(4) request_length [of Post ?p "Some body" tok] by (simp add: READ_BUF_def token_ok_def ascii_def)
  have "2 \<le> length (crlf_lines ?ls)" by (rule length_crlf_lines) (simp add: request_lines_def)
  then have "subslice ?req (length (crlf_lines ?ls) - 2 + 4) (min (length (crlf_lines ?ls) - 2 + 4 + length body) (length ?req))
      = (Ok body :: (bytes, ctl_error) outcome)"
    unfolding request_text_lines by (simp add: subslice_def)
  then have "http_reply u now ?req (request_of (length (crlf_lines ?ls) - 2) (length body) Post ?p) ?p
      (d\<lparr>dm_ctl_requests := dm_ctl_requests d + 1\<rparr>) = (Ok (status, b), d1)" for u
    using assms(6) by (simp add: http_reply_def request_of_def Let_def from_utf8_lossy_valid)
  then show ?thesis
    using client_asks [OF ready(1) path(1) ready(3) _ ready(2) ready(4) [OF assms(2)] refl len _ assms(7,8), of now d1 t] assms(3)
    unfolding get_method by (simp add: path(2))
qed

text \<open>What the node keeps while it answers.\<close>

definition after_request :: "daemon \<Rightarrow> intent_table \<Rightarrow> event_ring \<Rightarrow> daemon \<Rightarrow> bool" where
  "after_request d t r d' \<longleftrightarrow> quiet d' \<and> dm_token d' = dm_token d \<and> dm_ctl_requests d' = dm_ctl_requests d + 1
     \<and> dm_resolver d' = dm_resolver d \<and> dm_intents d' = t \<and> dm_ring d' = r \<and> dm_senders d' = dm_senders d"

lemma after_request_ready:
  "http_ready (Suc k) tok d \<Longrightarrow> after_request d t r d' \<Longrightarrow> tables_ok (dm_resolver d) t (dm_senders d) \<Longrightarrow> http_ready k tok d'"
  by (auto simp: http_ready_def after_request_def)

text \<open>The first request with a new id for a free resource, and the same again.\<close>

lemma published: "er_next_seq r < 2 ^ 64 - 1 \<Longrightarrow> publish tag r = (Ok (), publish_step tag r)"
  by (simp add: publish_step_def publish_def count_up_def)

lemma post_new:
  assumes "http_ready k tok d" "intent_request body = Ok (iid, res)" "from_utf8 body" "resolve (dm_resolver d) res = Ok c"
    and "\<not> (\<exists>r. locks (dm_intents d) r = Some (iid, Pending))" "c \<notin> dom (locks (dm_intents d))" "card (dom (locks (dm_intents d))) < 256"
    and "mt_admitted_total (dm_metrics d) < 2 ^ 64 - 1" "er_next_seq (dm_ring d) < 2 ^ 64 - 1"
  shows "\<exists>t m. post_reply now body d = (Ok (202, line_of ''accepted''),
      d\<lparr>dm_intents := t, dm_metrics := m, dm_ring := publish_step EvIntentAdmitted (dm_ring d)\<rparr>)
    \<and> locks t = (locks (dm_intents d))(c \<mapsto> (iid, Pending)) \<and> tables_ok (dm_resolver d) t (dm_senders d)"
proof -
  note ready = http_readyD [OF assms(1)]
  obtain out t where ra: "resolve_and_admit (dm_resolver d) iid res now (dm_intents d) = (out, t)" by fastforce
  have "length c \<le> MAX_RESOURCE"
    using resolve_Ok [OF ready(5) assms(4)] canonical_form_length [of c] by (simp add: resolver_sizes MAX_RESOURCE_def)
  then have adm: "out = Ok ()" "locks t = (locks (dm_intents d))(c \<mapsto> (iid, Pending))"
    using resolve_and_admit_locks [OF ready(5,6), of iid res now] assms(4-7)
    by (auto simp: ra spec_admit_def MAX_PENDING_def split: if_splits)
  have "tables_ok (dm_resolver d) t (dm_senders d)"
    using resolve_and_admit_table [OF ready(5-7), of iid res now] assms(1) by (simp add: ra http_ready_def tables_ok_def)
  then show ?thesis
    using assms(8) adm
    by (intro exI [of _ t] exI [of _ "\<lparr>mt_admitted_total = mt_admitted_total (dm_metrics d) + 1\<rparr>"])
      (simp add: post_reply_def post_intent_def from_utf8_lossy_valid assms(2,3) ra Let_def count_up_def published [OF assms(9)])
qed

lemma post_again:
  assumes "http_ready k tok d" "intent_request body = Ok (iid, res)" "from_utf8 body" "resolve (dm_resolver d) res = Ok c"
    and "locks (dm_intents d) r = Some (iid, Pending)"
  shows "\<exists>t. post_reply now body d = (Ok (202, line_of ''idempotent''), d\<lparr>dm_intents := t\<rparr>)
    \<and> locks t = locks (dm_intents d) \<and> tables_ok (dm_resolver d) t (dm_senders d)"
proof -
  note ready = http_readyD [OF assms(1)]
  obtain out t where ra: "resolve_and_admit (dm_resolver d) iid res now (dm_intents d) = (out, t)" by fastforce
  have "length c \<le> MAX_RESOURCE"
    using resolve_Ok [OF ready(5) assms(4)] canonical_form_length [of c] by (simp add: resolver_sizes MAX_RESOURCE_def)
  then have adm: "out = Err (IntentRefused DuplicateIntentId)" "locks t = locks (dm_intents d)"
    using resolve_and_admit_locks [OF ready(5,6), of iid res now] assms(4,5)
    by (auto simp: ra spec_admit_def map_err_eq_Err split: if_splits)
  have "tables_ok (dm_resolver d) t (dm_senders d)"
    using resolve_and_admit_table [OF ready(5-7), of iid res now] assms(1) by (simp add: ra http_ready_def tables_ok_def)
  then show ?thesis
    using adm by (intro exI [of _ t]) (simp add: post_reply_def post_intent_def from_utf8_lossy_valid assms(2,3) ra Let_def)
qed

lemma post_unknown:
  assumes "http_ready k tok d" "intent_request body = Ok (iid, res)" "from_utf8 body" "resolve (dm_resolver d) res = Err e"
  shows "post_reply now body d = (Ok (422, line_of ''error''), d)"
proof -
  have "e \<in> {UnknownResource, AmbiguousResource, ForeignExecutor}"
    using assms(4) by (auto simp: resolve_eq [OF http_readyD(5) [OF assms(1)]] split: list.splits if_splits)
  moreover have "resolve_and_admit (dm_resolver d) iid res now (dm_intents d) = (Err e, dm_intents d)"
    using assms(4) by (simp add: resolve_and_admit_def)
  ultimately show ?thesis
    by (auto simp: post_reply_def post_intent_def from_utf8_lossy_valid assms(2,3))
qed

lemma post_malformed:
  "intent_request body = Err e \<Longrightarrow> from_utf8 body \<Longrightarrow> post_reply now body d = (Ok (400, line_of ''error''), d)"
  using intent_request_cases(1) [of body e] by (simp add: post_reply_def post_intent_def from_utf8_lossy_valid)

section \<open>The events\<close>

definition ring_ok :: "event_ring \<Rightarrow> bool" where
  "ring_ok r \<longleftrightarrow> list_all (\<lambda>e. 0 < fst e \<and> fst e < 2 ^ 64) (er_events r)"

lemma ring_since_0: "ring_ok r \<Longrightarrow> ring_since 0 r = er_events r"
proof -
  assume "ring_ok r"
  then have "position (\<lambda>e. fst e > 0) (er_events r) = (if er_events r = [] then None else Some 0)"
    by (cases "er_events r") (auto simp: ring_ok_def)
  then show ?thesis by (simp add: ring_since_def)
qed

lemma events_utf8: "from_utf8 (events_sse_body r n)"
proof (rule from_utf8_ascii)
  have "list_all (\<lambda>b. b < 0x80) (tag_name tag)" for tag by (cases tag) (simp_all add: ascii_def)
  then show "list_all (\<lambda>b. b < 0x80) (events_sse_body r n)"
    using decimal_plain(2) by (auto simp: events_sse_body_def list_all_concat_map list_all_iff case_prod_beta ascii_def)
qed

lemma ask_events:
  assumes "http_ready k tok d" "0 < k" "ring_ok (dm_ring d)"
  shows "\<exists>body d'. request_peer (ask_at t now) (ascii ''GET'') (ascii ''/v1/events?since=0'') None (Some tok) d = (Ok (200, body), d')
    \<and> parse_sse body = map (\<lambda>(seq, tag). (tag_name tag, seq)) (er_events (dm_ring d)) \<and> after_request d (dm_intents d) (dm_ring d) d'"
proof -
  let ?p = "ascii ''/v1/events?since=0''" and ?b = "events_sse_body (dm_ring d) 0"
  let ?req = "request_text (method_name Get) ?p None (Some tok)"
  let ?rq = "request_of (length (crlf_lines (request_lines (method_name Get) ?p 0 (Some tok))) - 2) 0 Get ?p"
  note ready = http_readyD [OF assms(1)]
  have path: "quiet_path ?p" "takeWhile (\<lambda>b. b \<noteq> 63) ?p = ascii ''/v1/events''"
    by (simp_all add: quiet_path_def ascii_def visible_def to_ascii_lowercase_def)
  have len: "length ?req \<le> READ_BUF"
    using ready(3) request_length [of Get ?p None tok] by (simp add: READ_BUF_def token_ok_def ascii_def to_decimal.simps)
  have q: "rq_query_start ?rq = Some 15" "rq_method ?rq = Get" by (simp_all add: request_of_def Let_def ascii_def)
  obtain rest where "?req = ascii ''GET /v1/events?s'' @ ascii ''ince=0'' @ 32 # rest"
    by (simp add: request_text_def ascii_def)
  then have "drop 16 ?req = ascii ''ince=0'' @ 32 # rest" "16 \<le> length ?req" by (simp_all add: ascii_def)
  then have "subslice ?req 16 (length ?req) = (Ok (ascii ''ince=0'' @ 32 # rest) :: (bytes, ctl_error) outcome)"
    by (simp only: subslice_def) (metis drop_take le_refl take_all)
  moreover have "takeWhile (\<lambda>b. b \<noteq> 32) (ascii ''ince=0'' @ 32 # rest) = ascii ''ince=0''" by (simp add: ascii_def)
  moreover have "parse_since (ascii ''ince=0'') = Err BadRequest" by (simp add: parse_since_def ascii_def is_ascii_digit_def)
  ultimately have since: "extract_since ?req (rq_query_start ?rq) = (Ok None :: (nat option, ctl_error) outcome)"
    unfolding extract_since_def q(1) by (simp add: Let_def)
  have reply: "http_reply u now ?req ?rq (ascii ''/v1/events'') (d\<lparr>dm_ctl_requests := dm_ctl_requests d + 1\<rparr>) =
      (Ok (200, ?b), d\<lparr>dm_ctl_requests := dm_ctl_requests d + 1\<rparr>)" for u
    using since q by (simp add: http_reply_def Let_def starts_with_def INTENTS_PREFIX_def) (simp add: ascii_def)
  obtain c where c: "request_peer (ask_at t now) (method_name Get) ?p None (Some tok) d =
      (Ok (200, ?b), d\<lparr>dm_ctl_requests := dm_ctl_requests d + 1, dm_control := Some [c]\<rparr>)" "cn_state c = Closing"
    using client_asks [OF ready(1) path(1) ready(3) _ ready(2) ready(4) [OF assms(2)] refl len, of now 200 ?b _ t] reply events_utf8
    by (auto simp: path(2))
  have "list_all (\<lambda>e. fst e < 2 ^ 64) (er_events (dm_ring d))" using assms(3) by (simp add: ring_ok_def list_all_iff)
  then have "parse_sse ?b = map (\<lambda>(seq, tag). (tag_name tag, seq)) (er_events (dm_ring d))"
    unfolding parse_sse_def events_sse_body_def ring_since_0 [OF assms(3)] by (rule sse_blocks)
  then show ?thesis
    using c stays_quiet [of c] unfolding get_method by (intro exI conjI) (assumption+, simp add: after_request_def)
qed

section \<open>Ladder D\<close>

lemma request_peer_node:
  "clk (dm_ctl_requests d) = (t, now) \<Longrightarrow>
     request_peer (ask_node clk) verb path body tok d = request_peer (ask_at t now) verb path body tok d"
  by (simp add: request_peer_def ask_node_def)

definition round_id :: "u64 \<Rightarrow> u32 \<Rightarrow> bytes" where
  "round_id seed round = to_be_bytes seed @ to_be_bytes (ucast round :: u64)"

lemma round_hex:
  "\<exists>b. parse_id_hex (round_id_hex seed round) = Ok b \<and> take 16 b = round_id seed round"
  "is_hex (round_id_hex seed round)" "is_hex (subject_hex seed round)" "length (subject_hex seed round) = 64"
proof -
  have app: "hex_bytes xs @ hex_bytes ys = hex_bytes (xs @ ys)" for xs ys by (simp add: hex_bytes_def)
  have is_hex: "is_hex (hex_bytes b)" if "length b = 32" for b
    using parse_hex_bytes [OF that] by (simp add: parse_id_hex_def split: if_splits)
  let ?id = "to_be_bytes seed @ to_be_bytes (ucast round :: u64) @ to_be_bytes (seed XOR (ucast round * 0x9E3779B97F4A7C15))
    @ to_be_bytes (ucast round + 0xD1B54A32D192ED03 :: u64)"
  have id: "round_id_hex seed round = hex_bytes ?id" by (simp add: round_id_hex_def hex16_def app)
  show "\<exists>b. parse_id_hex (round_id_hex seed round) = Ok b \<and> take 16 b = round_id seed round"
    unfolding id by (rule exI [of _ ?id]) (simp add: parse_hex_bytes round_id_def)
  show "is_hex (round_id_hex seed round)" unfolding id by (rule is_hex) simp
  let ?sub = "to_be_bytes seed @ to_be_bytes (ucast round :: u64) @ to_be_bytes seed @ to_be_bytes (ucast round :: u64)"
  have sub: "subject_hex seed round = hex_bytes ?sub" by (simp add: subject_hex_def hex16_def app)
  show "is_hex (subject_hex seed round)" unfolding sub by (rule is_hex) simp
  show "length (subject_hex seed round) = 64" unfolding sub by (simp add: length_hex_bytes)
qed

lemma intent_json_plain:
  assumes "is_hex iid" "length iid = 64" "is_hex subj" "length subj = 64" "canonical_text res"
  shows "list_all (\<lambda>b. b < 0x80) (intent_json iid res subj)" "length (intent_json iid res subj) \<le> 3000" "intent_json iid res subj \<noteq> []"
proof -
  have hex: "list_all (\<lambda>b. b < 0x80) x" if "is_hex x" for x
    using that by (fastforce simp: is_hex_def list_all_iff is_ascii_digit_def between_def word_le_nat_alt word_less_nat_alt)
  have "list_all (\<lambda>b. b < 0x80) res" using assms(5) by (auto simp: canonical_text_def list_all_iff visible_def)
  then show "list_all (\<lambda>b. b < 0x80) (intent_json iid res subj)"
    using hex [OF assms(1)] hex [OF assms(3)] by (simp add: intent_json_def quoted_def ascii_def QUOTE_def)
  show "length (intent_json iid res subj) \<le> 3000" "intent_json iid res subj \<noteq> []"
    using assms(2,4,5) by (simp_all add: intent_json_def quoted_def ascii_def canonical_text_def)
qed

lemma unknown_canonical: "canonical_text UNKNOWN_CANONICAL"
  by (auto simp: canonical_text_def UNKNOWN_CANONICAL_def ascii_def visible_def no_quote_def QUOTE_def)

definition malformed_body :: bytes where
  "malformed_body = [123] @ quoted (ascii ''id'') @ [58] @ quoted (ascii ''not-hex'') @ [125]"

lemma malformed_refused: "intent_request malformed_body = Err BadRequest" "list_all (\<lambda>b. b < 0x80) malformed_body"
  "length malformed_body \<le> 3000" "malformed_body \<noteq> []"
  by code_simp+

lemma line_utf8: "from_utf8 (line_of ''accepted'')" "from_utf8 (line_of ''idempotent'')" "from_utf8 (line_of ''error'')"
  by code_simp+

text \<open>One post, at the clocks of its request.\<close>

lemma node_post:
  assumes "http_ready (Suc k) tok d" "body \<noteq> []" "length body \<le> 3000" "list_all (\<lambda>b. b < 0x80) body"
    and reply: "\<And>now. \<exists>t r m. post_reply now body (d\<lparr>dm_ctl_requests := dm_ctl_requests d + 1\<rparr>)
        = (Ok (status, b), d\<lparr>dm_ctl_requests := dm_ctl_requests d + 1, dm_intents := t, dm_metrics := m, dm_ring := r\<rparr>) \<and> P t m r"
    and "status < 2 ^ 16" "from_utf8 b"
    and tables: "\<And>t m r. P t m r \<Longrightarrow> tables_ok (dm_resolver d) t (dm_senders d)"
  shows "\<exists>d'. request_peer (ask_node clk) (ascii ''POST'') (ascii ''/v1/intents'') (Some body) (Some tok) d = (Ok (status, b), d')
    \<and> http_ready k tok d' \<and> dm_resolver d' = dm_resolver d \<and> P (dm_intents d') (dm_metrics d') (dm_ring d')"
proof -
  obtain t now where clk: "clk (dm_ctl_requests d) = (t, now)" by fastforce
  obtain tb r m where p: "post_reply now body (d\<lparr>dm_ctl_requests := dm_ctl_requests d + 1\<rparr>)
      = (Ok (status, b), d\<lparr>dm_ctl_requests := dm_ctl_requests d + 1, dm_intents := tb, dm_metrics := m, dm_ring := r\<rparr>)" "P tb m r"
    using reply by blast
  from post_answered [OF assms(1) _ assms(2-4) p(1) assms(6,7), of t] obtain c where
    c: "request_peer (ask_at t now) (ascii ''POST'') (ascii ''/v1/intents'') (Some body) (Some tok) d =
      (Ok (status, b), d\<lparr>dm_ctl_requests := dm_ctl_requests d + 1, dm_intents := tb, dm_metrics := m, dm_ring := r, dm_control := Some [c]\<rparr>)"
      "cn_state c = Closing" by auto
  have "after_request d tb r (d\<lparr>dm_ctl_requests := dm_ctl_requests d + 1, dm_intents := tb, dm_metrics := m, dm_ring := r, dm_control := Some [c]\<rparr>)"
    using stays_quiet [OF c(2)] by (simp add: after_request_def)
  from after_request_ready [OF assms(1) this tables [OF p(2)]] show ?thesis
    using p(2) c(1) request_peer_node [of clk d, OF clk] by auto
qed

lemma counted_ready: "http_ready (Suc k) tok d \<Longrightarrow> http_ready k tok (d\<lparr>dm_ctl_requests := dm_ctl_requests d + 1\<rparr>)"
  by (auto simp: http_ready_def quiet_def)

abbreviation posted :: "(nat \<Rightarrow> nat \<times> u64) \<Rightarrow> bytes \<Rightarrow> bytes \<Rightarrow> daemon \<Rightarrow> (nat \<times> bytes, http_client_error) outcome \<times> daemon" where
  "posted clk body tok d \<equiv> request_peer (ask_node clk) (ascii ''POST'') (ascii ''/v1/intents'') (Some body) (Some tok) d"

lemma node_post_new:
  assumes "http_ready (Suc k) tok d" "body \<noteq> []" "length body \<le> 3000" "list_all (\<lambda>b. b < 0x80) body"
    and "intent_request body = Ok (iid, res)" "resolve (dm_resolver d) res = Ok c"
    and "\<forall>r. locks (dm_intents d) r \<noteq> Some (iid, Pending)" "c \<notin> dom (locks (dm_intents d))" "card (dom (locks (dm_intents d))) < 256"
    and "mt_admitted_total (dm_metrics d) < 2 ^ 64 - 1" "er_next_seq (dm_ring d) < 2 ^ 64 - 1"
  shows "\<exists>d'. posted clk body tok d = (Ok (202, line_of ''accepted''), d') \<and> http_ready k tok d' \<and> dm_resolver d' = dm_resolver d
    \<and> locks (dm_intents d') = (locks (dm_intents d))(c \<mapsto> (iid, Pending)) \<and> dm_ring d' = publish_step EvIntentAdmitted (dm_ring d)"
proof -
  let ?P = "\<lambda>t m r. locks t = (locks (dm_intents d))(c \<mapsto> (iid, Pending)) \<and> r = publish_step EvIntentAdmitted (dm_ring d)
    \<and> tables_ok (dm_resolver d) t (dm_senders d)"
  have "\<exists>t r m. post_reply now body (d\<lparr>dm_ctl_requests := dm_ctl_requests d + 1\<rparr>) = (Ok (202, line_of ''accepted''),
      d\<lparr>dm_ctl_requests := dm_ctl_requests d + 1, dm_intents := t, dm_metrics := m, dm_ring := r\<rparr>) \<and> ?P t m r" for now
    using post_new [OF counted_ready [OF assms(1)] assms(5) from_utf8_ascii [OF assms(4)], of c now] assms(6-11) by auto
  from node_post [OF assms(1-4) this, of clk] line_utf8(1) show ?thesis by auto
qed

lemma node_post_again:
  assumes "http_ready (Suc k) tok d" "body \<noteq> []" "length body \<le> 3000" "list_all (\<lambda>b. b < 0x80) body"
    and "intent_request body = Ok (iid, res)" "resolve (dm_resolver d) res = Ok c" "locks (dm_intents d) r = Some (iid, Pending)"
  shows "\<exists>d'. posted clk body tok d = (Ok (202, line_of ''idempotent''), d') \<and> http_ready k tok d' \<and> dm_resolver d' = dm_resolver d
    \<and> locks (dm_intents d') = locks (dm_intents d) \<and> dm_ring d' = dm_ring d"
proof -
  let ?P = "\<lambda>t m r. locks t = locks (dm_intents d) \<and> r = dm_ring d \<and> tables_ok (dm_resolver d) t (dm_senders d)"
  have "\<exists>t r m. post_reply now body (d\<lparr>dm_ctl_requests := dm_ctl_requests d + 1\<rparr>) = (Ok (202, line_of ''idempotent''),
      d\<lparr>dm_ctl_requests := dm_ctl_requests d + 1, dm_intents := t, dm_metrics := m, dm_ring := r\<rparr>) \<and> ?P t m r" for now
  proof -
    obtain t where "post_reply now body (d\<lparr>dm_ctl_requests := dm_ctl_requests d + 1\<rparr>) = (Ok (202, line_of ''idempotent''),
        d\<lparr>dm_ctl_requests := dm_ctl_requests d + 1, dm_intents := t\<rparr>)" "?P t m (dm_ring d)"
      using post_again [OF counted_ready [OF assms(1)] assms(5) from_utf8_ascii [OF assms(4)], of c r now] assms(6,7) by auto
    then show ?thesis by (intro exI [of _ t] exI [of _ "dm_ring d"] exI [of _ "dm_metrics d"]) simp
  qed
  from node_post [OF assms(1-4) this, of clk] line_utf8(2) show ?thesis by auto
qed

lemma node_post_refused:
  assumes "http_ready (Suc k) tok d" "body \<noteq> []" "length body \<le> 3000" "list_all (\<lambda>b. b < 0x80) body" "st < 2 ^ 16"
    and reply: "\<And>now. post_reply now body (d\<lparr>dm_ctl_requests := dm_ctl_requests d + 1\<rparr>)
      = (Ok (st, line_of ''error''), d\<lparr>dm_ctl_requests := dm_ctl_requests d + 1\<rparr>)"
  shows "\<exists>d'. posted clk body tok d = (Ok (st, line_of ''error''), d') \<and> http_ready k tok d' \<and> dm_resolver d' = dm_resolver d
    \<and> dm_intents d' = dm_intents d \<and> dm_ring d' = dm_ring d"
proof -
  let ?P = "\<lambda>t m r. t = dm_intents d \<and> r = dm_ring d"
  have "\<exists>t r m. post_reply now body (d\<lparr>dm_ctl_requests := dm_ctl_requests d + 1\<rparr>) = (Ok (st, line_of ''error''),
      d\<lparr>dm_ctl_requests := dm_ctl_requests d + 1, dm_intents := t, dm_metrics := m, dm_ring := r\<rparr>) \<and> ?P t m r" for now
    unfolding reply by (intro exI [of _ "dm_intents d"] exI [of _ "dm_ring d"] exI [of _ "dm_metrics d"]) simp
  from node_post [OF assms(1-4) this assms(5) line_utf8(3), of clk] assms(1) show ?thesis by (auto simp: http_ready_def)
qed

text \<open>What a first round of the ladder needs of the node.\<close>

definition round_fits :: "u64 \<Rightarrow> u32 \<Rightarrow> bytes \<Rightarrow> bytes \<Rightarrow> daemon \<Rightarrow> bool" where
  "round_fits seed round canonical c d \<longleftrightarrow> canonical_text canonical
     \<and> resolve (dm_resolver d) canonical = Ok c \<and> (\<exists>e. resolve (dm_resolver d) UNKNOWN_CANONICAL = Err e)
     \<and> (\<forall>r. locks (dm_intents d) r \<noteq> Some (round_id seed round, Pending))
     \<and> c \<notin> dom (locks (dm_intents d)) \<and> card (dom (locks (dm_intents d))) < 256
     \<and> mt_admitted_total (dm_metrics d) < 2 ^ 64 - 1 \<and> er_next_seq (dm_ring d) < 2 ^ 64 - 1
     \<and> 0 < er_next_seq (dm_ring d) \<and> ring_ok (dm_ring d)"

lemma posts_pass:
  assumes ready: "http_ready (Suc (Suc (Suc (Suc k)))) tok d" and fits: "round_fits seed round canonical c d"
  shows "\<exists>d'. post_all (ask_node clk) (Some tok) (post_cases seed round canonical) l d =
      (Ok (fold log_step [''d2.post-valid'', ''d3.post-idempotent'', ''d4.post-unknown'', ''d5.post-malformed''] l, False), d')
    \<and> http_ready k tok d' \<and> dm_ring d' = publish_step EvIntentAdmitted (dm_ring d)
    \<and> locks (dm_intents d') = (locks (dm_intents d))(c \<mapsto> (round_id seed round, Pending))"
proof -
  let ?valid = "intent_json (round_id_hex seed round) canonical (subject_hex seed round)"
  let ?unknown = "intent_json (round_id_hex seed round) UNKNOWN_CANONICAL (subject_hex seed round)"
  obtain b where id: "parse_id_hex (round_id_hex seed round) = Ok b" "take 16 b = round_id seed round"
    using round_hex(1) by blast
  have len: "length (round_id_hex seed round) = 64" using id(1) by (simp add: parse_id_hex_def ID_HEX_LEN_def split: if_splits)
  have canon: "canonical_text canonical" using fits by (simp add: round_fits_def)
  have cases: "post_cases seed round canonical =
    [\<lparr>pc_step = ''d2.post-valid'', pc_body = ?valid, pc_expect = 202\<rparr>,
     \<lparr>pc_step = ''d3.post-idempotent'', pc_body = ?valid, pc_expect = 202\<rparr>,
     \<lparr>pc_step = ''d4.post-unknown'', pc_body = ?unknown, pc_expect = 422\<rparr>,
     \<lparr>pc_step = ''d5.post-malformed'', pc_body = malformed_body, pc_expect = 400\<rparr>]"
    using replaced_resource [OF round_hex(2,3) canon, of UNKNOWN_CANONICAL]
    by (simp add: post_cases_def Let_def malformed_body_def)
  note valid = intent_json_plain(3,2,1) [OF round_hex(2) len round_hex(3,4) canon, of seed round]
  note unknown = intent_json_plain(3,2,1) [OF round_hex(2) len round_hex(3,4) unknown_canonical, of seed round]
  note read = intent_json_read [OF id(1) round_hex(4,3) canon, unfolded id(2)]
    intent_json_read [OF id(1) round_hex(4,3) unknown_canonical, unfolded id(2)]
  obtain e where e: "resolve (dm_resolver d) UNKNOWN_CANONICAL = Err e" using fits by (auto simp: round_fits_def)
  obtain d1 where d1: "posted clk ?valid tok d = (Ok (202, line_of ''accepted''), d1)" "http_ready (Suc (Suc (Suc k))) tok d1"
      "dm_resolver d1 = dm_resolver d" "locks (dm_intents d1) = (locks (dm_intents d))(c \<mapsto> (round_id seed round, Pending))"
      "dm_ring d1 = publish_step EvIntentAdmitted (dm_ring d)"
    using node_post_new [OF ready valid read(1), of c clk] fits by (auto simp: round_fits_def)
  obtain d2 where d2: "posted clk ?valid tok d1 = (Ok (202, line_of ''idempotent''), d2)" "http_ready (Suc (Suc k)) tok d2"
      "dm_resolver d2 = dm_resolver d1" "locks (dm_intents d2) = locks (dm_intents d1)" "dm_ring d2 = dm_ring d1"
    using node_post_again [OF d1(2) valid read(1), of c c clk] fits d1(3,4) by (auto simp: round_fits_def)
  obtain d3 where d3: "posted clk ?unknown tok d2 = (Ok (422, line_of ''error''), d3)" "http_ready (Suc k) tok d3"
      "dm_intents d3 = dm_intents d2" "dm_ring d3 = dm_ring d2"
    using node_post_refused [OF d2(2) unknown, of 422 clk]
      post_unknown [OF counted_ready [OF d2(2)] read(2) from_utf8_ascii [OF unknown(3)], of e] e d1(3) d2(3) by auto
  obtain d4 where d4: "posted clk malformed_body tok d3 = (Ok (400, line_of ''error''), d4)" "http_ready k tok d4"
      "dm_intents d4 = dm_intents d3" "dm_ring d4 = dm_ring d3"
    using node_post_refused [OF d3(2) malformed_refused(4,3,2), of 400 clk]
      post_malformed [OF malformed_refused(1) from_utf8_ascii [OF malformed_refused(2)]] by auto
  show ?thesis
    using d4 d3(3,4) d2(4,5) d1(4,5) by (intro exI [of _ d4]) (simp add: cases d1(1) d2(1) d3(1))
qed

lemma publish_step_ring:
  assumes "ring_ok r" "0 < er_next_seq r" "er_next_seq r < 2 ^ 64 - 1"
  shows "ring_ok (publish_step tag r)" "(er_next_seq r, tag) \<in> set (er_events (publish_step tag r))"
  using assms by (auto simp: publish_step_def publish_def count_up_def ring_ok_def list_all_iff dest: in_set_dropD)

lemma count_tag_found: "(n, tag) \<in> set es \<Longrightarrow> 1 \<le> count_tag s (map (\<lambda>(seq, tag). (tag_name tag, seq)) es)"
  if "tag_name tag = ascii s" for s
  using that by (induction es) (auto simp: count_tag_def)

lemma ladder_d_run:
  assumes "http_ready 5 tok d" "round_fits seed round canonical c d"
  shows "\<exists>l d'. ladder_d True (ask_node clk) seed round canonical (Some tok) d = (Ok l, d') \<and> rl_ok l \<and> rl_failed_at l = None
    \<and> rl_steps l = [''d1.connect'', ''d2.post-valid'', ''d3.post-idempotent'', ''d4.post-unknown'', ''d5.post-malformed'',
        ''d6.events'', ''d.summary'']
    \<and> locks (dm_intents d') = (locks (dm_intents d))(c \<mapsto> (round_id seed round, Pending))"
proof -
  have five: "http_ready (Suc (Suc (Suc (Suc 1)))) tok d" using assms(1) by (simp add: eval_nat_numeral)
  let ?l = "log_step ''d1.connect'' \<lparr>rl_steps = [],
    rl_frozen = ascii ''n/a (control API bodies are client-built by design; frozen discipline is wire-path only)'',
    rl_ok = False, rl_failed_at = None\<rparr>"
  obtain d4 where d4: "post_all (ask_node clk) (Some tok) (post_cases seed round canonical) ?l d =
      (Ok (fold log_step [''d2.post-valid'', ''d3.post-idempotent'', ''d4.post-unknown'', ''d5.post-malformed''] ?l, False), d4)"
    "http_ready 1 tok d4" "dm_ring d4 = publish_step EvIntentAdmitted (dm_ring d)"
    "locks (dm_intents d4) = (locks (dm_intents d))(c \<mapsto> (round_id seed round, Pending))"
    using posts_pass [OF five assms(2), of clk ?l] by blast
  have ring: "ring_ok (dm_ring d4)" "(er_next_seq (dm_ring d), EvIntentAdmitted) \<in> set (er_events (dm_ring d4))"
    using publish_step_ring assms(2) by (simp_all add: d4(3) round_fits_def)
  obtain t now where clk: "clk (dm_ctl_requests d4) = (t, now)" by fastforce
  obtain body d5 where ev: "request_peer (ask_at t now) (ascii ''GET'') (ascii ''/v1/events?since=0'') None (Some tok) d4 = (Ok (200, body), d5)"
    "parse_sse body = map (\<lambda>(seq, tag). (tag_name tag, seq)) (er_events (dm_ring d4))" "dm_intents d5 = dm_intents d4"
    using ask_events [OF d4(2) _ ring(1), of t now] by (auto simp: after_request_def)
  have "1 \<le> count_tag ''intent_admitted'' (parse_sse body)"
    unfolding ev(2) by (rule count_tag_found [OF _ ring(2)]) simp
  then show ?thesis
    using d4(1,4) ev(1,3) request_peer_node [of clk d4, OF clk]
    by (simp add: ladder_d_def Let_def log_step_def not_less)
qed

section \<open>Properties\<close>

text \<open>
  C5: Ladder D of the integration client passes against the node it is written for. On every
  node that can take five more requests, whose token the client knows, that resolves the
  client's resource and not the unknown one, has the resource free and room for the intent, the
  four posts are answered 202, 202, 422 and 400, the events are read and hold an admission, and
  the node ends with the resource locked by the round's intent and nothing else changed in its
  locks.
\<close>

theorem ladder_d_passes:
  assumes "http_ready 5 tok d" "round_fits seed round canonical c d"
  shows "\<exists>l d'. ladder_d True (ask_node clk) seed round canonical (Some tok) d = (Ok l, d') \<and> rl_ok l \<and> rl_failed_at l = None
    \<and> rl_steps l = [''d1.connect'', ''d2.post-valid'', ''d3.post-idempotent'', ''d4.post-unknown'', ''d5.post-malformed'',
        ''d6.events'', ''d.summary'']
    \<and> locks (dm_intents d') = (locks (dm_intents d))(c \<mapsto> (round_id seed round, Pending))"
  by (rule ladder_d_run [OF assms])

text \<open>A node with one resource, a token and a control plane.\<close>

definition demo_token :: bytes where "demo_token = replicate 64 97"

abbreviation open_node :: daemon where
  "open_node \<equiv> demo_node\<lparr>dm_control := Some [], dm_token := Some demo_token\<rparr>"

lemma demo_token_ok: "token_ok demo_token"
  by (simp add: token_ok_def demo_token_def list_all_iff visible_def)

lemma demo_fields:
  "dm_ctl_requests demo_node = 0" "dm_metrics demo_node = \<lparr>mt_admitted_total = 0\<rparr>" "dm_ring demo_node = ring_new"
  "dm_wire demo_node = wire_counters_new" "dm_senders demo_node = sender_table_new" "dm_hs demo_node = hs_table_new"
  by (simp_all add: add_resource_def daemon_new_def split: prod.split)

lemma demo_http_ready: "k < 2 ^ 64 \<Longrightarrow> http_ready k demo_token open_node"
proof -
  have "node_inv toy_crypto demo_node" by (rule node.inv_run)
  then have "tables_ok (dm_resolver demo_node) (dm_intents demo_node) (dm_senders demo_node)" by (simp add: node_inv_def)
  then show "k < 2 ^ 64 \<Longrightarrow> http_ready k demo_token open_node"
    by (simp add: http_ready_def quiet_def MAX_CLIENTS_def demo_token_ok demo_fields del: fold.simps)
qed

lemma demo_round_fits: "round_fits 7 3 demo_lane demo_lane open_node"
proof -
  have "canonical_text demo_lane" unfolding demo_lane_eq by (auto simp: canonical_text_def ascii_def visible_def no_quote_def QUOTE_def)
  moreover have "resolve (dm_resolver demo_node) UNKNOWN_CANONICAL = Err UnknownResource"
    unfolding demo_resolver by (simp add: resolve_def entry_hit_def alias_hits_def demo_lane_eq UNKNOWN_CANONICAL_def ascii_def)
  ultimately show ?thesis
    using demo_resolves demo_unused(2)
    by (auto simp: round_fits_def demo_fields locks_def table_new_def ring_new_def ring_ok_def simp del: fold.simps)
qed

theorem ladder_d_passes_witness:
  "\<exists>l d'. ladder_d True (ask_node (\<lambda>n. (n, 9))) 7 3 demo_lane (Some demo_token) open_node = (Ok l, d') \<and> rl_ok l
    \<and> locks (dm_intents d') demo_lane = Some (round_id 7 3, Pending)"
  using ladder_d_passes [OF demo_http_ready demo_round_fits, of "\<lambda>n. (n, 9)"] by auto

text \<open>
  C31: The counters that the client reads through the control plane are the node's: the
  admissions, the insertions, the refusals of a full store and every class of rejection, on every
  node that knows the client's token and whose counters are within 64 bits.
\<close>

theorem client_reads_counters:
  assumes "http_ready 1 tok d" "counters_ok d"
  shows "read_metrics (\<lambda>req. fst (ask_node clk req d)) (Some tok) =
    Ok \<lparr>ms_admissions = wc_admissions_total (dm_wire d), ms_inserts = el_inserts_total (dm_mem d),
        ms_storefull = el_storefull_total (dm_mem d), ms_rejects = zip reject_names (wc_rejects (dm_wire d))\<rparr>"
proof -
  obtain t now where clk: "clk (dm_ctl_requests d) = (t, now)" by fastforce
  note ready = http_readyD [OF assms(1)]
  show ?thesis using client_metrics [OF ready(1-3) assms(2), of t now] by (simp add: ask_node_def clk)
qed

theorem client_reads_counters_witness:
  "read_metrics (\<lambda>req. fst (ask_node (\<lambda>n. (n, 9)) req open_node)) (Some demo_token) =
    Ok \<lparr>ms_admissions = 0, ms_inserts = 0, ms_storefull = 0, ms_rejects = zip reject_names (replicate REJECT_COUNT 0)\<rparr>"
proof -
  have "handshake_slots_used open_node = 0" by (simp add: handshake_slots_used_def demo_fields hs_table_new_def del: fold.simps)
  then have "counters_ok open_node"
    using demo_unused(1)
    by (simp add: counters_ok_def demo_fields wire_counters_new_def evidence_ledger_new_def list_all_iff del: fold.simps)
  from client_reads_counters [OF demo_http_ready this, of "\<lambda>n. (n, 9)"] demo_unused(1) show ?thesis
    by (simp add: demo_fields wire_counters_new_def evidence_ledger_new_def del: fold.simps)
qed

text \<open>
  C32: The state that the client reads of an intent is the one in the node's lock table: a
  request for an id answers 404 when no resource is locked by an intent with the id's first 16
  bytes, and the name of the state when all that are locked by it agree on one.
\<close>

theorem client_reads_intent_state:
  assumes "http_ready 1 tok d" "length idb = 32"
  shows "((\<forall>r s. locks (dm_intents d) r \<noteq> Some (take 16 idb, s)) \<longrightarrow>
        http_request_to (\<lambda>req. fst (ask_node clk req d)) (ascii ''GET'') (INTENTS_PREFIX @ hex_bytes idb) None (Some tok)
          = Ok (404, line_of ''error''))
    \<and> ((\<forall>s'. (\<exists>r. locks (dm_intents d) r = Some (take 16 idb, s')) \<longleftrightarrow> s' = s) \<longrightarrow>
        http_request_to (\<lambda>req. fst (ask_node clk req d)) (ascii ''GET'') (INTENTS_PREFIX @ hex_bytes idb) None (Some tok)
          = Ok (200, state_name s @ [10]))"
proof -
  obtain t now where clk: "clk (dm_ctl_requests d) = (t, now)" by fastforce
  note ready = http_readyD [OF assms(1)]
  let ?P = "\<lambda>e. e_intent_id e = take 16 idb"
  have find: "find ?P es = None \<longleftrightarrow> (\<forall>e\<in>set es. \<not> ?P e)" "find ?P es = Some e \<Longrightarrow> e \<in> set es \<and> ?P e" for es e
    by (auto simp: find_None_iff find_Some_iff)
  have locked: "(\<exists>r. locks (dm_intents d) r = Some (take 16 idb, s)) \<longleftrightarrow> (\<exists>e\<in>set (entries (dm_intents d)). ?P e \<and> e_state e = s)" for s
    using locks_Some [OF ready(6)] by blast
  have "http_request_to (\<lambda>req. fst (ask_node clk req d)) (ascii ''GET'') (INTENTS_PREFIX @ hex_bytes idb) None (Some tok)
      = Ok (state_reply_of (take 16 idb) (dm_intents d))"
    using client_state [OF ready(1-3) _ assms(2), of t now] ready(4) by (simp add: ask_node_def clk)
  moreover have "state_reply_of (take 16 idb) (dm_intents d) = (404, line_of ''error'')"
    if "\<forall>r s. locks (dm_intents d) r \<noteq> Some (take 16 idb, s)"
  proof -
    have "\<forall>e\<in>set (entries (dm_intents d)). \<not> ?P e" using that locked by blast
    then have "find ?P (entries (dm_intents d)) = None" unfolding find(1) .
    then show ?thesis by (simp add: state_reply_of_def)
  qed
  moreover have "state_reply_of (take 16 idb) (dm_intents d) = (200, state_name s @ [10])"
    if "\<forall>s'. (\<exists>r. locks (dm_intents d) r = Some (take 16 idb, s')) \<longleftrightarrow> s' = s"
  proof -
    have all: "\<exists>e\<in>set (entries (dm_intents d)). ?P e" "\<And>e. e \<in> set (entries (dm_intents d)) \<Longrightarrow> ?P e \<Longrightarrow> e_state e = s"
      using that unfolding locked by blast+
    then obtain e where e: "find ?P (entries (dm_intents d)) = Some e" using find(1) by (metis option.exhaust)
    have "e_state e = s" using find(2) [OF e] all(2) by blast
    with e show ?thesis by (simp add: state_reply_of_def)
  qed
  ultimately show ?thesis by simp
qed

definition held_entry :: intent_entry where
  "held_entry = \<lparr>e_intent_id = replicate 16 1, e_resource_id = replicate 256 0, e_resource_len = 5, e_state = Pending, e_admitted_ms = 9\<rparr>"

abbreviation held_node :: daemon where "held_node \<equiv> open_node\<lparr>dm_intents := \<lparr>entries = [held_entry]\<rparr>\<rparr>"

lemma held_node_ready: "http_ready 1 demo_token held_node"
  using demo_http_ready [of 1]
  by (simp add: http_ready_def quiet_def tables_ok_def intent_inv_def MAX_PENDING_def is_live_def held_entry_def MAX_RESOURCE_def
      del: fold.simps)

theorem client_reads_intent_state_witness:
  "http_request_to (\<lambda>req. fst (ask_node (\<lambda>n. (n, 9)) req held_node)) (ascii ''GET'')
      (INTENTS_PREFIX @ hex_bytes (replicate 32 1)) None (Some demo_token) = Ok (200, ascii ''pending'' @ [10])
   \<and> http_request_to (\<lambda>req. fst (ask_node (\<lambda>n. (n, 9)) req held_node)) (ascii ''GET'')
      (INTENTS_PREFIX @ hex_bytes (replicate 32 2)) None (Some demo_token) = Ok (404, line_of ''error'')"
proof -
  have l: "locks (dm_intents held_node) r = (if r = replicate 5 0 then Some (replicate 16 1, Pending) else None)" for r
    by (auto simp: locks_def held_entry_def entry_resource_def)
  have "replicate 16 (1 :: u8) \<noteq> replicate 16 2" by (simp add: numeral_eq_Suc)
  then have "\<forall>s'. (\<exists>r. locks (dm_intents held_node) r = Some (take 16 (replicate 32 1), s')) \<longleftrightarrow> s' = Pending"
    "\<forall>r s. locks (dm_intents held_node) r \<noteq> Some (take 16 (replicate 32 2), s)"
    unfolding l by auto
  note held = this
  note t = client_reads_intent_state [OF held_node_ready, of "replicate 32 _" "\<lambda>n. (n, 9)" Pending]
  show ?thesis
    using mp [OF conjunct2 [OF t [of 1]] held(1)] mp [OF conjunct1 [OF t [of 2]] held(2)] by (simp del: fold.simps)
qed

end
