(* ===== verification/ClientMain.thy ===== *)
theory ClientMain
  imports Asking
begin

text \<open>
  The command line of the integration client and its exit codes (src/tools/integration-client/src/main.rs).
  How an address or hexadecimal text is read, the sockets and the round itself are arguments; what
  is printed is not modelled. The lemmas show what an accepted command line holds.
\<close>

section \<open>Arguments\<close>

record 'a args =
  ar_daemon :: 'a
  ar_control :: 'a
  ar_seed :: nat
  ar_round :: nat
  ar_zig :: bool
  ar_kex_pub :: bytes
  ar_sig_pub :: bytes
  ar_timeout_ms :: nat
  ar_canonical :: bytes
  ar_control_token :: "bytes option"
  ar_ladder :: u8
  ar_envelopes :: nat
  ar_rotation :: nat
  ar_no_pacing :: bool

datatype arg_error =
    MissingValue bytes | InvalidHex bytes | HexLength bytes | InvalidAddress bytes | ExpectedNumber bytes
  | LadderEmpty | UnknownLadder bytes | UnknownFlag bytes | RequiredFlag bytes

text \<open>Why the command line does not lead to a round: the help, the key of the seed's CA, or an error.\<close>

datatype arg_stop = ShowHelp | PrintCa nat | BadArgs arg_error

text \<open>The four required options that were seen.\<close>

record seen_flags =
  sn_daemon :: bool
  sn_control :: bool
  sn_kex :: bool
  sn_sig :: bool

text \<open>How the texts of addresses and of hexadecimal bytes are read.\<close>

record 'a readers =
  rd_addr :: "bytes \<Rightarrow> 'a option"
  rd_hex :: "bytes \<Rightarrow> bytes option"

definition parse_hex32 :: "'a readers \<Rightarrow> bytes \<Rightarrow> bytes \<Rightarrow> (bytes, arg_stop) outcome" where
  "parse_hex32 R s what =
     (case rd_hex R s of
        None \<Rightarrow> Err (BadArgs (InvalidHex what))
      | Some b \<Rightarrow> if length b = 32 then Ok b else Err (BadArgs (HexLength what)))"

definition parse_addr :: "'a readers \<Rightarrow> bytes \<Rightarrow> bytes \<Rightarrow> ('a, arg_stop) outcome" where
  "parse_addr R s what = ok_or (BadArgs (InvalidAddress what)) (rd_addr R s)"

text \<open>Unsigned numbers of 64 bits (also the target's usize) and of 32.\<close>

definition parse_number :: "nat \<Rightarrow> bytes \<Rightarrow> bytes \<Rightarrow> (nat, arg_stop) outcome" where
  "parse_number bits s what =
     (case parse_u64 s of
        Some n \<Rightarrow> if n < 2 ^ bits then Ok n else Err (BadArgs (ExpectedNumber what))
      | None \<Rightarrow> Err (BadArgs (ExpectedNumber what)))"

definition parse_ladder :: "bytes \<Rightarrow> (u8, arg_stop) outcome" where
  "parse_ladder v =
     (if v = [] then Err (BadArgs LadderEmpty)
      else let c = to_ascii_lowercase (hd v) in
        if c \<in> set (ascii ''abcdev'') then Ok c else Err (BadArgs (UnknownLadder v)))"

text \<open>The flags that take a value.\<close>

definition value_flags :: "bytes list" where
  "value_flags = map ascii [''--daemon'', ''--control'', ''--seed'', ''--round'', ''--daemon-kex-pub'', ''--daemon-sig-pub'',
     ''--ladder'', ''--canonical'', ''--timeout-ms'', ''--control-token'', ''--envelopes-per-session'', ''--v-rotation'']"

definition set_value :: "'a readers \<Rightarrow> bytes \<Rightarrow> bytes \<Rightarrow> 'a args \<times> seen_flags \<Rightarrow> ('a args \<times> seen_flags, arg_stop) outcome" where
  "set_value R flag v st =
     (case st of (a, sn) \<Rightarrow>
      if flag = ascii ''--daemon'' then and_then (parse_addr R v flag) (\<lambda>x. Ok (a\<lparr>ar_daemon := x\<rparr>, sn\<lparr>sn_daemon := True\<rparr>))
      else if flag = ascii ''--control'' then and_then (parse_addr R v flag) (\<lambda>x. Ok (a\<lparr>ar_control := x\<rparr>, sn\<lparr>sn_control := True\<rparr>))
      else if flag = ascii ''--seed'' then and_then (parse_number 64 v flag) (\<lambda>n. Ok (a\<lparr>ar_seed := n\<rparr>, sn))
      else if flag = ascii ''--round'' then and_then (parse_number 32 v flag) (\<lambda>n. Ok (a\<lparr>ar_round := n\<rparr>, sn))
      else if flag = ascii ''--daemon-kex-pub'' then and_then (parse_hex32 R v flag) (\<lambda>k. Ok (a\<lparr>ar_kex_pub := k\<rparr>, sn\<lparr>sn_kex := True\<rparr>))
      else if flag = ascii ''--daemon-sig-pub'' then and_then (parse_hex32 R v flag) (\<lambda>k. Ok (a\<lparr>ar_sig_pub := k\<rparr>, sn\<lparr>sn_sig := True\<rparr>))
      else if flag = ascii ''--ladder'' then and_then (parse_ladder v) (\<lambda>c. Ok (a\<lparr>ar_ladder := c\<rparr>, sn))
      else if flag = ascii ''--canonical'' then Ok (a\<lparr>ar_canonical := v\<rparr>, sn)
      else if flag = ascii ''--timeout-ms'' then and_then (parse_number 64 v flag) (\<lambda>n. Ok (a\<lparr>ar_timeout_ms := n\<rparr>, sn))
      else if flag = ascii ''--control-token'' then Ok (a\<lparr>ar_control_token := Some v\<rparr>, sn)
      else if flag = ascii ''--envelopes-per-session'' then and_then (parse_number 64 v flag) (\<lambda>n. Ok (a\<lparr>ar_envelopes := n\<rparr>, sn))
      else and_then (parse_number 64 v flag) (\<lambda>n. Ok (a\<lparr>ar_rotation := n\<rparr>, sn)))"

fun scan_args :: "'a readers \<Rightarrow> bytes list \<Rightarrow> 'a args \<times> seen_flags \<Rightarrow> ('a args \<times> seen_flags, arg_stop) outcome" where
  "scan_args R [] st = Ok st"
| "scan_args R (flag # rest) st =
     (if flag = ascii ''--help'' \<or> flag = ascii ''-h'' then Err ShowHelp
      else if flag = ascii ''--print-ca'' then Err (PrintCa (ar_seed (fst st)))
      else if flag = ascii ''--zig'' then scan_args R rest ((fst st)\<lparr>ar_zig := True\<rparr>, snd st)
      else if flag = ascii ''--no-pacing'' then scan_args R rest ((fst st)\<lparr>ar_no_pacing := True\<rparr>, snd st)
      else if flag \<in> set value_flags then
        (case rest of
           [] \<Rightarrow> Err (BadArgs (MissingValue flag))
         | v # rest \<Rightarrow>
             (case set_value R flag v st of
                Ok st \<Rightarrow> scan_args R rest st
              | Err e \<Rightarrow> Err e
              | Panic \<Rightarrow> Panic))
      else Err (BadArgs (UnknownFlag flag)))"

definition default_args :: "'a \<Rightarrow> 'a \<Rightarrow> 'a args" where
  "default_args daemon control =
     \<lparr>ar_daemon = daemon, ar_control = control, ar_seed = 0, ar_round = 0, ar_zig = False,
      ar_kex_pub = replicate 32 0, ar_sig_pub = replicate 32 0, ar_timeout_ms = 2000,
      ar_canonical = ascii ''bol:0000000000000000/ns/dev/x'', ar_control_token = None, ar_ladder = 97,
      ar_envelopes = 1000, ar_rotation = V_ROTATION, ar_no_pacing = False\<rparr>"

definition no_flags :: seen_flags where
  "no_flags = \<lparr>sn_daemon = False, sn_control = False, sn_kex = False, sn_sig = False\<rparr>"

text \<open>The default addresses are read before the arguments, an unreadable one panics.\<close>

definition parse_args :: "'a readers \<Rightarrow> bytes list \<Rightarrow> ('a args, arg_stop) outcome" where
  "parse_args R argv =
     (case (rd_addr R (ascii ''127.0.0.1:9800''), rd_addr R (ascii ''127.0.0.1:9801'')) of
        (Some d, Some c) \<Rightarrow>
          and_then (scan_args R argv (default_args d c, no_flags)) (\<lambda>(a, sn).
            if \<not> sn_daemon sn then Err (BadArgs (RequiredFlag (ascii ''--daemon'')))
            else if \<not> sn_control sn then Err (BadArgs (RequiredFlag (ascii ''--control'')))
            else if \<not> sn_kex sn then Err (BadArgs (RequiredFlag (ascii ''--daemon-kex-pub'')))
            else if \<not> sn_sig sn then Err (BadArgs (RequiredFlag (ascii ''--daemon-sig-pub'')))
            else Ok a)
      | _ \<Rightarrow> Panic)"

section \<open>Exit codes\<close>

text \<open>What surrounds a round, for whichever ladder runs: the control plane is a function of its state.\<close>

record 's outside =
  ou_draw :: "u64 \<Rightarrow> nat \<Rightarrow> bytes"
  ou_io :: client_io
  ou_eph :: bytes
  ou_vectors :: "frozen option"
  ou_vectors_again :: "frozen option"
  ou_identity :: "frozen_identity option"
  ou_connects :: bool
  ou_peer :: "'s peer"
  ou_state :: 's
  ou_answer :: "bytes \<Rightarrow> bytes option"
  ou_baseline :: "(metrics_snapshot, metrics_error) outcome"
  ou_polls :: "((metrics_snapshot, metrics_error) outcome \<times> bool) list"

text \<open>A ladder ends, or ladder V still polls after the polls given, or there is no such ladder.\<close>

datatype ladder_run = LadderEnds "(round_log, unit) outcome" | StillPolling | NoSuchLadder

definition run_ladder :: "crypto \<Rightarrow> 's outside \<Rightarrow> 'a args \<Rightarrow> ladder_run" where
  "run_ladder cr W a =
     (let seed = word_of_nat (ar_seed a) :: u64; round = word_of_nat (ar_round a) :: u32;
          ck = seeded cr (ou_draw W) seed; io = ou_io W; kex = ar_kex_pub a; sig = ar_sig_pub a
      in if ar_ladder a = 97 then LadderEnds (fst (ladder_a cr io (ou_vectors W) (ou_eph W) ck kex sig seed round (ar_zig a)))
      else if ar_ladder a = 98 then LadderEnds (fst (ladder_b cr io (ou_vectors W) (ou_eph W) ck kex sig seed round (ar_zig a)))
      else if ar_ladder a = 99 then
        LadderEnds (fst (ladder_c cr io (ou_vectors W) (ou_vectors_again W) (ou_eph W) ck kex sig round))
      else if ar_ladder a = 101 then
        LadderEnds (fst (ladder_e cr io (ou_identity W) (ou_eph W) kex sig round (ou_answer W) (ar_control_token a)))
      else if ar_ladder a = 100 then
        LadderEnds (fst (ladder_d (ou_connects W) (ou_peer W) seed round (ar_canonical a) (ar_control_token a) (ou_state W)))
      else if ar_ladder a = 118 then
        (case fst (ladder_v cr io (ou_eph W) ck kex sig seed round (ar_envelopes a) (ar_rotation a) (ou_baseline W) (ou_polls W)) of
           Ok (Some l) \<Rightarrow> LadderEnds (Ok l)
         | Ok None \<Rightarrow> StillPolling
         | Err e \<Rightarrow> LadderEnds (Err e)
         | Panic \<Rightarrow> LadderEnds Panic)
      else NoSuchLadder)"

text \<open>
  0 for a completed ladder, 1 for a failed one or a socket that cannot be prepared, 2 for bad arguments. A
  timeout of zero is refused by the socket. No result while the ladder still polls.
\<close>

definition client_main ::
  "'a readers \<Rightarrow> bool \<Rightarrow> ('a args \<Rightarrow> ladder_run) \<Rightarrow> bytes list \<Rightarrow> (nat, unit) outcome option" where
  "client_main R binds ladder argv =
     (case parse_args R argv of
        Err (BadArgs e) \<Rightarrow> Some (Ok 2)
      | Err stop \<Rightarrow> Some (Ok 0)
      | Panic \<Rightarrow> Some Panic
      | Ok a \<Rightarrow>
          if \<not> binds \<or> ar_timeout_ms a = 0 then Some (Ok 1)
          else (case ladder a of
             LadderEnds r \<Rightarrow> Some (and_then r (\<lambda>l. Ok (if rl_ok l then 0 else 1)))
           | StillPolling \<Rightarrow> None
           | NoSuchLadder \<Rightarrow> Some (Ok 2)))"

section \<open>What an accepted command line holds\<close>

text \<open>A flag followed by a value.\<close>

definition given :: "bytes list \<Rightarrow> string \<Rightarrow> bytes \<Rightarrow> bool" where
  "given argv flag v \<longleftrightarrow> (\<exists>xs ys. argv = xs @ ascii flag # v # ys)"

definition addr_given :: "'a readers \<Rightarrow> bytes list \<Rightarrow> string \<Rightarrow> 'a \<Rightarrow> bool" where
  "addr_given R argv flag x \<longleftrightarrow> (\<exists>v. given argv flag v \<and> rd_addr R v = Some x)"

definition key_given :: "'a readers \<Rightarrow> bytes list \<Rightarrow> string \<Rightarrow> bytes \<Rightarrow> bool" where
  "key_given R argv flag k \<longleftrightarrow> length k = 32 \<and> (\<exists>v. given argv flag v \<and> rd_hex R v = Some k)"

definition args_ok :: "'a readers \<Rightarrow> bytes list \<Rightarrow> 'a args \<times> seen_flags \<Rightarrow> bool" where
  "args_ok R argv st = (case st of (a, sn) \<Rightarrow>
     (sn_daemon sn \<longrightarrow> addr_given R argv ''--daemon'' (ar_daemon a))
     \<and> (sn_control sn \<longrightarrow> addr_given R argv ''--control'' (ar_control a))
     \<and> (sn_kex sn \<longrightarrow> key_given R argv ''--daemon-kex-pub'' (ar_kex_pub a))
     \<and> (sn_sig sn \<longrightarrow> key_given R argv ''--daemon-sig-pub'' (ar_sig_pub a))
     \<and> ar_ladder a \<in> set (ascii ''abcdev'') \<and> ar_seed a < 2 ^ 64 \<and> ar_round a < 2 ^ 32)"

lemma given_more: "given argv flag v \<Longrightarrow> given (argv @ later_args) flag v"
  unfolding given_def by (metis append_Cons append_assoc)

lemma given_last: "given (argv @ [ascii flag, v]) flag v"
  unfolding given_def by blast

lemma args_ok_more: "args_ok R argv st \<Longrightarrow> args_ok R (argv @ later_args) st"
  using given_more by (auto simp: args_ok_def addr_given_def key_given_def) blast+

lemma values_read:
  "parse_addr R v w = Ok x \<longleftrightarrow> rd_addr R v = Some x"
  "parse_hex32 R v w = Ok k \<longleftrightarrow> rd_hex R v = Some k \<and> length k = 32"
  "parse_number 64 v w = Ok n \<Longrightarrow> n < 2 ^ 64" "parse_number 32 v w = Ok n \<Longrightarrow> n < 2 ^ 32"
  "parse_ladder v = Ok c \<Longrightarrow> c \<in> set (ascii ''abcdev'')"
  by (auto simp: parse_addr_def parse_hex32_def parse_number_def parse_ladder_def Let_def ok_or_def split: option.splits if_splits)

lemma value_given:
  "rd_addr R v = Some x \<Longrightarrow> addr_given R (argv @ [ascii f, v]) f x"
  "rd_hex R v = Some k \<Longrightarrow> length k = 32 \<Longrightarrow> key_given R (argv @ [ascii f, v]) f k"
  using given_last by (auto simp: addr_given_def key_given_def)

lemma set_value_ok:
  assumes "set_value R flag v st = Ok st'" "args_ok R argv st"
  shows "args_ok R (argv @ [flag, v]) st'"
proof -
  obtain a sn where st: "st = (a, sn)" by fastforce
  note old = args_ok_more [OF assms(2), of "[flag, v]", unfolded st args_ok_def prod.case]
  show ?thesis
    using assms(1) unfolding st set_value_def prod.case and_then_eq_Ok values_read(1,2)
    by (simp only: and_then_eq_Ok values_read(1,2) split: if_split_asm;
      use old in \<open>clarsimp simp: args_ok_def value_given values_read(3-5) [simplified]\<close>)
qed

lemma scan_args_ok:
  "scan_args R rest st = Ok st' \<Longrightarrow> args_ok R argv st \<Longrightarrow> args_ok R (argv @ rest) st'"
proof (induction R rest st arbitrary: argv rule: scan_args.induct)
  case (2 R flag rest st)
  have live: "flag \<notin> {ascii ''--help'', ascii ''-h'', ascii ''--print-ca''}"
    using 2(4) by (auto split: if_splits)
  consider "flag = ascii ''--zig''" | "flag \<noteq> ascii ''--zig''" "flag = ascii ''--no-pacing''"
    | "flag \<noteq> ascii ''--zig''" "flag \<noteq> ascii ''--no-pacing''" "flag \<in> set value_flags"
    using 2(4) by (fastforce split: if_splits)
  then show ?case
  proof cases
    case 1
    have "args_ok R (argv @ [flag]) ((fst st)\<lparr>ar_zig := True\<rparr>, snd st)"
      using args_ok_more [OF 2(5), of "[flag]"] by (cases st) (simp add: args_ok_def)
    then show ?thesis using 2(1)[of "argv @ [flag]"] 2(4) live 1 by simp
  next
    case c: 2
    have "args_ok R (argv @ [flag]) ((fst st)\<lparr>ar_no_pacing := True\<rparr>, snd st)"
      using args_ok_more [OF 2(5), of "[flag]"] by (cases st) (simp add: args_ok_def)
    then show ?thesis using 2(2)[of "argv @ [flag]"] 2(4) live c by simp
  next
    case c: 3
    with 2(4) live obtain v rest' st1 where r: "rest = v # rest'" "set_value R flag v st = Ok st1" "scan_args R rest' st1 = Ok st'"
      by (auto split: list.splits outcome.splits)
    from 2(3) [OF _ _ _ _ c(3) r(1,2,3)] set_value_ok [OF r(2) 2(5)] live c
    have "args_ok R ((argv @ [flag, v]) @ rest') st'" by blast
    then show ?thesis by (simp add: r(1))
  qed
qed simp

text \<open>
  An accepted command line gives each of the four required options, with a value that
  reads as the argument used, a ladder of the six and numbers within their widths.
\<close>

theorem accepted_command_line:
  assumes "parse_args R argv = Ok a"
  shows "(\<exists>v. given argv ''--daemon'' v \<and> rd_addr R v = Some (ar_daemon a))
    \<and> (\<exists>v. given argv ''--control'' v \<and> rd_addr R v = Some (ar_control a))
    \<and> (\<exists>v. given argv ''--daemon-kex-pub'' v \<and> rd_hex R v = Some (ar_kex_pub a)) \<and> length (ar_kex_pub a) = 32
    \<and> (\<exists>v. given argv ''--daemon-sig-pub'' v \<and> rd_hex R v = Some (ar_sig_pub a)) \<and> length (ar_sig_pub a) = 32
    \<and> ar_ladder a \<in> set (ascii ''abcdev'') \<and> ar_seed a < 2 ^ 64 \<and> ar_round a < 2 ^ 32"
proof -
  obtain d c sn where s: "scan_args R argv (default_args d c, no_flags) = Ok (a, sn)"
    "sn_daemon sn" "sn_control sn" "sn_kex sn" "sn_sig sn"
    using assms by (auto simp: parse_args_def and_then_eq_Ok split: option.splits if_splits)
  have "args_ok R [] (default_args d c, no_flags)"
    by (simp add: args_ok_def default_args_def no_flags_def ascii_def)
  from scan_args_ok [OF s(1) this] s(2-5) show ?thesis by (simp add: args_ok_def addr_given_def key_given_def)
qed

text \<open>
  The integration client exits with 0 against the node. When its command line is accepted,
  selects ladder D and gives the node's token and a resource the node serves, and its control
  connection leads to a node that can take the round, the process ends with exit code 0.
\<close>

theorem client_exits_0_on_ladder_d:
  assumes "parse_args R argv = Ok a" "ar_ladder a = 100" "ar_timeout_ms a \<noteq> 0" "ar_control_token a = Some tok"
    and "ou_connects W" "ou_peer W = ask_node clk"
    and "http_ready 5 tok (ou_state W)"
    and "round_fits (word_of_nat (ar_seed a)) (word_of_nat (ar_round a)) (ar_canonical a) c (ou_state W)"
  shows "client_main R True (run_ladder cr W) argv = Some (Ok 0)"
  using ladder_d_run [OF assms(7,8), of clk] assms(1-6) by (auto simp: client_main_def run_ladder_def Let_def)

definition demo_argv :: "bytes list" where
  "demo_argv = [ascii ''--daemon'', [], ascii ''--control'', [], ascii ''--daemon-kex-pub'', [], ascii ''--daemon-sig-pub'', [],
     ascii ''--seed'', ascii ''7'', ascii ''--round'', ascii ''3'', ascii ''--ladder'', ascii ''d'',
     ascii ''--canonical'', ascii ''bol:0505050505050505/harness/a'', ascii ''--control-token'', demo_token]"

definition demo_readers :: "unit readers" where
  "demo_readers = \<lparr>rd_addr = (\<lambda>_. Some ()), rd_hex = (\<lambda>_. Some (replicate 32 1))\<rparr>"

definition demo_args :: "unit args" where
  "demo_args = (default_args () ())\<lparr>ar_seed := 7, ar_round := 3, ar_kex_pub := replicate 32 1, ar_sig_pub := replicate 32 1,
     ar_ladder := 100, ar_canonical := ascii ''bol:0505050505050505/harness/a'', ar_control_token := Some demo_token\<rparr>"

lemma ascii_inject: "ascii s = ascii t \<longleftrightarrow> s = t"
proof -
  have "unat (of_char c :: u8) = of_char c" for c
    by (cases c) (simp add: of_char_def)
  then have "inj (of_char :: char \<Rightarrow> u8)" by (metis char_of_char injI)
  then show ?thesis by (auto simp: ascii_def inj_map_eq_map)
qed

lemma demo_parsed: "parse_args demo_readers demo_argv = Ok demo_args"
proof -
  have n: "parse_u64 (ascii ''7'') = Some 7" "parse_u64 (ascii ''3'') = Some 3" "parse_ladder (ascii ''d'') = Ok 100"
    by (simp_all add: parse_u64_def parse_ladder_def ascii_def is_ascii_digit_def digits_value_def to_ascii_lowercase_def)
  show ?thesis
    unfolding parse_args_def demo_argv_def
    by (simp add: demo_readers_def default_args_def no_flags_def value_flags_def set_value_def parse_addr_def parse_hex32_def
        parse_number_def n ascii_inject demo_args_def ok_or_def)
qed

definition demo_outside :: "daemon outside" where
  "demo_outside = \<lparr>ou_draw = (\<lambda>_ _. []), ou_io = demo_io, ou_eph = [], ou_vectors = None, ou_vectors_again = None,
     ou_identity = None, ou_connects = True, ou_peer = ask_node (\<lambda>n. (n, 9)), ou_state = open_node, ou_answer = (\<lambda>_. None),
     ou_baseline = Panic, ou_polls = []\<rparr>"

theorem client_exits_0_on_ladder_d_witness:
  "client_main demo_readers True (run_ladder toy_crypto demo_outside) demo_argv = Some (Ok 0)"
proof -
  have a: "ar_ladder demo_args = 100" "ar_timeout_ms demo_args \<noteq> 0" "ar_control_token demo_args = Some demo_token"
    "ar_seed demo_args = 7" "ar_round demo_args = 3" "ar_canonical demo_args = demo_lane"
    by (simp_all add: demo_args_def default_args_def demo_lane_eq)
  have W: "ou_connects demo_outside" "ou_peer demo_outside = ask_node (\<lambda>n. (n, 9))" "ou_state demo_outside = open_node"
    by (simp_all add: demo_outside_def)
  have "http_ready 5 demo_token (ou_state demo_outside)" unfolding W(3) by (rule demo_http_ready) simp
  moreover have "round_fits (word_of_nat (ar_seed demo_args)) (word_of_nat (ar_round demo_args)) (ar_canonical demo_args)
      demo_lane (ou_state demo_outside)"
    unfolding W(3) a(4-6) using demo_round_fits by simp
  ultimately show ?thesis by (rule client_exits_0_on_ladder_d [OF demo_parsed a(1-3) W(1,2)])
qed

end
