(* ===== verification/Interop.thy ===== *)
theory Interop
  imports Meeting
begin

text \<open>
  The two example programs (src/examples/interop.rs, src/examples/w4probe.rs): an initiator that
  takes its keys, the node's keys and a token from files, performs the handshake, verifies the
  binding the node pushes, answers with its own, sends one intent and asks the control plane for
  its state; and the probe that prints one initiation. Files, the environment, the clock, the
  drawn ephemeral secret, the datagrams that arrive and the answer of the control plane are
  arguments. Every failed expectation of the program is a panic; printed lines are the
  constructors of a type. The lemmas show what its packets and its envelope are, and that against a
  peer that follows the protocol, and reports only what it could open and verify, the program
  completes exactly when the peer's slot is 0.
\<close>

section \<open>Surroundings\<close>

record interop_world =
  iw_env :: "bytes \<Rightarrow> bytes option"  \<comment> \<open>the environment's texts\<close>
  iw_file :: "bytes \<Rightarrow> bytes option"  \<comment> \<open>path, what is read\<close>
  iw_socket :: bool  \<comment> \<open>the socket binds and connects\<close>
  iw_eph :: bytes
  iw_clock :: "nat \<Rightarrow> u64"
  iw_sends :: "bytes \<Rightarrow> bool"
  iw_arrives :: "nat \<Rightarrow> bytes list \<Rightarrow> bytes option"  \<comment> \<open>how many were received, what was sent\<close>
  iw_control :: "bytes list \<Rightarrow> bytes \<Rightarrow> bytes option"  \<comment> \<open>what was sent, the request\<close>

datatype interop_line = StageA u32 | StageB1 | StageC | Complete

record interop_run =
  ir_sent :: "bytes list"
  ir_said :: "interop_line list"

type_synonym 'a interop_step = "('a, unit) outcome \<times> interop_run"

definition expecting :: "'a option \<Rightarrow> ('a, unit) outcome" where
  "expecting x = (case x of Some a \<Rightarrow> Ok a | None \<Rightarrow> Panic)"

definition expect_ok :: "('a, 'e) outcome \<Rightarrow> ('a, unit) outcome" where
  "expect_ok x = (case x of Ok a \<Rightarrow> Ok a | _ \<Rightarrow> Panic)"

lemma expect_ok_simps [simp]: "expect_ok x = Ok a \<longleftrightarrow> x = Ok a" "expect_ok (Ok a) = Ok a"
  by (cases x) (simp_all add: expect_ok_def)

definition asserting :: "bool \<Rightarrow> (unit, unit) outcome" where
  "asserting c = (if c then Ok () else Panic)"

definition read32 :: "interop_world \<Rightarrow> bytes \<Rightarrow> (bytes, unit) outcome" where
  "read32 W p = and_then (expecting (iw_file W p)) (\<lambda>b. if length b = 32 then Ok b else Panic)"

definition env_text :: "interop_world \<Rightarrow> string \<Rightarrow> (bytes, unit) outcome" where
  "env_text W k = expecting (iw_env W (ascii k))"

definition say :: "interop_line \<Rightarrow> interop_run \<Rightarrow> unit interop_step" where
  "say l r = (Ok (), r\<lparr>ir_said := ir_said r @ [l]\<rparr>)"

definition udp_send :: "interop_world \<Rightarrow> bytes \<Rightarrow> interop_run \<Rightarrow> unit interop_step" where
  "udp_send W pkt r = (if iw_sends W pkt then (Ok (), r\<lparr>ir_sent := ir_sent r @ [pkt]\<rparr>) else (Panic, r))"

text \<open>The n-th datagram, cut to the buffer's size.\<close>

definition udp_recv :: "interop_world \<Rightarrow> nat \<Rightarrow> nat \<Rightarrow> interop_run \<Rightarrow> bytes interop_step" where
  "udp_recv W n cap r = (and_then (expecting (iw_arrives W n (ir_sent r))) (\<lambda>m. Ok (take cap m)), r)"

section \<open>Transport packets\<close>

text \<open>The header carries receiver 0; the caller writes the node's index over it afterwards.\<close>

definition seal_t4 :: "crypto \<Rightarrow> bytes \<Rightarrow> u64 \<Rightarrow> bytes \<Rightarrow> bytes" where
  "seal_t4 cr out_key counter pt =
     (let pkt = [4] @ [0, 0, 0] @ to_be_bytes (0 :: u32) @ to_be_bytes counter; aad = pkt
      in pkt @ aead_seal cr out_key (transport_nonce counter) aad pt)"

definition address_t4 :: "u32 \<Rightarrow> bytes \<Rightarrow> bytes" where
  "address_t4 slot pkt = take 4 pkt @ to_be_bytes slot @ drop 8 pkt"

definition open_t4 :: "crypto \<Rightarrow> bytes \<Rightarrow> u64 \<Rightarrow> bytes \<Rightarrow> (bytes, unit) outcome" where
  "open_t4 cr in_key counter pkt =
     and_then (index_at pkt 0) (\<lambda>t.
     and_then (asserting (t = 4)) (\<lambda>_.
     and_then (subslice pkt 16 (length pkt)) (\<lambda>ct.
     expecting (aead_open cr in_key (transport_nonce counter) (take 16 pkt) ct))))"

section \<open>Identity material\<close>

record interop_material =
  im_static :: key_pair
  im_sig :: bytes
  im_sig_pub :: bytes
  im_daemon_static :: bytes
  im_daemon_sig :: bytes
  im_cert :: bytes
  im_resource :: bytes
  im_token :: bytes

definition load_material :: "crypto \<Rightarrow> interop_world \<Rightarrow> (interop_material, unit) outcome" where
  "load_material cr W =
     and_then (env_text W ''ITO_DAEMON'') (\<lambda>_.
     and_then (env_text W ''ITO_DAEMON_MAT'') (\<lambda>daemon_mat.
     and_then (env_text W ''ITO_RUNNER_MAT'') (\<lambda>runner_mat.
     and_then (env_text W ''ITO_RESOURCE'') (\<lambda>resource.
     and_then (env_text W ''ITO_TOKEN_FILE'') (\<lambda>token_file.
     and_then (expecting (iw_file W token_file)) (\<lambda>token.
     and_then (asserting (from_utf8 token)) (\<lambda>_.
     and_then (read32 W (runner_mat @ ascii ''/static.key'')) (\<lambda>static_key.
     and_then (read32 W (runner_mat @ ascii ''/sig.key'')) (\<lambda>sig_seed.
     and_then (read32 W (daemon_mat @ ascii ''/static.pub'')) (\<lambda>daemon_static_pub.
     and_then (read32 W (daemon_mat @ ascii ''/sig.pub'')) (\<lambda>daemon_sig_pub.
     and_then (expecting (iw_file W (runner_mat @ ascii ''/cert.bin''))) (\<lambda>our_cert.
     and_then (expect_ok (parse_cert our_cert)) (\<lambda>rec.
     and_then (asserting (ce_sig_pubkey rec = ed_public cr sig_seed)) (\<lambda>_.
     Ok \<lparr>im_static = from_secret cr static_key, im_sig = sig_seed, im_sig_pub = ed_public cr sig_seed,
         im_daemon_static = daemon_static_pub, im_daemon_sig = daemon_sig_pub, im_cert = our_cert,
         im_resource = resource, im_token = trim token\<rparr>))))))))))))))"

section \<open>The stages\<close>

definition INTEROP_INDEX :: u32 where "INTEROP_INDEX = 0x00A70F1E"

text \<open>The handshake: the result and the node's index.\<close>

definition stage_a :: "crypto \<Rightarrow> interop_world \<Rightarrow> interop_material \<Rightarrow> interop_run \<Rightarrow> (handshake_result \<times> u32) interop_step" where
  "stage_a cr W M r =
     (case write_initiation cr (iw_eph W) INTEROP_INDEX (iw_clock W 0) (im_daemon_sig M) (replicate 16 0)
             (initiator_new cr (im_static M) (im_daemon_static M)) of
        (Ok msg1, i) \<Rightarrow>
          then_state (udp_send W msg1 r) (\<lambda>_ r.
          then_state (udp_recv W 0 MSG2_SIZE r) (\<lambda>msg2 r.
          then_state (asserting (length msg2 = MSG2_SIZE), r) (\<lambda>_ r.
          then_state (asserting (take 4 (drop OFF2_RECEIVER_INDEX msg2) = to_be_bytes INTEROP_INDEX), r) (\<lambda>_ r.
          let daemon_slot = from_be_bytes (take 4 (drop OFF2_SENDER_INDEX msg2)) in
          case read_response cr msg2 (im_daemon_sig M) i of
            (Ok _, i) \<Rightarrow> then_state (say (StageA daemon_slot) r) (\<lambda>_ r. (Ok (initiator_finalize cr i, daemon_slot), r))
          | _ \<Rightarrow> (Panic, r)))))
      | _ \<Rightarrow> (Panic, r))"

text \<open>What the pushed binding must be: a certificate of the given key and its signature over the transcript.\<close>

definition check_binding :: "crypto \<Rightarrow> bytes \<Rightarrow> bytes \<Rightarrow> bytes \<Rightarrow> (unit, unit) outcome" where
  "check_binding cr key h daemon_pt =
     and_then (index_at daemon_pt 0) (\<lambda>b0.
     and_then (index_at daemon_pt 1) (\<lambda>b1.
     let cert_len = unat (from_be_bytes [b0, b1] :: u16) in
     and_then (subslice daemon_pt 2 (2 + cert_len)) (\<lambda>cert_wire.
     and_then (expect_ok (parse_cert cert_wire)) (\<lambda>dcert.
     let sig = drop (2 + cert_len) daemon_pt in
     and_then (asserting (length sig = 64)) (\<lambda>_.
     and_then (asserting (ce_sig_pubkey dcert = key)) (\<lambda>_.
     and_then (asserting (ed_key_ok cr key \<and> ed_sig_ok cr sig)) (\<lambda>_.
     asserting (ed_verify cr key (5 # h) sig))))))))"

definition stage_b :: "crypto \<Rightarrow> interop_world \<Rightarrow> interop_material \<Rightarrow> handshake_result \<Rightarrow> u32 \<Rightarrow> interop_run \<Rightarrow> unit interop_step" where
  "stage_b cr W M hs daemon_slot r =
     then_state (udp_recv W 1 2048 r) (\<lambda>buf r.
     then_state (open_t4 cr (hr_recv_key hs) 0 buf, r) (\<lambda>daemon_pt r.
     then_state (check_binding cr (im_daemon_sig M) (hr_handshake_hash hs) daemon_pt, r) (\<lambda>_ r.
     then_state (say StageB1 r) (\<lambda>_ r.
     let sig = ed_sign cr (im_sig M) (5 # hr_handshake_hash hs);
         frame = to_be_bytes (word_of_nat (length (im_cert M)) :: u16) @ im_cert M @ sig;
         pkt = address_t4 daemon_slot (seal_t4 cr (hr_send_key hs) 0 frame)
     in udp_send W pkt r))))"

definition interop_intent :: "interop_material \<Rightarrow> intent" where
  "interop_intent M =
     \<lparr>int_intent_id = replicate 16 0xAB, int_resource_id = im_resource M,
      int_action = ascii ''apt-get install -y sqlite3'',
      int_rationale = ascii ''W4 live interop: Rust initiator against Zig daemon''\<rparr>"

definition interop_envelope :: "crypto \<Rightarrow> interop_world \<Rightarrow> interop_material \<Rightarrow> bytes" where
  "interop_envelope cr W M =
     (let body = encode_intent (interop_intent M);
          tbs = [2] @ replicate LEN_CHANNEL_ID 0x42 @ im_sig_pub M @ to_be_bytes (1 :: u64) @ [0]
            @ to_be_bytes (iw_clock W 1) @ [2] @ to_be_bytes (word_of_nat (length body) :: u32) @ body
      in tbs @ ed_sign cr (im_sig M) (2 # tbs))"

definition interop_request :: "interop_material \<Rightarrow> bytes" where
  "interop_request M =
     ascii ''GET /v1/intents/'' @ hex_bytes (replicate 16 0xAB) @ ascii '' HTTP/1.1'' @ [13, 10]
     @ ascii ''Host: 127.0.0.1'' @ [13, 10] @ ascii ''Authorization: Bearer '' @ im_token M @ [13, 10]
     @ ascii ''Connection: close'' @ [13, 10, 13, 10]"

definition stage_c :: "crypto \<Rightarrow> interop_world \<Rightarrow> interop_material \<Rightarrow> handshake_result \<Rightarrow> u32 \<Rightarrow> interop_run \<Rightarrow> unit interop_step" where
  "stage_c cr W M hs daemon_slot r =
     (let env_wire = interop_envelope cr W M in
      then_state (asserting (is_ok (parse_envelope env_wire)), r) (\<lambda>_ r.
      then_state (udp_send W (address_t4 daemon_slot (seal_t4 cr (hr_send_key hs) 1 env_wire)) r) (\<lambda>_ r.
      then_state (expecting (iw_control W (ir_sent r) (interop_request M)), r) (\<lambda>resp r.
      then_state (asserting (from_utf8 resp), r) (\<lambda>_ r.
      then_state (asserting (find_sub (ascii '' 200 '') resp \<noteq> None), r) (\<lambda>_ r.
      then_state (asserting (find_sub (ascii ''pending'') resp \<noteq> None), r) (\<lambda>_ r.
      then_state (say StageC r) (\<lambda>_ r. say Complete r))))))))"

definition interop :: "crypto \<Rightarrow> interop_world \<Rightarrow> unit interop_step" where
  "interop cr W =
     (let r = \<lparr>ir_sent = [], ir_said = []\<rparr> in
      then_state (load_material cr W, r) (\<lambda>M r.
      then_state (asserting (iw_socket W), r) (\<lambda>_ r.
      then_state (stage_a cr W M r) (\<lambda>(hs, daemon_slot) r.
      then_state (stage_b cr W M hs daemon_slot r) (\<lambda>_ r.
      stage_c cr W M hs daemon_slot r)))))"

section \<open>The probe\<close>

definition probe_fixed :: "u8 \<Rightarrow> bytes" where
  "probe_fixed n = map (\<lambda>i. n + word_of_nat i) [0..<32]"

text \<open>The printed line for the drawn ephemeral secret.\<close>

definition w4probe :: "crypto \<Rightarrow> bytes \<Rightarrow> (bytes, unit) outcome" where
  "w4probe cr eph =
     (case fst (write_initiation cr eph 0xA70F1E 1700000010000 (probe_fixed 0x77) (replicate 16 0)
        (initiator_new cr (from_secret cr (probe_fixed 0x21)) (kp_public (from_secret cr (probe_fixed 0x31))))) of
        Ok msg1 \<Rightarrow> Ok (ascii ''msg1='' @ hex_bytes msg1)
      | _ \<Rightarrow> Panic)"

section \<open>Its packets\<close>

lemma seal_t4_packet: "seal_t4 cr key c pt = packet_of cr key 0 c pt"
  by (simp add: seal_t4_def packet_of_def transport_header_def MSG_TYPE_TRANSPORT_def Let_def)

lemma address_packet: "address_t4 slot (packet_of cr key 0 c pt) =
    transport_header slot c @ aead_seal cr key (transport_nonce c) (transport_header 0 c) pt"
  by (simp add: address_t4_def packet_of_def transport_header_def)

lemma open_seal_t4: "crypto_laws cr \<Longrightarrow> open_t4 cr key c (seal_t4 cr key c pt) = Ok pt"
  by (simp add: open_t4_def seal_t4_packet packet_of_def index_at_def subslice_def asserting_def expecting_def
      crypto_laws_def transport_header_def MSG_TYPE_TRANSPORT_def)

text \<open>Documented behaviour of the AEAD on associated data of a header's size: it is authenticated.\<close>

definition header_bound :: "crypto \<Rightarrow> bool" where
  "header_bound cr \<longleftrightarrow> (\<forall>k n ad ad' pt. length ad = 16 \<longrightarrow> length ad' = 16 \<longrightarrow> ad \<noteq> ad' \<longrightarrow>
     aead_open cr k n ad' (aead_seal cr k n ad pt) = None)"

lemma transport_header_inj: "transport_header a c = transport_header b c \<longleftrightarrow> a = b"
  by (auto simp: transport_header_def dest: arg_cong [where f = "from_be_bytes :: bytes \<Rightarrow> u32"])

lemma addressed_opens:
  assumes "crypto_laws cr" "header_bound cr" "rs_key (se_recv s) = key" "fst (recv_check c (rs_window (se_recv s)))"
  shows "fst (session_open cr (address_t4 slot (seal_t4 cr key c pt)) c (length pt + 32) s) =
    (if slot = 0 then Ok pt else Err TransportDecryptFailed)"
proof -
  have len: "length (aead_seal cr key n ad pt) = length pt + 16" "aead_open cr key n ad (aead_seal cr key n ad pt) = Some pt"
    for n ad using assms(1) by (simp_all add: crypto_laws_def)
  have "slot \<noteq> 0 \<Longrightarrow> aead_open cr key n (transport_header slot c) (aead_seal cr key n (transport_header 0 c) pt) = None" for n
    using assms(2) transport_header_inj [of slot c 0] by (auto simp: header_bound_def)
  then show ?thesis
    using assms(3,4) len
    by (simp add: seal_t4_packet address_packet session_open_def recv_open_def HEADER_SIZE_def Let_def split_beta)
qed

section \<open>A peer that follows the protocol\<close>

text \<open>
  The other end, from the crate's own responder: its answer to an initiation under the static key
  sk, the drawn secret er and the index slot, and the binding it then pushes, with the
  certificate dcert and the signing key dk.
\<close>

definition peer_reply :: "crypto \<Rightarrow> bytes \<Rightarrow> bytes \<Rightarrow> bytes \<Rightarrow> u32 \<Rightarrow> bytes \<Rightarrow> (bytes \<times> handshake_result) option" where
  "peer_reply cr sk er dk slot m1 =
     (case read_initiation cr m1 (ed_public cr dk) (responder_new cr (from_secret cr sk)) of
        (Ok info, r) \<Rightarrow>
          (case write_response cr er slot (ii_sender_index info) (ed_public cr dk) (replicate 16 0) r of
             (Ok m2, r) \<Rightarrow> Some (m2, responder_finalize cr r)
           | _ \<Rightarrow> None)
      | _ \<Rightarrow> None)"

definition peer_push :: "crypto \<Rightarrow> bytes \<Rightarrow> bytes \<Rightarrow> handshake_result \<Rightarrow> bytes" where
  "peer_push cr dk dcert hr =
     seal_t4 cr (hr_send_key hr) 0
       (to_be_bytes (word_of_nat (length dcert) :: u16) @ dcert @ ed_sign cr dk (5 # hr_handshake_hash hr))"

definition peer_sends :: "crypto \<Rightarrow> bytes \<Rightarrow> bytes \<Rightarrow> bytes \<Rightarrow> u32 \<Rightarrow> bytes \<Rightarrow> nat \<Rightarrow> bytes list \<Rightarrow> bytes option" where
  "peer_sends cr sk er dk slot dcert n sent =
     map_option (\<lambda>(m2, hr). if n = 0 then m2 else peer_push cr dk dcert hr) (peer_reply cr sk er dk slot (last sent))"

lemma peer_agrees:
  assumes laws: "crypto_laws cr" and len: "length si = 32" "length sk = 32" "length ei = 32" "length er = 32"
    and ok: "secrets_ok cr si sk ei er"
  shows "\<exists>m1 i m2 i' hr. write_initiation cr ei idx ts (ed_public cr dk) (replicate 16 0)
        (initiator_new cr (from_secret cr si) (kp_public (from_secret cr sk))) = (Ok m1, i)
    \<and> peer_reply cr sk er dk slot m1 = Some (m2, hr) \<and> length m2 = 92
    \<and> take 4 (drop 8 m2) = to_be_bytes idx \<and> take 4 (drop 4 m2) = to_be_bytes slot
    \<and> read_response cr m2 (ed_public cr dk) i = (Ok (), i')
    \<and> hr_recv_key (initiator_finalize cr i') = hr_send_key hr \<and> hr_send_key (initiator_finalize cr i') = hr_recv_key hr
    \<and> hr_handshake_hash (initiator_finalize cr i') = hr_handshake_hash hr"
proof -
  obtain m1 i where w: "write_initiation cr ei idx ts (ed_public cr dk) (replicate 16 0)
      (initiator_new cr (from_secret cr si) (kp_public (from_secret cr sk))) = (Ok m1, i)"
    using initiation_written [OF ok] by blast
  from initiation_agrees [OF laws len(1-3) w] obtain r where
    r: "read_initiation cr m1 (ed_public cr dk) (responder_new cr (from_secret cr sk)) =
      (Ok \<lparr>ii_sender_index = idx, ii_initiator_static_pub = kp_public (from_secret cr si), ii_timestamp_ms = ts\<rparr>, r)"
    and st: "rp_sym r = in_sym i" "rp_re r = kp_public (from_secret cr ei)"
      "rp_remote_static_pub r = kp_public (from_secret cr si)"
      "in_eph_kp i = from_secret cr ei" "in_static_kp i = from_secret cr si" by blast
  obtain m2 r' where w2: "write_response cr er slot idx (ed_public cr dk) (replicate 16 0) r = (Ok m2, r')"
    and at: "take 4 (drop 4 m2) = to_be_bytes slot" "take 4 (drop 8 m2) = to_be_bytes idx"
    using secrets_okD(3,4) [OF ok] by (auto simp: write_response_def Let_def st split_beta)
  from response_agrees [OF laws len(1,3,4) st w2] obtain i' where
    "read_response cr m2 (ed_public cr dk) i = (Ok (), i')" "in_sym i' = rp_sym r'" by blast
  then show ?thesis
    using w r w2 at write_response_length [OF laws len(4) w2]
    by (auto simp: peer_reply_def initiator_finalize_def responder_finalize_def split: prod.split)
qed

lemma two_bytes: "\<exists>b0 b1. to_be_bytes (w :: u16) = [b0, b1]"
proof -
  have "length (to_be_bytes w) = Suc (Suc 0)" by simp
  then show ?thesis by (auto simp only: length_Suc_conv length_0_conv)
qed

lemma push_checked:
  assumes "sig_laws cr" "length dk = 32" "parse_cert dcert = Ok c" "ce_sig_pubkey c = ed_public cr dk"
    and "length dcert < 2 ^ 16"
  shows "check_binding cr (ed_public cr dk) h (to_be_bytes (word_of_nat (length dcert) :: u16) @ dcert @ ed_sign cr dk (5 # h)) = Ok ()"
proof -
  let ?n = "word_of_nat (length dcert) :: u16"
  obtain b0 b1 where b: "to_be_bytes ?n = [b0, b1]"
    using two_bytes [of ?n] by blast
  have "unat (from_be_bytes [b0, b1] :: u16) = length dcert"
    using b from_to_be_u16 [of ?n] assms(5) by (simp add: unat_of_nat)
  then show ?thesis
    using assms(1-4) sig_sizes [OF assms(1,2)]
    by (simp add: check_binding_def b index_at_def subslice_def asserting_def sig_laws_def)
qed

text \<open>
  What the peer makes of the two packets it is sent after the initiation, on the session of its
  slot: a packet counts when it names that slot and opens under the key the peer receives with.
  The intent is pending when the first packet binds the sender of the envelope in the second,
  by a certificate of its key and its signature over the transcript, and the envelope is signed
  by the sender and carries the intent.
\<close>

definition peer_session :: "handshake_result \<Rightarrow> session" where
  "peer_session hr = session_new\<lparr>se_recv := recv_state_new\<lparr>rs_key := hr_recv_key hr\<rparr>\<rparr>"

definition peer_opens :: "crypto \<Rightarrow> u32 \<Rightarrow> bytes \<Rightarrow> session \<Rightarrow> bytes option \<times> session" where
  "peer_opens cr slot pkt s =
     (if from_be_bytes (take 4 (drop 4 pkt)) = slot
      then (case session_open cr pkt (from_be_bytes (take 8 (drop 8 pkt))) (length pkt) s of
          (Ok pt, s') \<Rightarrow> (Some pt, s') | (_, s') \<Rightarrow> (None, s'))
      else (None, s))"

definition peer_admits :: "crypto \<Rightarrow> bytes \<Rightarrow> bytes \<Rightarrow> bytes \<Rightarrow> bytes option" where
  "peer_admits cr h frame wire =
     (case parse_envelope wire of
        Ok env \<Rightarrow>
          if check_binding cr (env_sender env) h frame = Ok () \<and> verify_envelope cr env = Ok () \<and> env_body_type env = BODY_INTENT
          then (case parse_intent (env_body env) of Ok i \<Rightarrow> Some (int_intent_id i) | _ \<Rightarrow> None) else None
      | _ \<Rightarrow> None)"

definition peer_pending :: "crypto \<Rightarrow> bytes \<Rightarrow> bytes \<Rightarrow> bytes \<Rightarrow> u32 \<Rightarrow> bytes list \<Rightarrow> bytes option" where
  "peer_pending cr sk er dk slot sent =
     (case sent of
        [m1, b, e] \<Rightarrow>
          (case peer_reply cr sk er dk slot m1 of
             Some (m2, hr) \<Rightarrow>
               (let (frame, s) = peer_opens cr slot b (peer_session hr); (wire, s) = peer_opens cr slot e s
                in (case (frame, wire) of
                      (Some frame, Some wire) \<Rightarrow> peer_admits cr (hr_handshake_hash hr) frame wire
                    | _ \<Rightarrow> None))
           | None \<Rightarrow> None)
      | _ \<Rightarrow> None)"

text \<open>
  Its control plane: to a request for the intent that is pending, named by its hexadecimal digits, with the
  peer's token, it answers 200 and the state, and to any other request 404.
\<close>

definition peer_control :: "crypto \<Rightarrow> bytes \<Rightarrow> bytes \<Rightarrow> bytes \<Rightarrow> u32 \<Rightarrow> bytes \<Rightarrow> bytes list \<Rightarrow> bytes \<Rightarrow> bytes option" where
  "peer_control cr sk er dk slot token sent request = Some
     (case peer_pending cr sk er dk slot sent of
        Some iid \<Rightarrow>
          if starts_with (ascii ''GET /v1/intents/'' @ hex_bytes iid @ ascii '' '') request
             \<and> find_sub (ascii ''Authorization: Bearer '' @ token @ [13, 10]) request \<noteq> None
          then response_head 200 (line_of ''pending'') @ line_of ''pending''
          else response_head 404 (line_of ''not found'') @ line_of ''not found''
      | None \<Rightarrow> response_head 404 (line_of ''not found'') @ line_of ''not found'')"

lemma peer_answer_texts:
  "from_utf8 (response_head 200 (line_of ''pending'') @ line_of ''pending'')"
  "find_sub (ascii '' 200 '') (response_head 200 (line_of ''pending'') @ line_of ''pending'') \<noteq> None"
  "find_sub (ascii ''pending'') (response_head 200 (line_of ''pending'') @ line_of ''pending'') \<noteq> None"
  "from_utf8 (response_head 404 (line_of ''not found'') @ line_of ''not found'')"
  "find_sub (ascii '' 200 '') (response_head 404 (line_of ''not found'') @ line_of ''not found'') = None"
  by code_simp+

section \<open>Its envelope\<close>

definition material_ok :: "crypto \<Rightarrow> interop_material \<Rightarrow> bool" where
  "material_ok cr M \<longleftrightarrow> length (im_sig M) = 32 \<and> im_sig_pub M = ed_public cr (im_sig M) \<and> length (im_resource M) \<le> 256"

lemma interop_envelope_built: "material_ok cr M \<Longrightarrow> interop_envelope cr W M =
    build_envelope cr (im_sig M) (replicate 32 0x42) (ed_public cr (im_sig M)) 1 (iw_clock W 1) BODY_INTENT
      (encode_intent (interop_intent M))"
  by (simp add: material_ok_def interop_envelope_def build_envelope_def envelope_tbs_def Let_def BODY_INTENT_def
      DOMAIN_ENVELOPE_def LEN_CHANNEL_ID_def)

lemma interop_intent_length: "length (encode_intent (interop_intent M)) = length (im_resource M) + 100"
  by (simp add: encode_intent_def interop_intent_def push_field16_def push_field32_def ascii_def)

lemma interop_envelope_parses:
  assumes "sig_laws cr" "material_ok cr M"
  shows "parse_envelope (interop_envelope cr W M) =
    Ok (client_envelope cr (im_sig M) (replicate 32 0x42) 1 (iw_clock W 1) BODY_INTENT (encode_intent (interop_intent M)))"
  using assms(2) client_envelope_parses(1) [OF assms(1), of "im_sig M" "replicate 32 0x42" "encode_intent (interop_intent M)"]
  by (simp add: interop_envelope_built interop_intent_length codec_limits) (simp add: material_ok_def)

section \<open>The whole program\<close>

lemma load_material_parts:
  assumes "load_material cr W = Ok M"
  shows "\<exists>k. im_static M = from_secret cr k \<and> length k = 32" "length (im_sig M) = 32" "im_sig_pub M = ed_public cr (im_sig M)"
    "iw_env W (ascii ''ITO_RESOURCE'') = Some (im_resource M)"
    "\<exists>c. parse_cert (im_cert M) = Ok c \<and> ce_sig_pubkey c = im_sig_pub M"
  using assms
  by (auto simp: load_material_def env_text_def read32_def expecting_def asserting_def
      split: option.splits outcome.splits if_splits)

text \<open>What the example says and sends against the peer, stage by stage.\<close>

definition interop_frame :: "crypto \<Rightarrow> interop_material \<Rightarrow> bytes \<Rightarrow> bytes" where
  "interop_frame cr M h = to_be_bytes (word_of_nat (length (im_cert M)) :: u16) @ im_cert M @ ed_sign cr (im_sig M) (5 # h)"

lemma stage_a_meets:
  assumes "crypto_laws cr" "length si = 32" "length sk = 32" "length (iw_eph W) = 32" "length er = 32"
    and "secrets_ok cr si sk (iw_eph W) er" "im_static M = from_secret cr si"
    and "im_daemon_static M = kp_public (from_secret cr sk)" "im_daemon_sig M = ed_public cr dk"
    and "iw_sends W = (\<lambda>_. True)" "iw_arrives W = peer_sends cr sk er dk slot dcert"
  shows "\<exists>m1 m2 hs hr. stage_a cr W M \<lparr>ir_sent = [], ir_said = []\<rparr> =
      (Ok (hs, slot), \<lparr>ir_sent = [m1], ir_said = [StageA slot]\<rparr>)
    \<and> peer_reply cr sk er dk slot m1 = Some (m2, hr) \<and> hr_recv_key hs = hr_send_key hr \<and> hr_send_key hs = hr_recv_key hr
    \<and> hr_handshake_hash hs = hr_handshake_hash hr"
proof -
  from peer_agrees [OF assms(1-6), of INTEROP_INDEX "iw_clock W 0" dk slot] obtain m1 i m2 i' hr where
    p: "write_initiation cr (iw_eph W) INTEROP_INDEX (iw_clock W 0) (ed_public cr dk) (replicate 16 0)
        (initiator_new cr (from_secret cr si) (kp_public (from_secret cr sk))) = (Ok m1, i)"
      "peer_reply cr sk er dk slot m1 = Some (m2, hr)" "length m2 = 92"
      "take 4 (drop 8 m2) = to_be_bytes INTEROP_INDEX" "take 4 (drop 4 m2) = to_be_bytes slot"
      "read_response cr m2 (ed_public cr dk) i = (Ok (), i')"
    and k: "hr_recv_key (initiator_finalize cr i') = hr_send_key hr" "hr_send_key (initiator_finalize cr i') = hr_recv_key hr"
      "hr_handshake_hash (initiator_finalize cr i') = hr_handshake_hash hr" by blast
  have "stage_a cr W M \<lparr>ir_sent = [], ir_said = []\<rparr> =
      (Ok (initiator_finalize cr i', slot), \<lparr>ir_sent = [m1], ir_said = [StageA slot]\<rparr>)"
    using assms(7-11) p
    by (simp add: stage_a_def udp_send_def udp_recv_def peer_sends_def expecting_def asserting_def say_def
        MSG2_SIZE_def OFF2_RECEIVER_INDEX_def OFF2_SENDER_INDEX_def Let_def)
  with p(2) k show ?thesis by blast
qed

lemma stage_b_meets:
  assumes "crypto_laws cr" "sig_laws cr" "length dk = 32" "parse_cert dcert = Ok c" "ce_sig_pubkey c = ed_public cr dk"
    and "length dcert \<le> MAX_CERT" "im_daemon_sig M = ed_public cr dk"
    and "iw_sends W = (\<lambda>_. True)" "iw_arrives W = peer_sends cr sk er dk slot dcert"
    and "peer_reply cr sk er dk slot m1 = Some (m2, hr)" "hr_recv_key hs = hr_send_key hr"
      "hr_send_key hs = hr_recv_key hr" "hr_handshake_hash hs = hr_handshake_hash hr"
  shows "stage_b cr W M hs slot \<lparr>ir_sent = [m1], ir_said = said\<rparr> =
    (Ok (), \<lparr>ir_sent = [m1, address_t4 slot (seal_t4 cr (hr_recv_key hr) 0 (interop_frame cr M (hr_handshake_hash hr)))],
       ir_said = said @ [StageB1]\<rparr>)"
proof -
  have "length (peer_push cr dk dcert hr) \<le> 2048"
    using assms(1,6) sig_sizes [OF assms(2,3)]
    by (simp add: peer_push_def seal_t4_packet packet_of_def crypto_laws_def MAX_CERT_def)
  then have "udp_recv W 1 2048 \<lparr>ir_sent = [m1], ir_said = said\<rparr> =
      (Ok (peer_push cr dk dcert hr), \<lparr>ir_sent = [m1], ir_said = said\<rparr>)"
    using assms(9,10) by (simp add: udp_recv_def peer_sends_def expecting_def)
  moreover have "check_binding cr (im_daemon_sig M) (hr_handshake_hash hr)
      (to_be_bytes (word_of_nat (length dcert) :: u16) @ dcert @ ed_sign cr dk (5 # hr_handshake_hash hr)) = Ok ()"
    using assms(6) unfolding assms(7) by (intro push_checked [OF assms(2-5)]) (simp add: MAX_CERT_def)
  ultimately show ?thesis
    using assms(8,11-13) open_seal_t4 [OF assms(1)]
    by (simp add: stage_b_def peer_push_def say_def udp_send_def interop_frame_def Let_def)
qed

text \<open>A packet the example addresses to the peer counts exactly when the peer's slot is 0.\<close>

lemma peer_opens_addressed:
  assumes "crypto_laws cr" "header_bound cr" "rs_key (se_recv s) = key" "recv_check c (rs_window (se_recv s)) = (True, w)"
  shows "peer_opens cr slot (address_t4 slot (seal_t4 cr key c pt)) s =
    (if slot = 0 then (Some pt, s\<lparr>se_recv := (se_recv s)\<lparr>rs_window := w\<rparr>\<rparr>) else (None, s))"
proof -
  let ?pkt = "transport_header slot c @ aead_seal cr key (transport_nonce c) (transport_header 0 c) pt"
  have len: "length (aead_seal cr key n ad pt) = length pt + 16" "aead_open cr key n ad (aead_seal cr key n ad pt) = Some pt"
    for n ad using assms(1) by (simp_all add: crypto_laws_def)
  have "slot \<noteq> 0 \<Longrightarrow> aead_open cr key n (transport_header slot c) (aead_seal cr key n (transport_header 0 c) pt) = None" for n
    using assms(2) transport_header_inj [of slot c 0] by (auto simp: header_bound_def)
  then have "session_open cr ?pkt c (length ?pkt) s =
      (if slot = 0 then (Ok pt, s\<lparr>se_recv := (se_recv s)\<lparr>rs_window := w\<rparr>\<rparr>) else (Err TransportDecryptFailed, s))"
    using assms(3,4) len by (simp add: session_open_def recv_open_def HEADER_SIZE_def Let_def)
  moreover have "from_be_bytes (take 4 (drop 4 ?pkt)) = slot" "from_be_bytes (take 8 (drop 8 ?pkt)) = c"
    by (simp_all add: transport_header_def)
  ultimately show ?thesis by (simp add: peer_opens_def seal_t4_packet address_packet)
qed

lemma small_cert: "parse_cert b = Ok c \<Longrightarrow> length b < 2 ^ 16"
  unfolding parse_cert_iff
  by (auto simp: wf_cert_def encode_cert_def push_field16_def codec_lens codec_limits word_le_nat_alt)

lemma example_admitted:
  assumes "sig_laws cr" "material_ok cr M" "parse_cert (im_cert M) = Ok c" "ce_sig_pubkey c = im_sig_pub M"
  shows "peer_admits cr h (interop_frame cr M h) (interop_envelope cr W M) = Some (replicate 16 0xAB)"
proof -
  have m: "length (im_sig M) = 32" "ce_sig_pubkey c = ed_public cr (im_sig M)"
    using assms(2,4) by (simp_all add: material_ok_def)
  have "parse_intent (encode_intent (interop_intent M)) = Ok (interop_intent M)"
    using assms(2) unfolding parse_intent_iff
    by (simp add: wf_intent_def interop_intent_def material_ok_def codec_lens codec_limits ascii_def)
  moreover have "length (encode_intent (interop_intent M)) \<le> unat MAX_BODY"
    using assms(2) by (simp add: interop_intent_length material_ok_def codec_limits)
  ultimately show ?thesis
    using client_envelope_parses(2) [OF assms(1) m(1), of "replicate 32 0x42" "encode_intent (interop_intent M)"]
      push_checked [OF assms(1) m(1) assms(3) m(2) small_cert [OF assms(3)], of h]
    by (simp add: peer_admits_def interop_envelope_parses [OF assms(1,2)] interop_frame_def)
      (simp add: client_envelope_def Let_def interop_intent_def)
qed

lemma example_asks:
  "starts_with (ascii ''GET /v1/intents/'' @ hex_bytes (replicate 16 0xAB) @ ascii '' '') (interop_request M)"
  "find_sub (ascii ''Authorization: Bearer '' @ im_token M @ [13, 10]) (interop_request M) \<noteq> None"
proof -
  show "starts_with (ascii ''GET /v1/intents/'' @ hex_bytes (replicate 16 0xAB) @ ascii '' '') (interop_request M)"
    by (simp add: starts_with_def interop_request_def ascii_def)
  have "interop_request M = (ascii ''GET /v1/intents/'' @ hex_bytes (replicate 16 0xAB) @ ascii '' HTTP/1.1'' @ [13, 10]
     @ ascii ''Host: 127.0.0.1'' @ [13, 10]) @ (ascii ''Authorization: Bearer '' @ im_token M @ [13, 10])
     @ ascii ''Connection: close'' @ [13, 10, 13, 10]"
    by (simp add: interop_request_def)
  then show "find_sub (ascii ''Authorization: Bearer '' @ im_token M @ [13, 10]) (interop_request M) \<noteq> None"
    using find_sub_first(1) by metis
qed

text \<open>What the peer has pending after the three packets of the example.\<close>

lemma example_pending:
  assumes "crypto_laws cr" "header_bound cr" "sig_laws cr" "material_ok cr M"
    and "parse_cert (im_cert M) = Ok c" "ce_sig_pubkey c = im_sig_pub M" "peer_reply cr sk er dk slot m1 = Some (m2, hr)"
  shows "peer_pending cr sk er dk slot
      [m1, address_t4 slot (seal_t4 cr (hr_recv_key hr) 0 (interop_frame cr M (hr_handshake_hash hr))),
       address_t4 slot (seal_t4 cr (hr_recv_key hr) 1 (interop_envelope cr W M))] =
    (if slot = 0 then Some (replicate 16 0xAB) else None)"
proof -
  let ?s = "peer_session hr" and ?w = "recv_window_new\<lparr>wi_highest := 0, wi_mask := 1\<rparr>"
  let ?s' = "?s\<lparr>se_recv := (se_recv ?s)\<lparr>rs_window := ?w\<rparr>\<rparr>"
  have key: "rs_key (se_recv ?s) = hr_recv_key hr" "rs_key (se_recv ?s') = hr_recv_key hr"
    by (simp_all add: peer_session_def)
  have window: "recv_check 0 (rs_window (se_recv ?s)) = (True, ?w)"
    "recv_check 1 (rs_window (se_recv ?s')) = (True, ?w\<lparr>wi_highest := 1\<rparr>)"
    by (simp_all add: peer_session_def recv_state_new_def recv_window_new_def recv_check_def)
  show ?thesis
    by (simp add: peer_pending_def assms(7) peer_opens_addressed [OF assms(1,2) key(1) window(1)]
        peer_opens_addressed [OF assms(1,2) key(2) window(2)] example_admitted [OF assms(3-6)])
qed

lemma stage_c_meets:
  assumes "sig_laws cr" "material_ok cr M" "iw_sends W = (\<lambda>_. True)"
  shows "stage_c cr W M hs slot \<lparr>ir_sent = sent, ir_said = said\<rparr> =
    (let sent' = sent @ [address_t4 slot (seal_t4 cr (hr_send_key hs) 1 (interop_envelope cr W M))] in
     case iw_control W sent' (interop_request M) of
       None \<Rightarrow> (Panic, \<lparr>ir_sent = sent', ir_said = said\<rparr>)
     | Some resp \<Rightarrow>
         if from_utf8 resp \<and> find_sub (ascii '' 200 '') resp \<noteq> None \<and> find_sub (ascii ''pending'') resp \<noteq> None
         then (Ok (), \<lparr>ir_sent = sent', ir_said = said @ [StageC, Complete]\<rparr>)
         else (Panic, \<lparr>ir_sent = sent', ir_said = said\<rparr>))"
  using assms(3) interop_envelope_parses [OF assms(1,2), of W]
  by (simp add: stage_c_def asserting_def expecting_def udp_send_def say_def Let_def split: option.split)

section \<open>Properties\<close>

text \<open>
  C38: Against a peer that follows the protocol, the example completes exactly when the peer's slot is 0.
  Its material loads, the node's keys are the peer's, and the peer answers the initiation, pushes
  its binding and reports on its control plane what it has pending, under the token of the
  material. In every slot the program sends its initiation, its binding frame and its intent,
  both sealed under the key that the peer receives with. In slot 0 the peer opens both,
  finds the sender bound and the envelope signed, reports the intent as pending, and every stage
  is announced. In any other slot the peer opens neither, since the header that is authenticated
  names slot 0; it answers 404 and the program panics after the two stages before.
\<close>

theorem interop_completes:
  assumes "crypto_laws cr" "header_bound cr" "sig_laws cr" "load_material cr W = Ok M" "iw_socket W"
    and "length (im_resource M) \<le> 256"
    and "im_static M = from_secret cr si" "length si = 32" "length sk = 32" "length (iw_eph W) = 32" "length er = 32"
    and "secrets_ok cr si sk (iw_eph W) er"
    and "im_daemon_static M = kp_public (from_secret cr sk)" "im_daemon_sig M = ed_public cr dk" "length dk = 32"
    and "parse_cert dcert = Ok c" "ce_sig_pubkey c = ed_public cr dk" "length dcert \<le> MAX_CERT"
    and "iw_sends W = (\<lambda>_. True)" "iw_arrives W = peer_sends cr sk er dk slot dcert"
    and "iw_control W = peer_control cr sk er dk slot (im_token M)"
  shows "\<exists>m1 m2 hr. peer_reply cr sk er dk slot m1 = Some (m2, hr)
    \<and> interop cr W = (if slot = 0 then Ok () else Panic, \<lparr>ir_sent = [m1,
          address_t4 slot (seal_t4 cr (hr_recv_key hr) 0 (interop_frame cr M (hr_handshake_hash hr))),
          address_t4 slot (seal_t4 cr (hr_recv_key hr) 1 (interop_envelope cr W M))],
        ir_said = [StageA slot, StageB1] @ (if slot = 0 then [StageC, Complete] else [])\<rparr>)"
proof -
  obtain m1 m2 hs hr where a: "stage_a cr W M \<lparr>ir_sent = [], ir_said = []\<rparr> =
      (Ok (hs, slot), \<lparr>ir_sent = [m1], ir_said = [StageA slot]\<rparr>)"
    and p: "peer_reply cr sk er dk slot m1 = Some (m2, hr)" "hr_recv_key hs = hr_send_key hr"
      "hr_send_key hs = hr_recv_key hr" "hr_handshake_hash hs = hr_handshake_hash hr"
    using stage_a_meets [OF assms(1,8-12,7,13,14,19,20)] by blast
  have ok: "material_ok cr M" using load_material_parts [OF assms(4)] assms(6) by (simp add: material_ok_def)
  obtain c' where c': "parse_cert (im_cert M) = Ok c'" "ce_sig_pubkey c' = im_sig_pub M"
    using load_material_parts(5) [OF assms(4)] by blast
  note b = stage_b_meets [OF assms(1,3,15-18,14,19,20) p, of "[StageA slot]"]
  have "interop cr W = stage_c cr W M hs slot
      \<lparr>ir_sent = [m1, address_t4 slot (seal_t4 cr (hr_recv_key hr) 0 (interop_frame cr M (hr_handshake_hash hr)))],
       ir_said = [StageA slot] @ [StageB1]\<rparr>"
    using assms(4,5) a b by (simp add: interop_def asserting_def)
  moreover note example_pending [OF assms(1-3) ok c' p(1), of W]
  ultimately show ?thesis
    using p by (intro exI [of _ m1] exI [of _ m2] exI [of _ hr])
      (simp add: stage_c_meets [OF assms(3) ok assms(19)] assms(21) peer_control_def example_asks peer_answer_texts Let_def)
qed

text \<open>A run of the example in slot 0, and one in slot 3.\<close>

definition bound_toy :: crypto where
  "bound_toy = toy_crypto\<lparr>aead_seal := (\<lambda>k n ad pt. pt @ pad_to 16 ad),
     aead_open := (\<lambda>k n ad ct.
        if length ct < 16 then None
        else if drop (length ct - 16) ct = pad_to 16 ad then Some (take (length ct - 16) ct)
        else None)\<rparr>"

lemma bound_toy_laws: "crypto_laws bound_toy" "header_bound bound_toy"
proof -
  have "x25519 bound_toy = x25519 toy_crypto" "x25519_base bound_toy = x25519_base toy_crypto"
    "blake2s_mac bound_toy = blake2s_mac toy_crypto" by (simp_all add: bound_toy_def)
  then show "crypto_laws bound_toy" using toy_crypto_laws by (simp add: crypto_laws_def) (simp add: bound_toy_def)
  show "header_bound bound_toy" by (auto simp: header_bound_def bound_toy_def pad_to_def)
qed

lemma bound_toy_public: "ed_public bound_toy k = k"
  by (simp add: bound_toy_def toy_crypto_def)

lemma bound_toy_sig_laws: "sig_laws bound_toy"
  using toy_sig_laws by (simp add: sig_laws_def bound_toy_def)

definition demo_peer :: client_keys where
  "demo_peer = \<lparr>cl_kex = from_secret bound_toy (replicate 32 2), cl_sig = replicate 32 5,
     cl_approver = replicate 32 7, cl_ca = replicate 32 8\<rparr>"

abbreviation demo_runner_cert :: bytes where "demo_runner_cert \<equiv> build_cert bound_toy demo_client 0 9"

abbreviation demo_peer_cert :: bytes where "demo_peer_cert \<equiv> build_cert bound_toy demo_peer 0 9"

definition demo_world :: "u32 \<Rightarrow> interop_world" where
  "demo_world slot = \<lparr>iw_env = (\<lambda>k. Some (if k = ascii ''ITO_RESOURCE'' then [114] else if k = ascii ''ITO_TOKEN_FILE'' then ascii ''t'' else [])),
     iw_file = (\<lambda>p. if p = ascii ''t'' then Some [] else if p = ascii ''/static.key'' then Some (replicate 32 1)
       else if p = ascii ''/sig.key'' then Some (replicate 32 6) else if p = ascii ''/static.pub'' then Some (replicate 32 11)
       else if p = ascii ''/sig.pub'' then Some (replicate 32 5) else Some demo_runner_cert),
     iw_socket = True, iw_eph = replicate 32 3, iw_clock = (\<lambda>_. 5), iw_sends = (\<lambda>_. True),
     iw_arrives = peer_sends bound_toy (replicate 32 2) (replicate 32 4) (replicate 32 5) slot demo_peer_cert,
     iw_control = peer_control bound_toy (replicate 32 2) (replicate 32 4) (replicate 32 5) slot []\<rparr>"

definition demo_material :: interop_material where
  "demo_material = \<lparr>im_static = from_secret bound_toy (replicate 32 1), im_sig = replicate 32 6, im_sig_pub = replicate 32 6,
     im_daemon_static = replicate 32 11, im_daemon_sig = replicate 32 5, im_cert = demo_runner_cert,
     im_resource = [114], im_token = []\<rparr>"

lemma demo_certs:
  "parse_cert demo_runner_cert = Ok (client_cert bound_toy demo_client 0 9)"
  "parse_cert demo_peer_cert = Ok (client_cert bound_toy demo_peer 0 9)"
  "ce_sig_pubkey (client_cert bound_toy demo_client 0 9) = replicate 32 6"
  "ce_sig_pubkey (client_cert bound_toy demo_peer 0 9) = replicate 32 5" "length demo_peer_cert = 208"
proof -
  have k: "proper_keys bound_toy demo_client" "proper_keys bound_toy demo_peer"
    by (simp_all add: proper_keys_def demo_client_def demo_peer_def)
      (simp_all add: from_secret_def bound_toy_def)
  show "parse_cert demo_runner_cert = Ok (client_cert bound_toy demo_client 0 9)"
    "parse_cert demo_peer_cert = Ok (client_cert bound_toy demo_peer 0 9)"
    using client_cert_parses [OF bound_toy_laws(1) bound_toy_sig_laws] k by blast+
  show "length demo_peer_cert = 208" by (rule build_cert_length [OF bound_toy_laws(1) bound_toy_sig_laws k(2)])
  show "ce_sig_pubkey (client_cert bound_toy demo_client 0 9) = replicate 32 6"
    "ce_sig_pubkey (client_cert bound_toy demo_peer 0 9) = replicate 32 5"
    by (simp_all add: client_cert_def demo_client_def demo_peer_def bound_toy_public Let_def)
qed

lemma demo_loads: "load_material bound_toy (demo_world slot) = Ok demo_material"
proof -
  have env: "iw_env (demo_world slot) k = Some (if k = ascii ''ITO_RESOURCE'' then [114] else if k = ascii ''ITO_TOKEN_FILE'' then ascii ''t'' else [])" for k
    by (simp add: demo_world_def)
  have files: "iw_file (demo_world slot) (ascii ''t'') = Some []" "iw_file (demo_world slot) (ascii ''/static.key'') = Some (replicate 32 1)"
    "iw_file (demo_world slot) (ascii ''/sig.key'') = Some (replicate 32 6)" "iw_file (demo_world slot) (ascii ''/static.pub'') = Some (replicate 32 11)"
    "iw_file (demo_world slot) (ascii ''/sig.pub'') = Some (replicate 32 5)" "iw_file (demo_world slot) (ascii ''/cert.bin'') = Some demo_runner_cert"
    by (simp_all add: demo_world_def ascii_def)
  have "trim [] = []" by code_simp
  moreover have "from_utf8 []" by code_simp
  moreover have "env_text (demo_world slot) ''ITO_DAEMON'' = Ok []" "env_text (demo_world slot) ''ITO_DAEMON_MAT'' = Ok []"
    "env_text (demo_world slot) ''ITO_RUNNER_MAT'' = Ok []" "env_text (demo_world slot) ''ITO_RESOURCE'' = Ok [114]"
    "env_text (demo_world slot) ''ITO_TOKEN_FILE'' = Ok (ascii ''t'')"
    by (simp_all add: env_text_def env expecting_def ascii_def)
  ultimately show ?thesis
    by (simp add: load_material_def read32_def expecting_def asserting_def files demo_certs bound_toy_public demo_material_def)
qed

theorem interop_completes_witness:
  "(\<exists>m1 b e. interop bound_toy (demo_world 0) =
     (Ok (), \<lparr>ir_sent = [m1, b, e], ir_said = [StageA 0, StageB1, StageC, Complete]\<rparr>))
   \<and> (\<exists>m1 b e. interop bound_toy (demo_world 3) = (Panic, \<lparr>ir_sent = [m1, b, e], ir_said = [StageA 3, StageB1]\<rparr>))"
proof -
  have pub: "kp_public (from_secret bound_toy (replicate 32 x)) = replicate 32 (x + 9)" for x
    by (simp add: from_secret_def bound_toy_def toy_crypto_def zip_replicate)
  have d: "dh bound_toy (replicate 32 x) (replicate 32 y) = Ok (replicate 32 (x + y))" if "x + y \<noteq> 0" for x y
    using that by (simp add: dh_def bound_toy_def toy_crypto_def zip_replicate Let_def)
  have ok: "secrets_ok bound_toy (replicate 32 1) (replicate 32 2) (iw_eph (demo_world slot)) (replicate 32 4)" for slot
    by (simp add: secrets_ok_def pub d demo_world_def)
  note t = interop_completes [OF bound_toy_laws bound_toy_sig_laws demo_loads _ _ _ _ _ _ _ ok _ _ _ demo_certs(2),
    of _ "replicate 32 5"]
  have run: "\<exists>m1 m2 hr. peer_reply bound_toy (replicate 32 2) (replicate 32 4) (replicate 32 5) slot m1 = Some (m2, hr)
    \<and> interop bound_toy (demo_world slot) = (if slot = 0 then Ok () else Panic, \<lparr>ir_sent = [m1,
          address_t4 slot (seal_t4 bound_toy (hr_recv_key hr) 0 (interop_frame bound_toy demo_material (hr_handshake_hash hr))),
          address_t4 slot (seal_t4 bound_toy (hr_recv_key hr) 1 (interop_envelope bound_toy (demo_world slot) demo_material))],
        ir_said = [StageA slot, StageB1] @ (if slot = 0 then [StageC, Complete] else [])\<rparr>)" for slot
    by (rule t) (simp_all add: demo_material_def pub bound_toy_public demo_certs(4,5) MAX_CERT_def, simp_all add: demo_world_def)
  have "\<exists>m1 b e. interop bound_toy (demo_world 0) =
      (Ok (), \<lparr>ir_sent = [m1, b, e], ir_said = [StageA 0, StageB1, StageC, Complete]\<rparr>)"
    using run [of 0] by auto
  moreover have "\<exists>m1 b e. interop bound_toy (demo_world 3) =
      (Panic, \<lparr>ir_sent = [m1, b, e], ir_said = [StageA 3, StageB1]\<rparr>)"
    using run [of 3] by auto
  ultimately show ?thesis ..
qed

text \<open>
  The example is written for another implementation of the node, whose control plane names an intent
  by the 32 digits of its id. The control plane of this crate wants 64 and answers 400.
\<close>

lemma example_id_refused_here: "parse_id_hex (hex_bytes (replicate 16 0xAB)) = Err BadRequest"
  by code_simp

text \<open>
  A packet that the example seals for a node opens there exactly when the node's slot is 0:
  the header it authenticates carries receiver 0, and the index of the node is written over it
  afterwards.
\<close>

theorem interop_reaches_slot_0:
  assumes "crypto_laws cr" "header_bound cr" "rs_key (se_recv s) = key" "fst (recv_check c (rs_window (se_recv s)))"
  shows "fst (session_open cr (address_t4 slot (seal_t4 cr key c pt)) c (length pt + 32) s) = Ok pt \<longleftrightarrow> slot = 0"
  using addressed_opens [OF assms, of slot pt] by simp

lemma interop_reaches_slot_0_witness:
  "fst (session_open bound_toy (address_t4 0 (seal_t4 bound_toy (replicate 32 7) 0 [9])) 0 33
      (session_new\<lparr>se_recv := recv_state_new\<lparr>rs_key := replicate 32 7\<rparr>\<rparr>)) = Ok [9]
   \<and> fst (session_open bound_toy (address_t4 1 (seal_t4 bound_toy (replicate 32 7) 0 [9])) 0 33
      (session_new\<lparr>se_recv := recv_state_new\<lparr>rs_key := replicate 32 7\<rparr>\<rparr>)) \<noteq> Ok [9]"
proof -
  have w: "fst (recv_check 0 (rs_window (se_recv (session_new\<lparr>se_recv := recv_state_new\<lparr>rs_key := replicate 32 7\<rparr>\<rparr>))))"
    by (simp add: session_new_def recv_state_new_def recv_window_new_def recv_check_def)
  note t = interop_reaches_slot_0 [OF bound_toy_laws _ w, of "replicate 32 7" _ "[9]"]
  show ?thesis using t [of 0] t [of 1] by simp
qed

end
