(* ===== verification/Tools.thy ===== *)
theory Tools
  imports RustText Codec
begin

text \<open>
  The test tools of the repository. The round trip of the vectors (src/tools/cross-diff/src/main.rs), the
  fuzzer (src/tools/chaos-rs/src/main.rs) with its mutations and its split of the work, and the
  campaign of source mutants (src/tools/mutation-test-rs/src/main.rs). The random generator, the decoder
  of hexadecimal text, the file system and the test command are arguments. The lemmas show
  that a vector passes exactly when its parser accepts it, that the fuzzer's inputs stay in its
  buffer and its workers share the inputs of a seed, and when a campaign leaves the sources unchanged.
\<close>

unbundle bit_operations_syntax

section \<open>The round trip of the vectors\<close>

datatype vector_error =
    MissingWireHex | InvalidWireHex | VectorParseFailed parse_error | UnknownStructure bytes | VectorMismatch bytes bytes

text \<open>A structure is its \<open>wire_hex\<close> field, if there is one.\<close>

text \<open>Parsing a structure by its name and encoding the result again.\<close>

definition reencode :: "bytes \<Rightarrow> bytes \<Rightarrow> (bytes, vector_error) outcome" where
  "reencode name wire =
     (if name = ascii ''cert'' then and_then (map_err VectorParseFailed (parse_cert wire)) (\<lambda>c. Ok (encode_cert c))
      else if name = ascii ''envelope_intent'' \<or> name = ascii ''effect''
      then and_then (map_err VectorParseFailed (parse_envelope wire)) (\<lambda>e. Ok (encode_envelope e))
      else if name = ascii ''span'' then and_then (map_err VectorParseFailed (parse_span wire)) (\<lambda>s. Ok (encode_span s))
      else if name = ascii ''grant'' then and_then (map_err VectorParseFailed (parse_grant wire)) (\<lambda>g. Ok (encode_grant g))
      else if name = ascii ''refusal'' then and_then (map_err VectorParseFailed (parse_refusal wire)) (\<lambda>r. Ok (encode_refusal r))
      else Err (UnknownStructure name))"

definition validate_structure ::
  "(bytes \<Rightarrow> bytes option) \<Rightarrow> bytes \<Rightarrow> bytes option \<Rightarrow> (unit, vector_error) outcome" where
  "validate_structure unhex name wh =
     and_then (ok_or MissingWireHex wh) (\<lambda>wire_hex.
     and_then (ok_or InvalidWireHex (unhex wire_hex)) (\<lambda>wire.
     and_then (reencode name wire) (\<lambda>result.
     if result \<noteq> wire then Err (VectorMismatch wire result) else Ok ())))"

text \<open>The counts of passed and failed structures; a claim is skipped.\<close>

fun cross_diff :: "(bytes \<Rightarrow> bytes option) \<Rightarrow> (bytes \<times> bytes option) list \<Rightarrow> (nat \<times> nat, unit) outcome" where
  "cross_diff unhex [] = Ok (0, 0)"
| "cross_diff unhex ((name, wh) # rest) =
     (if name = ascii ''claim'' then cross_diff unhex rest
      else case validate_structure unhex name wh of
        Panic \<Rightarrow> Panic
      | Ok _ \<Rightarrow> and_then (cross_diff unhex rest) (\<lambda>(passed, failed). Ok (passed + 1, failed))
      | Err e \<Rightarrow> and_then (cross_diff unhex rest) (\<lambda>(passed, failed). Ok (passed, failed + 1)))"

definition cross_exit :: "(nat \<times> nat, unit) outcome \<Rightarrow> (nat, unit) outcome" where
  "cross_exit r = and_then r (\<lambda>(passed, failed). Ok (if failed > 0 then 1 else 0))"

text \<open>Which bytes the parser of a structure accepts.\<close>

definition structure_accepts :: "bytes \<Rightarrow> bytes \<Rightarrow> bool" where
  "structure_accepts name wire \<longleftrightarrow>
     (name = ascii ''cert'' \<and> parse_cert wire \<in> range Ok)
     \<or> ((name = ascii ''envelope_intent'' \<or> name = ascii ''effect'') \<and> parse_envelope wire \<in> range Ok)
     \<or> (name = ascii ''span'' \<and> parse_span wire \<in> range Ok)
     \<or> (name = ascii ''grant'' \<and> parse_grant wire \<in> range Ok)
     \<or> (name = ascii ''refusal'' \<and> parse_refusal wire \<in> range Ok)"

definition vector_passes :: "(bytes \<Rightarrow> bytes option) \<Rightarrow> bytes \<times> bytes option \<Rightarrow> bool" where
  "vector_passes unhex nv = (case Option.bind (snd nv) unhex of None \<Rightarrow> False | Some wire \<Rightarrow> structure_accepts (fst nv) wire)"

lemma structure_names [simp]:
  "ascii ''cert'' \<noteq> ascii ''envelope_intent''" "ascii ''cert'' \<noteq> ascii ''effect''" "ascii ''cert'' \<noteq> ascii ''span''"
  "ascii ''cert'' \<noteq> ascii ''grant''" "ascii ''cert'' \<noteq> ascii ''refusal''" "ascii ''envelope_intent'' \<noteq> ascii ''span''"
  "ascii ''envelope_intent'' \<noteq> ascii ''grant''" "ascii ''envelope_intent'' \<noteq> ascii ''refusal''" "ascii ''effect'' \<noteq> ascii ''span''"
  "ascii ''effect'' \<noteq> ascii ''grant''" "ascii ''effect'' \<noteq> ascii ''refusal''" "ascii ''span'' \<noteq> ascii ''grant''"
  "ascii ''span'' \<noteq> ascii ''refusal''" "ascii ''grant'' \<noteq> ascii ''refusal''"
  by (simp_all add: ascii_def)

text \<open>A parser that accepts canonical encodings only, followed by its encoder.\<close>

lemma map_parse_encode:
  assumes "\<And>x. parse b = Ok x \<Longrightarrow> encode x = b" "parse b \<noteq> Panic"
  shows "and_then (map_err VectorParseFailed (parse b)) (\<lambda>x. Ok (encode x)) =
    (case parse b of Ok _ \<Rightarrow> Ok b | Err e \<Rightarrow> Err (VectorParseFailed e) | Panic \<Rightarrow> Panic)"
  using assms by (cases "parse b") simp_all

lemma parse_encodes:
  "and_then (map_err VectorParseFailed (parse_cert b)) (\<lambda>x. Ok (encode_cert x)) =
     (case parse_cert b of Ok _ \<Rightarrow> Ok b | Err e \<Rightarrow> Err (VectorParseFailed e) | Panic \<Rightarrow> Panic)"
  "and_then (map_err VectorParseFailed (parse_envelope b)) (\<lambda>x. Ok (encode_envelope x)) =
     (case parse_envelope b of Ok _ \<Rightarrow> Ok b | Err e \<Rightarrow> Err (VectorParseFailed e) | Panic \<Rightarrow> Panic)"
  "and_then (map_err VectorParseFailed (parse_span b)) (\<lambda>x. Ok (encode_span x)) =
     (case parse_span b of Ok _ \<Rightarrow> Ok b | Err e \<Rightarrow> Err (VectorParseFailed e) | Panic \<Rightarrow> Panic)"
  "and_then (map_err VectorParseFailed (parse_grant b)) (\<lambda>x. Ok (encode_grant x)) =
     (case parse_grant b of Ok _ \<Rightarrow> Ok b | Err e \<Rightarrow> Err (VectorParseFailed e) | Panic \<Rightarrow> Panic)"
  "and_then (map_err VectorParseFailed (parse_refusal b)) (\<lambda>x. Ok (encode_refusal x)) =
     (case parse_refusal b of Ok _ \<Rightarrow> Ok b | Err e \<Rightarrow> Err (VectorParseFailed e) | Panic \<Rightarrow> Panic)"
  by (rule map_parse_encode; simp add: parse_cert_iff parse_cert_total parse_envelope_iff parse_envelope_total parse_span_iff
      parse_span_total parse_grant_iff parse_grant_total parse_refusal_iff parse_refusal_total)+

lemma accepted_iff: "p \<in> range Ok \<longleftrightarrow> (case p of Ok _ \<Rightarrow> True | _ \<Rightarrow> False)"
  by (cases p) auto

lemma reencode_cases:
  "if structure_accepts name wire then reencode name wire = Ok wire
   else \<exists>e. reencode name wire = Err e \<and> (\<forall>w r. e \<noteq> VectorMismatch w r)"
proof -
  consider "name = ascii ''cert''" | "name = ascii ''envelope_intent'' \<or> name = ascii ''effect''" | "name = ascii ''span''"
    | "name = ascii ''grant''" | "name = ascii ''refusal''"
    | "name \<notin> {ascii ''cert'', ascii ''envelope_intent'', ascii ''effect'', ascii ''span'', ascii ''grant'', ascii ''refusal''}"
    by auto
  then show ?thesis
  proof cases
    case 1
    then show ?thesis
      using parse_cert_total [of wire] by (simp add: structure_accepts_def reencode_def parse_encodes accepted_iff split: outcome.split)
  next
    case 2
    then show ?thesis
      using parse_envelope_total [of wire]
      by (auto simp: structure_accepts_def reencode_def parse_encodes accepted_iff structure_names [symmetric] split: outcome.split)
  next
    case 3
    then show ?thesis
      using parse_span_total [of wire]
      by (simp add: structure_accepts_def reencode_def parse_encodes accepted_iff structure_names [symmetric] split: outcome.split)
  next
    case 4
    then show ?thesis
      using parse_grant_total [of wire]
      by (simp add: structure_accepts_def reencode_def parse_encodes accepted_iff structure_names [symmetric] split: outcome.split)
  next
    case 5
    then show ?thesis
      using parse_refusal_total [of wire]
      by (simp add: structure_accepts_def reencode_def parse_encodes accepted_iff structure_names [symmetric] split: outcome.split)
  qed (simp add: structure_accepts_def reencode_def)
qed

lemma validate_structure_cases:
  "if vector_passes unhex (name, wh) then validate_structure unhex name wh = Ok ()
   else \<exists>e. validate_structure unhex name wh = Err e \<and> (\<forall>w r. e \<noteq> VectorMismatch w r)"
proof (cases "Option.bind wh unhex")
  case None
  then show ?thesis by (cases wh) (simp_all add: vector_passes_def validate_structure_def ok_or_def)
next
  case (Some wire)
  then obtain hex where "wh = Some hex" "unhex hex = Some wire" by (cases wh) auto
  then show ?thesis
    using reencode_cases [of name wire] by (auto simp: vector_passes_def validate_structure_def ok_or_def split: if_splits)
qed

text \<open>
  The tool that replays the vectors passes a structure exactly when it carries a hexadecimal
  wire form which the parser of its name accepts, and the comparison of bytes never reports a mismatch,
  since the parsers accept canonical encodings only. It never panics, counts every structure but the
  claims and exits with 1 exactly when one of them fails.
\<close>

theorem cross_diff_exact:
  "let counted = filter (\<lambda>nv. fst nv \<noteq> ascii ''claim'') vectors;
       passed = length (filter (vector_passes unhex) counted) in
   cross_diff unhex vectors = Ok (passed, length counted - passed)
   \<and> cross_exit (cross_diff unhex vectors) = Ok (if list_all (vector_passes unhex) counted then 0 else 1)
   \<and> validate_structure unhex name wh \<noteq> Err (VectorMismatch w r)"
proof -
  define counted where "counted = filter (\<lambda>nv. fst nv \<noteq> ascii ''claim'') vectors"
  define failed where "failed = filter (\<lambda>nv. \<not> vector_passes unhex nv) counted"
  have run: "cross_diff unhex vectors = Ok (length (filter (vector_passes unhex) counted), length failed)"
    unfolding counted_def failed_def
  proof (induction vectors)
    case (Cons nv vectors)
    then show ?case
      using validate_structure_cases [of unhex "fst nv" "snd nv"] by (cases nv) (auto split: if_splits)
  qed simp
  have "length failed = length counted - length (filter (vector_passes unhex) counted)"
    using sum_length_filter_compl [of "vector_passes unhex" counted] by (simp add: failed_def)
  moreover have "failed = [] \<longleftrightarrow> list_all (vector_passes unhex) counted"
    by (simp add: failed_def filter_empty_conv list_all_iff)
  moreover have "cross_exit (cross_diff unhex vectors) = Ok (if failed = [] then 0 else 1)"
    by (simp add: run cross_exit_def)
  moreover have "validate_structure unhex name wh \<noteq> Err (VectorMismatch w r)"
    using validate_structure_cases [of unhex name wh] by (auto split: if_splits)
  ultimately show ?thesis by (simp add: run Let_def counted_def [symmetric])
qed

section \<open>The fuzzer\<close>

text \<open>
  The generator is its state with the two draws the tool makes: a number from a range (the upper end
  excluded, an empty range panics) and a byte.
\<close>

record 'g rng =
  rng_range :: "nat \<Rightarrow> nat \<Rightarrow> 'g \<Rightarrow> nat \<times> 'g"
  rng_byte :: "'g \<Rightarrow> u8 \<times> 'g"

definition gen_range :: "'g rng \<Rightarrow> nat \<Rightarrow> nat \<Rightarrow> 'g \<Rightarrow> (nat, unit) outcome \<times> 'g" where
  "gen_range R lo hi g = (if lo < hi then (case rng_range R lo hi g of (n, g) \<Rightarrow> (Ok n, g)) else (Panic, g))"

text \<open>Filling the bytes from a place on with drawn ones.\<close>

primrec fill :: "'g rng \<Rightarrow> nat \<Rightarrow> nat \<Rightarrow> bytes \<Rightarrow> 'g \<Rightarrow> bytes \<times> 'g" where
  "fill R i 0 buf g = (buf, g)"
| "fill R i (Suc n) buf g = (case rng_byte R g of (b, g) \<Rightarrow> fill R (i + 1) n (buf[i := b]) g)"

definition CANONICAL_SEEDS :: "u64 list" where
  "CANONICAL_SEEDS = [108230699740769, 42, 1337, 999999, 3735928559]"
definition MAX_INPUT :: nat where "MAX_INPUT = 1024"
definition MUTATE_RATIO :: nat where "MUTATE_RATIO = 40"

text \<open>The rounds of a mutation over the first \<open>len\<close> bytes; the result is the length of the input in the buffer.\<close>

primrec mutate_loop :: "'g rng \<Rightarrow> nat \<Rightarrow> nat \<Rightarrow> bytes \<times> 'g \<Rightarrow> (nat, unit) outcome \<times> bytes \<times> 'g" where
  "mutate_loop R len 0 bg = (Ok len, bg)"
| "mutate_loop R len (Suc k) bg =
     (case bg of (buf, g) \<Rightarrow>
      case gen_range R 0 len g of (Ok idx, g) \<Rightarrow>
        (case gen_range R 0 5 g of (Ok op, g) \<Rightarrow>
           if op = 0 then
             (case gen_range R 0 3 g of
                (Ok sh, g) \<Rightarrow> mutate_loop R len k (buf[idx := buf ! idx XOR push_bit sh 1], g)
              | (_, g) \<Rightarrow> (Panic, buf, g))
           else if op = 1 then (case rng_byte R g of (b, g) \<Rightarrow> mutate_loop R len k (buf[idx := b], g))
           else if op = 2 then
             (case gen_range R 0 len g of (Ok n, g) \<Rightarrow> (Ok (n + 1), buf, g) | (_, g) \<Rightarrow> (Panic, buf, g))
           else if op = 3 then mutate_loop R len k (buf[idx := (if buf ! idx = 0 then 255 else 0)], g)
           else if len \<ge> length buf then mutate_loop R len k (buf, g)
           else (case gen_range R 0 8 g of
                (Ok n, g) \<Rightarrow>
                  let extra = min (1 + n) (length buf - len); (buf, g) = fill R len extra buf g
                  in (Ok (len + extra), buf, g)
              | (_, g) \<Rightarrow> (Panic, buf, g))
         | (_, g) \<Rightarrow> (Panic, buf, g))
      | (_, g) \<Rightarrow> (Panic, buf, g))"

definition mutate :: "'g rng \<Rightarrow> bytes \<Rightarrow> bytes \<times> 'g \<Rightarrow> (nat, unit) outcome \<times> bytes \<times> 'g" where
  "mutate R seed bg =
     (case bg of (buf, g) \<Rightarrow>
      let len = min (length seed) (length buf); buf = take len seed @ drop len buf in
      case gen_range R 0 3 g of
        (Ok k, g) \<Rightarrow> mutate_loop R len (1 + k) (buf, g)
      | (_, g) \<Rightarrow> (Panic, buf, g))"

definition next_input :: "'g rng \<Rightarrow> bytes list \<Rightarrow> bytes \<times> 'g \<Rightarrow> (nat, unit) outcome \<times> bytes \<times> 'g" where
  "next_input R corpus bg =
     (case bg of (buf, g) \<Rightarrow>
      case gen_range R 0 100 g of (Ok pick, g) \<Rightarrow>
        if pick < MUTATE_RATIO then
          (case gen_range R 0 (length corpus) g of
             (Ok i, g) \<Rightarrow> mutate R (corpus ! i) (buf, g)
           | (_, g) \<Rightarrow> (Panic, buf, g))
        else
          (case gen_range R 1 (MAX_INPUT + 1) g of
             (Ok len, g) \<Rightarrow> (Ok len, fill R 0 len buf g)
           | (_, g) \<Rightarrow> (Panic, buf, g))
      | (_, g) \<Rightarrow> (Panic, buf, g))"

definition try_parse :: "bytes \<Rightarrow> bool" where
  "try_parse input \<longleftrightarrow>
     parse_envelope input \<in> range Ok \<or> parse_intent input \<in> range Ok \<or> parse_grant input \<in> range Ok
     \<or> parse_span input \<in> range Ok \<or> parse_cert input \<in> range Ok \<or> parse_refusal input \<in> range Ok"

text \<open>The sum of the golden-ratio term of the round and the term of the worker, wrapping.\<close>

definition effective_seed :: "u64 \<Rightarrow> u64 \<Rightarrow> u64 \<Rightarrow> u64" where
  "effective_seed base rnd worker = base + rnd * 0x9E3779B97F4A7C15 + worker * 0x2545F4914F6CDD1D"

text \<open>
  One worker over its part of the inputs of a seed: the counts of accepted and of seen inputs. The next
  index is a checked sum, as in a build with overflow checks.
\<close>

function worker_loop :: "'g rng \<Rightarrow> bytes list \<Rightarrow> nat \<Rightarrow> nat \<Rightarrow> nat \<Rightarrow> bytes \<times> 'g \<Rightarrow> nat \<times> nat \<Rightarrow> (nat \<times> nat, unit) outcome \<times> bytes \<times> 'g" where
  "worker_loop R corpus ips wc i bg counts =
     (if i < ips then
        (case (counts, next_input R corpus bg) of
           ((accepted, seen), (Ok n, buf, g)) \<Rightarrow>
             if i + max wc 1 \<ge> 2 ^ 64 then (Panic, buf, g)
             else worker_loop R corpus ips wc (i + max wc 1) (buf, g)
               (if try_parse (take n buf) then accepted + 1 else accepted, seen + 1)
         | (_, (_, bg)) \<Rightarrow> (Panic, bg))
      else (Ok counts, bg))"
  by auto
termination by (relation "measure (\<lambda>(R, corpus, ips, wc, i, bg, counts). ips - i)") auto

declare worker_loop.simps [simp del]

text \<open>The whole run of a worker: every canonical seed with a fresh generator and a fresh buffer; the sums of both counts.\<close>

fun fuzz :: "'g rng \<Rightarrow> (u64 \<Rightarrow> 'g) \<Rightarrow> bytes list \<Rightarrow> nat \<Rightarrow> u64 \<Rightarrow> u64 \<Rightarrow> u64 \<Rightarrow> u64 list \<Rightarrow> (nat \<times> nat, unit) outcome" where
  "fuzz R seed_from corpus ips rnd worker wc [] = Ok (0, 0)"
| "fuzz R seed_from corpus ips rnd worker wc (base # seeds) =
     and_then (fst (worker_loop R corpus ips (unat wc) (unat worker)
       (replicate MAX_INPUT 0, seed_from (effective_seed base rnd worker)) (0, 0))) (\<lambda>(accepted, seen).
     and_then (fuzz R seed_from corpus ips rnd worker wc seeds) (\<lambda>(a, s). Ok (accepted + a, seen + s)))"

section \<open>The fuzzer's inputs\<close>

definition rng_ok :: "'g rng \<Rightarrow> bool" where
  "rng_ok R \<longleftrightarrow> (\<forall>lo hi g. lo < hi \<longrightarrow> lo \<le> fst (rng_range R lo hi g) \<and> fst (rng_range R lo hi g) < hi)"

definition corpus_ok :: "bytes list \<Rightarrow> bool" where
  "corpus_ok corpus \<longleftrightarrow> corpus \<noteq> [] \<and> [] \<notin> set corpus"

text \<open>An input inside the buffer, whose size does not change.\<close>

definition input_ok :: "nat \<Rightarrow> (nat, unit) outcome \<times> bytes \<times> 'g \<Rightarrow> bool" where
  "input_ok cap r = (case r of (Ok n, buf, g) \<Rightarrow> 1 \<le> n \<and> n \<le> cap \<and> length buf = cap | _ \<Rightarrow> False)"

lemma input_ok_simps [simp]:
  "input_ok cap (Ok n, buf, g) \<longleftrightarrow> 1 \<le> n \<and> n \<le> cap \<and> length buf = cap" "\<not> input_ok cap (Panic, bg)" "\<not> input_ok cap (Err e, bg)"
  by (auto simp: input_ok_def split: prod.splits)

lemma gen_range_cases:
  assumes "rng_ok R" "lo < hi"
  obtains n g' where "gen_range R lo hi g = (Ok n, g')" "lo \<le> n" "n < hi"
proof (cases "rng_range R lo hi g")
  case (Pair n g')
  then have "lo \<le> n" "n < hi" using assms unfolding rng_ok_def by (metis fst_conv)+
  with Pair assms that show ?thesis by (simp add: gen_range_def)
qed

lemma length_fill: "length (fst (fill R i n buf g)) = length buf"
  by (induction n arbitrary: i buf g) (simp_all split: prod.split)

lemma mutate_loop_ok:
  assumes R: "rng_ok R" and len: "0 < len" "len \<le> length buf"
  shows "input_ok (length buf) (mutate_loop R len k (buf, g))"
  using len(2)
proof (induction k arbitrary: buf g)
  case (Suc k)
  obtain idx g1 where idx: "gen_range R 0 len g = (Ok idx, g1)" by (rule gen_range_cases [OF R len(1)])
  obtain op g2 where op: "gen_range R 0 5 g1 = (Ok op, g2)" by (rule gen_range_cases [OF R, of 0 5]) simp
  obtain sh g3 where sh: "gen_range R 0 3 g2 = (Ok sh, g3)" by (rule gen_range_cases [OF R, of 0 3]) simp
  obtain n g4 where n: "gen_range R 0 len g2 = (Ok n, g4)" "n < len" by (rule gen_range_cases [OF R len(1)])
  obtain e g5 where e: "gen_range R 0 8 g2 = (Ok e, g5)" by (rule gen_range_cases [OF R, of 0 8]) simp
  obtain b g6 where b: "rng_byte R g2 = (b, g6)" by fastforce
  define extra where "extra = min (1 + e) (length buf - len)"
  obtain buf' g7 where f: "fill R len extra buf g5 = (buf', g7)" by fastforce
  have step: "input_ok (length buf) (mutate_loop R len k (buf[idx := x], g))" for x g
    using Suc.IH [of "buf[idx := x]"] Suc.prems by simp
  note draws = idx op sh n(1) e b
  consider "op = 0" | "op = 1" | "op = 2" | "op = 3" | "op \<notin> {0, 1, 2, 3}" "length buf \<le> len"
    | "op \<notin> {0, 1, 2, 3}" "len < length buf" by fastforce
  then show ?case
  proof cases
    case 3
    with n(2) Suc.prems show ?thesis by (simp add: draws)
  next
    case 5
    with Suc.IH [OF Suc.prems, of g2] show ?thesis by (simp add: draws)
  next
    case 6
    have "length buf' = length buf" using length_fill [of R len extra buf g5] f by simp
    moreover have "len + extra \<le> length buf" using 6(2) by (simp add: extra_def)
    ultimately show ?thesis using 6 len(1) by (simp add: draws Let_def extra_def [symmetric, simplified] f)
  qed (simp_all add: draws step)
qed (use len in simp)

lemma next_input_ok:
  assumes R: "rng_ok R" and corpus: "corpus_ok corpus" and buf: "length buf = MAX_INPUT"
  shows "input_ok MAX_INPUT (next_input R corpus (buf, g))"
proof -
  obtain pick g1 where pick: "gen_range R 0 100 g = (Ok pick, g1)" by (rule gen_range_cases [OF R, of 0 100]) simp
  obtain i g2 where i: "gen_range R 0 (length corpus) g1 = (Ok i, g2)" "i < length corpus"
    by (rule gen_range_cases [OF R, of 0 "length corpus"]) (use corpus in \<open>simp add: corpus_ok_def\<close>)
  obtain len g3 where len: "gen_range R 1 (MAX_INPUT + 1) g1 = (Ok len, g3)" "1 \<le> len" "len < MAX_INPUT + 1"
    by (rule gen_range_cases [OF R, of 1 "MAX_INPUT + 1"]) (simp add: MAX_INPUT_def)
  obtain k g4 where k: "gen_range R 0 3 g2 = (Ok k, g4)" by (rule gen_range_cases [OF R, of 0 3]) simp
  define n where "n = min (length (corpus ! i)) (length buf)"
  define b where "b = take n (corpus ! i) @ drop n buf"
  have "corpus ! i \<noteq> []" using corpus i(2) unfolding corpus_ok_def by (metis nth_mem)
  then have pos: "0 < n" using buf by (simp add: MAX_INPUT_def n_def)
  have cap: "length b = MAX_INPUT" "n \<le> length b" using buf by (auto simp: b_def n_def)
  have "input_ok MAX_INPUT (mutate_loop R n (1 + k) (b, g4))"
    using mutate_loop_ok [OF R pos cap(2)] unfolding cap(1) .
  then have "input_ok MAX_INPUT (mutate R (corpus ! i) (buf, g2))"
    unfolding mutate_def Let_def prod.case n_def [symmetric] b_def [symmetric] k outcome.case .
  moreover have "input_ok MAX_INPUT (Ok len, fill R 0 len buf g3)"
    using len buf length_fill [of R 0 len buf g3] by (cases "fill R 0 len buf g3") simp
  ultimately show ?thesis by (simp add: next_input_def pick i(1) len(1) [simplified])
qed

section \<open>The workers share the inputs\<close>

definition share :: "nat \<Rightarrow> nat \<Rightarrow> nat \<Rightarrow> nat" where
  "share ips wc i = card {j \<in> {i..<ips}. j mod wc = i mod wc}"

lemma share_step:
  assumes "0 < wc" "i < ips"
  shows "share ips wc i = Suc (share ips wc (i + wc))"
proof -
  have "{j \<in> {i..<ips}. j mod wc = i mod wc} = insert i {j \<in> {i + wc..<ips}. j mod wc = (i + wc) mod wc}"
    (is "?A = insert i ?B")
  proof (intro equalityI subsetI)
    fix j assume j: "j \<in> ?A"
    show "j \<in> insert i ?B"
    proof (cases "j = i")
      case False
      with j have "i < j" "wc dvd j - i" by (auto simp: mod_eq_dvd_iff_nat)
      then have "i + wc \<le> j" using dvd_imp_le [of wc "j - i"] by simp
      with j show ?thesis by simp
    qed simp
  qed (use assms in auto)
  moreover have "i \<notin> ?B" using assms by simp
  ultimately show ?thesis by (simp add: share_def)
qed

lemma worker_loop_share:
  assumes R: "rng_ok R" and corpus: "corpus_ok corpus" and wc: "0 < wc" "ips + wc \<le> 2 ^ 64" and buf: "length buf = MAX_INPUT"
  shows "\<exists>a. fst (worker_loop R corpus ips wc i (buf, g) (accepted, seen)) = Ok (a, seen + share ips wc i)
    \<and> a \<le> accepted + share ips wc i"
  using buf
proof (induction "ips - i" arbitrary: i buf g accepted seen rule: less_induct)
  case less
  show ?case
  proof (cases "i < ips")
    case True
    obtain n buf' g' where input: "next_input R corpus (buf, g) = (Ok n, buf', g')" and buf': "length buf' = MAX_INPUT"
      using next_input_ok [OF R corpus less.prems, of g] by (auto simp: input_ok_def split: prod.splits outcome.splits)
    let ?a = "if try_parse (take n buf') then accepted + 1 else accepted"
    obtain a where a: "fst (worker_loop R corpus ips wc (i + wc) (buf', g') (?a, seen + 1))
        = Ok (a, seen + 1 + share ips wc (i + wc))" "a \<le> ?a + share ips wc (i + wc)"
      using less.hyps [where i = "i + wc" and buf = buf' and g = g' and accepted = ?a and seen = "seen + 1"] True wc buf'
      by (metis add_diff_cancel_left' diff_diff_left diff_less zero_less_diff)
    have "\<not> i + max wc 1 \<ge> 2 ^ 64" "max wc 1 = wc" using True wc by simp_all
    then show ?thesis
      using True a share_step [OF wc(1) True]
      by (subst worker_loop.simps) (auto simp: input split: if_splits)
  next
    case False
    then have "share ips wc i = 0" by (simp add: share_def)
    with False show ?thesis by (subst worker_loop.simps) simp
  qed
qed

lemma shares_sum: "0 < wc \<Longrightarrow> (\<Sum>i<wc. share ips wc i) = ips"
proof -
  assume wc: "0 < wc"
  have sub: "{j \<in> {i..<ips}. j mod wc = i mod wc} = {j \<in> {..<ips}. j mod wc = i}" if "i < wc" for i
    using that mod_less_eq_dividend [of _ wc] by fastforce
  have "(\<Sum>i<wc. share ips wc i) = (\<Sum>i<wc. card {j \<in> {..<ips}. j mod wc = i})"
    by (rule sum.cong) (simp_all only: share_def sub lessThan_iff)
  also have "\<dots> = card (\<Union>i\<in>{..<wc}. {j \<in> {..<ips}. j mod wc = i})"
    by (subst card_UN_disjoint) auto
  also have "(\<Union>i\<in>{..<wc}. {j \<in> {..<ips}. j mod wc = i}) = {..<ips}" using wc by auto
  finally show ?thesis by simp
qed

text \<open>
  Run with the numbers 0 to \<open>wc - 1\<close>, the workers of the fuzzer share the inputs of a seed exactly: each run ends
  without a panic after its share, the inputs congruent to its number, and the shares add up
  to the number of inputs. Every input they draw is inside the buffer, which keeps its size.
\<close>

theorem workers_share_inputs:
  assumes "rng_ok R" "corpus_ok corpus" "0 < wc" "ips + wc \<le> 2 ^ 64" "length buf = MAX_INPUT" "i < wc"
  shows "(\<exists>a. fst (worker_loop R corpus ips wc i (buf, g) (0, 0)) = Ok (a, share ips wc i) \<and> a \<le> share ips wc i)
    \<and> (\<Sum>j<wc. share ips wc j) = ips \<and> input_ok MAX_INPUT (next_input R corpus (buf, g))"
  using worker_loop_share [OF assms(1-5), of i g 0 0] shares_sum [OF assms(3)] next_input_ok [OF assms(1,2,5)] by simp

text \<open>A generator that always draws the lowest number.\<close>

definition low_rng :: "unit rng" where
  "low_rng = \<lparr>rng_range = (\<lambda>lo hi g. (lo, g)), rng_byte = (\<lambda>g. (0, g))\<rparr>"

theorem workers_share_inputs_witness:
  "(\<exists>a. fst (worker_loop low_rng [[1]] 10 4 1 (replicate MAX_INPUT 0, ()) (0, 0)) = Ok (a, share 10 4 1) \<and> a \<le> share 10 4 1)
   \<and> (\<Sum>j<4. share 10 4 j) = 10 \<and> input_ok MAX_INPUT (next_input low_rng [[1]] (replicate MAX_INPUT 0, ()))"
  by (rule workers_share_inputs) (simp_all add: low_rng_def rng_ok_def corpus_ok_def)

section \<open>The campaign of source mutants\<close>

record mutant_spec =
  mu_domain :: bytes
  mu_file :: bytes
  mu_anchor :: bytes
  mu_replacement :: bytes
  mu_equivalent :: bool

datatype apply_error = MutantReadFailed | AnchorNotFound bytes | ReplacementIdentical | MutantWriteFailed

text \<open>The sources by path; whether a path opens for writing and what the test command answers are arguments.\<close>

type_synonym sources = "bytes \<rightharpoonup> bytes"

text \<open>A text with the first occurrence of a part replaced.\<close>

definition replace_first :: "bytes \<Rightarrow> bytes \<Rightarrow> bytes \<Rightarrow> bytes" where
  "replace_first part new text =
     (case find_sub part text of None \<Rightarrow> text | Some i \<Rightarrow> take i text @ new @ drop (i + length part) text)"

definition read_source :: "bytes \<Rightarrow> sources \<Rightarrow> (bytes, apply_error) outcome" where
  "read_source path fs =
     (case fs path of None \<Rightarrow> Err MutantReadFailed
      | Some content \<Rightarrow> if from_utf8 content then Ok content else Err MutantReadFailed)"

definition write_source ::
  "(bytes \<Rightarrow> bool) \<Rightarrow> bytes \<Rightarrow> bytes \<Rightarrow> sources \<Rightarrow> (unit, apply_error) outcome \<times> sources" where
  "write_source writable path content fs =
     (if writable path then (Ok (), fs(path \<mapsto> content)) else (Err MutantWriteFailed, fs))"

text \<open>The start of the anchor that is shown; a slice that ends inside a character panics.\<close>

definition shown_anchor :: "bytes \<Rightarrow> (bytes, 'e) outcome" where
  "shown_anchor anchor =
     (if length anchor > 80 \<and> anchor ! 80 AND 0xC0 = 0x80 then Panic else Ok (take 80 anchor))"

definition apply_mutant ::
  "(bytes \<Rightarrow> bool) \<Rightarrow> mutant_spec \<Rightarrow> sources \<Rightarrow> (unit, apply_error) outcome \<times> sources" where
  "apply_mutant writable m fs =
     then_state (read_source (mu_file m) fs, fs) (\<lambda>content fs.
     if find_sub (mu_anchor m) content = None
     then (and_then (shown_anchor (mu_anchor m)) (\<lambda>a. Err (AnchorNotFound a)), fs)
     else
       let mutated = replace_first (mu_anchor m) (mu_replacement m) content in
       if mutated = content then (Err ReplacementIdentical, fs)
       else write_source writable (mu_file m) mutated fs)"

definition revert_mutant ::
  "(bytes \<Rightarrow> bool) \<Rightarrow> mutant_spec \<Rightarrow> sources \<Rightarrow> (unit, apply_error) outcome \<times> sources" where
  "revert_mutant writable m fs =
     then_state (read_source (mu_file m) fs, fs) (\<lambda>content fs.
     write_source writable (mu_file m) (replace_first (mu_replacement m) (mu_anchor m) content) fs)"

text \<open>The test command: it does not start, or it ends with a status. Only the first counts as not compiled.\<close>

datatype cargo_answer = CargoMissing | CargoExit bool

definition run_tests :: "cargo_answer \<Rightarrow> bool \<times> bool" where
  "run_tests ans = (case ans of CargoExit success \<Rightarrow> (success, True) | CargoMissing \<Rightarrow> (False, False))"

record campaign_tally =
  ta_killed :: nat
  ta_survivors :: "mutant_spec list"
  ta_equivalent :: nat
  ta_unviable :: nat

definition campaign_tally_new :: campaign_tally where
  "campaign_tally_new = \<lparr>ta_killed = 0, ta_survivors = [], ta_equivalent = 0, ta_unviable = 0\<rparr>"

text \<open>A revert that fails ends the campaign.\<close>

datatype campaign_error = RevertFailed

fun campaign ::
  "(bytes \<Rightarrow> bool) \<Rightarrow> (sources \<Rightarrow> cargo_answer) \<Rightarrow> mutant_spec list \<Rightarrow> campaign_tally \<Rightarrow> sources \<Rightarrow>
   (campaign_tally, campaign_error) outcome \<times> sources" where
  "campaign writable tests [] t fs = (Ok t, fs)"
| "campaign writable tests (m # ms) t fs =
     (if mu_equivalent m then campaign writable tests ms (t\<lparr>ta_equivalent := ta_equivalent t + 1\<rparr>) fs
      else case apply_mutant writable m fs of
        (Panic, fs) \<Rightarrow> (Panic, fs)
      | (Err e, fs) \<Rightarrow> campaign writable tests ms t fs
      | (Ok _, fs) \<Rightarrow>
          let (passed, compiled) = run_tests (tests fs) in
          (case revert_mutant writable m fs of
             (Panic, fs) \<Rightarrow> (Panic, fs)
           | (Err e, fs) \<Rightarrow> (Err RevertFailed, fs)
           | (Ok _, fs) \<Rightarrow>
               campaign writable tests ms
                 (if \<not> compiled then t\<lparr>ta_unviable := ta_unviable t + 1\<rparr>
                  else if \<not> passed then t\<lparr>ta_killed := ta_killed t + 1\<rparr>
                  else t\<lparr>ta_survivors := ta_survivors t @ [m]\<rparr>) fs))"

definition campaign_exit :: "(campaign_tally, campaign_error) outcome \<Rightarrow> (nat, unit) outcome" where
  "campaign_exit r =
     (case r of Ok t \<Rightarrow> Ok (if ta_survivors t \<noteq> [] then 1 else 0) | Err e \<Rightarrow> Ok 2 | Panic \<Rightarrow> Panic)"

section \<open>What a campaign leaves and reports\<close>

text \<open>
  A mutant of these sources: its anchor can be shown, and where it applies the mutated text is text, its
  first occurrence of the replacement is the one written, and the path opens for writing.
\<close>

definition reverts_cleanly :: "(bytes \<Rightarrow> bool) \<Rightarrow> sources \<Rightarrow> mutant_spec \<Rightarrow> bool" where
  "reverts_cleanly writable fs m \<longleftrightarrow> shown_anchor (mu_anchor m) \<noteq> (Panic :: (bytes, apply_error) outcome)
     \<and> (case fs (mu_file m) of None \<Rightarrow> True | Some content \<Rightarrow>
        (case find_sub (mu_anchor m) content of None \<Rightarrow> True | Some i \<Rightarrow>
           let mutated = replace_first (mu_anchor m) (mu_replacement m) content
           in from_utf8 mutated \<and> find_sub (mu_replacement m) mutated = Some i \<and> writable (mu_file m)))"

text \<open>The sources with a mutant applied, where it applies.\<close>

definition mutated_sources :: "mutant_spec \<Rightarrow> sources \<Rightarrow> sources option" where
  "mutated_sources m fs =
     (case fs (mu_file m) of None \<Rightarrow> None | Some content \<Rightarrow>
        let mutated = replace_first (mu_anchor m) (mu_replacement m) content in
        if from_utf8 content \<and> find_sub (mu_anchor m) content \<noteq> None \<and> mutated \<noteq> content
        then Some (fs(mu_file m \<mapsto> mutated)) else None)"

definition survives :: "(sources \<Rightarrow> cargo_answer) \<Rightarrow> sources \<Rightarrow> mutant_spec \<Rightarrow> bool" where
  "survives tests fs m \<longleftrightarrow> \<not> mu_equivalent m \<and> (case mutated_sources m fs of None \<Rightarrow> False | Some fs' \<Rightarrow> tests fs' = CargoExit True)"

lemma replace_back:
  assumes "find_sub a text = Some i" "find_sub r (replace_first a r text) = Some i"
  shows "replace_first r a (replace_first a r text) = text"
proof -
  have "i + length a \<le> length text" "take (length a) (drop i text) = a" using find_sub_SomeD [OF assms(1)] by simp_all
  moreover have "text = take i text @ take (length a) (drop i text) @ drop (i + length a) text"
    by (metis append_take_drop_id drop_drop add.commute)
  ultimately show ?thesis using assms by (simp add: replace_first_def)
qed

lemma apply_mutant_cases:
  assumes "reverts_cleanly writable fs m"
  shows "case mutated_sources m fs of
      None \<Rightarrow> \<exists>e. apply_mutant writable m fs = (Err e, fs)
    | Some fs' \<Rightarrow> apply_mutant writable m fs = (Ok (), fs') \<and> revert_mutant writable m fs' = (Ok (), fs)"
proof (cases "mutated_sources m fs")
  case None
  have "\<exists>e. and_then (shown_anchor (mu_anchor m)) (\<lambda>a. Err (AnchorNotFound a)) = Err e"
    using assms by (cases "shown_anchor (mu_anchor m) :: (bytes, apply_error) outcome") (auto simp: reverts_cleanly_def)
  with None show ?thesis
    by (auto simp: mutated_sources_def apply_mutant_def read_source_def Let_def split: option.splits if_splits)
next
  case (Some fs')
  then obtain content i where c: "fs (mu_file m) = Some content" "from_utf8 content" "find_sub (mu_anchor m) content = Some i"
    "replace_first (mu_anchor m) (mu_replacement m) content \<noteq> content"
    "fs' = fs(mu_file m \<mapsto> replace_first (mu_anchor m) (mu_replacement m) content)"
    by (auto simp: mutated_sources_def Let_def split: option.splits if_splits)
  with assms have clean: "from_utf8 (replace_first (mu_anchor m) (mu_replacement m) content)"
    "find_sub (mu_replacement m) (replace_first (mu_anchor m) (mu_replacement m) content) = Some i" "writable (mu_file m)"
    by (simp_all add: reverts_cleanly_def Let_def)
  have "fs(mu_file m \<mapsto> content) = fs" using c(1) by (simp add: fun_upd_idem)
  then show ?thesis
    using c clean replace_back [OF c(3) clean(2)]
    by (simp add: Some apply_mutant_def revert_mutant_def read_source_def write_source_def Let_def)
qed

lemma campaign_runs:
  assumes "list_all (reverts_cleanly writable fs) ms"
  shows "\<exists>t'. campaign writable tests ms t fs = (Ok t', fs) \<and> ta_survivors t' = ta_survivors t @ filter (survives tests fs) ms"
  using assms
proof (induction ms arbitrary: t)
  case (Cons m ms)
  then have rest: "\<exists>t'. campaign writable tests ms u fs = (Ok t', fs) \<and> ta_survivors t' = ta_survivors u @ filter (survives tests fs) ms" for u
    by simp
  show ?case
  proof (cases "mu_equivalent m")
    case True
    then have "\<not> survives tests fs m" by (simp add: survives_def)
    with True show ?thesis using rest [of "t\<lparr>ta_equivalent := ta_equivalent t + 1\<rparr>"] by simp
  next
    case live: False
    show ?thesis
    proof (cases "mutated_sources m fs")
      case None
      with apply_mutant_cases [of writable fs m] Cons.prems obtain e where "apply_mutant writable m fs = (Err e, fs)" by auto
      moreover have "\<not> survives tests fs m" using None by (simp add: survives_def)
      ultimately show ?thesis using rest [of t] live by simp
    next
      case (Some fs')
      with apply_mutant_cases [of writable fs m] Cons.prems
      have "apply_mutant writable m fs = (Ok (), fs')" "revert_mutant writable m fs' = (Ok (), fs)" by auto
      moreover have "survives tests fs m \<longleftrightarrow> tests fs' = CargoExit True" using Some live by (simp add: survives_def)
      ultimately show ?thesis
        using rest [of "t\<lparr>ta_unviable := ta_unviable t + 1\<rparr>"] rest [of "t\<lparr>ta_killed := ta_killed t + 1\<rparr>"]
          rest [of "t\<lparr>ta_survivors := ta_survivors t @ [m]\<rparr>"] live
        by (cases "tests fs'") (auto simp: run_tests_def)
    qed
  qed
qed simp

text \<open>
  C40: When every mutant can be reverted cleanly, that is, the first occurrence of its replacement
  in the mutated source is the one that was written, a campaign leaves every source as it found it, whatever the
  tests answer, reports as survivors exactly the mutants that are not marked equivalent, apply and pass
  the tests, and exits with 1 exactly when there is one.
\<close>

theorem campaign_keeps_sources:
  assumes "list_all (reverts_cleanly writable fs) ms"
  shows "\<exists>t. campaign writable tests ms campaign_tally_new fs = (Ok t, fs) \<and> ta_survivors t = filter (survives tests fs) ms
    \<and> campaign_exit (Ok t) = Ok (if list_ex (survives tests fs) ms then 1 else 0)"
proof -
  obtain t where "campaign writable tests ms campaign_tally_new fs = (Ok t, fs)" "ta_survivors t = filter (survives tests fs) ms"
    using campaign_runs [OF assms, of tests campaign_tally_new] by (auto simp: campaign_tally_new_def)
  then show ?thesis by (auto simp: campaign_exit_def filter_empty_conv list_ex_iff)
qed

definition sample_mutant :: mutant_spec where
  "sample_mutant = \<lparr>mu_domain = [], mu_file = ascii ''a.rs'', mu_anchor = ascii ''>'', mu_replacement = ascii ''>='', mu_equivalent = False\<rparr>"

theorem campaign_keeps_sources_witness:
  "\<exists>t. campaign (\<lambda>_. True) (\<lambda>_. CargoExit True) [sample_mutant] campaign_tally_new [ascii ''a.rs'' \<mapsto> ascii ''a > b''] = (Ok t, [ascii ''a.rs'' \<mapsto> ascii ''a > b''])
    \<and> ta_survivors t = [sample_mutant] \<and> campaign_exit (Ok t) = Ok 1"
proof -
  let ?fs = "[ascii ''a.rs'' \<mapsto> ascii ''a > b'']"
  have m: "replace_first (ascii ''>'') (ascii ''>='') (ascii ''a > b'') = ascii ''a >= b''"
    "find_sub (ascii ''>'') (ascii ''a > b'') = Some 2" "find_sub (ascii ''>='') (ascii ''a >= b'') = Some 2"
    by code_simp+
  have utf: "from_utf8 (ascii ''a > b'')" "from_utf8 (ascii ''a >= b'')"
    by (rule from_utf8_ascii; simp add: ascii_def)+
  have "list_all (reverts_cleanly (\<lambda>_. True) ?fs) [sample_mutant]"
    using m utf by (simp add: reverts_cleanly_def sample_mutant_def shown_anchor_def Let_def) (simp add: ascii_def)
  moreover have "survives (\<lambda>_. CargoExit True) ?fs sample_mutant"
    using m utf by (simp add: survives_def mutated_sources_def sample_mutant_def Let_def) (simp add: ascii_def)
  ultimately show ?thesis using campaign_keeps_sources [of "\<lambda>_. True" ?fs "[sample_mutant]" "\<lambda>_. CargoExit True"] by simp
qed

text \<open>
  A mutant whose replacement already occurs before its anchor is not undone: the revert rewrites the
  earlier occurrence, and the campaign ends with a damaged source.
\<close>

theorem revert_damages_source:
  "campaign (\<lambda>_. True) (\<lambda>_. CargoExit False)
     [\<lparr>mu_domain = [], mu_file = [97], mu_anchor = ascii ''-'', mu_replacement = ascii ''+'', mu_equivalent = False\<rparr>] campaign_tally_new
     [[97] \<mapsto> ascii ''+-'']
   = (Ok (campaign_tally_new\<lparr>ta_killed := 1\<rparr>), [[97] \<mapsto> ascii ''-+''])"
proof -
  have m: "replace_first (ascii ''-'') (ascii ''+'') (ascii ''+-'') = ascii ''++''"
    "find_sub (ascii ''-'') (ascii ''+-'') = Some 1" "replace_first (ascii ''+'') (ascii ''-'') (ascii ''++'') = ascii ''-+''"
    by code_simp+
  have utf: "from_utf8 (ascii ''+-'')" "from_utf8 (ascii ''++'')" "ascii ''++'' \<noteq> ascii ''+-''"
    by (rule from_utf8_ascii; simp add: ascii_def)+ (simp add: ascii_def)
  show ?thesis
    using m utf by (simp add: apply_mutant_def revert_mutant_def read_source_def write_source_def Let_def run_tests_def campaign_tally_new_def)
qed

end
