(* ===== verification/Vectors.thy ===== *)
theory Vectors
  imports Tools Ladders
begin

text \<open>
  How the tools start: the file of vectors as the integration client's ladders
  (src/tools/integration-client/src/ladder\_a.rs, ladder\_e.rs) and the fuzzer
  (src/tools/chaos-rs/src/main.rs) read it, the fuzzer's arguments, and the search for the
  project's root of the mutation tool (src/tools/mutation-test-rs/src/main.rs). The parsers of
  JSON and TOML and the decoder of the hex package are arguments. The lemmas show what is loaded
  and which directory is found.
\<close>

unbundle bit_operations_syntax

section \<open>JSON values\<close>

text \<open>A parsed value; an object is a map, and what no reader here looks at is one constructor.\<close>

datatype json = JNull | JStr bytes | JArr "json list" | JObj "bytes \<Rightarrow> json option" | JOther

text \<open>Indexing a value with a name yields null where there is no such field.\<close>

definition json_at :: "json \<Rightarrow> string \<Rightarrow> json" where
  "json_at v k = (case v of JObj f \<Rightarrow> (case f (ascii k) of Some x \<Rightarrow> x | None \<Rightarrow> JNull) | _ \<Rightarrow> JNull)"

definition as_str :: "json \<Rightarrow> bytes option" where
  "as_str v = (case v of JStr s \<Rightarrow> Some s | _ \<Rightarrow> None)"

text \<open>A field of a derived structure, which an object or an array of exactly its fields can give.\<close>

definition struct_field :: "string list \<Rightarrow> json \<Rightarrow> string \<Rightarrow> json option" where
  "struct_field names v k =
     (case v of
        JObj f \<Rightarrow> f (ascii k)
      | JArr xs \<Rightarrow>
          if length xs = length names then map_option (\<lambda>i. xs ! i) (position (\<lambda>n. n = k) names) else None
      | _ \<Rightarrow> None)"

definition wire_hex :: "string list \<Rightarrow> json \<Rightarrow> string \<Rightarrow> bytes option" where
  "wire_hex names structs k =
     (case struct_field names structs k of
        None \<Rightarrow> None
      | Some w \<Rightarrow> (case struct_field [''wire_hex''] w ''wire_hex'' of None \<Rightarrow> None | Some s \<Rightarrow> as_str s))"

section \<open>The client's vectors\<close>

text \<open>The file's text, when it can be read, and the packages' parsers.\<close>

record vector_source =
  vs_text :: "bytes option"
  vs_json :: "bytes \<Rightarrow> json option"
  vs_hex :: "bytes \<Rightarrow> bytes option"

datatype load_error = VectorsUnread | VectorsUnparsed | VectorHex | FieldMissing string | WrongSize string nat

definition read_json :: "vector_source \<Rightarrow> (json, load_error) outcome" where
  "read_json S = and_then (ok_or VectorsUnread (vs_text S)) (\<lambda>raw. ok_or VectorsUnparsed (vs_json S raw))"

definition load_frozen :: "vector_source \<Rightarrow> (frozen, load_error) outcome" where
  "load_frozen S =
     and_then (read_json S) (\<lambda>v.
     and_then (ok_or VectorsUnparsed (struct_field [''structures''] v ''structures'')) (\<lambda>st.
     let field = wire_hex [''envelope_intent'', ''grant'', ''effect''] st in
     and_then (ok_or VectorsUnparsed (field ''envelope_intent'')) (\<lambda>intent.
     and_then (ok_or VectorsUnparsed (field ''grant'')) (\<lambda>grant.
     and_then (ok_or VectorsUnparsed (field ''effect'')) (\<lambda>effect.
     and_then (ok_or VectorHex (vs_hex S intent)) (\<lambda>intent_wire.
     and_then (ok_or VectorHex (vs_hex S grant)) (\<lambda>grant_body.
     and_then (ok_or VectorHex (vs_hex S effect)) (\<lambda>effect_body.
     Ok \<lparr>fz_intent_wire = intent_wire, fz_grant_body = grant_body, fz_effect_body = effect_body\<rparr>))))))))"

definition hex32 :: "vector_source \<Rightarrow> json \<Rightarrow> string \<Rightarrow> (bytes, load_error) outcome" where
  "hex32 S v what =
     and_then (ok_or (FieldMissing what) (as_str v)) (\<lambda>h.
     and_then (ok_or VectorHex (vs_hex S h)) (\<lambda>b.
     if length b = 32 then Ok b else Err (WrongSize what (length b))))"

definition load_identity :: "crypto \<Rightarrow> vector_source \<Rightarrow> (frozen_identity, load_error) outcome" where
  "load_identity cr S =
     and_then (read_json S) (\<lambda>v.
     let agent = json_at (json_at v ''keys'') ''agent''; structures = json_at v ''structures'';
         intent = json_at structures ''envelope_intent'' in
     and_then (ok_or (FieldMissing ''cert.wire_hex'') (as_str (json_at (json_at structures ''cert'') ''wire_hex''))) (\<lambda>c.
     and_then (ok_or VectorHex (vs_hex S c)) (\<lambda>cert_wire.
     and_then (ok_or (FieldMissing ''envelope_intent.wire_hex'') (as_str (json_at intent ''wire_hex''))) (\<lambda>w.
     and_then (ok_or VectorHex (vs_hex S w)) (\<lambda>intent_wire.
     and_then (ok_or (FieldMissing ''envelope_intent.fields.body_intent_id'')
       (as_str (json_at (json_at intent ''fields'') ''body_intent_id''))) (\<lambda>iid.
     and_then (hex32 S (json_at agent ''kex_seed'') ''agent.kex_seed'') (\<lambda>kex.
     and_then (hex32 S (json_at agent ''seed'') ''agent.seed'') (\<lambda>sig.
     Ok \<lparr>fi_kex = from_secret cr kex, fi_sig = sig, fi_cert_wire = cert_wire, fi_intent_wire = intent_wire,
         fi_intent_id_hex = iid\<rparr>))))))))"

section \<open>The fuzzer's corpus\<close>

text \<open>
  A pair of characters read as a number of base 16, which admits a plus sign before one digit; a
  pair that is none, or a text of odd length, panics.
\<close>

definition pair_value :: "u8 \<Rightarrow> u8 \<Rightarrow> u8 option" where
  "pair_value a b =
     (if a = 43 then hex_val b
      else case (hex_val a, hex_val b) of (Some h, Some l) \<Rightarrow> Some (push_bit 4 h OR l) | _ \<Rightarrow> None)"

fun corpus_hex :: "bytes \<Rightarrow> (bytes, unit) outcome" where
  "corpus_hex [] = Ok []"
| "corpus_hex [a] = Panic"
| "corpus_hex (a # b # rest) =
     (case pair_value a b of None \<Rightarrow> Panic | Some v \<Rightarrow> and_then (corpus_hex rest) (\<lambda>bs. Ok (v # bs)))"

definition corpus_fields :: "string list" where
  "corpus_fields = [''envelope_intent'', ''grant'', ''span'', ''effect'', ''refusal'', ''cert'']"

text \<open>Every field is there before the first is decoded.\<close>

definition some_or_panic :: "'a option \<Rightarrow> ('a, unit) outcome" where
  "some_or_panic x = (case x of Some a \<Rightarrow> Ok a | None \<Rightarrow> Panic)"

fun collect :: "('a \<Rightarrow> ('b, unit) outcome) \<Rightarrow> 'a list \<Rightarrow> ('b list, unit) outcome" where
  "collect f [] = Ok []"
| "collect f (x # xs) = and_then (f x) (\<lambda>y. and_then (collect f xs) (\<lambda>ys. Ok (y # ys)))"

definition load_corpus :: "vector_source \<Rightarrow> (bytes list, unit) outcome" where
  "load_corpus S =
     and_then (some_or_panic (vs_text S)) (\<lambda>raw.
     and_then (some_or_panic (vs_json S raw)) (\<lambda>v.
     and_then (some_or_panic (struct_field [''structures''] v ''structures'')) (\<lambda>st.
     and_then (collect (\<lambda>k. some_or_panic (wire_hex corpus_fields st k)) corpus_fields) (\<lambda>ws.
     collect corpus_hex ws))))"

section \<open>The fuzzer's start\<close>

definition INPUTS_PER_SEED_DEFAULT :: nat where "INPUTS_PER_SEED_DEFAULT = 50000000"

text \<open>The value of the environment's variable, when it is set.\<close>

definition inputs_per_seed :: "bytes option \<Rightarrow> nat" where
  "inputs_per_seed var =
     (case var of None \<Rightarrow> INPUTS_PER_SEED_DEFAULT
      | Some s \<Rightarrow> (case parse_u64 s of Some n \<Rightarrow> n | None \<Rightarrow> INPUTS_PER_SEED_DEFAULT))"

text \<open>An argument of the command line after the program's name; one that is no number counts as absent.\<close>

definition number_arg :: "bytes list \<Rightarrow> nat \<Rightarrow> nat \<Rightarrow> nat" where
  "number_arg argv n dflt =
     (if n < length argv then (case parse_u64 (argv ! n) of Some k \<Rightarrow> k | None \<Rightarrow> dflt) else dflt)"

definition chaos_main ::
  "'g rng \<Rightarrow> (u64 \<Rightarrow> 'g) \<Rightarrow> vector_source \<Rightarrow> bytes option \<Rightarrow> bytes list \<Rightarrow> (nat \<times> nat, unit) outcome" where
  "chaos_main R seed_from S var argv =
     (let rnd = word_of_nat (number_arg argv 1 0); worker = word_of_nat (number_arg argv 2 0);
          wc = word_of_nat (max (number_arg argv 3 1) 1)
      in and_then (load_corpus S) (\<lambda>corpus.
         fuzz R seed_from corpus (inputs_per_seed var) rnd worker wc CANONICAL_SEEDS))"

section \<open>The root of the project\<close>

text \<open>A directory is its components, the last one first; the file system says which paths exist.\<close>

definition is_project_root :: "(bytes list \<Rightarrow> bool) \<Rightarrow> bytes list \<Rightarrow> bool" where
  "is_project_root exists_at dir \<longleftrightarrow> exists_at (ascii ''Cargo.toml'' # dir) \<and> exists_at (ascii ''lib.rs'' # ascii ''src'' # dir)"

fun find_project_root :: "(bytes list \<Rightarrow> bool) \<Rightarrow> bytes list \<Rightarrow> (bytes list, unit) outcome" where
  "find_project_root exists_at [] = (if is_project_root exists_at [] then Ok [] else Panic)"
| "find_project_root exists_at (c # dir) =
     (if is_project_root exists_at (c # dir) then Ok (c # dir) else find_project_root exists_at dir)"

text \<open>
  The campaign from its start: the file system, the text of the list of mutants and its parser
  are arguments. Without the list it exits with 2.
\<close>

definition mutation_main ::
  "(bytes list \<Rightarrow> bool) \<Rightarrow> bytes list \<Rightarrow> (bytes list \<Rightarrow> bytes option) \<Rightarrow> (bytes \<Rightarrow> mutant_spec list option) \<Rightarrow>
   (bytes \<Rightarrow> bool) \<Rightarrow> (sources \<Rightarrow> cargo_answer) \<Rightarrow> sources \<Rightarrow> (nat, unit) outcome \<times> sources" where
  "mutation_main exists_at cwd read parse_config writable tests fs =
     then_state (find_project_root exists_at cwd, fs) (\<lambda>root fs.
     let config_path = ascii ''mutants.toml'' # ascii ''mutation-test-rs'' # ascii ''tools'' # root in
     if \<not> exists_at config_path then (Ok 2, fs)
     else then_state (some_or_panic (read config_path), fs) (\<lambda>config fs.
     then_state (some_or_panic (parse_config config), fs) (\<lambda>mutants fs.
     case campaign writable tests mutants campaign_tally_new fs of (r, fs) \<Rightarrow> (campaign_exit r, fs))))"

section \<open>What is loaded and found\<close>

lemma some_or_panic_Ok [simp]: "some_or_panic x = Ok a \<longleftrightarrow> x = Some a"
  by (simp add: some_or_panic_def split: option.split)

lemma pair_value_digits: "a \<noteq> 43 \<Longrightarrow> pair_value a b = Some v \<longleftrightarrow> decode_hex [a, b] = Some [v]"
  by (auto simp: pair_value_def split: option.splits)

text \<open>Decoding the digits of bytes gives them back; a text decodes only when its length is even.\<close>

lemma corpus_hex_length: "corpus_hex h = Ok bs \<Longrightarrow> length h = 2 * length bs"
  by (induction h arbitrary: bs rule: corpus_hex.induct) (auto split: option.splits)

lemma corpus_hex_decodes:
  assumes "43 \<notin> set h"
  shows "corpus_hex h = (case decode_hex h of Some bs \<Rightarrow> Ok bs | None \<Rightarrow> Panic)"
  using assms
proof (induction h rule: corpus_hex.induct)
  case (3 a b rest)
  then show ?case by (auto simp: pair_value_def split: option.splits)
qed simp_all

text \<open>The root is the nearest directory upwards that has both files; there is a panic when none has.\<close>

lemma find_project_root_eq:
  "find_project_root exists_at dir =
     (case find (is_project_root exists_at) (map (\<lambda>n. drop n dir) [0..<length dir + 1]) of
        Some r \<Rightarrow> Ok r | None \<Rightarrow> Panic)"
proof (induction dir)
  case (Cons c dir)
  have "[0..<length (c # dir) + 1] = 0 # map Suc [0..<length dir + 1]"
    by (metis One_nat_def Suc_eq_plus1 length_Cons map_Suc_upt upt_conv_Cons zero_less_Suc)
  then have "map (\<lambda>n. drop n (c # dir)) [0..<length (c # dir) + 1] = (c # dir) # map (\<lambda>n. drop n dir) [0..<length dir + 1]"
    by (simp only: list.map map_map comp_def drop_0 drop_Suc_Cons)
  then show ?case using Cons.IH by (simp del: upt_Suc)
qed simp

text \<open>The corpus holds one input for each of the six structures.\<close>

lemma collect_length: "collect f xs = Ok ys \<Longrightarrow> length ys = length xs"
  by (induction xs arbitrary: ys) auto

lemma load_corpus_six: "load_corpus S = Ok corpus \<Longrightarrow> length corpus = 6"
  using collect_length by (fastforce simp: load_corpus_def corpus_fields_def)

section \<open>A whole run of the fuzzer\<close>

text \<open>Over the seeds the shares of a worker add up; the counts start afresh for each seed.\<close>

lemma fuzz_share:
  assumes "rng_ok R" "corpus_ok corpus" "0 < unat wc" "ips + unat wc \<le> 2 ^ 64"
  shows "\<exists>a. fuzz R seed_from corpus ips rnd worker wc seeds = Ok (a, length seeds * share ips (unat wc) (unat worker))
    \<and> a \<le> length seeds * share ips (unat wc) (unat worker)"
proof (induction seeds)
  case (Cons base seeds)
  obtain a where "fst (worker_loop R corpus ips (unat wc) (unat worker)
      (replicate MAX_INPUT 0, seed_from (effective_seed base rnd worker)) (0, 0)) = Ok (a, share ips (unat wc) (unat worker))"
    "a \<le> share ips (unat wc) (unat worker)"
    using worker_loop_share [OF assms, of "replicate MAX_INPUT 0" "unat worker" "seed_from (effective_seed base rnd worker)" 0 0]
    by auto
  moreover obtain b where "fuzz R seed_from corpus ips rnd worker wc seeds = Ok (b, length seeds * share ips (unat wc) (unat worker))"
    "b \<le> length seeds * share ips (unat wc) (unat worker)"
    using Cons.IH by blast
  ultimately show ?case by simp
qed simp

lemma number_arg_bound: "dflt < 2 ^ 64 \<Longrightarrow> number_arg argv n dflt < 2 ^ 64"
  by (auto simp: number_arg_def parse_u64_def Let_def split: option.split)

text \<open>
  C39: A fuzzer started as worker \<open>i\<close> of \<open>wc\<close> that finds its corpus of nonempty inputs ends without a panic, whatever
  the generator draws, after exactly its share of each of the five canonical seeds: the inputs
  congruent to its number. It never accepts more than it has seen, and the shares of the
  workers from 0 to \<open>wc - 1\<close> add up to the inputs of all seeds.
\<close>

theorem fuzzer_runs_its_share:
  assumes "rng_ok R" "load_corpus S = Ok corpus" "[] \<notin> set corpus" "number_arg argv 2 0 = i"
    "max (number_arg argv 3 1) 1 = wc" "inputs_per_seed var + wc \<le> 2 ^ 64"
  shows "\<exists>accepted. chaos_main R seed_from S var argv = Ok (accepted, 5 * share (inputs_per_seed var) wc i)
    \<and> accepted \<le> 5 * share (inputs_per_seed var) wc i
    \<and> (\<Sum>j<wc. 5 * share (inputs_per_seed var) wc j) = 5 * inputs_per_seed var"
proof -
  have "i < 2 ^ 64" "number_arg argv 3 1 < 2 ^ 64" using assms(4) number_arg_bound [of 0] number_arg_bound [of 1] by auto
  then have nums: "unat (word_of_nat i :: u64) = i" "unat (word_of_nat wc :: u64) = wc" "0 < wc"
    using assms(5) by (auto simp: unat_of_nat)
  have "corpus_ok corpus" using assms(3) load_corpus_six [OF assms(2)] by (auto simp: corpus_ok_def)
  from fuzz_share [OF assms(1) this, of "word_of_nat wc" "inputs_per_seed var" seed_from "word_of_nat (number_arg argv 1 0)"
      "word_of_nat i" CANONICAL_SEEDS]
  obtain a where "chaos_main R seed_from S var argv = Ok (a, 5 * share (inputs_per_seed var) wc i)"
    "a \<le> 5 * share (inputs_per_seed var) wc i"
    using assms(2,4-6) by (auto simp: nums CANONICAL_SEEDS_def chaos_main_def Let_def)
  then show ?thesis using shares_sum [OF nums(3), of "inputs_per_seed var"] by (auto simp flip: sum_distrib_left)
qed

text \<open>Six structures of one byte, in a file whose parser gives them.\<close>

definition six_vectors :: vector_source where
  "six_vectors = \<lparr>vs_text = Some [], vs_json = (\<lambda>_. Some (JArr [JArr (replicate 6 (JArr [JStr (ascii ''a1'')]))])), vs_hex = (\<lambda>_. None)\<rparr>"

lemma six_vectors_corpus: "load_corpus six_vectors = Ok (replicate 6 [161])"
  by code_simp

theorem fuzzer_runs_its_share_witness:
  "\<exists>accepted. chaos_main low_rng (\<lambda>_. ()) six_vectors (Some (ascii ''10'')) [[], ascii ''3'', ascii ''1'', ascii ''4'']
      = Ok (accepted, 5 * share (inputs_per_seed (Some (ascii ''10''))) 4 1)
    \<and> accepted \<le> 5 * share (inputs_per_seed (Some (ascii ''10''))) 4 1
    \<and> (\<Sum>j<4. 5 * share (inputs_per_seed (Some (ascii ''10''))) 4 j) = 5 * inputs_per_seed (Some (ascii ''10''))"
proof -
  have n: "parse_u64 (ascii ''1'') = Some 1" "parse_u64 (ascii ''4'') = Some 4" "parse_u64 (ascii ''10'') = Some 10"
    by (simp_all add: parse_u64_def ascii_def is_ascii_digit_def digits_value_def)
  show ?thesis
  proof (rule fuzzer_runs_its_share)
    show "rng_ok (low_rng :: unit rng)" by (simp add: low_rng_def rng_ok_def)
    show "load_corpus six_vectors = Ok (replicate 6 [161])" by (rule six_vectors_corpus)
    show "number_arg [[], ascii ''3'', ascii ''1'', ascii ''4''] 2 0 = 1" by (simp add: number_arg_def n)
    show "max (number_arg [[], ascii ''3'', ascii ''1'', ascii ''4''] 3 1) 1 = 4" by (simp add: number_arg_def n)
  qed (simp_all add: inputs_per_seed_def n)
qed

end
