(* ===== verification/Spec2Isabelle.thy ===== *)
theory Spec2Isabelle
  imports Codec Intent GrantLedger Replay EvidenceLedger Resolver Verify Binding Dispatch Noise Session Handshake Dag Reassembly
    Sync Relay Evidence Listener HttpParse Token ControlApi Keys Ca Control Daemon Node Boot Serve Client ClientControl Ladders
    Meeting Asking ClientMain Interop Tools Vectors
begin

text \<open>
  A verification development of bolina-rs: a daemon that speaks Noise handshakes over UDP, admits signed
  intents to act on declared resources, keeps a durable ledger of grants, and serves a small HTTP
  control plane; with the tools that exercise it. The code is under src/src (the library and
  the daemon) and src/tools (the integration client and the test tools).

  \<^bold>\<open>How the program fits together.\<close> The start (main.rs) loads the keys, opens the grant ledger, declares
  the resources and attaches the control plane. Each pass of the loop (daemon.rs) handles up to 64
  datagrams, sweeps idle handshake slots and polls the HTTP clients. A datagram of type 1 is a
  handshake: the responder (transport/handshake.rs over transport/noise.rs) commits a slot and a
  session (transport/session.rs) opens in the slot of the same index. A datagram of type 4 is opened by
  its session: the first plaintext must be a binding frame (transport/binding.rs) with a certificate a trusted CA
  vouches for, the later ones are envelopes (codec.rs) that pass the evidence ledger
  (ledger\_envelope.rs, with the windows of transport/replay.rs) and go to the router (transport/dispatch.rs),
  which resolves and locks resources (transport/resolver.rs, state/intent.rs) or checks grants
  and refusals (transport/verify.rs) and records consumption (state/ledger.rs). The control plane
  (control.rs, http\_parse.rs, control\_api.rs) reaches the same intent table.

  \<^bold>\<open>Theories and sources.\<close>
  \<^item> Prelude: outcomes (Ok, Err, Panic), checked and saturating arithmetic, slices, big-endian bytes, lists
    with a first position, \<open>swap_remove\<close>, and the interfaces the components interpret: a message format, a table
    whose first write stays, a machine with an invariant.
    Crypto: the primitives the code imports, as a record of functions, and a toy instance for witnesses.
    RustText: what the code uses of Rust's text functions.
  \<^item> Codec (codec.rs): cursor, the six structures, their parsers and encoders.
  \<^item> Intent (state/intent.rs), Resolver (transport/resolver.rs), GrantLedger (state/ledger.rs), EvidenceLedger
    (ledger\_envelope.rs), Replay (transport/replay.rs): the state of the authority core.
  \<^item> Verify (transport/verify.rs), Binding (transport/binding.rs), Dispatch (transport/dispatch.rs): its decisions.
  \<^item> Noise (transport/noise.rs, transport/mac1.rs), Session (transport/session.rs), Handshake
    (transport/handshake.rs): the secure channel.
  \<^item> Dag (transport/dag.rs, transport/historical.rs), Reassembly (transport/reassembly.rs), Sync
    (transport/sync.rs), Relay (transport/relay.rs, transport/relay\_store.rs, relay\_serve.rs), Evidence (transport/evidence.rs,
    transport/render.rs), Listener (transport/listener.rs, transport/grant\_trace.rs): the other services.
  \<^item> HttpParse (http\_parse.rs), Token (transport/token.rs), ControlApi (control\_api.rs), Control (control.rs): the
    control plane. Keys (keys.rs) and Ca (ca.rs): identities.
  \<^item> Daemon and Node (daemon.rs): the handlers and a pass of the node, and the node's invariants; Boot (main.rs): the start;
    Serve: the loop and what ends it.
  \<^item> Client, ClientControl, Ladders, ClientMain (tools/integration-client): the client's exchange, its HTTP side, its six
    rounds, and its command line with the choice of the round. Meeting: the client and the node together over
    UDP; Asking: the client's HTTP requests served by the node's control plane.
  \<^item> Interop (examples/interop.rs, examples/w4probe.rs): the two example programs. Tools (tools/chaos-rs,
    tools/cross-diff, tools/mutation-test-rs): the test tools; Vectors: how they and the client's rounds load
    the frozen vectors, and their starts.

  A struct is a record with the source's fields under a prefix, an enum a datatype with its constructors, a
  method a function that returns its result and the new state. Fixed arrays with a count are the lists of
  their used parts where the unused part is never read. Words keep their width; a counter of 64
  bits that is added to without a check is a number that panics at the end of its range, as the
  release profile checks overflow. Every panic of the source (an index, a slice, an overflow) is the outcome Panic.
  What the world answers - the clock, drawn randomness, sockets, files, environment variables - is an argument of
  the operation that asks for it.

  \<^bold>\<open>What the lemmas show.\<close>
  \<^item> Exactness of parsers: every byte string a parser of Codec or HttpParse accepts is the canonical
    encoding of the value it returns, and none makes it panic; ControlApi, Token and
    ClientControl have the round trips of the texts of the control plane.
  \<^item> Refinement: intents and refusals implement a map of locks, the evidence ledger a bounded
    first-write map with histories of numbers, the replay windows the filter that remembers all
    counters, reassembly the sets of received fragments (with a panic exactly where a count of bytes
    leaves 64 bits), the relay store a multiset, the graph a relation whose ancestry the search decides;
    admission of envelopes, on every sequence of them, the specification over the accepted
    numbers and the stored hashes.
  \<^item> Decisions: the effect of a grant runs exactly when the conditions Verify lists hold, and the
    router runs it exactly for such a grant in a signed envelope; with the ledger behind it no grant whose
    consumption was recorded takes effect again, whatever certificates and disk answers come with
    each envelope (a locale of the consumption record, interpreted on the node's hooks). On the
    certificates the shipped node accepts no effect runs at all.
  \<^item> Durability, up to the first torn write: after operations that were done or failed whole, and restarts,
    a restart after a crash during the next operation rebuilds the caches from before or after it. The
    last theorems of GrantLedger show that records behind torn bytes are lost, and where the shipped
    node, which never recovers, does not reach that contract.
  \<^item> The channel: both ends of a handshake derive the same keys, sealed packets are delivered once
    in any order the window allows, and the nonces a session seals under are all different.
  \<^item> The node: an invariant over the whole state, kept by every handler and step, from which follow
    the agreement of the slot tables, that bound sessions are certified, that no datagram stops the node unless
    a counter is exhausted, and what a start declares. Serve carries it through the loop.
  \<^item> The composition: in Meeting, a client with proper keys gets through handshake and binding
    on every reachable node with a free slot, room for its envelope and a number that is unused, and its
    next intent acts on the lock map as specified. In Asking, the
    requests the client writes are parsed, routed and answered by the node, and what the client reads back
    is the node's state: its counters, the state of an intent in its lock table, the admission of a whole round.
    In ClientMain that round is run from the command line to the exit code; in Interop the example
    completes, against a peer that follows the protocol, exactly when the peer's slot is 0.

  \<^bold>\<open>Assumptions.\<close> \<open>crypto_laws\<close> (Noise) and \<open>sig_laws\<close> (Meeting) state documented behaviour of X25519, ChaCha20-Poly1305,
  BLAKE2s and Ed25519: sizes, agreement, opening what was sealed, verifying what was signed; none says that
  forging is hard, which no theorem needs. \<open>header_bound\<close> (Interop) states that the AEAD authenticates a header.
  Toy instances satisfy them, so the witnesses are closed.

  \<^bold>\<open>Bounds.\<close> No fuel is used: each loop of the source is a structural recursion, a recursion over a list of
  indices, or a function with a proved measure (the breadth-first search counts unvisited nodes, the sweeps count
  the rest of their table, the worker of the fuzzer the inputs that are left). The loop of the
  node, which need not end, is a function of the inputs of its passes.

  \<^bold>\<open>Not modelled.\<close> The socket and file calls themselves and the signal handler, which sets the flag Serve
  takes as input: what they answer, and what flock (state/ffi.rs) answers, are arguments; module
  declarations (lib.rs, crypto.rs, mod.rs files); what is printed and the messages of the client's steps;
  accessors that return a field; the test for a forced write error of the router; the parsers of JSON and TOML,
  which are packages and arguments of the readers of their values; the expansion of the home directory and the
  parsing of socket addresses; the tests and the shell scripts. Two statistics of
  the evidence ledger (inserts and refused inserts) and one of the relay store (refusals for the quota) are
  unbounded numbers where the code has 64 bits. Constant-time comparison
  is equality: timing is not modelled.
\<close>

end
